(* ===== verification/Prelude.thy ===== *)
theory Prelude
  imports Main "HOL-Library.Word" "HOL-Library.Monad_Syntax"
begin

text \<open>
  Shared vocabulary of the development.

  A Rust function that can panic returns \<open>'a option\<close> in the model: \<open>None\<close> is the
  panic (an index out of bounds, a failed assertion, a subtraction below zero), and
  \<open>Some\<close> carries the value or the new state. The predicate \<open>returns\<close> is total
  correctness for such a computation: it does not panic and its result satisfies a
  postcondition. \<open>for_each\<close> is a \<open>for\<close> loop over a list whose body updates a state and
  may panic.
\<close>

named_theorems returns_rules \<open>total-correctness facts about operations that may panic\<close>

section \<open>Computations that may panic\<close>

definition returns :: "'a option \<Rightarrow> ('a \<Rightarrow> bool) \<Rightarrow> bool" where
  "returns m Q = (case m of None \<Rightarrow> False | Some x \<Rightarrow> Q x)"

lemma returns_Some [simp]: "returns (Some x) Q = Q x"
  by (simp add: returns_def)

lemma returns_None [simp]: "\<not> returns None Q"
  by (simp add: returns_def)

lemma returns_bind [simp]: "returns (Option.bind m f) Q = returns m (\<lambda>x. returns (f x) Q)"
  by (cases m) simp_all

lemma returns_mono: "returns m Q \<Longrightarrow> (\<And>x. Q x \<Longrightarrow> R x) \<Longrightarrow> returns m R"
  by (cases m) simp_all

lemma returns_conj: "returns m Q \<Longrightarrow> returns m R \<Longrightarrow> returns m (\<lambda>x. Q x \<and> R x)"
  by (cases m) simp_all

lemma returns_iff: "returns m Q \<longleftrightarrow> (\<exists>x. m = Some x \<and> Q x)"
  by (cases m) simp_all

lemma returnsE:
  assumes "returns m Q"
  obtains x where "m = Some x" and "Q x"
  using assms by (auto simp: returns_iff)

lemma returns_if: "returns (if b then m else n) Q = (if b then returns m Q else returns n Q)"
  by simp

section \<open>Slices and checked arithmetic\<close>

text \<open>Indexing a slice, writing to it and swapping two of its elements; all panic out of bounds.\<close>

definition idx :: "'a list \<Rightarrow> nat \<Rightarrow> 'a option" where
  "idx xs i = (if i < length xs then Some (xs ! i) else None)"

definition upd :: "'a list \<Rightarrow> nat \<Rightarrow> 'a \<Rightarrow> 'a list option" where
  "upd xs i v = (if i < length xs then Some (xs[i := v]) else None)"

definition swap_at :: "'a list \<Rightarrow> nat \<Rightarrow> nat \<Rightarrow> 'a list option" where
  "swap_at xs i j =
     (if i < length xs \<and> j < length xs then Some (xs[i := xs ! j, j := xs ! i]) else None)"

text \<open>Subtraction of unsigned integers: below zero is a panic.\<close>

definition usub :: "nat \<Rightarrow> nat \<Rightarrow> nat option" where
  "usub a b = (if b \<le> a then Some (a - b) else None)"

text \<open>The remainder of signed integers, which truncates towards zero.\<close>

definition trunc_rem :: "int \<Rightarrow> int \<Rightarrow> int" where
  "trunc_rem a b = (if a < 0 then - (\<bar>a\<bar> mod \<bar>b\<bar>) else a mod \<bar>b\<bar>)"

text \<open>The half-open range \<open>a..b\<close> of signed integers.\<close>

definition irange :: "int \<Rightarrow> int \<Rightarrow> int list" where
  "irange a b = map (\<lambda>k. a + int k) [0..<nat (b - a)]"

text \<open>A \<open>for\<close> loop.\<close>

primrec for_each :: "('x \<Rightarrow> 's \<Rightarrow> 's option) \<Rightarrow> 'x list \<Rightarrow> 's \<Rightarrow> 's option" where
  "for_each f [] s = Some s"
| "for_each f (x # xs) s = do { s' \<leftarrow> f x s; for_each f xs s' }"

lemma idx_Some [simp]: "i < length xs \<Longrightarrow> idx xs i = Some (xs ! i)"
  by (simp add: idx_def)

lemma idx_eq_Some: "idx xs i = Some x \<longleftrightarrow> i < length xs \<and> x = xs ! i"
  by (auto simp: idx_def)

lemma upd_Some [simp]: "i < length xs \<Longrightarrow> upd xs i v = Some (xs[i := v])"
  by (simp add: upd_def)

lemma swap_at_Some [simp]:
  "i < length xs \<Longrightarrow> j < length xs \<Longrightarrow> swap_at xs i j = Some (xs[i := xs ! j, j := xs ! i])"
  by (simp add: swap_at_def)

lemma usub_Some [simp]: "b \<le> a \<Longrightarrow> usub a b = Some (a - b)"
  by (simp add: usub_def)

lemma irange_empty [simp]: "b \<le> a \<Longrightarrow> irange a b = []"
  by (simp add: irange_def)

lemma set_irange [simp]: "set (irange a b) = {a..<b}"
proof -
  have "x \<in> (\<lambda>k. a + int k) ` {0..<nat (b - a)}" if "a \<le> x" "x < b" for x
    using that by (intro image_eqI [of _ _ "nat (x - a)"]) auto
  then show ?thesis
    by (auto simp: irange_def)
qed

lemma length_irange [simp]: "length (irange a b) = nat (b - a)"
  by (simp add: irange_def)

lemma nth_irange [simp]: "k < nat (b - a) \<Longrightarrow> irange a b ! k = a + int k"
  by (simp add: irange_def)

lemma irange_Cons: "a < b \<Longrightarrow> irange a b = a # irange (a + 1) b"
  by (rule nth_equalityI) (auto simp: nth_Cons split: nat.split)

lemma irange_snoc: "a < b \<Longrightarrow> irange a b = irange a (b - 1) @ [b - 1]"
  by (rule nth_equalityI) (auto simp: nth_append)

lemma distinct_irange [simp]: "distinct (irange a b)"
  by (simp add: irange_def distinct_map inj_on_def)

lemma irange_shift: "irange (a + d) (b + d) = map (\<lambda>l. l + d) (irange a b)"
  by (simp add: irange_def)

lemma for_each_map: "for_each f (map h xs) s = for_each (\<lambda>x. f (h x)) xs s"
  by (induction xs arbitrary: s) simp_all

lemma for_each_append: "for_each f (xs @ ys) s = do { s' \<leftarrow> for_each f xs s; for_each f ys s' }"
proof (induction xs arbitrary: s)
  case Nil
  then show ?case by simp
next
  case (Cons x xs)
  then show ?case by (cases "f x s") simp_all
qed

lemma for_each_inv:
  assumes "\<And>x s. x \<in> set xs \<Longrightarrow> I s \<Longrightarrow> returns (f x s) I" and "I s"
  shows "returns (for_each f xs s) I"
  using assms
proof (induction xs arbitrary: s)
  case Nil
  then show ?case by simp
next
  case (Cons x xs)
  have "returns (f x s) I" using Cons.prems by simp
  moreover have "returns (for_each f xs t) I" if "I t" for t
    using Cons that by simp
  ultimately show ?case
    by (simp add: returns_mono)
qed

lemma for_each_keeps:
  "for_each f xs s = Some s' \<Longrightarrow> I s \<Longrightarrow> (\<And>x s s'. f x s = Some s' \<Longrightarrow> I s \<Longrightarrow> I s') \<Longrightarrow> I s'"
  by (induction xs arbitrary: s) (auto simp: bind_eq_Some_conv)

lemma for_each_nth:
  assumes step: "\<And>i s. i < length xs \<Longrightarrow> I i s \<Longrightarrow> returns (f (xs ! i) s) (I (Suc i))"
    and init: "I 0 s"
  shows "returns (for_each f xs s) (I (length xs))"
proof -
  have "returns (for_each f (take n xs) s) (I n)" if "n \<le> length xs" for n
    using that
  proof (induction n)
    case 0
    then show ?case using init by simp
  next
    case (Suc n)
    then have n: "n < length xs" and IH: "returns (for_each f (take n xs) s) (I n)" by simp_all
    have "returns (f (xs ! n) t) (I (Suc n))" if "I n t" for t
      using step n that by simp
    with IH show ?case
      by (simp add: take_Suc_conv_app_nth n for_each_append returns_mono)
  qed
  from this [of "length xs"] show ?thesis by simp
qed

lemma nth_list_update_bool: "q < length u \<Longrightarrow> u[p := True] ! q \<longleftrightarrow> q = p \<or> u ! q"
  by (cases "q = p") simp_all

lemma set_map_filter_Some: "set (List.map_filter f xs) = {y. Some y \<in> f ` set xs}"
  by (induction xs) (auto simp: map_filter_simps image_iff split: option.splits)

lemma length_swap: "swap_at xs i j = Some ys \<Longrightarrow> length ys = length xs"
  by (auto simp: swap_at_def split: if_splits)

end
