(* ===== verification/Extra.thy ===== *)
theory Extra
  imports Prelude
begin

unbundle bit_operations_syntax

text \<open>
  Rarely set cell content kept by each row, \<open>src/terminal/term/extra.rs\<close>: combining
  characters and resize tracking, addressed by an \<open>ExtraId\<close> whose low bits are an entry
  number (zero for none) and whose top bit caches that the entry has combining characters.
\<close>

type_synonym uchar = "32 word"  \<comment> \<open>a Rust \<open>char\<close> as its code point\<close>
type_synonym extra_id = "32 word"

record cell_extra =
  zerowidth :: "uchar list"
  vivid_resize_tracking :: "nat list"

definition empty_extra :: cell_extra where
  "empty_extra = \<lparr>zerowidth = [], vivid_resize_tracking = []\<rparr>"

definition extra_is_empty :: "cell_extra \<Rightarrow> bool" where
  "extra_is_empty e \<longleftrightarrow> zerowidth e = [] \<and> vivid_resize_tracking e = []"

section \<open>Ids\<close>

definition extra_none :: extra_id where
  "extra_none = 0"

definition HAS_ZEROWIDTH :: "32 word" where
  "HAS_ZEROWIDTH = push_bit 31 1"

text \<open>\<open>ExtraId::new\<close> panics when the entry number does not fit below the flag bit.\<close>

definition extra_id_new :: "nat \<Rightarrow> cell_extra \<Rightarrow> extra_id option" where
  "extra_id_new position extra =
     (if position + 1 < unat HAS_ZEROWIDTH
      then Some (of_nat (position + 1) OR (if zerowidth extra = [] then 0 else HAS_ZEROWIDTH))
      else None)"

definition extra_position :: "extra_id \<Rightarrow> nat option" where
  "extra_position i =
     (let n = unat (i AND NOT HAS_ZEROWIDTH) in if n = 0 then None else Some (n - 1))"

definition has_zerowidth :: "extra_id \<Rightarrow> bool" where
  "has_zerowidth i \<longleftrightarrow> i AND HAS_ZEROWIDTH \<noteq> 0"

definition PACKED_NUMBER_BITS :: nat where
  "PACKED_NUMBER_BITS = 13"

definition EXTRA_PACKED_BITS :: nat where
  "EXTRA_PACKED_BITS = PACKED_NUMBER_BITS + 1"

definition PACKED_CAPACITY :: nat where
  "PACKED_CAPACITY = 2 ^ PACKED_NUMBER_BITS - 1"

definition extra_packed :: "extra_id \<Rightarrow> 64 word option" where
  "extra_packed i =
     (let number = i AND NOT HAS_ZEROWIDTH in
      if number < push_bit PACKED_NUMBER_BITS 1
      then Some (ucast number OR push_bit PACKED_NUMBER_BITS (of_bool (has_zerowidth i)))
      else None)"

definition extra_from_packed :: "64 word \<Rightarrow> extra_id" where
  "extra_from_packed bits =
     (let number = ucast (bits AND mask PACKED_NUMBER_BITS);
          zw = drop_bit PACKED_NUMBER_BITS bits AND 1 \<noteq> 0
      in number OR (if zw then HAS_ZEROWIDTH else 0))"

section \<open>The entries of one row\<close>

type_synonym row_extras = "cell_extra list"

text \<open>\<open>RowExtras::get\<close>: the outer option is the panic on an id of another row.\<close>

definition extras_get :: "row_extras \<Rightarrow> extra_id \<Rightarrow> cell_extra option option" where
  "extras_get es i =
     (case extra_position i of None \<Rightarrow> Some None | Some p \<Rightarrow> map_option Some (idx es p))"

definition extras_zerowidth :: "row_extras \<Rightarrow> extra_id \<Rightarrow> uchar list option option" where
  "extras_zerowidth es i =
     (if has_zerowidth i then map_option (map_option zerowidth) (extras_get es i) else Some None)"

definition extras_push :: "row_extras \<Rightarrow> cell_extra \<Rightarrow> (row_extras \<times> extra_id) option" where
  "extras_push es extra =
     (if extra_is_empty extra then Some (es, extra_none)
      else do { i \<leftarrow> extra_id_new (length es) extra; Some (es @ [extra], i) })"

definition extras_update ::
  "row_extras \<Rightarrow> extra_id \<Rightarrow> (cell_extra \<Rightarrow> cell_extra) \<Rightarrow> (row_extras \<times> extra_id) option" where
  "extras_update es i update =
     do { old \<leftarrow> extras_get es i;
          extras_push es (update (case old of None \<Rightarrow> empty_extra | Some e \<Rightarrow> e)) }"

text \<open>\<open>RowExtras::compact\<close>: mark the used entries, then move them to the front one by one.\<close>

definition mark_used :: "extra_id list \<Rightarrow> bool list \<Rightarrow> bool list option" where
  "mark_used ids used = for_each (\<lambda>p u. upd u p True) (List.map_filter extra_position ids) used"

definition compact_step ::
  "nat \<times> bool \<Rightarrow> row_extras \<times> extra_id list \<times> nat \<Rightarrow> (row_extras \<times> extra_id list \<times> nat) option"
  where
  "compact_step = (\<lambda>(p, used) (entries, remap, kept).
     if used
     then do { entries' \<leftarrow> swap_at entries kept p;
               e \<leftarrow> idx entries' kept;
               i \<leftarrow> extra_id_new kept e;
               remap' \<leftarrow> upd remap p i;
               Some (entries', remap', kept + 1) }
     else Some (entries, remap, kept))"

definition extras_compact ::
  "row_extras \<Rightarrow> extra_id list \<Rightarrow> (row_extras \<times> extra_id list) option" where
  "extras_compact es ids =
     do { used \<leftarrow> mark_used ids (replicate (length es) False);
          (entries, remap, kept) \<leftarrow>
            for_each compact_step (enumerate 0 used) (es, replicate (length es) extra_none, 0);
          Some (take kept entries, remap) }"

definition extras_remapped :: "extra_id list \<Rightarrow> extra_id \<Rightarrow> extra_id option" where
  "extras_remapped remap i =
     (case extra_position i of None \<Rightarrow> Some extra_none | Some p \<Rightarrow> idx remap p)"

definition extras_export ::
  "row_extras \<Rightarrow> extra_id \<Rightarrow> cell_extra list \<Rightarrow> (row_extras \<times> extra_id \<times> cell_extra list) option" where
  "extras_export es i gathered =
     (case extra_position i of
        None \<Rightarrow> Some (es, extra_none, gathered)
      | Some p \<Rightarrow>
          do { extra \<leftarrow> idx es p;
               es' \<leftarrow> upd es p empty_extra;
               g \<leftarrow> extra_id_new (length gathered) extra;
               Some (es', g, gathered @ [extra]) })"

definition extras_import ::
  "row_extras \<Rightarrow> extra_id \<Rightarrow> cell_extra list \<Rightarrow> (row_extras \<times> extra_id \<times> cell_extra list) option" where
  "extras_import es i gathered =
     (case extra_position i of
        None \<Rightarrow> Some (es, extra_none, gathered)
      | Some p \<Rightarrow>
          do { extra \<leftarrow> idx gathered p;
               gathered' \<leftarrow> upd gathered p empty_extra;
               (es', i') \<leftarrow> extras_push es extra;
               Some (es', i', gathered') })"

section \<open>Facts about ids\<close>

lemma bit_push_one: "bit (push_bit k 1 :: 'a::len word) n \<longleftrightarrow> n = k \<and> k < LENGTH('a)"
  unfolding bit_push_bit_iff bit_1_iff by auto

lemma bit_beyond: "LENGTH('a) \<le> n \<Longrightarrow> \<not> bit (w :: 'a::len word) n"
  by (auto dest: bit_imp_le_length)

lemma bit_HAS_ZEROWIDTH [simp]: "bit HAS_ZEROWIDTH n \<longleftrightarrow> n = 31"
  unfolding HAS_ZEROWIDTH_def bit_push_bit_iff bit_1_iff by auto

lemma unat_HAS_ZEROWIDTH: "unat HAS_ZEROWIDTH = 2 ^ 31"
  by (simp add: HAS_ZEROWIDTH_def)

lemma not_bit_of_nat: "n < 2 ^ k \<Longrightarrow> k \<le> j \<Longrightarrow> \<not> bit n j"
  for n :: nat
proof -
  assume n: "n < 2 ^ k" and "k \<le> j"
  then have "(2::nat) ^ k \<le> 2 ^ j"
    by (intro power_increasing) simp_all
  with n have "n < 2 ^ j" by (rule less_le_trans)
  then show ?thesis by (simp add: bit_iff_odd)
qed

lemma id_number [simp]:
  assumes "n < 2 ^ 31"
  shows "(of_nat n OR (if b then 0 else HAS_ZEROWIDTH)) AND NOT HAS_ZEROWIDTH = (of_nat n :: 32 word)"
  using assms
  by (intro bit_word_eqI) (auto simp: bit_simps not_bit_of_nat [of n 31 31])

lemma id_flag [simp]:
  assumes "n < 2 ^ 31"
  shows "has_zerowidth (of_nat n OR (if b then 0 else HAS_ZEROWIDTH)) \<longleftrightarrow> \<not> b"
proof -
  have "(of_nat n OR (if b then 0 else HAS_ZEROWIDTH)) AND HAS_ZEROWIDTH
      = (if b then 0 else HAS_ZEROWIDTH)"
    using assms by (intro bit_word_eqI) (auto simp: bit_simps not_bit_of_nat [of n 31 31])
  moreover have "HAS_ZEROWIDTH \<noteq> 0"
    by (metis bit_0_eq bit_HAS_ZEROWIDTH bot_apply bot_bool_def)
  ultimately show ?thesis
    by (simp add: has_zerowidth_def)
qed

lemma extra_id_new_Some:
  "position + 1 < 2 ^ 31 \<Longrightarrow>
   extra_id_new position extra
     = Some (of_nat (position + 1) OR (if zerowidth extra = [] then 0 else HAS_ZEROWIDTH))"
  by (simp add: extra_id_new_def unat_HAS_ZEROWIDTH)

lemma extra_id_new_position:
  assumes "extra_id_new p e = Some i"
  shows "extra_position i = Some p" and "has_zerowidth i \<longleftrightarrow> zerowidth e \<noteq> []"
proof -
  from assms have p: "p + 1 < 2 ^ 31"
    and i: "i = of_nat (p + 1) OR (if zerowidth e = [] then 0 else HAS_ZEROWIDTH)"
    by (auto simp: extra_id_new_def unat_HAS_ZEROWIDTH split: if_splits)
  have "unat (of_nat (p + 1) :: 32 word) = p + 1"
    using p by (simp add: unat_of_nat del: of_nat_add of_nat_Suc)
  then show "extra_position i = Some p"
    using id_number [OF p] by (simp only: i extra_position_def Let_def) simp
  show "has_zerowidth i \<longleftrightarrow> zerowidth e \<noteq> []"
    using id_flag [OF p] by (simp only: i)
qed

lemma extra_position_none [simp]: "extra_position extra_none = None"
  by (simp add: extra_position_def extra_none_def)


lemma not_bit_of_less:
  fixes w :: "'a::len word"
  assumes "w < push_bit k 1" "k < LENGTH('a)" "k \<le> j"
  shows "\<not> bit w j"
proof -
  have "unat w < unat (push_bit k 1 :: 'a word)"
    using assms(1) by (simp only: word_less_nat_alt)
  also have "unat (push_bit k 1 :: 'a word) = 2 ^ k"
  proof -
    have "push_bit k 1 = (of_nat (2 ^ k) :: 'a word)"
      by (simp add: push_bit_eq_mult)
    moreover have "(2::nat) ^ k < 2 ^ LENGTH('a)"
      using assms(2) by simp
    ultimately show ?thesis
      by (simp only: unat_of_nat mod_less)
  qed
  finally have "\<not> bit (unat w) j"
    using assms(3) not_bit_of_nat by blast
  then show ?thesis
    by (auto simp: bit_unsigned_iff)
qed

lemma flag_bit: "drop_bit n w AND 1 \<noteq> 0 \<longleftrightarrow> bit w n" for w :: "'a::len word"
  by (simp add: bit_iff_odd_drop_bit and_one_eq odd_iff_mod_2_eq_one)

lemma has_zerowidth_bit: "has_zerowidth i \<longleftrightarrow> bit i 31"
proof -
  have "i AND HAS_ZEROWIDTH \<noteq> 0 \<longleftrightarrow> (\<exists>n. bit (i AND HAS_ZEROWIDTH) n)"
    by (metis bit_0_eq bit_eqI bot_apply bot_bool_def)
  then show ?thesis
    by (auto simp: has_zerowidth_def bit_and_iff)
qed

lemma bit_extra_from_packed:
  "bit (extra_from_packed b) n \<longleftrightarrow> n < 13 \<and> bit b n \<or> n = 31 \<and> bit b 13"
  unfolding extra_from_packed_def Let_def PACKED_NUMBER_BITS_def flag_bit
  by (auto simp: bit_simps)

lemma extra_packed_roundtrip:
  assumes "extra_packed i = Some b"
  shows "extra_from_packed b = i"
proof -
  from assms have small: "i AND NOT HAS_ZEROWIDTH < push_bit 13 1"
    and b: "b = ucast (i AND NOT HAS_ZEROWIDTH) OR push_bit 13 (of_bool (has_zerowidth i))"
    by (auto simp: extra_packed_def Let_def PACKED_NUMBER_BITS_def split: if_splits)
  have high: "\<not> bit (i AND NOT HAS_ZEROWIDTH) j" if "13 \<le> j" for j
    using not_bit_of_less [OF small _ that] by simp
  show ?thesis
  proof (rule bit_word_eqI)
    fix n assume n: "n < LENGTH(32)"
    show "bit (extra_from_packed b) n = bit i n"
      using n high [of n] high [of 13]
      by (cases "n < 13") (auto simp: bit_extra_from_packed b bit_simps has_zerowidth_bit)
  qed
qed

lemma extra_packed_bits:
  assumes "extra_packed i = Some b"
  shows "b < push_bit EXTRA_PACKED_BITS 1"
proof -
  from assms have small: "i AND NOT HAS_ZEROWIDTH < push_bit 13 1"
    and b: "b = ucast (i AND NOT HAS_ZEROWIDTH) OR push_bit 13 (of_bool (has_zerowidth i))"
    by (auto simp: extra_packed_def Let_def PACKED_NUMBER_BITS_def split: if_splits)
  have high: "\<not> bit (i AND NOT HAS_ZEROWIDTH) j" if "13 \<le> j" for j
    using not_bit_of_less [OF small _ that] by simp
  have "b = b AND mask 14"
  proof (rule bit_word_eqI)
    fix n assume "n < LENGTH(64)"
    then show "bit b n = bit (b AND mask 14) n"
      using high [of n] by (cases "n < 14") (auto simp: b bit_simps)
  qed
  then have "b \<le> mask 14"
    by (metis word_and_le1)
  also have "mask 14 < (push_bit 14 1 :: 64 word)"
    by (simp add: mask_eq_exp_minus_1)
  finally show ?thesis
    by (simp add: EXTRA_PACKED_BITS_def PACKED_NUMBER_BITS_def)
qed

lemma extra_packed_ok: "unat (i AND NOT HAS_ZEROWIDTH) \<le> PACKED_CAPACITY \<Longrightarrow> extra_packed i \<noteq> None"
  by (simp add: extra_packed_def Let_def PACKED_CAPACITY_def PACKED_NUMBER_BITS_def
      word_less_nat_alt)


section \<open>Compaction\<close>

text \<open>An id is valid in a row when it is \<open>NONE\<close>, or numbers an entry whose flag it caches.\<close>

definition extra_id_ok :: "row_extras \<Rightarrow> extra_id \<Rightarrow> bool" where
  "extra_id_ok es i \<longleftrightarrow>
     (case extra_position i of
        None \<Rightarrow> i = extra_none
      | Some p \<Rightarrow> p < length es \<and> (has_zerowidth i \<longleftrightarrow> zerowidth (es ! p) \<noteq> []))"

lemma extra_id_ok_none [simp]: "extra_id_ok es extra_none"
  by (simp add: extra_id_ok_def)

lemma extra_id_new_ok:
  "extra_id_new p e = Some i \<Longrightarrow> p < length es \<Longrightarrow> es ! p = e \<Longrightarrow> extra_id_ok es i"
  using extra_id_new_position [of p e i] by (simp add: extra_id_ok_def)

lemma extra_id_ok_append: "extra_id_ok es i \<Longrightarrow> extra_id_ok (es @ fs) i"
  by (auto simp: extra_id_ok_def nth_append split: option.splits)

lemma extras_get_ok: "extra_id_ok es i \<Longrightarrow> extras_get es i \<noteq> None"
  by (auto simp: extra_id_ok_def extras_get_def split: option.splits)

lemma extras_push_ok:
  assumes "extras_push es e = Some (es', i)"
  shows "extra_id_ok es' i" and "\<exists>fs. es' = es @ fs"
    and "extras_get es' i = Some (if extra_is_empty e then None else Some e)"
proof (atomize (full), cases "extra_is_empty e")
  case True
  then show "extra_id_ok es' i \<and> (\<exists>fs. es' = es @ fs) \<and>
      extras_get es' i = Some (if extra_is_empty e then None else Some e)"
    using assms by (simp add: extras_push_def extras_get_def)
next
  case False
  with assms have "es' = es @ [e]" "extra_id_new (length es) e = Some i"
    by (auto simp: extras_push_def split: bind_splits)
  then show "extra_id_ok es' i \<and> (\<exists>fs. es' = es @ fs) \<and>
      extras_get es' i = Some (if extra_is_empty e then None else Some e)"
    using False extra_id_new_position [of "length es" e i]
    by (auto simp: extras_get_def extra_id_ok_def)
qed

lemma mark_used_spec:
  assumes "\<And>i p. i \<in> set ids \<Longrightarrow> extra_position i = Some p \<Longrightarrow> p < length u"
  shows "returns (mark_used ids u) (\<lambda>u'. length u' = length u \<and>
           (\<forall>p < length u. u' ! p \<longleftrightarrow> u ! p \<or> Some p \<in> extra_position ` set ids))"
  using assms
proof (induction ids arbitrary: u)
  case Nil
  then show ?case by (simp add: mark_used_def)
next
  case (Cons i ids)
  show ?case
  proof (cases "extra_position i")
    case None
    moreover have "returns (mark_used ids u) (\<lambda>u'. length u' = length u \<and>
        (\<forall>p < length u. u' ! p \<longleftrightarrow> u ! p \<or> Some p \<in> extra_position ` set ids))"
      by (rule Cons.IH) (use Cons.prems in auto)
    ultimately show ?thesis
      by (simp add: mark_used_def map_filter_simps)
  next
    case (Some p)
    then have p: "p < length u" by (rule Cons.prems [rotated]) simp
    have "returns (mark_used ids (u[p := True])) (\<lambda>u'. length u' = length u \<and>
        (\<forall>q < length u. u' ! q \<longleftrightarrow> u[p := True] ! q \<or> Some q \<in> extra_position ` set ids))"
      using Cons.IH [of "u[p := True]"] Cons.prems by auto
    then have "returns (mark_used ids (u[p := True])) (\<lambda>u'. length u' = length u \<and>
        (\<forall>q < length u. u' ! q \<longleftrightarrow> u ! q \<or> Some q \<in> extra_position ` set (i # ids)))"
      by (rule returns_mono) (use Some p in \<open>auto simp: nth_list_update_bool\<close>)
    then show ?thesis
      using Some p by (simp add: mark_used_def map_filter_simps)
  qed
qed

text \<open>The loop invariant of \<open>compact\<close> after \<open>p\<close> positions.\<close>

definition compact_inv ::
  "row_extras \<Rightarrow> bool list \<Rightarrow> nat \<Rightarrow> row_extras \<times> extra_id list \<times> nat \<Rightarrow> bool" where
  "compact_inv es used p = (\<lambda>(entries, remap, kept).
     length entries = length es \<and> length remap = length es \<and>
     kept = length (filter id (take p used)) \<and>
     (\<forall>j. p \<le> j \<longrightarrow> j < length es \<longrightarrow> entries ! j = es ! j) \<and>
     (\<forall>j < p. used ! j \<longrightarrow> (\<exists>k < kept. entries ! k = es ! j \<and>
        extra_id_new k (es ! j) = Some (remap ! j))))"

lemma length_filter_take: "length (filter P (take p xs)) \<le> p"
  using length_filter_le [of P "take p xs"] by simp

lemma compact_step_inv:
  assumes p: "p < length es" and used: "length used = length es" and small: "length es < 2 ^ 31"
    and inv: "compact_inv es used p s"
  shows "returns (compact_step (p, used ! p) s) (compact_inv es used (Suc p))"
proof -
  obtain entries remap kept where s: "s = (entries, remap, kept)" by (cases s)
  have kept: "kept \<le> p"
    using inv s length_filter_take by (auto simp: compact_inv_def)
  show ?thesis
  proof (cases "used ! p")
    case False
    then show ?thesis
      using inv p used
      by (auto simp: s compact_step_def compact_inv_def take_Suc_conv_app_nth less_Suc_eq)
  next
    case True
    let ?entries = "entries[kept := entries ! p, p := entries ! kept]"
    have len: "length entries = length es" "length remap = length es"
      using inv by (auto simp: s compact_inv_def)
    have at_kept: "?entries ! kept = es ! p"
      using inv p kept len by (auto simp: s compact_inv_def nth_list_update)
    obtain i where i: "extra_id_new kept (es ! p) = Some i"
      using kept p small by (simp add: extra_id_new_Some)
    have step: "compact_step (p, used ! p) s = Some (?entries, remap[p := i], kept + 1)"
      using True kept p len at_kept i by (simp add: s compact_step_def)
    have below: "?entries ! k = entries ! k" if "k < kept" for k
      using that kept by simp
    have "compact_inv es used (Suc p) (?entries, remap[p := i], kept + 1)"
      unfolding compact_inv_def prod.case
    proof (intro conjI allI impI)
      show "kept + 1 = length (filter id (take (Suc p) used))"
        using inv True p used by (simp add: s compact_inv_def take_Suc_conv_app_nth)
    next
      fix j assume "Suc p \<le> j" "j < length es"
      then show "?entries ! j = es ! j"
        using inv kept by (simp add: s compact_inv_def)
    next
      fix j assume "j < Suc p" "used ! j"
      then consider "j = p" | "j < p" by linarith
      then show "\<exists>k < kept + 1. ?entries ! k = es ! j \<and>
          extra_id_new k (es ! j) = Some (remap[p := i] ! j)"
      proof cases
        case 1
        then show ?thesis
          using at_kept i p len by (intro exI [of _ kept]) simp
      next
        case 2
        then obtain k where "k < kept" "entries ! k = es ! j"
          "extra_id_new k (es ! j) = Some (remap ! j)"
          using inv \<open>used ! j\<close> by (auto simp: s compact_inv_def)
        then show ?thesis
          using below 2 by (intro exI [of _ k]) simp
      qed
    qed (use len in simp_all)
    then show ?thesis
      by (simp add: step)
  qed
qed

lemma extras_compact_spec:
  assumes small: "length es < 2 ^ 31" and ids: "\<forall>i \<in> set ids. extra_id_ok es i"
  shows "returns (extras_compact es ids) (\<lambda>(es', remap).
     length es' \<le> length (remdups (List.map_filter extra_position ids)) \<and>
     (\<forall>i \<in> set ids. returns (extras_remapped remap i)
        (\<lambda>i'. extra_id_ok es' i' \<and> extras_get es' i' = extras_get es i)))"
proof -
  have pos: "i \<in> set ids \<Longrightarrow> extra_position i = Some p \<Longrightarrow> p < length es" for i p
    using ids by (auto simp: extra_id_ok_def split: option.splits)
  then obtain used where u: "mark_used ids (replicate (length es) False) = Some used"
    and len: "length used = length es"
    and used: "\<And>p. p < length es \<Longrightarrow> used ! p \<longleftrightarrow> Some p \<in> extra_position ` set ids"
    using mark_used_spec [of ids "replicate (length es) False"] by (auto simp: returns_iff)
  let ?s = "(es, replicate (length es) extra_none, 0)"
  have "returns (for_each compact_step (enumerate 0 used) ?s) (compact_inv es used (length es))"
    using for_each_nth [of "enumerate 0 used" "compact_inv es used" compact_step ?s]
      compact_step_inv [OF _ len small]
    by (simp add: len nth_enumerate_eq compact_inv_def)
  then obtain entries remap kept where
    loop: "for_each compact_step (enumerate 0 used) ?s = Some (entries, remap, kept)"
    and inv: "compact_inv es used (length es) (entries, remap, kept)"
    by (auto simp: returns_iff)
  have result: "extras_compact es ids = Some (take kept entries, remap)"
    by (simp add: extras_compact_def u loop)
  have "kept = length (filter id used)"
    using inv len by (simp add: compact_inv_def)
  also have "\<dots> = card {p. p < length used \<and> used ! p}"
    by (simp add: length_filter_conv_card)
  also have "{p. p < length used \<and> used ! p} = set (List.map_filter extra_position ids)"
  proof -
    have "p < length used \<and> used ! p \<longleftrightarrow> Some p \<in> extra_position ` set ids" for p
    proof (cases "p < length es")
      case True
      then show ?thesis using used len by simp
    next
      case False
      then have "Some p \<notin> extra_position ` set ids" using pos by (metis image_iff)
      then show ?thesis using False len by simp
    qed
    then show ?thesis by (simp add: set_map_filter_Some)
  qed
  also have "card \<dots> = length (remdups (List.map_filter extra_position ids))"
    by (simp add: length_remdups_card_conv)
  finally have kept: "kept = length (remdups (List.map_filter extra_position ids))" .
  have "returns (extras_remapped remap i) (\<lambda>i'. extra_id_ok (take kept entries) i' \<and>
      extras_get (take kept entries) i' = extras_get es i)" if i: "i \<in> set ids" for i
  proof (cases "extra_position i")
    case None
    then show ?thesis by (simp add: extras_remapped_def extras_get_def)
  next
    case (Some p)
    then have p: "p < length es" and "used ! p"
      using pos used i by (auto intro: image_eqI [of _ _ i])
    then obtain k where k: "k < kept" "entries ! k = es ! p"
      and new: "extra_id_new k (es ! p) = Some (remap ! p)"
      using inv by (auto simp: compact_inv_def)
    have "kept \<le> length entries"
      using inv length_filter_take [of id "length es" used] by (simp add: compact_inv_def)
    moreover have "length remap = length es"
      using inv by (simp add: compact_inv_def)
    ultimately show ?thesis
      using Some p k new extra_id_new_ok [OF new, of "take kept entries"] extra_id_new_position [OF new]
      by (simp add: extras_remapped_def extras_get_def)
  qed
  then show ?thesis
    by (simp add: result kept)
qed

text \<open>Compaction keeps what every id in use refers to and at most one entry per id.\<close>

theorem compact_extras_correct:
  assumes "length es < 2 ^ 31" "\<forall>i \<in> set ids. extra_id_ok es i"
  shows "returns (extras_compact es ids) (\<lambda>(es', remap).
     length es' \<le> length (remdups (List.map_filter extra_position ids)) \<and>
     (\<forall>i \<in> set ids. returns (extras_remapped remap i)
        (\<lambda>i'. extra_id_ok es' i' \<and> extras_get es' i' = extras_get es i)))"
  by (rule extras_compact_spec [OF assms])

theorem compact_extras_correct_witness:
  "let e = \<lparr>zerowidth = [0x301], vivid_resize_tracking = []\<rparr> in
     returns (extras_compact [empty_extra, e] [2 OR HAS_ZEROWIDTH]) (\<lambda>(es', remap).
       length es' \<le> 1 \<and> returns (extras_remapped remap (2 OR HAS_ZEROWIDTH))
          (\<lambda>i'. extra_id_ok es' i' \<and> extras_get es' i' = Some (Some e)))"
proof -
  define e where "e = \<lparr>zerowidth = [0x301], vivid_resize_tracking = []\<rparr>"
  have i: "extra_position (2 OR HAS_ZEROWIDTH) = Some 1" "has_zerowidth (2 OR HAS_ZEROWIDTH)"
    by code_simp+
  have "extra_id_ok [empty_extra, e] (2 OR HAS_ZEROWIDTH)"
    by (simp add: extra_id_ok_def i e_def)
  moreover have "extras_get [empty_extra, e] (2 OR HAS_ZEROWIDTH) = Some (Some e)"
    by (simp add: extras_get_def i idx_def)
  moreover have "length (remdups (List.map_filter extra_position [2 OR HAS_ZEROWIDTH])) = 1"
    by (simp add: map_filter_simps i)
  ultimately show ?thesis
    using compact_extras_correct [of "[empty_extra, e]" "[2 OR HAS_ZEROWIDTH]"]
    by (simp add: Let_def flip: e_def)
qed

end
