(* ===== verification/Style.thy ===== *)
theory Style
  imports Extra "HOL-Library.AList"
begin

text \<open>
  Cell styles and the table cells refer to them through, \<open>src/terminal/term/style.rs\<close>, with
  the \<open>Flags\<close> of \<open>src/terminal/term/cell.rs\<close>.

  \<open>Color\<close> and \<open>NamedColor\<close> come from the \<open>vvte\<close> crate; a named color is modelled by its
  discriminant, whose values for the default foreground and background are the ones the index
  table of \<open>src/terminal/term/color.rs\<close> documents. \<open>HashMap\<close>s are association lists. The
  comparison of two hyperlinks by address, \<open>Arc::ptr_eq\<close>, depends on the heap: it is the
  parameter \<open>same\<close>, of which only \<open>same a b \<longrightarrow> a = b\<close> is used.
\<close>

section \<open>Flags\<close>

type_synonym flags = "16 word"

definition INVERSE :: flags where "INVERSE = push_bit 0 1"
definition BOLD :: flags where "BOLD = push_bit 1 1"
definition ITALIC :: flags where "ITALIC = push_bit 2 1"
definition UNDERLINE :: flags where "UNDERLINE = push_bit 3 1"
definition WRAPLINE :: flags where "WRAPLINE = push_bit 4 1"
definition WIDE_CHAR :: flags where "WIDE_CHAR = push_bit 5 1"
definition WIDE_CHAR_SPACER :: flags where "WIDE_CHAR_SPACER = push_bit 6 1"
definition DIM :: flags where "DIM = push_bit 7 1"
definition HIDDEN :: flags where "HIDDEN = push_bit 8 1"
definition STRIKEOUT :: flags where "STRIKEOUT = push_bit 9 1"
definition LEADING_WIDE_CHAR_SPACER :: flags where "LEADING_WIDE_CHAR_SPACER = push_bit 10 1"
definition DOUBLE_UNDERLINE :: flags where "DOUBLE_UNDERLINE = push_bit 11 1"
definition UNDERCURL :: flags where "UNDERCURL = push_bit 12 1"
definition DOTTED_UNDERLINE :: flags where "DOTTED_UNDERLINE = push_bit 13 1"
definition DASHED_UNDERLINE :: flags where "DASHED_UNDERLINE = push_bit 14 1"

definition ALL_UNDERLINES :: flags where
  "ALL_UNDERLINES = UNDERLINE OR DOUBLE_UNDERLINE OR UNDERCURL OR DOTTED_UNDERLINE OR DASHED_UNDERLINE"

definition LAYOUT :: flags where
  "LAYOUT = WRAPLINE OR WIDE_CHAR OR WIDE_CHAR_SPACER OR LEADING_WIDE_CHAR_SPACER"

text \<open>\<open>contains\<close> and \<open>intersects\<close> of \<open>bitflags\<close>.\<close>

definition contains :: "flags \<Rightarrow> flags \<Rightarrow> bool" where
  "contains f g \<longleftrightarrow> f AND g = g"

definition intersects :: "flags \<Rightarrow> flags \<Rightarrow> bool" where
  "intersects f g \<longleftrightarrow> f AND g \<noteq> 0"

section \<open>Styles\<close>

datatype color = Named "16 word" | Spec "8 word" "8 word" "8 word" | Indexed "8 word"

definition NAMED_FOREGROUND :: "16 word" where "NAMED_FOREGROUND = 256"
definition NAMED_BACKGROUND :: "16 word" where "NAMED_BACKGROUND = 257"

record hyperlink =
  hl_id :: string
  hl_uri :: string

record style =
  fg :: color
  bg :: color
  attrs :: flags
  underline_color :: "color option"
  hyperlink :: "hyperlink option"

definition default_style :: style where
  "default_style = \<lparr>fg = Named NAMED_FOREGROUND, bg = Named NAMED_BACKGROUND, attrs = 0,
     underline_color = None, hyperlink = None\<rparr>"

definition style_shows_on_blank :: "style \<Rightarrow> bool" where
  "style_shows_on_blank s \<longleftrightarrow>
     bg s \<noteq> Named NAMED_BACKGROUND \<or> fg s \<noteq> Named NAMED_FOREGROUND \<or>
     intersects (attrs s) (INVERSE OR ALL_UNDERLINES OR STRIKEOUT)"

fun color_key :: "color \<Rightarrow> 32 word" where
  "color_key (Named n) = 0x01000000 OR ucast n"
| "color_key (Spec r g b) =
     0x02000000 OR push_bit 16 (ucast r) OR push_bit 8 (ucast g) OR ucast b"
| "color_key (Indexed i) = 0x03000000 OR ucast i"

record style_key =
  sk_fg :: "32 word"
  sk_bg :: "32 word"
  sk_attrs :: "16 word"
  sk_underline :: "32 word"
  sk_link :: "32 word"

definition key :: "style \<Rightarrow> 32 word \<Rightarrow> style_key" where
  "key s link = \<lparr>sk_fg = color_key (fg s), sk_bg = color_key (bg s), sk_attrs = attrs s,
     sk_underline = (case underline_color s of None \<Rightarrow> 0 | Some c \<Rightarrow> color_key c),
     sk_link = link\<rparr>"

definition CACHE_BITS :: nat where "CACHE_BITS = 12"

definition slot :: "style_key \<Rightarrow> nat" where
  "slot k =
     (let mixed = sk_fg k * 0x9E3779B1 XOR sk_bg k * 0x85EBCA77 XOR ucast (sk_attrs k) * 0xC2B2AE3D
        XOR sk_underline k * 0x27D4EB2F XOR sk_link k * 0x165667B1
      in unat (drop_bit (32 - CACHE_BITS) mixed))"

section \<open>Style ids\<close>

type_synonym style_id = "32 word"

definition SHOWS_ON_BLANK :: "32 word" where "SHOWS_ON_BLANK = push_bit 31 1"
definition PACKED_INDEX_BITS :: nat where "PACKED_INDEX_BITS = 24"
definition STYLE_PACKED_BITS :: nat where "STYLE_PACKED_BITS = PACKED_INDEX_BITS + 1"
definition CAPACITY :: nat where "CAPACITY = 2 ^ PACKED_INDEX_BITS"

definition style_id_new :: "nat \<Rightarrow> style \<Rightarrow> style_id option" where
  "style_id_new index s =
     (if index < CAPACITY
      then Some (of_nat index OR (if style_shows_on_blank s then SHOWS_ON_BLANK else 0))
      else None)"

definition style_index :: "style_id \<Rightarrow> nat" where
  "style_index i = unat (i AND NOT SHOWS_ON_BLANK)"

definition shows_on_blank :: "style_id \<Rightarrow> bool" where
  "shows_on_blank i \<longleftrightarrow> i AND SHOWS_ON_BLANK \<noteq> 0"

definition style_packed :: "style_id \<Rightarrow> 64 word" where
  "style_packed i =
     of_nat (style_index i) OR push_bit PACKED_INDEX_BITS (of_bool (shows_on_blank i))"

definition style_from_packed :: "64 word \<Rightarrow> style_id" where
  "style_from_packed bits =
     (let index = ucast (bits AND mask PACKED_INDEX_BITS);
          blank = drop_bit PACKED_INDEX_BITS bits AND 1 \<noteq> 0
      in index OR (if blank then SHOWS_ON_BLANK else 0))"

section \<open>The style table\<close>

definition SWEEP_FLOOR :: nat where "SWEEP_FLOOR = 4096"

record style_table =
  styles :: "style list"
  ids :: "(style_key \<times> style_id) list"
  cache :: "(style_key \<times> style_id) list"
  links :: "(hyperlink \<times> 32 word) list"
  last_link :: "(hyperlink \<times> 32 word) option"
  live :: nat

definition empty_cache :: "(style_key \<times> style_id) list" where
  "empty_cache = replicate (2 ^ CACHE_BITS) (key default_style 0, 0)"

definition default_table :: style_table where
  "default_table = \<lparr>styles = [default_style], ids = [(key default_style 0, 0)],
     cache = empty_cache, links = [], last_link = None, live = 1\<rparr>"

definition style_get :: "style_table \<Rightarrow> style_id \<Rightarrow> style option" where
  "style_get t i = idx (styles t) (style_index i)"

text \<open>The hyperlink numbered last is recognised by address, without hashing its URI.\<close>

definition last_link_hit ::
  "(hyperlink \<Rightarrow> hyperlink \<Rightarrow> bool) \<Rightarrow> style_table \<Rightarrow> hyperlink \<Rightarrow> 32 word option" where
  "last_link_hit same t link =
     (case last_link t of
        Some (l, number) \<Rightarrow> if same l link then Some number else None
      | None \<Rightarrow> None)"

definition link_number ::
  "(hyperlink \<Rightarrow> hyperlink \<Rightarrow> bool) \<Rightarrow> style_table \<Rightarrow> hyperlink option \<Rightarrow> 32 word \<times> style_table" where
  "link_number same t link =
     (case link of None \<Rightarrow> (0, t)
      | Some link \<Rightarrow>
        (case last_link_hit same t link of
           Some number \<Rightarrow> (number, t)
         | None \<Rightarrow> (let next = (if length (links t) + 1 < 2 ^ 32
                           then of_nat (length (links t) + 1) else - 1)
               in case map_of (links t) link of
                    Some number \<Rightarrow> (number, t\<lparr>last_link := Some (link, number)\<rparr>)
                  | None \<Rightarrow>
                     (next, t\<lparr>links := links t @ [(link, next)], last_link := Some (link, next)\<rparr>))))"

definition lookup_or_insert :: "style_table \<Rightarrow> style_key \<Rightarrow> style \<Rightarrow> (style_id \<times> style_table) option" where
  "lookup_or_insert t k s =
     (case map_of (ids t) k of
        Some i \<Rightarrow> Some (i, t)
      | None \<Rightarrow>
         (let index = length (styles t) in
          if index \<ge> CAPACITY then Some (0, t)
          else do { i \<leftarrow> style_id_new index s;
                    Some (i, t\<lparr>styles := styles t @ [s], ids := AList.update k i (ids t)\<rparr>) }))"

definition intern ::
  "(hyperlink \<Rightarrow> hyperlink \<Rightarrow> bool) \<Rightarrow> style_table \<Rightarrow> style \<Rightarrow> (style_id \<times> style_table) option" where
  "intern same t s =
     (if intersects (attrs s) LAYOUT then None
      else (let (link, t1) = link_number same t (hyperlink s); k = key s link in
        do { (cached, i) \<leftarrow> idx (cache t1) (slot k);
             if cached = k then Some (i, t1)
             else do { (i, t2) \<leftarrow> lookup_or_insert t1 k s;
                       c \<leftarrow> upd (cache t2) (slot k) (k, i);
                       Some (i, t2\<lparr>cache := c\<rparr>) } }))"

definition needs_sweep :: "style_table \<Rightarrow> nat \<Rightarrow> bool" where
  "needs_sweep t cells \<longleftrightarrow>
     length (styles t) > max (max SWEEP_FLOOR (live t * 2)) (cells div 4)"

definition marks :: "style_table \<Rightarrow> bool list option" where
  "marks t = upd (replicate (length (styles t)) False) 0 True"

definition mark :: "bool list \<Rightarrow> style_id \<Rightarrow> bool list option" where
  "mark used i = upd used (style_index i) True"

text \<open>\<open>compact\<close>: the loop over the old styles, the rebuilding of \<open>ids\<close>, then the new table.\<close>

definition compact_styles_step ::
  "style \<times> bool \<Rightarrow> style_id list \<times> style list \<Rightarrow> (style_id list \<times> style list) option" where
  "compact_styles_step = (\<lambda>(s, used) (remap, kept).
     if used then do { i \<leftarrow> style_id_new (length kept) s; Some (remap @ [i], kept @ [s]) }
     else Some (remap @ [0], kept))"

definition reindex_step ::
  "(hyperlink \<Rightarrow> hyperlink \<Rightarrow> bool) \<Rightarrow> nat \<times> style \<Rightarrow> style_table \<Rightarrow> style_table option" where
  "reindex_step same = (\<lambda>(index, s) t.
     let (link, t1) = link_number same t (hyperlink s) in
     do { i \<leftarrow> style_id_new index s;
          Some (t1\<lparr>ids := AList.update (key s link) i (ids t1)\<rparr>) })"

definition compact ::
  "(hyperlink \<Rightarrow> hyperlink \<Rightarrow> bool) \<Rightarrow> style_table \<Rightarrow> bool list \<Rightarrow> (style_id list \<times> style_table) option" where
  "compact same t used =
     do { (remap, kept) \<leftarrow> for_each compact_styles_step (zip (styles t) used) ([], []);
          t1 \<leftarrow> for_each (reindex_step same) (enumerate 0 kept)
                 (t\<lparr>styles := [], links := [], last_link := None, ids := []\<rparr>);
          Some (remap, t1\<lparr>cache := empty_cache, live := length kept, styles := kept\<rparr>) }"

definition remap_get :: "style_id list \<Rightarrow> style_id \<Rightarrow> style_id option" where
  "remap_get remap i = idx remap (style_index i)"

section \<open>Keys and ids are injective\<close>

definition color_decode :: "32 word \<Rightarrow> color" where
  "color_decode w =
     (if bit w 25
      then (if bit w 24 then Indexed (ucast w)
            else Spec (ucast (drop_bit 16 w)) (ucast (drop_bit 8 w)) (ucast w))
      else Named (ucast w))"

lemma bit_tags:
  "bit (0x01000000 :: 32 word) n \<longleftrightarrow> n = 24"
  "bit (0x02000000 :: 32 word) n \<longleftrightarrow> n = 25"
  "bit (0x03000000 :: 32 word) n \<longleftrightarrow> n = 24 \<or> n = 25"
proof -
  have "(0x01000000 :: 32 word) = push_bit 24 1" "(0x02000000 :: 32 word) = push_bit 25 1"
    "(0x03000000 :: 32 word) = push_bit 24 1 OR push_bit 25 1"
    by simp_all
  then show "bit (0x01000000 :: 32 word) n \<longleftrightarrow> n = 24"
    "bit (0x02000000 :: 32 word) n \<longleftrightarrow> n = 25"
    "bit (0x03000000 :: 32 word) n \<longleftrightarrow> n = 24 \<or> n = 25"
    by (simp_all only: bit_or_iff bit_push_one) auto
qed

lemma bit_color_key:
  "bit (color_key (Named m)) n \<longleftrightarrow> n = 24 \<or> bit m n"
  "bit (color_key (Spec r g b)) n \<longleftrightarrow>
     n = 25 \<or> 16 \<le> n \<and> bit r (n - 16) \<or> 8 \<le> n \<and> bit g (n - 8) \<or> bit b n"
  "bit (color_key (Indexed i)) n \<longleftrightarrow> n = 24 \<or> n = 25 \<or> bit i n"
  unfolding color_key.simps bit_or_iff bit_tags bit_push_bit_iff bit_unsigned_iff
  by (auto dest: bit_imp_le_length)

lemma color_decode_key [simp]: "color_decode (color_key c) = c"
proof (cases c)
  case (Named m)
  then show ?thesis
    by (auto simp: color_decode_def bit_color_key simp del: color_key.simps dest: bit_imp_le_length
        intro!: bit_word_eqI simp: bit_unsigned_iff)
next
  case (Spec r g b)
  then show ?thesis
    by (auto simp: color_decode_def bit_color_key simp del: color_key.simps dest: bit_imp_le_length
        intro!: bit_word_eqI simp: bit_unsigned_iff bit_drop_bit_eq bit_beyond)
next
  case (Indexed i)
  then show ?thesis
    by (auto simp: color_decode_def bit_color_key simp del: color_key.simps dest: bit_imp_le_length
        intro!: bit_word_eqI simp: bit_unsigned_iff)
qed

lemma color_key_nonzero [simp]: "color_key c \<noteq> 0"
proof
  assume "color_key c = 0"
  then have "\<not> bit (color_key c) 24" "\<not> bit (color_key c) 25" by simp_all
  then show False by (cases c) (auto simp: bit_color_key simp del: color_key.simps)
qed

lemma color_key_inj: "color_key c = color_key d \<longleftrightarrow> c = d"
  by (metis color_decode_key)

lemma SHOWS_ON_BLANK_eq: "SHOWS_ON_BLANK = HAS_ZEROWIDTH"
  by (simp add: SHOWS_ON_BLANK_def HAS_ZEROWIDTH_def)

lemma style_id_new_props:
  assumes "style_id_new n s = Some i"
  shows "style_index i = n" and "shows_on_blank i \<longleftrightarrow> style_shows_on_blank s" and "n < CAPACITY"
proof -
  from assms have n: "n < 2 ^ 24"
    and i: "i = of_nat n OR (if \<not> style_shows_on_blank s then 0 else HAS_ZEROWIDTH)"
    by (auto simp: style_id_new_def CAPACITY_def PACKED_INDEX_BITS_def SHOWS_ON_BLANK_eq split: if_splits)
  then have n': "n < 2 ^ 31" by simp
  show "style_index i = n"
    using id_number [OF n'] n by (simp only: i style_index_def SHOWS_ON_BLANK_eq) (simp add: unat_of_nat)
  show "shows_on_blank i \<longleftrightarrow> style_shows_on_blank s"
    using id_flag [OF n', of "\<not> style_shows_on_blank s"]
    by (simp only: i shows_on_blank_def SHOWS_ON_BLANK_eq has_zerowidth_def) simp
  show "n < CAPACITY"
    using n by (simp add: CAPACITY_def PACKED_INDEX_BITS_def)
qed

lemma style_id_new_Some: "n < CAPACITY \<Longrightarrow> \<exists>i. style_id_new n s = Some i"
  by (simp add: style_id_new_def)

lemma shows_on_blank_bit: "shows_on_blank i \<longleftrightarrow> bit i 31"
  using has_zerowidth_bit by (simp add: shows_on_blank_def SHOWS_ON_BLANK_eq has_zerowidth_def)

lemma bit_style_from_packed:
  "bit (style_from_packed b) n \<longleftrightarrow> n < 24 \<and> bit b n \<or> n = 31 \<and> bit b 24"
  unfolding style_from_packed_def Let_def PACKED_INDEX_BITS_def flag_bit SHOWS_ON_BLANK_eq
  by (auto simp: bit_simps)

lemma bit_style_packed:
  "bit (style_packed i) n \<longleftrightarrow> n < 31 \<and> bit i n \<or> n = 24 \<and> bit i 31"
proof -
  have "of_nat (style_index i) = (ucast (i AND NOT SHOWS_ON_BLANK) :: 64 word)"
    by (simp add: style_index_def)
  then show ?thesis
    unfolding style_packed_def PACKED_INDEX_BITS_def shows_on_blank_bit SHOWS_ON_BLANK_eq
    by (auto simp: bit_simps dest: bit_imp_le_length)
qed

lemma style_id_high:
  assumes "style_index i < CAPACITY" "24 \<le> j" "j < 31"
  shows "\<not> bit i j"
proof -
  have "\<not> bit (style_index i) j"
    using assms by (intro not_bit_of_nat [of _ 24]) (simp_all add: CAPACITY_def PACKED_INDEX_BITS_def)
  then show ?thesis
    using assms by (simp add: style_index_def SHOWS_ON_BLANK_eq bit_simps)
qed

lemma style_packed_roundtrip:
  assumes "style_index i < CAPACITY"
  shows "style_from_packed (style_packed i) = i"
proof (rule bit_word_eqI)
  fix n assume n: "n < LENGTH(32)"
  note high = style_id_high [OF assms]
  show "bit (style_from_packed (style_packed i)) n = bit i n"
    using n high [of n] high [of 24]
    by (cases "n < 24"; cases "n = 31") (auto simp: bit_style_from_packed bit_style_packed)
qed

section \<open>The invariant of the table\<close>

definition links_ok :: "(hyperlink \<times> 32 word) list \<Rightarrow> bool" where
  "links_ok ls \<longleftrightarrow> distinct (map fst ls) \<and> length ls < 2 ^ 32 \<and>
     map snd ls = map (\<lambda>n. of_nat (n + 1)) [0..<length ls]"

definition link_of :: "style_table \<Rightarrow> style \<Rightarrow> 32 word option" where
  "link_of t s = (case hyperlink s of None \<Rightarrow> Some 0 | Some l \<Rightarrow> map_of (links t) l)"

definition key_in :: "style_table \<Rightarrow> style \<Rightarrow> style_key option" where
  "key_in t s = map_option (key s) (link_of t s)"

text \<open>
  The links and the ids agree with a list of styles: every style has a key, the key finds the
  style's id, and nothing else is found.
\<close>

definition index_ok :: "style list \<Rightarrow> style_table \<Rightarrow> bool" where
  "index_ok ss t \<longleftrightarrow> links_ok (links t) \<and>
     (\<forall>l n. last_link t = Some (l, n) \<longrightarrow> map_of (links t) l = Some n) \<and>
     (\<forall>n < length ss. \<exists>k. key_in t (ss ! n) = Some k \<and> map_of (ids t) k = style_id_new n (ss ! n)) \<and>
     (\<forall>k i. map_of (ids t) k = Some i \<longrightarrow>
        (\<exists>n < length ss. key_in t (ss ! n) = Some k \<and> style_id_new n (ss ! n) = Some i))"

definition cache_ok :: "style_table \<Rightarrow> bool" where
  "cache_ok t \<longleftrightarrow> length (cache t) = 2 ^ CACHE_BITS \<and>
     (\<forall>(k, i) \<in> set (cache t). map_of (ids t) k = Some i \<or> length (styles t) = CAPACITY \<and> i = 0)"

definition table_ok :: "style_table \<Rightarrow> bool" where
  "table_ok t \<longleftrightarrow> index_ok (styles t) t \<and> cache_ok t \<and> length (styles t) \<le> CAPACITY \<and>
     styles t \<noteq> [] \<and> styles t ! 0 = default_style"

lemma links_ok_number:
  assumes "links_ok ls" "map_of ls l = Some n"
  obtains j where "j < length ls" and "fst (ls ! j) = l" and "n = of_nat (j + 1)"
proof -
  from assms(2) obtain j where j: "j < length ls" "ls ! j = (l, n)"
    by (metis in_set_conv_nth map_of_SomeD)
  then have "n = map snd ls ! j" by simp
  also have "map snd ls = map (\<lambda>n. of_nat (n + 1)) [0..<length ls]"
    using assms(1) by (simp only: links_ok_def)
  also have "\<dots> ! j = of_nat (j + 1)"
    using j(1) by (simp del: of_nat_add of_nat_Suc)
  finally have "n = of_nat (j + 1)" .
  with j show ?thesis by (intro that [of j]) simp_all
qed

lemma links_ok_inj:
  assumes "links_ok ls" "map_of ls l = Some n" "map_of ls m = Some n"
  shows "l = m" and "n \<noteq> 0"
proof -
  obtain i where i: "i < length ls" "fst (ls ! i) = l" "n = of_nat (i + 1)"
    using links_ok_number [OF assms(1,2)] .
  obtain j where j: "j < length ls" "fst (ls ! j) = m" "n = of_nat (j + 1)"
    using links_ok_number [OF assms(1,3)] .
  have small: "i + 1 < 2 ^ LENGTH(32)" "j + 1 < 2 ^ LENGTH(32)"
    using assms(1) i(1) j(1) by (simp_all add: links_ok_def)
  have "unat (of_nat (i + 1) :: 32 word) = i + 1" "unat (of_nat (j + 1) :: 32 word) = j + 1"
    using small by (simp_all only: unat_of_nat mod_less)
  then show "l = m" "n \<noteq> 0"
    using i j by (metis add_right_cancel) (metis i(3) add_is_0 unat_0 zero_neq_one \<open>unat (of_nat (i + 1)) = i + 1\<close>)
qed

lemma links_ok_nonzero: "links_ok ls \<Longrightarrow> map_of ls l \<noteq> Some 0"
  using links_ok_inj(2) by blast

lemma key_in_inj:
  assumes "links_ok (links t)" "key_in t s = Some k" "key_in t s' = Some k"
  shows "s = s'"
proof -
  from assms(2,3) obtain n n' where n: "link_of t s = Some n" "k = key s n"
    and n': "link_of t s' = Some n'" "k = key s' n'"
    by (auto simp: key_in_def)
  then have eq: "key s n = key s' n'" by simp
  then have "n = n'" by (simp add: key_def)
  then have "hyperlink s = hyperlink s'"
    using n(1) n'(1) links_ok_inj(1) [OF assms(1)] links_ok_nonzero [OF assms(1)]
    by (cases "hyperlink s"; cases "hyperlink s'") (auto simp: link_of_def)
  moreover have "underline_color s = underline_color s'"
    using eq color_key_nonzero
    by (auto simp: key_def color_key_inj split: option.splits)
  ultimately show ?thesis
    using eq by (intro style.equality) (simp_all add: key_def color_key_inj)
qed

lemma last_link_hit_sound:
  assumes "\<And>a b. same a b \<Longrightarrow> a = b" "index_ok ss t" "last_link_hit same t l = Some n"
  shows "map_of (links t) l = Some n"
  using assms by (auto simp: last_link_hit_def index_ok_def split: option.splits prod.splits if_splits)

lemma links_ok_snoc:
  assumes "links_ok ls" "map_of ls l = None" "length ls + 1 < 2 ^ 32"
  shows "links_ok (ls @ [(l, of_nat (length ls + 1))])"
  using assms by (auto simp: links_ok_def map_of_eq_None_iff)

lemma index_ok_mono:
  assumes "index_ok ss t" "links_ok (links t')" "ids t' = ids t"
    and "\<forall>l n. last_link t' = Some (l, n) \<longrightarrow> map_of (links t') l = Some n"
    and "\<And>x k. key_in t x = Some k \<Longrightarrow> key_in t' x = Some k"
  shows "index_ok ss t'"
  unfolding index_ok_def
proof (intro conjI)
  show "\<forall>n < length ss. \<exists>k. key_in t' (ss ! n) = Some k \<and> map_of (ids t') k = style_id_new n (ss ! n)"
    using assms(1,3,5) unfolding index_ok_def by metis
  show "\<forall>k i. map_of (ids t') k = Some i \<longrightarrow>
      (\<exists>n < length ss. key_in t' (ss ! n) = Some k \<and> style_id_new n (ss ! n) = Some i)"
    using assms(1,3,5) unfolding index_ok_def by metis
qed (use assms in auto)

lemma link_number_spec:
  assumes same: "\<And>a b. same a b \<Longrightarrow> a = b" and ok: "index_ok ss t"
    and room: "length (links t) + 1 < 2 ^ 32"
    and eq: "link_number same t (hyperlink s) = (n, t')"
  shows "index_ok ss t'" and "link_of t' s = Some n"
    and "styles t' = styles t" and "ids t' = ids t" and "cache t' = cache t"
    and "length (links t') \<le> length (links t) + 1"
    and "\<And>x k. key_in t x = Some k \<Longrightarrow> key_in t' x = Some k"
proof -
  have "index_ok ss t' \<and> link_of t' s = Some n \<and> styles t' = styles t \<and> ids t' = ids t \<and>
      cache t' = cache t \<and> length (links t') \<le> length (links t) + 1 \<and>
      (\<forall>x k. key_in t x = Some k \<longrightarrow> key_in t' x = Some k)"
  proof (cases "hyperlink s")
    case None
    then show ?thesis using eq ok by (auto simp: link_number_def link_of_def)
  next
    case (Some l)
    show ?thesis
    proof (cases "map_of (links t) l")
      case None
      then have nohit: "last_link_hit same t l = None"
        using last_link_hit_sound [OF same ok] by (cases "last_link_hit same t l") auto
      let ?n = "of_nat (length (links t) + 1) :: 32 word"
      have t': "n = ?n" "t' = t\<lparr>links := links t @ [(l, ?n)], last_link := Some (l, ?n)\<rparr>"
        using eq None Some nohit unfolding link_number_def Let_def option.case if_P [OF room]
        by auto
      have grow: "key_in t x = Some k \<Longrightarrow> key_in t' x = Some k" for x k
        by (auto simp: t'(2) key_in_def link_of_def map_of_append map_add_Some_iff
            split: option.splits)
      have new: "map_of (links t @ [(l, ?n)]) l = Some ?n"
        using None by (simp add: map_add_Some_iff)
      have "index_ok ss t'"
      proof -
        have "links_ok (links t')"
          using ok links_ok_snoc [OF _ None room] by (simp add: t'(2) index_ok_def del: of_nat_add)
        moreover have "\<forall>m n. last_link t' = Some (m, n) \<longrightarrow> map_of (links t') m = Some n"
          using new by (simp add: t'(2) del: of_nat_add)
        ultimately show ?thesis
          using ok grow by (intro index_ok_mono [OF ok]) (simp_all add: t'(2))
      qed
      then show ?thesis
        using grow new Some by (simp add: t' link_of_def del: of_nat_add)
    next
      case (Some m)
      then have t': "n = m" "t' = t \<or> t' = t\<lparr>last_link := Some (l, m)\<rparr>"
        using eq \<open>hyperlink s = Some l\<close> last_link_hit_sound [OF same ok, where l = l]
        by (auto simp: link_number_def Let_def split: option.splits)
      have "key_in t' = key_in t"
        using t'(2) by (auto simp: key_in_def link_of_def fun_eq_iff split: option.splits)
      then show ?thesis
        using t' ok Some \<open>hyperlink s = Some l\<close> by (auto simp: index_ok_def link_of_def)
    qed
  qed
  then show "index_ok ss t'" and "link_of t' s = Some n"
    and "styles t' = styles t" and "ids t' = ids t" and "cache t' = cache t"
    and "length (links t') \<le> length (links t) + 1"
    and "\<And>x k. key_in t x = Some k \<Longrightarrow> key_in t' x = Some k"
    by blast+
qed


section \<open>Interning\<close>

text \<open>What a cache entry or an index entry found under a style's key stands for.\<close>

lemma ids_sound:
  assumes "index_ok ss t" "key_in t s = Some k" "map_of (ids t) k = Some i"
  obtains n where "n < length ss" and "ss ! n = s" and "style_id_new n s = Some i"
proof -
  from assms(1,3) obtain n where n: "n < length ss" "key_in t (ss ! n) = Some k"
    "style_id_new n (ss ! n) = Some i"
    unfolding index_ok_def by blast
  moreover have "ss ! n = s"
    using key_in_inj [OF _ n(2) assms(2)] assms(1) by (simp add: index_ok_def)
  ultimately show ?thesis using that by blast
qed

lemma map_of_AList_update:
  "map_of (AList.update k v al) k' = (if k' = k then Some v else map_of al k')"
  by (simp add: update_conv)

lemma index_ok_insert:
  assumes ok: "index_ok ss t" and k: "key_in t s = Some k" and new: "map_of (ids t) k = None"
    and i: "style_id_new (length ss) s = Some i"
  shows "index_ok (ss @ [s]) (t\<lparr>styles := st, ids := AList.update k i (ids t)\<rparr>)"
    (is "index_ok _ ?t")
proof -
  have [simp]: "key_in ?t = key_in t"
    by (simp add: key_in_def link_of_def fun_eq_iff split: option.split)
  have old: "\<exists>k'. key_in t (ss ! n) = Some k' \<and> k' \<noteq> k \<and>
      map_of (ids t) k' = style_id_new n (ss ! n)" if n: "n < length ss" for n
  proof -
    from ok n obtain k' where k': "key_in t (ss ! n) = Some k'"
      "map_of (ids t) k' = style_id_new n (ss ! n)"
      unfolding index_ok_def by blast
    have "n < CAPACITY" using style_id_new_props(3) [OF i] n by simp
    then have "map_of (ids t) k' \<noteq> None" using k'(2) style_id_new_Some by force
    with k' new show ?thesis by auto
  qed
  show ?thesis unfolding index_ok_def
  proof (intro conjI allI impI)
    fix n assume "n < length (ss @ [s])"
    then show "\<exists>k'. key_in ?t ((ss @ [s]) ! n) = Some k' \<and>
        map_of (ids ?t) k' = style_id_new n ((ss @ [s]) ! n)"
    proof (cases "n < length ss")
      case True
      obtain k' where "key_in t (ss ! n) = Some k'" "k' \<noteq> k" "map_of (ids t) k' = style_id_new n (ss ! n)"
        using old [OF True] by blast
      then show ?thesis using True by (simp add: map_of_AList_update nth_append)
    next
      case False
      then have "n = length ss" using \<open>n < length (ss @ [s])\<close> by simp
      then show ?thesis using k i by (simp add: map_of_AList_update)
    qed
  next
    fix k' j assume j: "map_of (ids ?t) k' = Some j"
    have "ids ?t = AList.update k i (ids t)" by simp
    with j have "(if k' = k then Some i else map_of (ids t) k') = Some j"
      by (simp only: map_of_AList_update)
    then consider "k' = k" "j = i" | "map_of (ids t) k' = Some j"
      by (cases "k' = k") auto
    then show "\<exists>n < length (ss @ [s]). key_in ?t ((ss @ [s]) ! n) = Some k' \<and>
        style_id_new n ((ss @ [s]) ! n) = Some j"
    proof cases
      case 1
      then show ?thesis using k i by (intro exI [of _ "length ss"]) simp
    next
      case 2
      then obtain n where "n < length ss" "key_in t (ss ! n) = Some k'"
        "style_id_new n (ss ! n) = Some j"
        using ok unfolding index_ok_def by blast
      then show ?thesis by (intro exI [of _ n]) (simp add: nth_append)
    qed
  qed (use ok in \<open>auto simp: index_ok_def\<close>)
qed

text \<open>
  The id \<open>intern\<close> answers with: it resolves to the style and to the style's blank flag, or the
  table is full and it is the default id.
\<close>

definition interned :: "style_table \<Rightarrow> style \<Rightarrow> style_id \<Rightarrow> bool" where
  "interned t s i \<longleftrightarrow>
     style_get t i = Some s \<and> (shows_on_blank i \<longleftrightarrow> style_shows_on_blank s) \<or>
     length (styles t) = CAPACITY \<and> i = 0"

lemma interned_id:
  assumes "n < length (styles t)" "styles t ! n = s" "style_id_new n s = Some i"
  shows "interned t s i"
  using style_id_new_props [OF assms(3)] assms
  by (simp add: interned_def style_get_def)

lemma slot_bound: "slot k < 2 ^ CACHE_BITS"
proof -
  have "unat (drop_bit 20 w) < 2 ^ 12" for w :: "32 word"
  proof -
    have "unat w < 2 ^ 12 * 2 ^ 20"
      using unsigned_less [of w] by simp
    then show ?thesis
      by (simp only: unat_drop_bit_eq) (simp only: drop_bit_eq_div less_mult_imp_div_less)
  qed
  moreover have e: "32 - CACHE_BITS = 20"
    by (simp add: CACHE_BITS_def)
  ultimately show ?thesis
    unfolding slot_def Let_def e by (simp only: CACHE_BITS_def)
qed

lemma lookup_or_insert_spec:
  assumes ok: "index_ok (styles t) t" and c: "cache_ok t" and full: "length (styles t) \<le> CAPACITY"
    and k: "key_in t s = Some k"
  shows "returns (lookup_or_insert t k s) (\<lambda>(i, t').
    index_ok (styles t') t' \<and> cache_ok t' \<and> length (styles t') \<le> CAPACITY \<and> interned t' s i \<and>
    (\<exists>new. styles t' = styles t @ new) \<and> links t' = links t \<and>
    (map_of (ids t') k = Some i \<or> length (styles t') = CAPACITY \<and> i = 0))"
proof (cases "map_of (ids t) k")
  case (Some i)
  obtain n where "n < length (styles t)" "styles t ! n = s" "style_id_new n s = Some i"
    using ids_sound [OF ok k Some] .
  then show ?thesis
    using interned_id ok c full Some by (simp add: lookup_or_insert_def)
next
  case None
  show ?thesis
  proof (cases "CAPACITY \<le> length (styles t)")
    case True
    then show ?thesis
      using None ok c full by (simp add: lookup_or_insert_def interned_def)
  next
    case False
    then obtain i where i: "style_id_new (length (styles t)) s = Some i"
      using style_id_new_Some [of "length (styles t)" s] by auto
    let ?t = "t\<lparr>styles := styles t @ [s], ids := AList.update k i (ids t)\<rparr>"
    have "cache_ok ?t"
      using c None False by (auto simp: cache_ok_def map_of_AList_update split: prod.splits)
    moreover have "interned ?t s i"
      by (rule interned_id [of "length (styles t)"]) (simp_all add: i)
    moreover have "index_ok (styles ?t) ?t"
      using index_ok_insert [OF ok k None i] by simp
    ultimately show ?thesis
      using None False i by (simp add: lookup_or_insert_def map_of_AList_update)
  qed
qed

lemma intern_ok:
  assumes same: "\<And>a b. same a b \<Longrightarrow> a = b" and ok: "table_ok t"
    and attrs: "\<not> intersects (attrs s) LAYOUT" and room: "length (links t) + 1 < 2 ^ 32"
  shows "returns (intern same t s) (\<lambda>(i, t').
    table_ok t' \<and> interned t' s i \<and> (\<exists>new. styles t' = styles t @ new))"
proof -
  obtain link t1 where eq: "link_number same t (hyperlink s) = (link, t1)" by fastforce
  have index: "index_ok (styles t) t" and c: "cache_ok t" and full: "length (styles t) \<le> CAPACITY"
    and first: "styles t \<noteq> []" "styles t ! 0 = default_style"
    using ok by (auto simp: table_ok_def)
  note ln = link_number_spec [OF same index room eq]
  define k where "k = key s link"
  have k: "key_in t1 s = Some k"
    using ln(2) by (simp add: key_in_def k_def)
  have c1: "cache_ok t1"
    using c ln(3-5) by (simp add: cache_ok_def)
  have len: "length (cache t1) = 2 ^ CACHE_BITS"
    using c1 by (simp add: cache_ok_def)
  obtain cached j where hit: "idx (cache t1) (slot k) = Some (cached, j)" "(cached, j) \<in> set (cache t1)"
    using slot_bound [of k] len by (metis idx_Some nth_mem surj_pair)
  have eq_intern: "intern same t s = (if cached = k then Some (j, t1)
      else do { (i, t2) \<leftarrow> lookup_or_insert t1 k s;
                c \<leftarrow> upd (cache t2) (slot k) (k, i);
                Some (i, t2\<lparr>cache := c\<rparr>) })"
    using attrs hit(1) by (simp add: intern_def eq k_def Let_def)
  show ?thesis
  proof (cases "cached = k")
    case True
    then have "map_of (ids t1) k = Some j \<or> length (styles t1) = CAPACITY \<and> j = 0"
      using c1 hit(2) by (auto simp: cache_ok_def)
    moreover have "interned t1 s j" if "map_of (ids t1) k = Some j"
      using ids_sound [OF ln(1) k that] interned_id ln(3) by metis
    ultimately have "interned t1 s j"
      by (auto simp: interned_def)
    then show ?thesis
      using True ln c1 full first by (simp add: eq_intern table_ok_def)
  next
    case False
    have "returns (lookup_or_insert t1 k s) (\<lambda>(i, t').
        index_ok (styles t') t' \<and> cache_ok t' \<and> length (styles t') \<le> CAPACITY \<and> interned t' s i \<and>
        (\<exists>new. styles t' = styles t1 @ new) \<and> links t' = links t1 \<and>
        (map_of (ids t') k = Some i \<or> length (styles t') = CAPACITY \<and> i = 0))"
      using lookup_or_insert_spec [OF _ c1 _ k] ln(1,3) full by simp
    then obtain i t2 where t2: "lookup_or_insert t1 k s = Some (i, t2)"
      "index_ok (styles t2) t2" "cache_ok t2" "length (styles t2) \<le> CAPACITY" "interned t2 s i"
      "\<exists>new. styles t2 = styles t1 @ new"
      "map_of (ids t2) k = Some i \<or> length (styles t2) = CAPACITY \<and> i = 0"
      by (auto simp: returns_iff)
    define c' where "c' = (cache t2)[slot k := (k, i)]"
    have c': "upd (cache t2) (slot k) (k, i) = Some c'"
      using slot_bound [of k] t2(3) by (simp add: cache_ok_def c'_def)
    have "cache_ok (t2\<lparr>cache := c'\<rparr>)"
      using t2(3,7) set_update_subset_insert [of "cache t2" "slot k" "(k, i)"]
      by (auto simp: cache_ok_def c'_def)
    moreover have "index_ok (styles t2) (t2\<lparr>cache := c'\<rparr>)"
      using t2(2) by (rule index_ok_mono)
        (use t2(2) in \<open>auto simp: index_ok_def key_in_def link_of_def split: option.splits\<close>)
    ultimately show ?thesis
      using False t2 c' ln(3) first
      by (auto simp: eq_intern table_ok_def interned_def style_get_def nth_append)
  qed
qed


lemma table_ok_default: "table_ok default_table"
proof -
  have i: "style_id_new 0 default_style = Some 0"
    by (simp add: style_id_new_def default_style_def style_shows_on_blank_def CAPACITY_def
        NAMED_FOREGROUND_def NAMED_BACKGROUND_def intersects_def)
  show ?thesis
    using i by (auto simp: table_ok_def default_table_def index_ok_def cache_ok_def links_ok_def
        empty_cache_def key_in_def link_of_def default_style_def CAPACITY_def split: prod.splits if_splits)
qed

section \<open>Compaction\<close>

lemma styles_distinct:
  assumes "index_ok ss t" "length ss \<le> CAPACITY"
  shows "distinct ss"
  unfolding distinct_conv_nth
proof (intro allI impI notI)
  fix i j assume ij: "i < length ss" "j < length ss" "i \<noteq> j" "ss ! i = ss ! j"
  have "style_id_new i (ss ! i) = style_id_new j (ss ! i)"
    using assms(1) ij unfolding index_ok_def by (metis option.inject)
  moreover obtain k where "style_id_new i (ss ! i) = Some k"
    using style_id_new_Some [of i "ss ! i"] ij assms(2) by auto
  ultimately show False
    using style_id_new_props(1) [of i _ k] style_id_new_props(1) [of j _ k] ij by metis
qed

definition kept_styles :: "style list \<Rightarrow> bool list \<Rightarrow> style list" where
  "kept_styles ss used = map fst (filter snd (zip ss used))"

lemma kept_styles_snoc:
  "n < length ss \<Longrightarrow> n < length used \<Longrightarrow>
   kept_styles (take (Suc n) ss) (take (Suc n) used) =
   kept_styles (take n ss) (take n used) @ (if used ! n then [ss ! n] else [])"
  by (simp add: kept_styles_def take_Suc_conv_app_nth)

lemma kept_styles_le: "length (kept_styles ss used) \<le> length ss"
  by (simp add: kept_styles_def) (metis length_filter_le length_zip min.boundedE)

lemma compact_styles_loop:
  assumes len: "length used = length ss" and cap: "length ss \<le> CAPACITY"
  shows "returns (for_each compact_styles_step (zip ss used) ([], [])) (\<lambda>(remap, kept).
    length remap = length ss \<and> kept = kept_styles ss used \<and>
    (\<forall>j < length ss. used ! j \<longrightarrow> idx kept (style_index (remap ! j)) = Some (ss ! j) \<and>
       (shows_on_blank (remap ! j) \<longleftrightarrow> style_shows_on_blank (ss ! j))))"
    (is "returns _ ?Q")
proof -
  define I where "I = (\<lambda>n (remap, kept). length remap = n \<and>
    kept = kept_styles (take n ss) (take n used) \<and>
    (\<forall>j < n. used ! j \<longrightarrow> idx kept (style_index (remap ! j)) = Some (ss ! j) \<and>
       (shows_on_blank (remap ! j) \<longleftrightarrow> style_shows_on_blank (ss ! j))))"
  have "returns (for_each compact_styles_step (zip ss used) ([], [])) (I (length (zip ss used)))"
  proof (rule for_each_nth)
    show "I 0 ([], [])" by (simp add: I_def kept_styles_def)
  next
    fix n and st :: "style_id list \<times> style list"
    assume n: "n < length (zip ss used)" and I: "I n st"
    obtain remap kept where st: "st = (remap, kept)" by fastforce
    have n': "n < length ss" "n < length used" using n by simp_all
    note snoc = kept_styles_snoc [OF n']
    show "returns (compact_styles_step (zip ss used ! n) st) (I (Suc n))"
    proof (cases "used ! n")
      case False
      then show ?thesis
        using I n' snoc by (auto simp: st I_def compact_styles_step_def nth_append less_Suc_eq)
    next
      case True
      have "length kept \<le> n"
        using I kept_styles_le [of "take n ss" "take n used"] by (simp add: st I_def)
      then obtain i where i: "style_id_new (length kept) (ss ! n) = Some i"
        using style_id_new_Some [of "length kept" "ss ! n"] n' cap by auto
      show ?thesis
        using I True n' snoc i style_id_new_props [OF i]
        by (auto simp: st I_def compact_styles_step_def nth_append less_Suc_eq idx_eq_Some)
    qed
  qed
  moreover have "I (length (zip ss used)) st \<Longrightarrow> ?Q st" for st
    using len by (auto simp: I_def)
  ultimately show ?thesis by (rule returns_mono)
qed

lemma reindex_loop:
  assumes same: "\<And>a b. same a b \<Longrightarrow> a = b" and d: "distinct kept" and cap: "length kept \<le> CAPACITY"
    and t: "links t = []" "last_link t = None" "ids t = []"
  shows "returns (for_each (reindex_step same) (enumerate 0 kept) t) (\<lambda>t'. index_ok kept t')"
proof -
  define I where "I = (\<lambda>n t'. index_ok (take n kept) t' \<and> length (links t') \<le> n)"
  have "returns (for_each (reindex_step same) (enumerate 0 kept) t) (I (length (enumerate 0 kept)))"
  proof (rule for_each_nth)
    show "I 0 t" by (simp add: I_def index_ok_def links_ok_def t)
  next
    fix n t' assume n: "n < length (enumerate 0 kept)" and I: "I n t'"
    let ?s = "kept ! n"
    have nn: "n < length kept" "n < CAPACITY" using n cap by simp_all
    then have item: "enumerate 0 kept ! n = (n, ?s)" by (simp add: nth_enumerate_eq)
    obtain l t1 where eq: "link_number same t' (hyperlink ?s) = (l, t1)" by fastforce
    have ok: "index_ok (take n kept) t'" and len: "length (links t') \<le> n"
      using I by (simp_all add: I_def)
    then have room: "length (links t') + 1 < 2 ^ 32"
      using nn by (simp add: CAPACITY_def PACKED_INDEX_BITS_def)
    note ln = link_number_spec [OF same ok room eq]
    have k: "key_in t1 ?s = Some (key ?s l)"
      using ln(2) by (simp add: key_in_def)
    have new: "map_of (ids t1) (key ?s l) = None"
    proof (cases "map_of (ids t1) (key ?s l)")
      case (Some i)
      then obtain m where "m < length (take n kept)" "take n kept ! m = ?s"
        using ids_sound [OF ln(1) k] by metis
      then have False using d nn by (simp add: nth_eq_iff_index_eq)
      then show ?thesis ..
    qed simp
    obtain i where i: "style_id_new n ?s = Some i"
      using style_id_new_Some nn(2) by blast
    have "index_ok (take n kept @ [?s]) (t1\<lparr>styles := styles t1, ids := AList.update (key ?s l) i (ids t1)\<rparr>)"
    proof (rule index_ok_insert [OF ln(1) k new])
      have "length (take n kept) = n" using nn by simp
      then show "style_id_new (length (take n kept)) ?s = Some i" by (simp only: i)
    qed
    then show "returns (reindex_step same (enumerate 0 kept ! n) t') (I (Suc n))"
      using nn ln(6) len by (simp add: item reindex_step_def eq i I_def take_Suc_conv_app_nth)
  qed
  then show ?thesis
    by (rule returns_mono) (simp add: I_def)
qed

lemma compact_ok:
  assumes same: "\<And>a b. same a b \<Longrightarrow> a = b" and ok: "table_ok t"
    and used: "length used = length (styles t)" "used ! 0"
  shows "returns (compact same t used) (\<lambda>(remap, t').
    table_ok t' \<and> styles t' = kept_styles (styles t) used \<and> live t' = length (styles t') \<and>
    (\<forall>i s. style_get t i = Some s \<and> used ! style_index i \<longrightarrow>
       (\<exists>i'. remap_get remap i = Some i' \<and> style_get t' i' = Some s \<and>
          (shows_on_blank i' \<longleftrightarrow> style_shows_on_blank s))))"
proof -
  let ?kept = "kept_styles (styles t) used"
  have index: "index_ok (styles t) t" and full: "length (styles t) \<le> CAPACITY"
    and first: "styles t \<noteq> []" "styles t ! 0 = default_style"
    using ok by (auto simp: table_ok_def)
  obtain remap where loop: "for_each compact_styles_step (zip (styles t) used) ([], []) = Some (remap, ?kept)"
    and remap: "length remap = length (styles t)"
      "\<forall>j < length (styles t). used ! j \<longrightarrow> idx ?kept (style_index (remap ! j)) = Some (styles t ! j) \<and>
         (shows_on_blank (remap ! j) \<longleftrightarrow> style_shows_on_blank (styles t ! j))"
    using compact_styles_loop [OF used(1) full] by (auto simp: returns_iff)
  have kept_le: "length ?kept \<le> CAPACITY"
    using kept_styles_le full le_trans by blast
  have "distinct (map fst (zip (styles t) used))"
    using styles_distinct [OF index full] used(1) by simp
  then have distinct: "distinct ?kept"
    by (simp add: kept_styles_def distinct_map_filter)
  have hd: "?kept \<noteq> []" "?kept ! 0 = default_style"
    using first used by (cases "styles t"; cases used; simp add: kept_styles_def)+
  obtain t1 where t1: "for_each (reindex_step same) (enumerate 0 ?kept)
      (t\<lparr>styles := [], links := [], last_link := None, ids := []\<rparr>) = Some t1" "index_ok ?kept t1"
    using reindex_loop [OF same distinct kept_le, where t = "t\<lparr>styles := [], links := [], last_link := None, ids := []\<rparr>"]
    by (auto simp: returns_iff)
  let ?t = "t1\<lparr>cache := empty_cache, live := length ?kept, styles := ?kept\<rparr>"
  have index': "index_ok ?kept ?t"
    using t1(2) by (rule index_ok_mono)
      (use t1(2) in \<open>auto simp: index_ok_def key_in_def link_of_def split: option.splits\<close>)
  have "key_in ?t default_style = Some (key default_style 0)"
    by (simp add: key_in_def link_of_def default_style_def)
  moreover have "style_id_new 0 default_style = Some 0"
    by (simp add: style_id_new_def default_style_def style_shows_on_blank_def CAPACITY_def
        NAMED_FOREGROUND_def NAMED_BACKGROUND_def intersects_def)
  moreover have "\<exists>k. key_in ?t (?kept ! 0) = Some k \<and> map_of (ids ?t) k = style_id_new 0 (?kept ! 0)"
    using index' hd(1) unfolding index_ok_def by blast
  ultimately have "map_of (ids t1) (key default_style 0) = Some 0"
    using hd(2) by simp
  then have "cache_ok ?t"
    by (simp add: cache_ok_def empty_cache_def CACHE_BITS_def)
  then have "table_ok ?t"
    using index' kept_le hd by (simp add: table_ok_def)
  then show ?thesis
    using remap by (auto simp: compact_def loop t1(1) style_get_def remap_get_def idx_eq_Some)
qed

text \<open>
  C8. Interning a style keeps the invariant of the style table and returns an id that reads
  back as exactly this style, whatever the lookup cache holds; entries are only appended, and a
  full table answers with the default style.
\<close>

theorem intern_correct:
  assumes same: "\<And>a b. same a b \<Longrightarrow> a = b" and ok: "table_ok t"
    and attrs: "\<not> intersects (attrs s) LAYOUT" and room: "length (links t) + 1 < 2 ^ 32"
  shows "returns (intern same t s) (\<lambda>(i, t').
    table_ok t' \<and> interned t' s i \<and> (\<exists>new. styles t' = styles t @ new))"
  by (rule intern_ok [OF assms])

theorem intern_correct_witness:
  "returns (intern (\<lambda>a b. a = b) default_table (default_style\<lparr>fg := Indexed 1\<rparr>)) (\<lambda>(i, t').
    table_ok t' \<and> interned t' (default_style\<lparr>fg := Indexed 1\<rparr>) i \<and>
    (\<exists>new. styles t' = styles default_table @ new))"
proof (rule intern_correct [OF _ table_ok_default])
  show "\<not> intersects (attrs (default_style\<lparr>fg := Indexed 1\<rparr>)) LAYOUT"
    by (simp add: default_style_def intersects_def)
  show "length (links default_table) + 1 < 2 ^ 32" by (simp add: default_table_def)
qed

text \<open>
  C9. Sweeping the style table keeps its invariant and exactly the marked styles in order, and
  remaps every id in use to an id that reads back as the same style.
\<close>

theorem compact_correct:
  assumes same: "\<And>a b. same a b \<Longrightarrow> a = b" and ok: "table_ok t"
    and used: "length used = length (styles t)" "used ! 0"
  shows "returns (compact same t used) (\<lambda>(remap, t').
    table_ok t' \<and> styles t' = kept_styles (styles t) used \<and> live t' = length (styles t') \<and>
    (\<forall>i s. style_get t i = Some s \<and> used ! style_index i \<longrightarrow>
       (\<exists>i'. remap_get remap i = Some i' \<and> style_get t' i' = Some s \<and>
          (shows_on_blank i' \<longleftrightarrow> style_shows_on_blank s))))"
  by (rule compact_ok [OF assms])

theorem compact_correct_witness:
  "returns (compact (\<lambda>a b. a = b) default_table [True]) (\<lambda>(remap, t').
    table_ok t' \<and> styles t' = kept_styles (styles default_table) [True])"
proof -
  have "length (styles default_table) = 1" by (simp add: default_table_def)
  then show ?thesis
    using compact_correct [OF _ table_ok_default, of "\<lambda>a b. a = b" "[True]"]
    by (auto elim: returns_mono)
qed

end
