(* ===== verification/Cell.thy ===== *)
theory Cell
  imports Style
begin

text \<open>
  The packed terminal cell and the loops that fill runs of cells,
  \<open>src/terminal/term/cell.rs\<close>.

  A cell is the 64-bit word of the source. \<open>UnpackedCell\<close>, which resize uses, is also the
  specification of the packed form: every operation on the packed word is the corresponding
  field access or update on the record it unpacks to. The \<open>debug_assert\<close> of \<open>layout_bits\<close>,
  which only checks that its argument has no styling flag, is not modelled: the release build
  ignores such flags, and so does the model.

  Text is a list of bytes, as in the source; \<open>next_char\<close> is \<open>Chars::next\<close>, the decoder of
  UTF-8. The display width of characters comes from the crate \<open>unicode_width\<close>: it is the
  parameter \<open>uw\<close>, about which nothing is assumed.
\<close>

section \<open>Packed cells\<close>

type_synonym cell = "64 word"

definition SPACE :: uchar where "SPACE = 0x20"
definition TAB :: uchar where "TAB = 0x09"

definition is_scalar :: "uchar \<Rightarrow> bool" where
  "is_scalar c \<longleftrightarrow> c < 0xD800 \<or> 0xDFFF < c \<and> c < 0x110000"

definition LAYOUT_ORDER :: "flags list" where
  "LAYOUT_ORDER = [WRAPLINE, WIDE_CHAR, WIDE_CHAR_SPACER, LEADING_WIDE_CHAR_SPACER]"

definition CHAR_BITS :: nat where "CHAR_BITS = 21"
definition LAYOUT_SHIFT :: nat where "LAYOUT_SHIFT = CHAR_BITS"
definition STYLE_SHIFT :: nat where "STYLE_SHIFT = LAYOUT_SHIFT + length LAYOUT_ORDER"
definition EXTRA_SHIFT :: nat where "EXTRA_SHIFT = STYLE_SHIFT + STYLE_PACKED_BITS"

definition CHAR_MASK :: cell where "CHAR_MASK = mask CHAR_BITS"
definition LAYOUT_MASK :: cell where "LAYOUT_MASK = push_bit LAYOUT_SHIFT (mask (length LAYOUT_ORDER))"
definition STYLE_MASK :: cell where "STYLE_MASK = push_bit STYLE_SHIFT (mask STYLE_PACKED_BITS)"
definition EXTRA_MASK :: cell where "EXTRA_MASK = push_bit EXTRA_SHIFT (NOT 0)"

definition layout_bits :: "flags \<Rightarrow> cell" where
  "layout_bits f =
     fold (\<lambda>(b, flag) bits. if contains f flag then bits OR push_bit (LAYOUT_SHIFT + b) 1 else bits)
       (enumerate 0 LAYOUT_ORDER) 0"

definition cell_c :: "cell \<Rightarrow> uchar" where
  "cell_c w = (let c = ucast (w AND CHAR_MASK) in if is_scalar c then c else SPACE)"

definition set_c :: "cell \<Rightarrow> uchar \<Rightarrow> cell" where
  "set_c w c = w AND NOT CHAR_MASK OR ucast c"

definition cell_style :: "cell \<Rightarrow> style_id" where
  "cell_style w = style_from_packed (drop_bit STYLE_SHIFT w)"

definition set_style :: "cell \<Rightarrow> style_id \<Rightarrow> cell" where
  "set_style w i = w AND NOT STYLE_MASK OR push_bit STYLE_SHIFT (style_packed i)"

definition cell_layout :: "cell \<Rightarrow> flags" where
  "cell_layout w =
     fold (\<lambda>(b, flag) fs. if w AND push_bit (LAYOUT_SHIFT + b) 1 \<noteq> 0 then fs OR flag else fs)
       (enumerate 0 LAYOUT_ORDER) 0"

definition set_layout :: "cell \<Rightarrow> flags \<Rightarrow> cell" where
  "set_layout w f = w AND NOT LAYOUT_MASK OR layout_bits f"

definition insert_layout :: "cell \<Rightarrow> flags \<Rightarrow> cell" where
  "insert_layout w f = w OR layout_bits f"

definition remove_layout :: "cell \<Rightarrow> flags \<Rightarrow> cell" where
  "remove_layout w f = w AND NOT (layout_bits f)"

definition has_layout :: "cell \<Rightarrow> flags \<Rightarrow> bool" where
  "has_layout w f \<longleftrightarrow> w AND layout_bits f \<noteq> 0"

definition is_simple :: "cell \<Rightarrow> bool" where
  "is_simple w \<longleftrightarrow>
     w AND (EXTRA_MASK OR layout_bits (WIDE_CHAR OR WIDE_CHAR_SPACER OR LEADING_WIDE_CHAR_SPACER)) = 0"

definition has_extra :: "cell \<Rightarrow> bool" where
  "has_extra w \<longleftrightarrow> w AND EXTRA_MASK \<noteq> 0"

definition extra_of :: "cell \<Rightarrow> extra_id" where
  "extra_of w = extra_from_packed (drop_bit EXTRA_SHIFT w)"

definition set_extra_id :: "cell \<Rightarrow> extra_id \<Rightarrow> cell" where
  "set_extra_id w e =
     (let bits = (case extra_packed e of Some b \<Rightarrow> b | None \<Rightarrow> 0)
      in w AND NOT EXTRA_MASK OR push_bit EXTRA_SHIFT bits)"

definition cell_write :: "uchar \<Rightarrow> style_id \<Rightarrow> flags \<Rightarrow> cell" where
  "cell_write c i layout = ucast c OR layout_bits layout OR push_bit STYLE_SHIFT (style_packed i)"

definition clear_wide :: "cell \<Rightarrow> cell" where
  "clear_wide w = set_c (remove_layout w WIDE_CHAR AND NOT EXTRA_MASK) SPACE"

definition default_cell :: cell where "default_cell = ucast SPACE"

definition cell_from_char :: "uchar \<Rightarrow> cell" where "cell_from_char c = ucast c"

definition cell_is_empty :: "cell \<Rightarrow> bool" where
  "cell_is_empty w \<longleftrightarrow>
     (cell_c w = SPACE \<or> cell_c w = TAB) \<and> \<not> shows_on_blank (cell_style w) \<and>
     \<not> has_layout w (WRAPLINE OR WIDE_CHAR_SPACER OR LEADING_WIDE_CHAR_SPACER) \<and> \<not> has_extra w"

definition cell_reset :: "cell \<Rightarrow> cell \<Rightarrow> cell" where
  "cell_reset w template = ucast SPACE OR template AND STYLE_MASK"

section \<open>Unpacked cells\<close>

record unpacked_cell =
  uc_c :: uchar
  uc_style :: style_id
  uc_extra :: extra_id
  uc_layout :: flags

definition unpack :: "cell \<Rightarrow> unpacked_cell" where
  "unpack w = \<lparr>uc_c = cell_c w, uc_style = cell_style w, uc_extra = extra_of w, uc_layout = cell_layout w\<rparr>"

definition pack :: "unpacked_cell \<Rightarrow> cell" where
  "pack u = set_extra_id (cell_write (uc_c u) (uc_style u) (uc_layout u)) (uc_extra u)"

definition default_unpacked :: unpacked_cell where "default_unpacked = unpack default_cell"

definition uc_is_empty :: "unpacked_cell \<Rightarrow> bool" where
  "uc_is_empty u \<longleftrightarrow>
     (uc_c u = SPACE \<or> uc_c u = TAB) \<and> \<not> shows_on_blank (uc_style u) \<and>
     \<not> intersects (uc_layout u) (WRAPLINE OR WIDE_CHAR_SPACER OR LEADING_WIDE_CHAR_SPACER) \<and>
     uc_extra u = extra_none"

definition uc_insert_layout :: "unpacked_cell \<Rightarrow> flags \<Rightarrow> unpacked_cell" where
  "uc_insert_layout u f = u\<lparr>uc_layout := uc_layout u OR f\<rparr>"

definition uc_remove_layout :: "unpacked_cell \<Rightarrow> flags \<Rightarrow> unpacked_cell" where
  "uc_remove_layout u f = u\<lparr>uc_layout := uc_layout u AND NOT f\<rparr>"

definition uc_set_extra :: "unpacked_cell \<Rightarrow> extra_id \<Rightarrow> unpacked_cell" where
  "uc_set_extra u e = u\<lparr>uc_extra := e\<rparr>"

definition uc_reset :: "unpacked_cell \<Rightarrow> unpacked_cell \<Rightarrow> unpacked_cell" where
  "uc_reset u template = default_unpacked\<lparr>uc_c := SPACE, uc_style := uc_style template\<rparr>"

section \<open>The bits of a packed cell\<close>

lemmas shifts = CHAR_BITS_def LAYOUT_SHIFT_def STYLE_SHIFT_def EXTRA_SHIFT_def LAYOUT_ORDER_def
  STYLE_PACKED_BITS_def PACKED_INDEX_BITS_def

lemma shift_values: "CHAR_BITS = 21" "LAYOUT_SHIFT = 21" "STYLE_SHIFT = 25" "EXTRA_SHIFT = 50"
  by (simp_all add: shifts)

lemma bit_masks:
  "bit CHAR_MASK n \<longleftrightarrow> n < 21"
  "bit LAYOUT_MASK n \<longleftrightarrow> 21 \<le> n \<and> n < 25"
  "bit STYLE_MASK n \<longleftrightarrow> 25 \<le> n \<and> n < 50"
  "bit EXTRA_MASK n \<longleftrightarrow> 50 \<le> n \<and> n < 64"
  unfolding CHAR_MASK_def LAYOUT_MASK_def STYLE_MASK_def EXTRA_MASK_def shift_values
  by (auto simp: bit_simps LAYOUT_ORDER_def STYLE_PACKED_BITS_def PACKED_INDEX_BITS_def)

lemma bit_flags:
  "bit WRAPLINE n \<longleftrightarrow> n = 4" "bit WIDE_CHAR n \<longleftrightarrow> n = 5" "bit WIDE_CHAR_SPACER n \<longleftrightarrow> n = 6"
  "bit LEADING_WIDE_CHAR_SPACER n \<longleftrightarrow> n = 10"
  unfolding WRAPLINE_def WIDE_CHAR_def WIDE_CHAR_SPACER_def LEADING_WIDE_CHAR_SPACER_def bit_push_one
  by auto

lemma nonzero_bit: "w \<noteq> 0 \<longleftrightarrow> (\<exists>k. bit w k)" for w :: "'a::len word"
  using bit_eq_iff [of w 0] by (auto dest: bit_imp_le_length)

lemma zero_bit: "w = 0 \<longleftrightarrow> (\<forall>k. \<not> bit w k)" for w :: "'a::len word"
  using nonzero_bit by blast

lemma and_push_one: "w AND push_bit n 1 \<noteq> 0 \<longleftrightarrow> bit w n" for w :: "'a::len word"
  unfolding nonzero_bit bit_and_iff bit_push_one by (auto dest: bit_imp_le_length)

lemma contains_bits: "contains f g \<longleftrightarrow> (\<forall>k. bit g k \<longrightarrow> bit f k)"
proof
  assume "contains f g"
  then have "f AND g = g" by (simp add: contains_def)
  then show "\<forall>k. bit g k \<longrightarrow> bit f k" by (metis bit_and_iff)
next
  assume "\<forall>k. bit g k \<longrightarrow> bit f k"
  then show "contains f g"
    unfolding contains_def by (intro bit_word_eqI) (auto simp: bit_and_iff)
qed

lemma intersects_bits: "intersects f g \<longleftrightarrow> (\<exists>k. bit f k \<and> bit g k)"
  unfolding intersects_def nonzero_bit bit_and_iff ..

text \<open>The packed layout bits 21 to 24 and the flag bits they stand for.\<close>

lemma bit_layout_bits:
  "bit (layout_bits f) n \<longleftrightarrow> n = 21 \<and> bit f 4 \<or> n = 22 \<and> bit f 5 \<or> n = 23 \<and> bit f 6 \<or> n = 24 \<and> bit f 10"
proof -
  have "layout_bits f = (if bit f 4 then push_bit 21 1 else 0) OR (if bit f 5 then push_bit 22 1 else 0)
    OR (if bit f 6 then push_bit 23 1 else 0) OR (if bit f 10 then push_bit 24 1 else 0)"
    unfolding layout_bits_def LAYOUT_ORDER_def shift_values
    by (simp add: contains_bits bit_flags or.assoc del: push_bit_of_1)
  then show ?thesis
    by (simp only: bit_or_iff if_distrib [of bit] if_distribR bit_push_one bit_0_eq bot_apply bot_bool_def)
      auto
qed

lemma bit_cell_layout:
  "bit (cell_layout w) n \<longleftrightarrow> n = 4 \<and> bit w 21 \<or> n = 5 \<and> bit w 22 \<or> n = 6 \<and> bit w 23 \<or> n = 10 \<and> bit w 24"
proof -
  have "cell_layout w = (if bit w 21 then WRAPLINE else 0) OR (if bit w 22 then WIDE_CHAR else 0)
    OR (if bit w 23 then WIDE_CHAR_SPACER else 0) OR (if bit w 24 then LEADING_WIDE_CHAR_SPACER else 0)"
    unfolding cell_layout_def LAYOUT_ORDER_def shift_values and_push_one
    by (simp add: or.assoc)
  then show ?thesis
    by (simp only: bit_or_iff if_distrib [of bit] if_distribR bit_flags bit_0_eq bot_apply bot_bool_def)
      auto
qed

lemma bit_packed_style:
  "style_index i < CAPACITY \<Longrightarrow>
   bit (style_packed i) n \<longleftrightarrow> n < 24 \<and> bit i n \<or> n = 24 \<and> bit i 31"
  unfolding bit_style_packed using style_id_high [of i n] by (cases "n < 24") auto

lemma bit_SPACE: "bit SPACE n \<longleftrightarrow> n = 5"
proof -
  have eq: "SPACE = push_bit 5 1" by (simp add: SPACE_def)
  show ?thesis unfolding eq bit_push_one by simp
qed

lemma scalar_bits: "is_scalar c \<Longrightarrow> 21 \<le> n \<Longrightarrow> \<not> bit c n"
proof -
  assume "is_scalar c" and n: "21 \<le> n"
  then have "c < push_bit 21 1"
    by (auto simp: is_scalar_def intro: less_trans)
  then show ?thesis by (rule not_bit_of_less) (simp_all add: n)
qed

section \<open>Each field is read and written independently\<close>

text \<open>
  A packed cell is well formed when its low 21 bits are a character; every cell the program
  stores is.
\<close>

definition cell_ok :: "cell \<Rightarrow> bool" where
  "cell_ok w \<longleftrightarrow> is_scalar (ucast (w AND CHAR_MASK))"

definition style_id_ok :: "style_id \<Rightarrow> bool" where
  "style_id_ok i \<longleftrightarrow> style_index i < CAPACITY"

definition layout_ok :: "flags \<Rightarrow> bool" where
  "layout_ok f \<longleftrightarrow> contains LAYOUT f"

lemma bit_LAYOUT: "bit LAYOUT n \<longleftrightarrow> n = 4 \<or> n = 5 \<or> n = 6 \<or> n = 10"
  unfolding LAYOUT_def bit_or_iff bit_flags by auto

lemma layout_ok_bits: "layout_ok f \<longleftrightarrow> (\<forall>n. bit f n \<longrightarrow> n = 4 \<or> n = 5 \<or> n = 6 \<or> n = 10)"
  unfolding layout_ok_def contains_bits bit_LAYOUT ..

lemma bit_char_field: "bit (ucast (w AND CHAR_MASK) :: uchar) n \<longleftrightarrow> n < 21 \<and> bit w n"
  by (auto simp: bit_unsigned_iff bit_and_iff bit_masks dest: bit_imp_le_length)

lemma bit_cell_style: "bit (cell_style w) n \<longleftrightarrow> n < 24 \<and> bit w (n + 25) \<or> n = 31 \<and> bit w 49"
  unfolding cell_style_def bit_style_from_packed shift_values bit_drop_bit_eq by (auto simp: add.commute)

lemma bit_extra_of: "bit (extra_of w) n \<longleftrightarrow> n < 13 \<and> bit w (n + 50) \<or> n = 31 \<and> bit w 63"
  unfolding extra_of_def bit_extra_from_packed shift_values bit_drop_bit_eq by (auto simp: add.commute)

lemma cell_c_cong: "(\<And>n. n < 21 \<Longrightarrow> bit v n = bit w n) \<Longrightarrow> cell_c v = cell_c w"
proof -
  assume "\<And>n. n < 21 \<Longrightarrow> bit v n = bit w n"
  then have "(ucast (v AND CHAR_MASK) :: uchar) = ucast (w AND CHAR_MASK)"
    by (intro bit_word_eqI) (auto simp: bit_char_field)
  then show ?thesis by (simp only: cell_c_def)
qed

lemma cell_style_cong: "(\<And>n. 25 \<le> n \<Longrightarrow> n < 50 \<Longrightarrow> bit v n = bit w n) \<Longrightarrow> cell_style v = cell_style w"
  by (intro bit_word_eqI) (auto simp: bit_cell_style)

lemma cell_layout_cong: "(\<And>n. 21 \<le> n \<Longrightarrow> n < 25 \<Longrightarrow> bit v n = bit w n) \<Longrightarrow> cell_layout v = cell_layout w"
  by (intro bit_word_eqI) (auto simp: bit_cell_layout)

lemma extra_of_cong: "(\<And>n. 50 \<le> n \<Longrightarrow> n < 64 \<Longrightarrow> bit v n = bit w n) \<Longrightarrow> extra_of v = extra_of w"
  by (intro bit_word_eqI) (auto simp: bit_extra_of)

lemma cell_c_scalar: "is_scalar c \<Longrightarrow> (\<And>n. n < 21 \<Longrightarrow> bit w n = bit c n) \<Longrightarrow> cell_c w = c"
proof -
  assume c: "is_scalar c" and w: "\<And>n. n < 21 \<Longrightarrow> bit w n = bit c n"
  have "(ucast (w AND CHAR_MASK) :: uchar) = c"
    using w scalar_bits [OF c] by (intro bit_word_eqI) (metis bit_char_field not_less)
  with c show ?thesis by (simp add: cell_c_def)
qed


lemmas packed_bits = bit_and_iff bit_or_iff bit_not_iff bit_push_bit_iff bit_unsigned_iff bit_masks
  bit_layout_bits bit_SPACE

lemma unpack_set_c:
  "is_scalar c \<Longrightarrow> unpack (set_c w c) = unpack w\<lparr>uc_c := c\<rparr>"
proof -
  assume c: "is_scalar c"
  have "cell_c (set_c w c) = c"
    by (rule cell_c_scalar [OF c]) (simp add: set_c_def packed_bits)
  moreover have "cell_style (set_c w c) = cell_style w"
    by (rule cell_style_cong) (simp add: set_c_def packed_bits scalar_bits [OF c])
  moreover have "cell_layout (set_c w c) = cell_layout w"
    by (rule cell_layout_cong) (simp add: set_c_def packed_bits scalar_bits [OF c])
  moreover have "extra_of (set_c w c) = extra_of w"
    by (rule extra_of_cong) (simp add: set_c_def packed_bits scalar_bits [OF c])
  ultimately show ?thesis by (simp add: unpack_def)
qed

lemma unpack_set_style:
  "style_id_ok i \<Longrightarrow> unpack (set_style w i) = unpack w\<lparr>uc_style := i\<rparr>"
proof -
  assume i: "style_id_ok i"
  then have packed: "bit (style_packed i) n \<longleftrightarrow> n < 24 \<and> bit i n \<or> n = 24 \<and> bit i 31" for n
    by (simp add: style_id_ok_def bit_packed_style)
  have "cell_style (set_style w i) = i"
  proof (rule bit_word_eqI)
    fix n assume n: "n < LENGTH(32)"
    show "bit (cell_style (set_style w i)) n = bit i n"
      using n style_id_high [of i n] i
      by (cases "n < 24"; cases "n = 31")
        (auto simp: bit_cell_style set_style_def packed_bits packed shift_values style_id_ok_def)
  qed
  moreover have "cell_c (set_style w i) = cell_c w"
    by (rule cell_c_cong) (simp add: set_style_def packed_bits shift_values)
  moreover have "cell_layout (set_style w i) = cell_layout w"
    by (rule cell_layout_cong) (simp add: set_style_def packed_bits shift_values)
  moreover have "extra_of (set_style w i) = extra_of w"
    by (rule extra_of_cong) (auto simp: set_style_def packed_bits shift_values packed)
  ultimately show ?thesis by (simp add: unpack_def)
qed

lemma cell_layout_layout_bits:
  "layout_ok f \<Longrightarrow> (\<And>n. 21 \<le> n \<Longrightarrow> n < 25 \<Longrightarrow> bit w n = bit (layout_bits f) n) \<Longrightarrow> cell_layout w = f"
  by (rule bit_word_eqI) (auto simp: layout_ok_bits bit_cell_layout bit_layout_bits)

lemma unpack_set_layout:
  assumes "layout_ok f"
  shows "unpack (set_layout w f) = unpack w\<lparr>uc_layout := f\<rparr>"
proof -
  have "cell_layout (set_layout w f) = f"
    by (rule cell_layout_layout_bits [OF assms]) (simp add: set_layout_def bit_or_iff bit_and_iff bit_not_iff bit_masks)
  moreover have "cell_c (set_layout w f) = cell_c w"
    by (rule cell_c_cong) (auto simp: set_layout_def packed_bits)
  moreover have "cell_style (set_layout w f) = cell_style w"
    by (rule cell_style_cong) (auto simp: set_layout_def packed_bits)
  moreover have "extra_of (set_layout w f) = extra_of w"
    by (rule extra_of_cong) (auto simp: set_layout_def packed_bits)
  ultimately show ?thesis by (simp add: unpack_def)
qed

lemma unpack_insert_layout:
  assumes "layout_ok f"
  shows "unpack (insert_layout w f) = uc_insert_layout (unpack w) f"
proof -
  have "cell_layout (insert_layout w f) = cell_layout w OR f"
    using assms by (intro bit_word_eqI)
      (auto simp: bit_cell_layout insert_layout_def bit_or_iff bit_layout_bits layout_ok_bits)
  moreover have "cell_c (insert_layout w f) = cell_c w"
    by (rule cell_c_cong) (auto simp: insert_layout_def packed_bits)
  moreover have "cell_style (insert_layout w f) = cell_style w"
    by (rule cell_style_cong) (auto simp: insert_layout_def packed_bits)
  moreover have "extra_of (insert_layout w f) = extra_of w"
    by (rule extra_of_cong) (auto simp: insert_layout_def packed_bits)
  ultimately show ?thesis by (simp add: unpack_def uc_insert_layout_def)
qed

lemma unpack_remove_layout: "unpack (remove_layout w f) = uc_remove_layout (unpack w) f"
proof -
  have "cell_layout (remove_layout w f) = cell_layout w AND NOT f"
    by (intro bit_word_eqI)
      (auto simp: bit_cell_layout remove_layout_def bit_and_iff bit_not_iff bit_layout_bits)
  moreover have "cell_c (remove_layout w f) = cell_c w"
    by (rule cell_c_cong) (auto simp: remove_layout_def packed_bits)
  moreover have "cell_style (remove_layout w f) = cell_style w"
    by (rule cell_style_cong) (auto simp: remove_layout_def packed_bits)
  moreover have "extra_of (remove_layout w f) = extra_of w"
    by (rule extra_of_cong) (auto simp: remove_layout_def packed_bits)
  ultimately show ?thesis by (simp add: unpack_def uc_remove_layout_def)
qed

lemma unpack_set_extra:
  "unpack (set_extra_id w e) = uc_set_extra (unpack w) (if extra_packed e = None then extra_none else e)"
proof -
  define b where "b = (case extra_packed e of Some b \<Rightarrow> b | None \<Rightarrow> 0)"
  have eq: "set_extra_id w e = w AND NOT EXTRA_MASK OR push_bit 50 b"
    by (simp add: set_extra_id_def Let_def b_def shift_values)
  have b: "extra_from_packed b = (if extra_packed e = None then extra_none else e)"
    using extra_packed_roundtrip
    by (auto simp: b_def extra_from_packed_def Let_def extra_none_def split: option.split)
  have "extra_of (set_extra_id w e) = extra_from_packed b"
    by (rule bit_word_eqI) (auto simp: bit_extra_of bit_extra_from_packed eq packed_bits)
  moreover have "cell_c (set_extra_id w e) = cell_c w"
    by (rule cell_c_cong) (auto simp: eq packed_bits)
  moreover have "cell_style (set_extra_id w e) = cell_style w"
    by (rule cell_style_cong) (auto simp: eq packed_bits)
  moreover have "cell_layout (set_extra_id w e) = cell_layout w"
    by (rule cell_layout_cong) (auto simp: eq packed_bits)
  ultimately show ?thesis by (simp add: unpack_def uc_set_extra_def b)
qed

lemma extra_of_none: "(\<And>n. 50 \<le> n \<Longrightarrow> n < 64 \<Longrightarrow> \<not> bit w n) \<Longrightarrow> extra_of w = extra_none"
  by (intro bit_word_eqI) (auto simp: bit_extra_of extra_none_def)

lemma unpack_write:
  assumes c: "is_scalar c" and i: "style_id_ok i" and f: "layout_ok f"
  shows "unpack (cell_write c i f) = \<lparr>uc_c = c, uc_style = i, uc_extra = extra_none, uc_layout = f\<rparr>"
proof -
  have packed: "bit (style_packed i) n \<longleftrightarrow> n < 24 \<and> bit i n \<or> n = 24 \<and> bit i 31" for n
    using i by (simp add: style_id_ok_def bit_packed_style)
  note bits = cell_write_def packed_bits shift_values packed scalar_bits [OF c]
  have "cell_c (cell_write c i f) = c"
    by (rule cell_c_scalar [OF c]) (auto simp: bits)
  moreover have "cell_style (cell_write c i f) = i"
  proof (rule bit_word_eqI)
    fix n assume n: "n < LENGTH(32)"
    show "bit (cell_style (cell_write c i f)) n = bit i n"
      using n style_id_high [of i n] i
      by (cases "n < 24"; cases "n = 31") (auto simp: bit_cell_style bits style_id_ok_def)
  qed
  moreover have "cell_layout (cell_write c i f) = f"
    by (rule cell_layout_layout_bits [OF f]) (simp add: bits)
  moreover have "extra_of (cell_write c i f) = extra_none"
    by (rule extra_of_none) (auto simp: bits)
  ultimately show ?thesis by (simp add: unpack_def)
qed

lemma layout_ok_0 [simp]: "layout_ok 0"
  by (simp add: layout_ok_bits)

lemma layout_ok_wide [simp]: "layout_ok WIDE_CHAR" "layout_ok WIDE_CHAR_SPACER" "layout_ok WRAPLINE"
  by (simp_all add: layout_ok_bits bit_flags)

lemma layout_ok_or [simp]: "layout_ok f \<Longrightarrow> layout_ok g \<Longrightarrow> layout_ok (f OR g)"
  by (auto simp: layout_ok_bits bit_or_iff)

lemma style_id_ok_0 [simp]: "style_id_ok 0"
  by (simp add: style_id_ok_def style_index_def CAPACITY_def)

lemma is_scalar_SPACE [simp]: "is_scalar SPACE"
  by (simp add: is_scalar_def SPACE_def)

lemma style_packed_0: "style_packed 0 = 0"
  by (simp add: style_packed_def style_index_def shows_on_blank_def)

lemma layout_bits_0: "layout_bits 0 = 0"
  by (rule bit_word_eqI) (simp add: bit_layout_bits)

lemma default_cell_write: "default_cell = cell_write SPACE 0 0"
  by (simp add: default_cell_def cell_write_def style_packed_0 layout_bits_0)

lemma unpack_default: "unpack default_cell = \<lparr>uc_c = SPACE, uc_style = 0, uc_extra = extra_none, uc_layout = 0\<rparr>"
  by (simp add: default_cell_write unpack_write)

lemma unpack_from_char:
  assumes "is_scalar c"
  shows "unpack (cell_from_char c) = default_unpacked\<lparr>uc_c := c\<rparr>"
proof -
  have "cell_from_char c = cell_write c 0 0"
    by (simp add: cell_from_char_def cell_write_def style_packed_0 layout_bits_0)
  with assms show ?thesis by (simp add: unpack_write default_unpacked_def unpack_default)
qed

lemma unpack_reset: "unpack (cell_reset w template) = uc_reset (unpack w) (unpack template)"
proof -
  note bits = cell_reset_def packed_bits scalar_bits [OF is_scalar_SPACE]
  have "cell_c (cell_reset w template) = SPACE"
    by (rule cell_c_scalar) (auto simp: bits)
  moreover have "cell_style (cell_reset w template) = cell_style template"
    by (rule cell_style_cong) (auto simp: bits)
  moreover have "cell_layout (cell_reset w template) = 0"
    by (rule bit_word_eqI) (auto simp: bit_cell_layout bits)
  moreover have "extra_of (cell_reset w template) = extra_none"
    by (rule extra_of_none) (simp add: bits)
  ultimately show ?thesis
    by (simp add: unpack_def uc_reset_def default_unpacked_def unpack_default [unfolded unpack_def])
qed

lemma has_layout_unpack: "has_layout w f \<longleftrightarrow> intersects (uc_layout (unpack w)) f"
proof -
  have "has_layout w f \<longleftrightarrow> bit w 21 \<and> bit f 4 \<or> bit w 22 \<and> bit f 5 \<or> bit w 23 \<and> bit f 6 \<or> bit w 24 \<and> bit f 10"
    unfolding has_layout_def nonzero_bit bit_and_iff bit_layout_bits by auto
  also have "\<dots> \<longleftrightarrow> intersects (cell_layout w) f"
    unfolding intersects_bits bit_cell_layout by auto
  finally show ?thesis by (simp add: unpack_def)
qed

lemma has_extra_unpack: "has_extra w \<longleftrightarrow> uc_extra (unpack w) \<noteq> extra_none"
proof -
  have "has_extra w \<longleftrightarrow> (\<exists>n. 50 \<le> n \<and> n < 64 \<and> bit w n)"
    unfolding has_extra_def nonzero_bit bit_and_iff bit_masks by auto
  also have "\<dots> \<longleftrightarrow> extra_of w \<noteq> extra_none"
  proof
    assume "\<exists>n. 50 \<le> n \<and> n < 64 \<and> bit w n"
    then obtain n where n: "50 \<le> n" "n < 64" "bit w n" by blast
    have "bit (extra_of w) (if n = 63 then 31 else n - 50)"
      using n by (auto simp: bit_extra_of)
    then show "extra_of w \<noteq> extra_none" by (auto simp: extra_none_def)
  next
    assume "extra_of w \<noteq> extra_none"
    then show "\<exists>n. 50 \<le> n \<and> n < 64 \<and> bit w n"
      using extra_of_none by blast
  qed
  finally show ?thesis by (simp add: unpack_def)
qed

lemma is_simple_unpack:
  "is_simple w \<longleftrightarrow> uc_extra (unpack w) = extra_none \<and>
     \<not> intersects (uc_layout (unpack w)) (WIDE_CHAR OR WIDE_CHAR_SPACER OR LEADING_WIDE_CHAR_SPACER)"
proof -
  have "is_simple w \<longleftrightarrow> \<not> has_extra w \<and> \<not> has_layout w (WIDE_CHAR OR WIDE_CHAR_SPACER OR LEADING_WIDE_CHAR_SPACER)"
    unfolding is_simple_def has_extra_def has_layout_def zero_bit not_not bit_and_iff bit_or_iff by blast
  then show ?thesis by (simp add: has_extra_unpack has_layout_unpack)
qed

lemma is_empty_unpack: "cell_is_empty w \<longleftrightarrow> uc_is_empty (unpack w)"
  unfolding cell_is_empty_def uc_is_empty_def has_layout_unpack has_extra_unpack
  by (simp add: unpack_def)

lemma unpack_clear_wide:
  "unpack (clear_wide w) = (uc_remove_layout (unpack w) WIDE_CHAR)\<lparr>uc_extra := extra_none, uc_c := SPACE\<rparr>"
proof -
  have "unpack (v AND NOT EXTRA_MASK) = unpack v\<lparr>uc_extra := extra_none\<rparr>" for v
  proof -
    have "v AND NOT EXTRA_MASK = set_extra_id v extra_none"
      by (simp add: set_extra_id_def extra_packed_def extra_none_def has_zerowidth_def Let_def)
    then show ?thesis by (simp add: unpack_set_extra uc_set_extra_def)
  qed
  then show ?thesis
    by (simp add: clear_wide_def unpack_set_c unpack_remove_layout)
qed

section \<open>Packing and unpacking are inverse\<close>

definition uc_ok :: "unpacked_cell \<Rightarrow> bool" where
  "uc_ok u \<longleftrightarrow> is_scalar (uc_c u) \<and> style_id_ok (uc_style u) \<and> layout_ok (uc_layout u) \<and>
     extra_packed (uc_extra u) \<noteq> None"

lemma is_scalar_cell_c [simp]: "is_scalar (cell_c w)"
  by (simp add: cell_c_def Let_def)

lemma unat_and_mask: "unat (w AND mask n) < 2 ^ n" for w :: "'a::len word"
  unfolding take_bit_eq_mask [symmetric] unsigned_take_bit_eq by (rule take_bit_nat_less_exp)

lemma style_id_ok_cell_style: "style_id_ok (cell_style w)"
proof -
  have "style_index (cell_style w) = unat (cell_style w AND mask 24)"
  proof -
    have "cell_style w AND NOT SHOWS_ON_BLANK = cell_style w AND mask 24"
      by (rule bit_word_eqI) (auto simp: bit_and_iff bit_not_iff SHOWS_ON_BLANK_eq bit_cell_style bit_mask_iff)
    then show ?thesis by (simp add: style_index_def)
  qed
  also have "\<dots> < 2 ^ 24"
    by (rule unat_and_mask)
  finally show ?thesis by (simp add: style_id_ok_def CAPACITY_def PACKED_INDEX_BITS_def)
qed

lemma layout_ok_cell_layout: "layout_ok (cell_layout w)"
  by (auto simp: layout_ok_bits bit_cell_layout)

lemma uc_ok_unpack: "uc_ok (unpack w)"
proof -
  have "extra_packed (extra_of w) \<noteq> None"
  proof -
    have "unat (extra_of w AND NOT HAS_ZEROWIDTH) \<le> PACKED_CAPACITY"
    proof -
      have "extra_of w AND NOT HAS_ZEROWIDTH = extra_of w AND mask 13"
        by (rule bit_word_eqI) (auto simp: bit_and_iff bit_not_iff bit_extra_of bit_mask_iff)
      then show ?thesis
        using unat_and_mask [of "extra_of w" 13]
        by (simp add: PACKED_CAPACITY_def PACKED_NUMBER_BITS_def)
    qed
    then show ?thesis by (rule extra_packed_ok)
  qed
  then show ?thesis
    by (simp add: uc_ok_def unpack_def style_id_ok_cell_style layout_ok_cell_layout)
qed

lemma unpack_pack_eq:
  assumes "uc_ok u"
  shows "unpack (pack u) = u"
  using assms by (cases u) (auto simp: uc_ok_def pack_def unpack_set_extra unpack_write uc_set_extra_def)

lemma unpack_inj:
  assumes "cell_ok v" "cell_ok w" "unpack v = unpack w"
  shows "v = w"
proof (rule bit_word_eqI)
  fix n assume n: "n < LENGTH(64)"
  from assms have eq: "(ucast (v AND CHAR_MASK) :: uchar) = ucast (w AND CHAR_MASK)"
    "cell_style v = cell_style w" "cell_layout v = cell_layout w" "extra_of v = extra_of w"
    by (simp_all add: unpack_def cell_ok_def cell_c_def)
  consider "n < 21" | "n = 21" | "n = 22" | "n = 23" | "n = 24" | "25 \<le> n" "n < 49" | "n = 49"
    | "50 \<le> n" "n < 63" | "n = 63"
    using n by fastforce
  then show "bit v n = bit w n"
  proof cases
    case 1
    then show ?thesis using arg_cong [OF eq(1), of "\<lambda>c. bit c n"] by (simp add: bit_char_field)
  next
    case 2
    then show ?thesis using arg_cong [OF eq(3), of "\<lambda>c. bit c 4"] by (simp add: bit_cell_layout)
  next
    case 3
    then show ?thesis using arg_cong [OF eq(3), of "\<lambda>c. bit c 5"] by (simp add: bit_cell_layout)
  next
    case 4
    then show ?thesis using arg_cong [OF eq(3), of "\<lambda>c. bit c 6"] by (simp add: bit_cell_layout)
  next
    case 5
    then show ?thesis using arg_cong [OF eq(3), of "\<lambda>c. bit c 10"] by (simp add: bit_cell_layout)
  next
    case 6
    then show ?thesis using arg_cong [OF eq(2), of "\<lambda>c. bit c (n - 25)"] by (auto simp: bit_cell_style)
  next
    case 7
    then show ?thesis using arg_cong [OF eq(2), of "\<lambda>c. bit c 31"] by (simp add: bit_cell_style)
  next
    case 8
    then show ?thesis using arg_cong [OF eq(4), of "\<lambda>c. bit c (n - 50)"] by (auto simp: bit_extra_of)
  next
    case 9
    then show ?thesis using arg_cong [OF eq(4), of "\<lambda>c. bit c 31"] by (simp add: bit_extra_of)
  qed
qed

lemma bit_low_pack: "n < 21 \<Longrightarrow> bit (pack u) n \<longleftrightarrow> bit (uc_c u) n"
  by (auto simp: pack_def set_extra_id_def Let_def cell_write_def packed_bits shift_values)

lemma cell_ok_pack: "is_scalar (uc_c u) \<Longrightarrow> cell_ok (pack u)"
proof -
  assume c: "is_scalar (uc_c u)"
  have "(ucast (pack u AND CHAR_MASK) :: uchar) = uc_c u"
    using scalar_bits [OF c] by (intro bit_word_eqI) (metis bit_char_field bit_low_pack not_less)
  with c show ?thesis by (simp add: cell_ok_def)
qed

theorem pack_unpack:
  assumes "cell_ok w"
  shows "pack (unpack w) = w"
proof (rule unpack_inj [OF _ assms])
  show "cell_ok (pack (unpack w))"
    by (rule cell_ok_pack) (simp add: unpack_def)
  show "unpack (pack (unpack w)) = unpack w"
    by (rule unpack_pack_eq [OF uc_ok_unpack])
qed

section \<open>The packed cell is the unpacked one\<close>

lemma sample_parts:
  "is_scalar 0x4E2D" "style_id_ok 5" "layout_ok WIDE_CHAR" "extra_packed 7 \<noteq> None"
proof -
  show "is_scalar 0x4E2D" by (simp add: is_scalar_def)
  show "style_id_ok 5"
    by (simp add: style_id_ok_def style_index_def SHOWS_ON_BLANK_def CAPACITY_def PACKED_INDEX_BITS_def)
  show "layout_ok WIDE_CHAR" by (auto simp: layout_ok_bits bit_flags)
  show "extra_packed 7 \<noteq> None"
    by (rule extra_packed_ok) (simp add: HAS_ZEROWIDTH_def PACKED_CAPACITY_def PACKED_NUMBER_BITS_def)
qed

theorem unpack_pack:
  assumes "uc_ok u"
  shows "unpack (pack u) = u"
  by (rule unpack_pack_eq [OF assms])

theorem unpack_pack_witness:
  "let u = \<lparr>uc_c = 0x4E2D, uc_style = 5, uc_extra = 7, uc_layout = WIDE_CHAR\<rparr> in unpack (pack u) = u"
proof -
  have "uc_ok \<lparr>uc_c = 0x4E2D, uc_style = 5, uc_extra = 7, uc_layout = WIDE_CHAR\<rparr>"
    using sample_parts by (simp add: uc_ok_def)
  from unpack_pack [OF this] show ?thesis by (simp add: Let_def)
qed

theorem pack_unpack_witness: "pack (unpack (cell_from_char 0x41)) = cell_from_char 0x41"
proof -
  have "cell_ok (cell_from_char 0x41)" by code_simp
  from pack_unpack [OF this] show ?thesis .
qed

text \<open>Every operation on the packed word is the operation on the record of its parts.\<close>

text \<open>
  C19. Every operation on a cell packed into 64 bits does what the same operation does on a
  cell with separate fields: each part is read back as it was set and the other parts are
  unchanged.
\<close>

theorem packed_refines_unpacked:
  assumes "is_scalar c" "style_id_ok i" "layout_ok f" "extra_packed e \<noteq> None"
  shows "unpack (set_c w c) = unpack w\<lparr>uc_c := c\<rparr> \<and>
    unpack (set_style w i) = unpack w\<lparr>uc_style := i\<rparr> \<and>
    unpack (set_layout w f) = unpack w\<lparr>uc_layout := f\<rparr> \<and>
    unpack (insert_layout w f) = uc_insert_layout (unpack w) f \<and>
    unpack (remove_layout w f) = uc_remove_layout (unpack w) f \<and>
    unpack (set_extra_id w e) = uc_set_extra (unpack w) e \<and>
    unpack (cell_write c i f) = \<lparr>uc_c = c, uc_style = i, uc_extra = extra_none, uc_layout = f\<rparr> \<and>
    unpack (cell_reset w v) = uc_reset (unpack w) (unpack v) \<and>
    unpack (clear_wide w) = (uc_remove_layout (unpack w) WIDE_CHAR)\<lparr>uc_extra := extra_none, uc_c := SPACE\<rparr> \<and>
    (has_layout w f \<longleftrightarrow> intersects (uc_layout (unpack w)) f) \<and>
    (cell_is_empty w \<longleftrightarrow> uc_is_empty (unpack w))"
proof -
  have "unpack (set_extra_id w e) = uc_set_extra (unpack w) e"
    unfolding unpack_set_extra using assms(4) by (simp only: if_False)
  with assms show ?thesis
    by (simp add: unpack_set_c unpack_set_style unpack_set_layout unpack_insert_layout unpack_remove_layout
        unpack_write unpack_reset unpack_clear_wide has_layout_unpack is_empty_unpack)
qed

theorem packed_refines_unpacked_witness:
  "unpack (set_c default_cell 0x4E2D) = unpack default_cell\<lparr>uc_c := 0x4E2D\<rparr>"
proof -
  from packed_refines_unpacked [OF sample_parts, of default_cell default_cell]
  have "unpack (set_c default_cell 0x4E2D) = unpack default_cell\<lparr>uc_c := 0x4E2D\<rparr>" by (elim conjE)
  then show ?thesis .
qed

end
