(* ===== verification/Fill.thy ===== *)
theory Fill
  imports Cell
begin

text \<open>
  The loops of \<open>src/terminal/term/cell.rs\<close> that print a run of characters over a slice of
  cells: \<open>fill_ascii\<close>, \<open>fill_ideographs\<close> and \<open>fill_chars\<close>, with \<open>char_width\<close>.

  The const parameter \<open>FRESH\<close> is the argument \<open>fresh\<close>. A slice that a function changes is
  returned with its new content; a cursor over text is the list of the bytes it has not read.
  Each loop is shown to equal the same run one character at a time.
\<close>

section \<open>Filling a run of printable ASCII\<close>

definition printable :: "8 word \<Rightarrow> bool" where
  "printable b \<longleftrightarrow> b - 0x20 < 0x5F"

text \<open>Groups of eight cells and bytes, while all of a group is plain.\<close>

function fill_groups :: "bool \<Rightarrow> cell \<Rightarrow> cell list \<Rightarrow> 8 word list \<Rightarrow> cell list \<times> nat" where
  "fill_groups fresh base cells bytes =
     (if 8 \<le> length cells \<and> 8 \<le> length bytes then
        let group = take 8 cells; chars = take 8 bytes;
            clear = (fresh \<or> fold (\<lambda>cell clear. clear \<and> is_simple cell) group True)
        in if \<not> clear \<or> \<not> fold (\<lambda>b ok. ok \<and> printable b) chars True then (cells, 0)
           else let (rest, written) = fill_groups fresh base (drop 8 cells) (drop 8 bytes)
                in (map (\<lambda>b. base OR ucast b) chars @ rest, 8 + written)
      else (cells, 0))"
  by pat_completeness auto
termination by (relation "measure (\<lambda>(_, _, cells, _). length cells)") auto

declare fill_groups.simps [simp del]

fun fill_tail :: "bool \<Rightarrow> cell \<Rightarrow> cell list \<Rightarrow> 8 word list \<Rightarrow> cell list \<times> nat" where
  "fill_tail fresh base (cell # cells) (b # bytes) =
     (if \<not> printable b \<or> \<not> (fresh \<or> is_simple cell) then (cell # cells, 0)
      else let (rest, written) = fill_tail fresh base cells bytes
           in ((base OR ucast b) # rest, 1 + written))"
| "fill_tail fresh base cells bytes = (cells, 0)"

definition fill_ascii :: "bool \<Rightarrow> cell list \<Rightarrow> 8 word list \<Rightarrow> style_id \<Rightarrow> cell list \<times> nat" where
  "fill_ascii fresh all bytes style =
     (let len = min (length all) (length bytes);
          cells = take len all; bytes = take len bytes;
          base = cell_write 0 style 0;
          (cells, written) = fill_groups fresh base cells bytes;
          (rest, more) = fill_tail fresh base (drop written cells) (drop written bytes)
      in (take written cells @ rest @ drop len all, written + more))"

text \<open>One byte at a time: the run ends at the first byte or cell that needs the general path.\<close>

definition ascii_run :: "bool \<Rightarrow> cell list \<Rightarrow> 8 word list \<Rightarrow> nat" where
  "ascii_run fresh cells bytes =
     length (takeWhile (\<lambda>(cell, b). printable b \<and> (fresh \<or> is_simple cell)) (zip cells bytes))"

lemma fold_all: "fold (\<lambda>x ok. ok \<and> P x) xs b \<longleftrightarrow> b \<and> list_all P xs"
  by (induction xs arbitrary: b) auto

lemma ascii_run_le: "ascii_run fresh cells bytes \<le> length cells" "ascii_run fresh cells bytes \<le> length bytes"
  using length_takeWhile_le [of _ "zip cells bytes"] by (auto simp: ascii_run_def min_le_iff_disj
      intro: order_trans [OF length_takeWhile_le])

lemma fill_tail_run:
  "fill_tail fresh base cells bytes =
     (let n = ascii_run fresh cells bytes
      in (map (\<lambda>b. base OR ucast b) (take n bytes) @ drop n cells, n))"
  by (induction fresh base cells bytes rule: fill_tail.induct)
    (auto simp: ascii_run_def Let_def split: prod.split)

lemma ascii_run_append:
  assumes "length c1 = length b1" "list_all printable b1" "fresh \<or> list_all is_simple c1"
  shows "ascii_run fresh (c1 @ c2) (b1 @ b2) = length b1 + ascii_run fresh c2 b2"
proof -
  have "\<forall>p \<in> set (zip c1 b1). (\<lambda>(cell, b). printable b \<and> (fresh \<or> is_simple cell)) p"
    using assms(2,3) by (auto simp: list_all_iff dest: set_zip_leftD set_zip_rightD)
  then show ?thesis
    using assms(1) by (simp add: ascii_run_def takeWhile_append2)
qed

lemma fill_groups_then_tail:
  "(let (cells', written) = fill_groups fresh base cells bytes;
        (rest, more) = fill_tail fresh base (drop written cells') (drop written bytes)
    in (take written cells' @ rest, written + more)) = fill_tail fresh base cells bytes"
proof (induction fresh base cells bytes rule: fill_groups.induct)
  case (1 fresh base cells bytes)
  let ?plain = "(fresh \<or> list_all is_simple (take 8 cells)) \<and> list_all printable (take 8 bytes)"
  show ?case
  proof (cases "8 \<le> length cells \<and> 8 \<le> length bytes \<and> ?plain")
    case False
    then have "fill_groups fresh base cells bytes = (cells, 0)"
      by (subst fill_groups.simps) (auto simp: fold_all Let_def)
    then show ?thesis by simp
  next
    case True
    obtain rest written where r: "fill_groups fresh base (drop 8 cells) (drop 8 bytes) = (rest, written)"
      by fastforce
    then have g: "fill_groups fresh base cells bytes =
        (map (\<lambda>b. base OR ucast b) (take 8 bytes) @ rest, 8 + written)"
      using True by (subst fill_groups.simps) (auto simp: fold_all Let_def)
    have IH: "(let (rest', more) = fill_tail fresh base (drop written rest) (drop written (drop 8 bytes))
        in (take written rest @ rest', written + more)) = fill_tail fresh base (drop 8 cells) (drop 8 bytes)"
      using 1 [OF _ refl refl refl] True r by (simp add: fold_all)
    have run: "ascii_run fresh cells bytes = 8 + ascii_run fresh (drop 8 cells) (drop 8 bytes)"
      using ascii_run_append [of "take 8 cells" "take 8 bytes" fresh "drop 8 cells" "drop 8 bytes"] True
      by simp
    have "fill_tail fresh base cells bytes =
        (let (rest, more) = fill_tail fresh base (drop 8 cells) (drop 8 bytes)
         in (map (\<lambda>b. base OR ucast b) (take 8 bytes) @ rest, 8 + more))"
      by (simp add: fill_tail_run run Let_def take_add add.commute)
    with True IH [symmetric] show ?thesis
      by (simp add: g Let_def add.commute split: prod.split)
  qed
qed

lemma cell_write_base: "cell_write 0 i 0 OR ucast b = cell_write (ucast b) i 0" for b :: "8 word"
proof -
  have "(ucast (ucast b :: uchar) :: cell) = ucast b"
    by (rule bit_word_eqI) (auto simp: bit_unsigned_iff dest: bit_imp_le_length)
  then show ?thesis by (simp add: cell_write_def or.commute or.left_commute or.assoc)
qed

lemma fill_ascii_run:
  "fill_ascii fresh cells bytes style =
     (let n = ascii_run fresh cells bytes
      in (map (\<lambda>b. cell_write (ucast b) style 0) (take n bytes) @ drop n cells, n))"
proof -
  let ?len = "min (length cells) (length bytes)" and ?base = "cell_write 0 style 0"
  let ?n = "ascii_run fresh cells bytes"
  define c where "c = take ?len cells"
  define b where "b = take ?len bytes"
  obtain cs w where g: "fill_groups fresh ?base c b = (cs, w)"
    by fastforce
  obtain rest more where t: "fill_tail fresh ?base (drop w cs) (drop w b) = (rest, more)"
    by fastforce
  have "zip c b = zip cells bytes"
    by (simp add: c_def b_def take_zip [symmetric])
  then have n: "ascii_run fresh c b = ?n"
    by (simp add: ascii_run_def)
  have le: "?n \<le> ?len"
    using ascii_run_le [of fresh cells bytes] by simp
  then have b: "take ?n b = take ?n bytes"
    by (simp add: b_def min_def split: if_splits)
  have "fill_tail fresh ?base c b = (take w cs @ rest, w + more)"
    using fill_groups_then_tail [of fresh ?base c b] by (simp add: g t)
  then have "(map (\<lambda>b. cell_write (ucast b) style 0) (take ?n bytes) @ drop ?n c, ?n) = (take w cs @ rest, w + more)"
    by (simp only: fill_tail_run n b Let_def cell_write_base)
  then have run: "map (\<lambda>b. cell_write (ucast b) style 0) (take ?n bytes) @ drop ?n c = take w cs @ rest"
    and count: "?n = w + more"
    by blast+
  have "drop ?n cells = drop ?n c @ drop ?len cells"
    using le append_take_drop_id [of ?len cells] unfolding c_def
    by (metis drop_append diff_is_0_eq drop0 length_take min.absorb2 min.cobounded1)
  moreover have "fill_ascii fresh cells bytes style = (take w cs @ rest @ drop ?len cells, w + more)"
    by (simp add: fill_ascii_def Let_def g t flip: c_def b_def)
  ultimately show ?thesis
    using run [symmetric] count [symmetric] by (simp add: Let_def flip: append_assoc)
qed

section \<open>Text\<close>

text \<open>\<open>str::chars\<close>: the encoding of a character, and \<open>Chars::next\<close> on valid UTF-8.\<close>

definition utf8 :: "uchar \<Rightarrow> 8 word list" where
  "utf8 c =
     (if c < 0x80 then [ucast c]
      else if c < 0x800 then [0xC0 OR ucast (drop_bit 6 c), 0x80 OR ucast (c AND 0x3F)]
      else if c < 0x10000 then
        [0xE0 OR ucast (drop_bit 12 c), 0x80 OR ucast (drop_bit 6 c AND 0x3F), 0x80 OR ucast (c AND 0x3F)]
      else
        [0xF0 OR ucast (drop_bit 18 c), 0x80 OR ucast (drop_bit 12 c AND 0x3F),
         0x80 OR ucast (drop_bit 6 c AND 0x3F), 0x80 OR ucast (c AND 0x3F)])"

definition cont :: "8 word \<Rightarrow> uchar" where "cont b = ucast (b AND 0x3F)"

fun next_char :: "8 word list \<Rightarrow> (uchar \<times> 8 word list) option" where
  "next_char [] = None"
| "next_char (x # bs) =
     (if x < 0x80 then Some (ucast x, bs)
      else case bs of [] \<Rightarrow> None | y # bs \<Rightarrow>
        if x < 0xE0 then Some (push_bit 6 (ucast (x AND 0x1F)) OR cont y, bs)
        else case bs of [] \<Rightarrow> None | z # bs \<Rightarrow>
          if x < 0xF0
          then Some (push_bit 12 (ucast (x AND 0x1F)) OR push_bit 6 (cont y) OR cont z, bs)
          else case bs of [] \<Rightarrow> None | w # bs \<Rightarrow>
            Some (push_bit 18 (ucast (x AND 0x07)) OR push_bit 12 (cont y) OR push_bit 6 (cont z) OR cont w, bs))"

definition char_width :: "(uchar \<Rightarrow> nat option) \<Rightarrow> uchar \<Rightarrow> nat option" where
  "char_width uw c =
     (if 0x20 \<le> c \<and> c \<le> 0x7E then Some 1
      else if 0x4E00 \<le> c \<and> c \<le> 0x9FFF then Some 2 else uw c)"

text \<open>
  \<open>fill_ideographs\<close>: the rest of the cells and of the bytes are the arguments of the loop.
  The result is the cells, the unread bytes and the number of cells written.
\<close>

fun fill_ideographs ::
  "bool \<Rightarrow> style_id \<Rightarrow> cell list \<Rightarrow> 8 word list \<Rightarrow> cell list \<times> 8 word list \<times> nat" where
  "fill_ideographs fresh style (c1 # c2 # cells) (x # y # z # bytes) =
     (let code = push_bit 12 (ucast (x AND 0x0F)) OR push_bit 6 (ucast (y AND 0x3F)) OR ucast (z AND 0x3F) :: uchar
      in if x AND 0xF0 \<noteq> 0xE0 \<or> \<not> (0x4E00 \<le> code \<and> code \<le> 0x9FFF)
            \<or> \<not> (fresh \<or> is_simple c1 \<and> is_simple c2)
         then (c1 # c2 # cells, x # y # z # bytes, 0)
         else let c = (if is_scalar code then code else SPACE);
                  (cells', rest, written) = fill_ideographs fresh style cells bytes
              in (cell_write c style WIDE_CHAR # cell_write SPACE style WIDE_CHAR_SPACER # cells',
                  rest, 2 + written))"
| "fill_ideographs fresh style cells bytes = (cells, bytes, 0)"

lemma length_fill_ideographs: "fill_ideographs fresh style cells bytes = (cells', rest, n) \<Longrightarrow>
    length cells' = length cells \<and> n \<le> length cells"
  by (induction fresh style cells bytes arbitrary: cells' rest n rule: fill_ideographs.induct)
    (auto simp: Let_def split: if_splits prod.splits)

text \<open>The loop of \<open>fill_chars\<close>, over the cells not written yet.\<close>

function fill_chars_loop ::
  "(uchar \<Rightarrow> nat option) \<Rightarrow> bool \<Rightarrow> nat \<Rightarrow> style_id \<Rightarrow> cell list \<Rightarrow> 8 word list \<Rightarrow> cell list \<times> 8 word list \<times> nat"
  where
  "fill_chars_loop uw fresh width style cells text =
     (if width = 0 \<or> length cells < width then (cells, text, 0)
      else
        let (cells1, text1, w) =
              (if width = 2 then fill_ideographs fresh style cells text else (cells, text, 0))
        in if length cells < w + width then (cells1, text1, w)
           else case next_char text1 of
             None \<Rightarrow> (cells1, text1, w)
           | Some (c, text2) \<Rightarrow>
               let fits = (char_width uw c = Some width \<and>
                     (fresh \<or> is_simple (cells1 ! w) \<and> (width = 1 \<or> is_simple (cells1 ! (w + 1)))))
               in if \<not> fits then (cells1, text1, w)
                  else
                    let new = (if width = 1 then [cell_write c style 0]
                               else [cell_write c style WIDE_CHAR, cell_write SPACE style WIDE_CHAR_SPACER]);
                        (tail, text3, more) = fill_chars_loop uw fresh width style (drop (w + width) cells1) text2
                    in (take w cells1 @ new @ tail, text3, w + width + more))"
  by pat_completeness auto
termination
  by (relation "measure (\<lambda>(_, _, _, _, cells, _). length cells)")
    (auto split: if_splits dest!: length_fill_ideographs [OF sym])

declare fill_chars_loop.simps [simp del]

definition fill_chars ::
  "(uchar \<Rightarrow> nat option) \<Rightarrow> bool \<Rightarrow> nat \<Rightarrow> style_id \<Rightarrow> cell list \<Rightarrow> 8 word list \<Rightarrow>
   (cell list \<times> 8 word list \<times> nat) option" where
  "fill_chars uw fresh width style cells text =
     (if width = 1 \<or> width = 2 then Some (fill_chars_loop uw fresh width style cells text) else None)"

section \<open>Decoding undoes encoding\<close>

lemma small_word:
  assumes "v < of_nat k" "k < 2 ^ LENGTH('a)" "list_all P (map of_nat [0..<k])"
  shows "P (v :: 'a::len word)"
proof -
  have "unat v < k"
    using assms(1,2) by (simp add: word_less_nat_alt unat_of_nat)
  moreover have "\<forall>n < k. P (of_nat n)"
    using assms(3) by (auto simp: list_all_iff)
  ultimately have "P (of_nat (unat v))" by blast
  then show ?thesis by simp
qed

lemma lead2: "v < 32 \<Longrightarrow> \<not> 0xC0 OR v < (0x80 :: 8 word) \<and> 0xC0 OR v < (0xE0 :: 8 word) \<and> (0xC0 OR v) AND 0x1F = v
   \<and> (0xC0 OR v) AND 0xF0 \<noteq> 0xE0"
  by (rule small_word [where k = 32]) (simp_all add: upt_rec)

lemma lead3: "v < 16 \<Longrightarrow> \<not> 0xE0 OR v < (0x80 :: 8 word) \<and> \<not> 0xE0 OR v < (0xE0 :: 8 word) \<and> 0xE0 OR v < (0xF0 :: 8 word)
   \<and> (0xE0 OR v) AND 0x1F = v \<and> (0xE0 OR v) AND 0x0F = v \<and> (0xE0 OR v) AND 0xF0 = 0xE0"
  by (rule small_word [where k = 16]) (simp_all add: upt_rec)

lemma lead4: "v < 8 \<Longrightarrow> \<not> 0xF0 OR v < (0x80 :: 8 word) \<and> \<not> 0xF0 OR v < (0xE0 :: 8 word) \<and> \<not> 0xF0 OR v < (0xF0 :: 8 word)
   \<and> (0xF0 OR v) AND 0x07 = v \<and> (0xF0 OR v) AND 0xF0 = 0xF0"
  by (rule small_word [where k = 8]) (simp_all add: upt_rec)

lemma cont_byte: "cont (0x80 OR ucast (d AND 0x3F)) = d AND 0x3F" for d :: uchar
proof -
  have m: "(0x3F :: uchar) = mask 6" "(0x3F :: 8 word) = mask 6" "(0x80 :: 8 word) = push_bit 7 1"
    by (simp_all add: mask_eq_exp_minus_1)
  show ?thesis unfolding cont_def m
  proof (rule bit_word_eqI)
    fix n assume "n < LENGTH(32)"
    show "bit (ucast ((push_bit 7 1 OR ucast (d AND mask 6)) AND mask 6 :: 8 word) :: uchar) n = bit (d AND mask 6) n"
      unfolding bit_unsigned_iff bit_and_iff bit_or_iff bit_mask_iff bit_push_one
      by (auto dest: bit_imp_le_length)
  qed
qed

lemma split2: "push_bit 6 (drop_bit 6 d) OR d AND 0x3F = d" for d :: uchar
proof -
  have m: "(0x3F :: uchar) = mask 6"
    by (simp_all add: mask_eq_exp_minus_1)
  show ?thesis unfolding m
    by (rule bit_word_eqI) (auto simp: bit_simps)
qed

lemma split3: "push_bit 12 (drop_bit 12 d) OR push_bit 6 (drop_bit 6 d AND 0x3F) OR d AND 0x3F = d" for d :: uchar
proof -
  have m: "(0x3F :: uchar) = mask 6"
    by (simp_all add: mask_eq_exp_minus_1)
  show ?thesis unfolding m
  proof (rule bit_word_eqI)
    fix n
    show "bit (push_bit 12 (drop_bit 12 d) OR push_bit 6 (drop_bit 6 d AND mask 6) OR d AND mask 6) n = bit d n"
      if "n < LENGTH(32)"
      using that by (cases "n < 6"; cases "n < 12") (auto simp: bit_simps)
  qed
qed

lemma split4: "push_bit 18 (drop_bit 18 d) OR push_bit 12 (drop_bit 12 d AND 0x3F) OR
   push_bit 6 (drop_bit 6 d AND 0x3F) OR d AND 0x3F = d" for d :: uchar
proof -
  have m: "(0x3F :: uchar) = mask 6"
    by (simp_all add: mask_eq_exp_minus_1)
  show ?thesis unfolding m
  proof (rule bit_word_eqI)
    fix n
    show "bit (push_bit 18 (drop_bit 18 d) OR push_bit 12 (drop_bit 12 d AND mask 6) OR
        push_bit 6 (drop_bit 6 d AND mask 6) OR d AND mask 6) n = bit d n"
      if "n < LENGTH(32)"
      using that by (cases "n < 6"; cases "n < 12"; cases "n < 18") (auto simp: bit_simps)
  qed
qed

lemma lead_small:
  fixes c :: uchar
  assumes "c < push_bit (k + m) 1" "k + m < 32" "m < 8"
  shows "(ucast (drop_bit k c) :: 8 word) < push_bit m 1" "ucast (ucast (drop_bit k c) :: 8 word) = drop_bit k c"
proof -
  have "unat c < 2 ^ m * 2 ^ k"
  proof -
    have "unat c < unat (push_bit (k + m) 1 :: uchar)"
      using assms(1) by (simp only: word_less_nat_alt)
    also have "\<dots> = 2 ^ (k + m)"
    proof -
      have e: "push_bit (k + m) 1 = (of_nat (2 ^ (k + m)) :: uchar)"
        by (simp add: push_bit_eq_mult)
      have "(2::nat) ^ (k + m) < 2 ^ LENGTH(32)" using assms(2) by (intro power_strict_increasing) simp_all
      then show ?thesis unfolding e unat_of_nat by simp
    qed
    finally show ?thesis by (simp add: power_add mult.commute)
  qed
  then have d: "unat (drop_bit k c) < 2 ^ m"
    by (simp only: unat_drop_bit_eq) (simp only: drop_bit_eq_div less_mult_imp_div_less)
  have "(2::nat) ^ m < 2 ^ 8" using assms(3) by (intro power_strict_increasing) simp_all
  with d have d8: "unat (drop_bit k c) < 2 ^ 8" by simp
  then have u: "unat (ucast (drop_bit k c) :: 8 word) = unat (drop_bit k c)"
    by (simp add: unsigned_ucast_eq take_bit_nat_eq_self)
  then show "ucast (ucast (drop_bit k c) :: 8 word) = drop_bit k c"
  proof -
    have "unat (ucast (ucast (drop_bit k c) :: 8 word) :: uchar) = unat (drop_bit k c)"
      using u by (simp add: unsigned_ucast_eq unsigned_take_bit_eq)
    then show ?thesis by (rule unsigned_word_eqI)
  qed
  have "unat (push_bit m 1 :: 8 word) = 2 ^ m"
  proof -
    have e: "push_bit m 1 = (of_nat (2 ^ m) :: 8 word)"
      by (simp add: push_bit_eq_mult)
    show ?thesis unfolding e unat_of_nat using \<open>2 ^ m < 2 ^ 8\<close> by simp
  qed
  then show "(ucast (drop_bit k c) :: 8 word) < push_bit m 1"
    using u d by (simp only: word_less_nat_alt)
qed

lemma byte_cases:
  fixes c :: uchar
  assumes "is_scalar c"
  obtains (1) "c < 0x80" "utf8 c = [ucast c]"
  | (2) d where "c < 0x800" "utf8 c = [0xC0 OR d, 0x80 OR ucast (c AND 0x3F)]"
      "\<not> 0xC0 OR d < 0x80" "0xC0 OR d < 0xE0" "ucast ((0xC0 OR d) AND 0x1F) = drop_bit 6 c"
      "(0xC0 OR d) AND 0xF0 \<noteq> 0xE0"
  | (3) d where "0x800 \<le> c" "c < 0x10000"
      "utf8 c = [0xE0 OR d, 0x80 OR ucast (drop_bit 6 c AND 0x3F), 0x80 OR ucast (c AND 0x3F)]"
      "\<not> 0xE0 OR d < 0x80" "\<not> 0xE0 OR d < 0xE0" "0xE0 OR d < 0xF0"
      "ucast ((0xE0 OR d) AND 0x1F) = drop_bit 12 c" "ucast ((0xE0 OR d) AND 0x0F) = drop_bit 12 c"
      "(0xE0 OR d) AND 0xF0 = 0xE0"
  | (4) d where "0x10000 \<le> c"
      "utf8 c = [0xF0 OR d, 0x80 OR ucast (drop_bit 12 c AND 0x3F),
        0x80 OR ucast (drop_bit 6 c AND 0x3F), 0x80 OR ucast (c AND 0x3F)]"
      "\<not> 0xF0 OR d < 0x80" "\<not> 0xF0 OR d < 0xE0" "\<not> 0xF0 OR d < 0xF0"
      "ucast ((0xF0 OR d) AND 0x07) = drop_bit 18 c" "(0xF0 OR d) AND 0xF0 \<noteq> 0xE0"
proof -
  consider "c < 0x80" | "\<not> c < 0x80" "c < 0x800" | "\<not> c < 0x800" "c < 0x10000" | "\<not> c < 0x10000"
    by blast
  then show thesis
  proof cases
    case 1
    then show ?thesis by (intro that(1)) (simp_all add: utf8_def)
  next
    case 2
    let ?d = "ucast (drop_bit 6 c) :: 8 word"
    have "c < push_bit (6 + 5) 1" using 2 by simp
    note d = lead_small [OF this]
    have "?d < 32" using d(1) by simp
    note lead = lead2 [OF this]
    show ?thesis
      by (rule that(2) [of ?d]) (use 2 d(2) lead in \<open>simp_all add: utf8_def\<close>)
  next
    case 3
    let ?d = "ucast (drop_bit 12 c) :: 8 word"
    have "c < push_bit (12 + 4) 1" using 3 by simp
    note d = lead_small [OF this]
    have "?d < 16" using d(1) by simp
    note lead = lead3 [OF this]
    have "\<not> c < 0x80" using 3(1) by (auto intro: less_trans)
    then show ?thesis
      by (intro that(3) [of ?d]) (use 3 d(2) lead in \<open>simp_all add: utf8_def not_less\<close>)
  next
    case 4
    let ?d = "ucast (drop_bit 18 c) :: 8 word"
    have "c < push_bit (18 + 3) 1" using assms by (auto simp: is_scalar_def intro: less_trans)
    note d = lead_small [OF this]
    have "?d < 8" using d(1) by simp
    note lead = lead4 [OF this]
    have "\<not> c < 0x80" "\<not> c < 0x800" using 4 by (auto intro: less_trans)
    then show ?thesis
      by (intro that(4) [of ?d]) (use 4 d(2) lead in \<open>simp_all add: utf8_def not_less\<close>)
  qed
qed

lemma next_char_utf8:
  assumes "is_scalar c"
  shows "next_char (utf8 c @ rest) = Some (c, rest)"
  using assms
proof (cases rule: byte_cases)
  case 1
  have "c < push_bit (0 + 7) 1" using 1(1) by simp
  from lead_small [OF this] have "(ucast c :: 8 word) < 0x80" "ucast (ucast c :: 8 word) = c" by simp_all
  then show ?thesis unfolding 1(2) by simp
next
  case (2 d)
  show ?thesis unfolding 2(2) append.simps next_char.simps
    by (simp only: 2 if_False if_True list.case cont_byte split2)
next
  case (3 d)
  show ?thesis unfolding 3(3) append.simps next_char.simps
    by (simp only: 3 if_False if_True list.case cont_byte split3)
next
  case (4 d)
  show ?thesis unfolding 4(2) append.simps next_char.simps
    by (simp only: 4 if_False if_True list.case cont_byte split4)
qed

lemma ideograph_code:
  assumes "is_scalar c" "utf8 c @ rest = x # y # z # bytes"
  shows "x AND 0xF0 = 0xE0 \<longleftrightarrow> 0x800 \<le> c \<and> c < 0x10000"
    and "0x800 \<le> c \<and> c < 0x10000 \<Longrightarrow>
      push_bit 12 (ucast (x AND 0x0F)) OR push_bit 6 (ucast (y AND 0x3F)) OR ucast (z AND 0x3F) = c
      \<and> bytes = rest"
  using assms(1)
proof (atomize (full), cases rule: byte_cases)
  case 1
  have "c < push_bit (0 + 7) 1" using 1(1) by simp
  from lead_small(1) [OF this] have "\<not> bit (ucast c :: 8 word) 7"
    by (intro not_bit_of_less [of _ 7]) simp_all
  then have "(ucast c :: 8 word) AND 0xF0 \<noteq> 0xE0"
    by (auto dest!: arg_cong [of _ _ "\<lambda>b. bit b 7"] simp: bit_and_iff)
  moreover have "x = ucast c" using assms(2) 1(2) by simp
  moreover have "\<not> 0x800 \<le> c" using 1(1) by (auto simp: not_le intro: less_trans)
  ultimately show "(x AND 0xF0 = 0xE0 \<longleftrightarrow> 0x800 \<le> c \<and> c < 0x10000) \<and> (0x800 \<le> c \<and> c < 0x10000 \<longrightarrow>
      push_bit 12 (ucast (x AND 0x0F)) OR push_bit 6 (ucast (y AND 0x3F)) OR ucast (z AND 0x3F) = c
      \<and> bytes = rest)" by simp
next
  case (2 d)
  then have "x = 0xC0 OR d" "\<not> 0x800 \<le> c" using assms(2) by simp_all
  with 2 show "(x AND 0xF0 = 0xE0 \<longleftrightarrow> 0x800 \<le> c \<and> c < 0x10000) \<and> (0x800 \<le> c \<and> c < 0x10000 \<longrightarrow>
      push_bit 12 (ucast (x AND 0x0F)) OR push_bit 6 (ucast (y AND 0x3F)) OR ucast (z AND 0x3F) = c
      \<and> bytes = rest)" by simp
next
  case (3 d)
  then have "x = 0xE0 OR d" and y: "y = 0x80 OR ucast (drop_bit 6 c AND 0x3F)"
    and z: "z = 0x80 OR ucast (c AND 0x3F)" and r: "bytes = rest" using assms(2) by simp_all
  moreover have "ucast (y AND 0x3F) = drop_bit 6 c AND 0x3F" "ucast (z AND 0x3F) = c AND 0x3F"
    using cont_byte by (simp_all only: y z cont_def)
  ultimately show "(x AND 0xF0 = 0xE0 \<longleftrightarrow> 0x800 \<le> c \<and> c < 0x10000) \<and> (0x800 \<le> c \<and> c < 0x10000 \<longrightarrow>
      push_bit 12 (ucast (x AND 0x0F)) OR push_bit 6 (ucast (y AND 0x3F)) OR ucast (z AND 0x3F) = c
      \<and> bytes = rest)"
    using 3 split3 by (simp only:) simp
next
  case (4 d)
  then have "x = 0xF0 OR d" "\<not> c < 0x10000" using assms(2) by simp_all
  with 4 show "(x AND 0xF0 = 0xE0 \<longleftrightarrow> 0x800 \<le> c \<and> c < 0x10000) \<and> (0x800 \<le> c \<and> c < 0x10000 \<longrightarrow>
      push_bit 12 (ucast (x AND 0x0F)) OR push_bit 6 (ucast (y AND 0x3F)) OR ucast (z AND 0x3F) = c
      \<and> bytes = rest)" by simp
qed

definition text_of :: "uchar list \<Rightarrow> 8 word list" where
  "text_of cs = concat (map utf8 cs)"

lemma text_of_simps [simp]: "text_of [] = []" "text_of (c # cs) = utf8 c @ text_of cs"
  by (simp_all add: text_of_def)

text \<open>The same run one character at a time.\<close>

fun char_run ::
  "(uchar \<Rightarrow> nat option) \<Rightarrow> bool \<Rightarrow> nat \<Rightarrow> style_id \<Rightarrow> cell list \<Rightarrow> uchar list \<Rightarrow>
   cell list \<times> uchar list \<times> nat" where
  "char_run uw fresh width style cells [] = (cells, [], 0)"
| "char_run uw fresh width style cells (c # cs) =
     (if width \<le> length cells \<and> char_width uw c = Some width \<and>
         (fresh \<or> list_all is_simple (take width cells))
      then let (rest, cs', n) = char_run uw fresh width style (drop width cells) cs
           in ((if width = 1 then [cell_write c style 0]
                else [cell_write c style WIDE_CHAR, cell_write SPACE style WIDE_CHAR_SPACER]) @ rest,
               cs', width + n)
      else (cells, c # cs, 0))"

lemma ideograph_range:
  assumes "0x4E00 \<le> c" "c \<le> (0x9FFF :: uchar)"
  shows "0x800 \<le> c" "c < 0x10000" "is_scalar c" "char_width uw c = Some 2"
proof -
  show "0x800 \<le> c" using assms(1) by (rule order_trans [rotated]) simp
  show "c < 0x10000" using assms(2) by (auto intro: le_less_trans)
  show "is_scalar c" using assms(2) by (auto simp: is_scalar_def intro: le_less_trans)
  have "\<not> c \<le> 0x7E"
    unfolding not_le using assms(1) by (rule less_le_trans [rotated]) simp
  then show "char_width uw c = Some 2" using assms by (simp add: char_width_def)
qed

lemma fill_ideographs_run:
  assumes "list_all is_scalar cs" "fill_ideographs fresh style cells (text_of cs) = (cells1, text1, w)"
  shows "\<exists>cs1. text1 = text_of cs1 \<and> list_all is_scalar cs1 \<and>
    drop w cells1 = drop w cells \<and> length cells1 = length cells \<and> w \<le> length cells \<and>
    char_run uw fresh 2 style cells cs =
      (let (rest, cs', n) = char_run uw fresh 2 style (drop w cells) cs1
       in (take w cells1 @ rest, cs', w + n))"
  using assms
proof (induction cs arbitrary: cells cells1 w)
  case Nil
  then have "cells1 = cells \<and> text1 = [] \<and> w = 0"
    by (cases "(fresh, style, cells, [] :: 8 word list)" rule: fill_ideographs.cases) auto
  then show ?case by (intro exI [of _ "[]"]) simp
next
  case (Cons c cs)
  have c: "is_scalar c" using Cons.prems(1) by simp
  show ?case
  proof (cases "text1 = text_of (c # cs) \<and> cells1 = cells \<and> w = 0")
    case True
    then show ?thesis using Cons.prems(1)
      by (intro exI [of _ "c # cs"]) (simp add: Let_def split: prod.split)
  next
    case False
    then obtain c1 c2 cells' x y z bytes where shape: "cells = c1 # c2 # cells'"
      "text_of (c # cs) = x # y # z # bytes"
      using Cons.prems(2)
      by (cases "(fresh, style, cells, text_of (c # cs))" rule: fill_ideographs.cases) auto
    let ?code = "push_bit 12 (ucast (x AND 0x0F)) OR push_bit 6 (ucast (y AND 0x3F)) OR ucast (z AND 0x3F) :: uchar"
    have plain: "x AND 0xF0 = 0xE0" "0x4E00 \<le> ?code" "?code \<le> 0x9FFF"
      "fresh \<or> is_simple c1 \<and> is_simple c2"
      using False Cons.prems(2) unfolding shape by (auto simp: Let_def split: if_splits)
    note ic = ideograph_code [OF c, of "text_of cs" x y z bytes]
    have code: "?code = c" "bytes = text_of cs"
      using ic plain(1) shape(2) by simp_all
    note range = ideograph_range [OF plain(2,3), unfolded code(1)]
    obtain cells2 w2 where rec: "fill_ideographs fresh style cells' (text_of cs) = (cells2, text1, w2)"
      and res: "cells1 = cell_write c style WIDE_CHAR # cell_write SPACE style WIDE_CHAR_SPACER # cells2"
      "w = 2 + w2"
      using Cons.prems(2) plain range(3) unfolding shape fill_ideographs.simps Let_def code
      by (auto split: prod.splits if_splits)
    obtain cs1 where IH: "text1 = text_of cs1" "list_all is_scalar cs1"
      "drop w2 cells2 = drop w2 cells'" "length cells2 = length cells'" "w2 \<le> length cells'"
      "char_run uw fresh 2 style cells' cs =
        (let (rest, cs', n) = char_run uw fresh 2 style (drop w2 cells') cs1
         in (take w2 cells2 @ rest, cs', w2 + n))"
      using Cons.IH [OF _ rec] Cons.prems(1) by auto
    then show ?thesis
      using plain(4) range(4) [of uw] res
      by (intro exI [of _ cs1]) (auto simp: shape(1) Let_def split: prod.splits)
  qed
qed

lemma fill_chars_run:
  assumes "width = 1 \<or> width = 2" "list_all is_scalar cs"
  shows "fill_chars uw fresh width style cells (text_of cs) =
    Some (let (cells', cs', n) = char_run uw fresh width style cells cs in (cells', text_of cs', n))"
proof -
  have "fill_chars_loop uw fresh width style cells (text_of cs) =
    (let (cells', cs', n) = char_run uw fresh width style cells cs in (cells', text_of cs', n))"
    using assms(2)
  proof (induction "length cells" arbitrary: cells cs rule: less_induct)
    case less
    show ?case
    proof (cases "length cells < width")
      case True
      then show ?thesis
        by (cases cs; subst fill_chars_loop.simps) simp_all
    next
      case False
      obtain cells1 text1 w where f: "(if width = 2 then fill_ideographs fresh style cells (text_of cs)
          else (cells, text_of cs, 0)) = (cells1, text1, w)"
        by (metis prod_cases3)
      obtain cs1 where cs1: "text1 = text_of cs1" "list_all is_scalar cs1" "drop w cells1 = drop w cells"
        "length cells1 = length cells" "w \<le> length cells"
        "char_run uw fresh width style cells cs =
          (let (rest, cs', n) = char_run uw fresh width style (drop w cells) cs1
           in (take w cells1 @ rest, cs', w + n))"
      proof (cases "width = 2")
        case True
        then show ?thesis
          using fill_ideographs_run [OF less.prems, of fresh style cells cells1 text1 w uw] f that by auto
      next
        case False
        then show ?thesis using f less.prems that [of cs] by (auto split: prod.splits)
      qed
      have width: "width \<noteq> 0" using assms(1) by auto
      have whole: "take w cells1 @ drop w cells = cells1"
        by (simp flip: cs1(3))
      note loop = fill_chars_loop.simps [of uw fresh width style cells "text_of cs", unfolded f prod.case Let_def]
      show ?thesis
      proof (cases "length cells < w + width \<or> cs1 = []")
        case True
        then show ?thesis
          using width False whole
          by (cases cs1) (auto simp: loop cs1(1,6) Let_def)
      next
        case cont: False
        then obtain c cs2 where c: "cs1 = c # cs2" by (cases cs1) auto
        then have next_c: "next_char text1 = Some (c, text_of cs2)"
          using cs1(1,2) next_char_utf8 by simp
        have simple: "list_all is_simple (take width (drop w cells)) \<longleftrightarrow>
            is_simple (cells1 ! w) \<and> (width = 1 \<or> is_simple (cells1 ! (w + 1)))"
        proof -
          have "take width (drop w cells1) = (if width = 1 then [cells1 ! w] else [cells1 ! w, cells1 ! (w + 1)])"
            using assms(1)
          proof
            assume "width = 1"
            then show ?thesis
              using cont cs1(4) by (simp add: take_Suc_conv_app_nth)
          next
            assume "width = 2"
            moreover have "drop w cells1 = cells1 ! w # cells1 ! (w + 1) # drop (w + 2) cells1"
              using cont cs1(4) \<open>width = 2\<close> by (simp add: Cons_nth_drop_Suc)
            ultimately show ?thesis by simp
          qed
          then show ?thesis using assms(1) by (auto simp: cs1(3))
        qed
        have IH: "fill_chars_loop uw fresh width style (drop (w + width) cells1) (text_of cs2) =
          (let (cells', cs', n) = char_run uw fresh width style (drop (w + width) cells1) cs2
           in (cells', text_of cs', n))"
          using less.hyps [of "drop (w + width) cells1" cs2] cs1(2,4) c cont width by simp
        have dd: "drop (w + width) cells1 = drop width (drop w cells)"
          by (simp flip: cs1(3) add: add.commute)
        obtain r cs' n where run: "char_run uw fresh width style (drop width (drop w cells)) cs2 = (r, cs', n)"
          using prod_cases3 by blast
        have fits: "width \<le> length (drop w cells)" using cont by auto
        show ?thesis
        proof (cases "char_width uw c = Some width \<and>
            (fresh \<or> is_simple (cells1 ! w) \<and> (width = 1 \<or> is_simple (cells1 ! (w + 1))))")
          case True
          have "char_run uw fresh width style (drop w cells) cs1 =
              ((if width = 1 then [cell_write c style 0]
                else [cell_write c style WIDE_CHAR, cell_write SPACE style WIDE_CHAR_SPACER]) @ r, cs', width + n)"
            using True simple fits run assms(1) by (auto simp: c)
          moreover have "fill_chars_loop uw fresh width style (drop (w + width) cells1) (text_of cs2) =
              (r, text_of cs', n)"
            using IH run by (simp add: dd)
          ultimately show ?thesis
            using True width False cont next_c by (simp add: loop cs1(6))
        next
          case stop: False
          have "char_run uw fresh width style (drop w cells) cs1 = (drop w cells, cs1, 0)"
            using stop simple by (auto simp: c)
          then show ?thesis
            using stop width False cont next_c whole cs1(1) by (simp add: loop cs1(6))
        qed
      qed
    qed
  qed
  then show ?thesis
    using assms(1) by (simp add: fill_chars_def)
qed

section \<open>What the bulk writers promise\<close>

text \<open>
  C11. The bulk writer of ASCII text, which works in groups of eight bytes and ORs the
  character into a prepared word, writes exactly the cells of a byte-by-byte writer up to the
  first byte or cell it cannot take.
\<close>

theorem fill_ascii_correct:
  "fill_ascii fresh cells bytes style =
     (let n = ascii_run fresh cells bytes
      in (map (\<lambda>b. cell_write (ucast b) style 0) (take n bytes) @ drop n cells, n))"
  by (rule fill_ascii_run)

text \<open>
  C10. The bulk writer of wide characters, which decodes runs of three-byte ideographs by hand,
  writes exactly the cells that a character-by-character writer writes, stops at the same
  character, and returns the rest of the text; it never panics.
\<close>

theorem fill_chars_correct:
  assumes "width = 1 \<or> width = 2" "list_all is_scalar cs"
  shows "fill_chars uw fresh width style cells (text_of cs) =
    Some (let (cells', cs', n) = char_run uw fresh width style cells cs in (cells', text_of cs', n))"
  by (rule fill_chars_run [OF assms])

theorem fill_chars_correct_witness:
  "fill_chars (\<lambda>c. Some 1) False 2 0 [default_cell, default_cell, default_cell] (text_of [0x4E2D, 0x41]) =
    Some ([cell_write 0x4E2D 0 WIDE_CHAR, cell_write SPACE 0 WIDE_CHAR_SPACER, default_cell],
          text_of [0x41], 2)"
proof -
  have "list_all is_scalar [0x4E2D, 0x41]" by code_simp
  moreover have "char_run (\<lambda>c. Some 1) False 2 0 [default_cell, default_cell, default_cell] [0x4E2D, 0x41] =
      ([cell_write 0x4E2D 0 WIDE_CHAR, cell_write SPACE 0 WIDE_CHAR_SPACER, default_cell], [0x41], 2)"
    by code_simp
  ultimately show ?thesis
    using fill_chars_correct [of 2 "[0x4E2D, 0x41]" "\<lambda>c. Some 1" False 0 "[default_cell, default_cell, default_cell]"]
    by simp
qed

end
