(* ===== verification/Row.thy ===== *)
theory Row
  imports Fill
begin

text \<open>
  The rows of the grid, \<open>src/terminal/grid/row.rs\<close>, generic in the cell type.

  The traits \<open>GridCell\<close>, \<open>Default\<close> and \<open>ResetDiscriminant\<close> a cell type implements are the
  fields of a record of operations, the argument \<open>G\<close> of the definitions that need them; the
  locale \<open>grid_cell\<close> states what the grid relies on, and is interpreted on the packed cell and on
  the unpacked one. A closure \<open>write\<close> over a mutable slice takes the slice and returns it with
  its new content, what else the closure changed, and how many cells it wrote. Capacities of
  vectors are not modelled.
\<close>

section \<open>The operations of a cell type\<close>

record 'c cell_ops =
  gc_default :: 'c
  gc_is_empty :: "'c \<Rightarrow> bool"
  gc_layout :: "'c \<Rightarrow> flags"
  gc_insert_layout :: "'c \<Rightarrow> flags \<Rightarrow> 'c"
  gc_remove_layout :: "'c \<Rightarrow> flags \<Rightarrow> 'c"
  gc_extra :: "'c \<Rightarrow> extra_id"
  gc_set_extra :: "'c \<Rightarrow> extra_id \<Rightarrow> 'c"
  gc_reset :: "'c \<Rightarrow> 'c \<Rightarrow> 'c"
  gc_disc :: "'c \<Rightarrow> style_id"

definition packed_cell_ops :: "cell cell_ops" where
  "packed_cell_ops = \<lparr>gc_default = default_cell, gc_is_empty = cell_is_empty, gc_layout = cell_layout,
     gc_insert_layout = insert_layout, gc_remove_layout = remove_layout, gc_extra = extra_of,
     gc_set_extra = set_extra_id, gc_reset = cell_reset, gc_disc = cell_style\<rparr>"

definition unpacked_cell_ops :: "unpacked_cell cell_ops" where
  "unpacked_cell_ops = \<lparr>gc_default = default_unpacked, gc_is_empty = uc_is_empty, gc_layout = uc_layout,
     gc_insert_layout = uc_insert_layout, gc_remove_layout = uc_remove_layout, gc_extra = uc_extra,
     gc_set_extra = uc_set_extra, gc_reset = uc_reset, gc_disc = uc_style\<rparr>"

lemma packed_sel [simp]:
  "gc_default packed_cell_ops = default_cell" "gc_is_empty packed_cell_ops = cell_is_empty"
  "gc_layout packed_cell_ops = cell_layout" "gc_insert_layout packed_cell_ops = insert_layout"
  "gc_remove_layout packed_cell_ops = remove_layout" "gc_extra packed_cell_ops = extra_of"
  "gc_set_extra packed_cell_ops = set_extra_id" "gc_reset packed_cell_ops = cell_reset"
  "gc_disc packed_cell_ops = cell_style"
  by (simp_all add: packed_cell_ops_def)

section \<open>Rows\<close>

record 'c row =
  inner :: "'c list"
  occ :: nat
  extras :: row_extras

definition row_new :: "'c cell_ops \<Rightarrow> nat \<Rightarrow> 'c row option" where
  "row_new G columns =
     (if 1 \<le> columns then Some \<lparr>inner = replicate columns (gc_default G), occ = 0, extras = []\<rparr> else None)"

definition row_grow :: "'c cell_ops \<Rightarrow> nat \<Rightarrow> 'c row \<Rightarrow> 'c row" where
  "row_grow G columns r =
     (if columns \<le> length (inner r) then r
      else r\<lparr>inner := inner r @ replicate (columns - length (inner r)) (gc_default G)\<rparr>)"

definition trim_end :: "'c cell_ops \<Rightarrow> 'c list \<Rightarrow> 'c list" where
  "trim_end G cs = rev (dropWhile (gc_is_empty G) (rev cs))"

definition row_shrink :: "'c cell_ops \<Rightarrow> nat \<Rightarrow> 'c row \<Rightarrow> 'c list option \<times> 'c row" where
  "row_shrink G columns r =
     (if length (inner r) \<le> columns then (None, r)
      else let new_row = trim_end G (drop columns (inner r));
               r' = r\<lparr>inner := take columns (inner r), occ := min (occ r) columns\<rparr>
           in (if new_row = [] then None else Some new_row, r'))"

definition row_reset :: "'c cell_ops \<Rightarrow> 'c \<Rightarrow> 'c row \<Rightarrow> 'c row option" where
  "row_reset G template r =
     (let len = length (inner r) in
      do { n \<leftarrow> usub len 1;
           last_cell \<leftarrow> idx (inner r) n;
           let occ1 = (if gc_disc G last_cell \<noteq> gc_disc G template then len else occ r);
           if occ1 \<le> len
           then Some (r\<lparr>inner := map (\<lambda>c. gc_reset G c template) (take occ1 (inner r)) @ drop occ1 (inner r),
                        extras := [], occ := 0\<rparr>)
           else None })"

type_synonym ('c, 'r) writer = "'c list \<Rightarrow> ('c list \<times> 'r \<times> nat) option"

definition row_reset_with_prefix ::
  "'c cell_ops \<Rightarrow> 'c \<Rightarrow> nat \<Rightarrow> ('c, 'r) writer \<Rightarrow> 'c row \<Rightarrow> ('r \<times> nat \<times> 'c row) option" where
  "row_reset_with_prefix G template len write r =
     (let row_len = length (inner r) in
      do { n \<leftarrow> usub row_len 1;
           last_cell \<leftarrow> idx (inner r) n;
           let end = (if gc_disc G last_cell = gc_disc G template then occ r else row_len);
           if row_len < len then None
           else do {
             (slice, res, written) \<leftarrow> write (take len (inner r));
             let cells = slice @ drop len (inner r);
             if len < written then None
             else if written < end \<and> row_len < end then None
             else let cells' = (if written < end
                    then take written cells @
                         map (\<lambda>c. gc_reset G c template) (take (end - written) (drop written cells)) @
                         drop end cells
                    else cells)
                  in Some (res, written, r\<lparr>inner := cells', extras := [], occ := written\<rparr>) } })"

definition row_from_vec :: "'c list \<Rightarrow> nat \<Rightarrow> 'c row" where
  "row_from_vec cs n = \<lparr>inner = cs, occ = n, extras = []\<rparr>"

definition row_last_mut :: "('c \<Rightarrow> 'c) \<Rightarrow> 'c row \<Rightarrow> 'c row" where
  "row_last_mut f r =
     r\<lparr>occ := length (inner r),
       inner := (if inner r = [] then [] else butlast (inner r) @ [f (last (inner r))])\<rparr>"

definition row_append :: "'c list \<Rightarrow> 'c row \<Rightarrow> 'c row" where
  "row_append cs r = r\<lparr>occ := occ r + length cs, inner := inner r @ cs\<rparr>"

definition row_append_front :: "'c list \<Rightarrow> 'c row \<Rightarrow> 'c row" where
  "row_append_front cs r = r\<lparr>occ := occ r + length cs, inner := cs @ inner r\<rparr>"

definition row_is_clear :: "'c cell_ops \<Rightarrow> 'c row \<Rightarrow> bool" where
  "row_is_clear G r \<longleftrightarrow> list_all (gc_is_empty G) (inner r)"

definition row_front_split_off :: "nat \<Rightarrow> 'c row \<Rightarrow> ('c list \<times> 'c row) option" where
  "row_front_split_off at r =
     (if at \<le> length (inner r)
      then Some (take at (inner r), r\<lparr>occ := occ r - at, inner := drop at (inner r)\<rparr>)
      else None)"

definition row_map :: "('c row \<Rightarrow> 'c \<Rightarrow> 'd) \<Rightarrow> 'c row \<Rightarrow> 'd row" where
  "row_map f r = \<lparr>inner = map (f r) (inner r), occ = occ r, extras = []\<rparr>"

definition row_write_prefix ::
  "nat \<Rightarrow> nat \<Rightarrow> ('c, 'r) writer \<Rightarrow> 'c row \<Rightarrow> ('r \<times> nat \<times> 'c row) option" where
  "row_write_prefix start len write r =
     (if length (inner r) < start + len then None
      else do {
        (slice, res, written) \<leftarrow> write (take len (drop start (inner r)));
        if len < written then None
        else Some (res, written,
          r\<lparr>inner := take start (inner r) @ slice @ drop (start + len) (inner r),
            occ := (if 0 < written then max (occ r) (start + written) else occ r)\<rparr>) })"

definition row_map_owned :: "('c \<Rightarrow> 'd) \<Rightarrow> 'c row \<Rightarrow> 'd row" where
  "row_map_owned f r = \<lparr>inner = map f (inner r), occ = occ r, extras = extras r\<rparr>"

text \<open>\<open>Index\<close> and \<open>IndexMut\<close> with a column, and \<open>IndexMut\<close> with a range of columns.\<close>

definition row_get :: "'c row \<Rightarrow> nat \<Rightarrow> 'c option" where
  "row_get r column = idx (inner r) column"

definition row_modify :: "nat \<Rightarrow> ('c \<Rightarrow> 'c) \<Rightarrow> 'c row \<Rightarrow> 'c row option" where
  "row_modify column f r =
     do { c \<leftarrow> idx (inner r) column;
          cs \<leftarrow> upd (inner r) column (f c);
          Some (r\<lparr>occ := max (occ r) (column + 1), inner := cs\<rparr>) }"

definition row_modify_range :: "nat \<Rightarrow> nat \<Rightarrow> ('c list \<Rightarrow> 'c list) \<Rightarrow> 'c row \<Rightarrow> 'c row option" where
  "row_modify_range start end f r =
     (if start \<le> end \<and> end \<le> length (inner r)
      then Some (r\<lparr>occ := max (occ r) end,
        inner := take start (inner r) @ f (take (end - start) (drop start (inner r))) @ drop end (inner r)\<rparr>)
      else None)"

section \<open>Extra content\<close>

definition row_zerowidth :: "'c cell_ops \<Rightarrow> 'c row \<Rightarrow> 'c \<Rightarrow> uchar list option option" where
  "row_zerowidth G r c = extras_zerowidth (extras r) (gc_extra G c)"

definition set_extras_step ::
  "'c cell_ops \<Rightarrow> extra_id list \<Rightarrow> 'c \<Rightarrow> 'c list \<Rightarrow> 'c list option" where
  "set_extras_step G remap c done =
     do { e \<leftarrow> extras_remapped remap (gc_extra G c); Some (done @ [gc_set_extra G c e]) }"

definition row_update_extra ::
  "'c cell_ops \<Rightarrow> nat \<Rightarrow> (cell_extra \<Rightarrow> cell_extra) \<Rightarrow> 'c row \<Rightarrow> 'c row option" where
  "row_update_extra G column update r =
     do { c \<leftarrow> idx (inner r) column;
          (es, i) \<leftarrow> Extra.extras_update (extras r) (gc_extra G c) update;
          r1 \<leftarrow> row_modify column (\<lambda>c. gc_set_extra G c i) (r\<lparr>extras := es\<rparr>);
          let limit = min (max (length (inner r1)) 8 * 2) (PACKED_CAPACITY - 1);
          if limit < length es
          then do { (es', remap) \<leftarrow> extras_compact es (map (gc_extra G) (inner r1));
                    cells \<leftarrow> for_each (set_extras_step G remap) (inner r1) [];
                    Some (r1\<lparr>extras := es', inner := cells\<rparr>) }
          else Some r1 }"

definition export_step ::
  "'c cell_ops \<Rightarrow> 'c \<Rightarrow> 'c list \<times> row_extras \<times> cell_extra list \<Rightarrow>
   ('c list \<times> row_extras \<times> cell_extra list) option" where
  "export_step G c = (\<lambda>(done, es, gathered).
     do { (es', i, gathered') \<leftarrow> extras_export es (gc_extra G c) gathered;
          Some (done @ [gc_set_extra G c i], es', gathered') })"

definition row_export_extras ::
  "'c cell_ops \<Rightarrow> 'c row \<Rightarrow> cell_extra list \<Rightarrow> ('c row \<times> cell_extra list) option" where
  "row_export_extras G r gathered =
     (if extras r = [] then Some (r, gathered)
      else do { (cells, es, gathered') \<leftarrow> for_each (export_step G) (inner r) ([], extras r, gathered);
                Some (r\<lparr>inner := cells, extras := []\<rparr>, gathered') })"

definition import_step ::
  "'c cell_ops \<Rightarrow> nat \<times> 'c \<Rightarrow> 'c list \<times> nat \<times> row_extras \<times> cell_extra list \<Rightarrow>
   ('c list \<times> nat \<times> row_extras \<times> cell_extra list) option" where
  "import_step G = (\<lambda>(column, c) (done, n, es, gathered).
     if gc_extra G c \<noteq> extra_none
     then do { (es', i, gathered') \<leftarrow> extras_import es (gc_extra G c) gathered;
               Some (done @ [gc_set_extra G c i], max n (column + 1), es', gathered') }
     else Some (done @ [c], n, es, gathered))"

definition row_import_extras ::
  "'c cell_ops \<Rightarrow> 'c row \<Rightarrow> cell_extra list \<Rightarrow> ('c row \<times> cell_extra list) option" where
  "row_import_extras G r gathered =
     do { (cells, n, es, gathered') \<leftarrow>
            for_each (import_step G) (enumerate 0 (inner r)) ([], occ r, extras r, gathered);
          Some (r\<lparr>inner := cells, occ := n, extras := es\<rparr>, gathered') }"

text \<open>\<open>LineLength\<close> of \<open>cell.rs\<close>, on rows of packed cells.\<close>

definition line_length :: "cell row \<Rightarrow> nat option" where
  "line_length r =
     do { n \<leftarrow> usub (length (inner r)) 1;
          last_cell \<leftarrow> row_get r n;
          if has_layout last_cell WRAPLINE then Some (length (inner r))
          else Some (length (dropWhile (\<lambda>c. cell_c c = SPACE \<and> \<not> has_zerowidth (extra_of c))
                      (rev (inner r)))) }"

section \<open>What the grid relies on\<close>

definition extra_number :: "extra_id \<Rightarrow> nat" where
  "extra_number e = unat (e AND NOT HAS_ZEROWIDTH)"

locale grid_cell =
  fixes G :: "'c cell_ops"
  assumes reset_disc: "gc_disc G (gc_reset G c t) = gc_disc G t"
    and reset_cong: "gc_disc G t = gc_disc G t' \<Longrightarrow> gc_reset G c t = gc_reset G c' t'"
    and reset_extra: "gc_extra G (gc_reset G c t) = extra_none"
    and reset_default: "gc_reset G c (gc_default G) = gc_default G"
    and reset_layout: "gc_layout G (gc_reset G c t) = 0"
    and set_extra: "extra_number e \<le> PACKED_CAPACITY \<Longrightarrow> gc_extra G (gc_set_extra G c e) = e"
    and set_extra_set_extra: "gc_set_extra G (gc_set_extra G c e) e' = gc_set_extra G c e'"
    and set_same: "gc_set_extra G c (gc_extra G c) = c"
begin

lemma default_extra: "gc_extra G (gc_default G) = extra_none"
  by (metis reset_default reset_extra)

lemma reset_reset: "gc_reset G c (gc_reset G d t) = gc_reset G e t"
  by (rule reset_cong) (rule reset_disc)

end

lemma uc_reset_simps [simp]:
  "uc_style (uc_reset u t) = uc_style t" "uc_c (uc_reset u t) = SPACE"
  "uc_extra (uc_reset u t) = extra_none" "uc_layout (uc_reset u t) = 0"
  by (simp_all add: uc_reset_def default_unpacked_def unpack_default)

interpretation unpacked: grid_cell unpacked_cell_ops
  by unfold_locales (simp_all add: unpacked_cell_ops_def uc_reset_def default_unpacked_def unpack_default
      uc_set_extra_def)

lemma unpack_sel: "cell_c w = uc_c (unpack w)" "cell_style w = uc_style (unpack w)"
  "extra_of w = uc_extra (unpack w)" "cell_layout w = uc_layout (unpack w)"
  by (simp_all add: unpack_def)

lemma cell_reset_default: "cell_reset w default_cell = default_cell"
  by (rule bit_word_eqI)
    (auto simp: cell_reset_def default_cell_def packed_bits)

lemma cell_reset_cong: "cell_style t = cell_style t' \<Longrightarrow> cell_reset c t = cell_reset c' t'"
proof -
  assume eq: "cell_style t = cell_style t'"
  have "bit t n = bit t' n" if "25 \<le> n" "n < 50" for n
    using arg_cong [OF eq, of "\<lambda>s. bit s (if n = 49 then 31 else n - 25)"] that
    by (auto simp: bit_cell_style split: if_splits)
  then show ?thesis
    by (intro bit_word_eqI) (auto simp: cell_reset_def packed_bits)
qed

lemma set_extra_id_packed:
  "extra_number e \<le> PACKED_CAPACITY \<Longrightarrow> extra_of (set_extra_id w e) = e"
  using extra_packed_ok [of e]
  by (auto simp: unpack_sel unpack_set_extra uc_set_extra_def extra_number_def)

lemma set_extra_id_again: "set_extra_id (set_extra_id w e) e' = set_extra_id w e'"
  unfolding set_extra_id_def Let_def
  by (rule bit_word_eqI) (auto simp: packed_bits shift_values)

lemma set_extra_id_same: "set_extra_id w (extra_of w) = w"
proof -
  obtain b where b: "extra_packed (extra_of w) = Some b"
    using uc_ok_unpack [of w] by (auto simp: uc_ok_def unpack_def)
  have eq: "extra_from_packed b = extra_of w"
    by (rule extra_packed_roundtrip [OF b])
  have high: "\<not> bit b n" if "14 \<le> n" for n
    using not_bit_of_less [OF extra_packed_bits [OF b], of n] that
    by (simp add: EXTRA_PACKED_BITS_def PACKED_NUMBER_BITS_def)
  have low: "bit b n = bit w (n + 50)" if "n < 14" for n
    using arg_cong [OF eq, of "\<lambda>e. bit e (if n = 13 then 31 else n)"] that
    by (auto simp: bit_extra_from_packed bit_extra_of split: if_splits)
  show ?thesis
  proof (rule bit_word_eqI)
    fix n assume "n < LENGTH(64)"
    then show "bit (set_extra_id w (extra_of w)) n = bit w n"
      using high [of "n - 50"] low [of "n - 50"]
      by (auto simp: set_extra_id_def Let_def b packed_bits shift_values)
  qed
qed

interpretation packed: grid_cell packed_cell_ops
  by unfold_locales
    (auto simp: packed_cell_ops_def unpack_reset unpack_sel cell_reset_default set_extra_id_again
      set_extra_id_packed [unfolded unpack_sel] set_extra_id_same [unfolded unpack_sel]
      intro: cell_reset_cong [unfolded unpack_sel])

section \<open>The invariant of a row\<close>

text \<open>
  The documentation of \<open>occ\<close>: all cells after this point are equal, and equal to a blank cell.
  Every id of extra content in use has its entry, and there is a packed id for one entry more.
\<close>

definition row_shape :: "'c cell_ops \<Rightarrow> 'c row \<Rightarrow> bool" where
  "row_shape G r \<longleftrightarrow> inner r \<noteq> [] \<and> occ r \<le> length (inner r) \<and>
     (\<exists>t. drop (occ r) (inner r) = replicate (length (inner r) - occ r) (gc_reset G t t)) \<and>
     (\<forall>c \<in> set (inner r). extra_id_ok (extras r) (gc_extra G c))"

definition row_ok :: "'c cell_ops \<Rightarrow> 'c row \<Rightarrow> bool" where
  "row_ok G r \<longleftrightarrow> inner r \<noteq> [] \<and> occ r \<le> length (inner r) \<and>
     (\<exists>t. drop (occ r) (inner r) = replicate (length (inner r) - occ r) (gc_reset G t t)) \<and>
     (\<forall>c \<in> set (inner r). extra_id_ok (extras r) (gc_extra G c)) \<and> length (extras r) < PACKED_CAPACITY"

lemma row_ok_shape: "row_ok G r \<longleftrightarrow> row_shape G r \<and> length (extras r) < PACKED_CAPACITY"
  by (auto simp: row_ok_def row_shape_def)

lemma PACKED_CAPACITY_pos [simp]: "0 < PACKED_CAPACITY"
  by (simp add: PACKED_CAPACITY_def PACKED_NUMBER_BITS_def)

definition blank_row :: "'c cell_ops \<Rightarrow> nat \<Rightarrow> 'c \<Rightarrow> 'c row" where
  "blank_row G columns t = \<lparr>inner = replicate columns (gc_reset G t t), occ = 0, extras = []\<rparr>"

context grid_cell
begin

lemma row_ok_blank: "1 \<le> columns \<Longrightarrow> row_ok G (blank_row G columns t)"
  by (auto simp: row_ok_def blank_row_def reset_extra)

lemma row_new_blank: "1 \<le> columns \<Longrightarrow> row_new G columns = Some (blank_row G columns (gc_default G))"
  by (simp add: row_new_def blank_row_def reset_default)

lemma map_reset: "map (\<lambda>c. gc_reset G c t) cs = replicate (length cs) (gc_reset G t t)"
  by (rule nth_equalityI) (auto intro: reset_cong)

lemma row_reset_blank:
  assumes "row_ok G r"
  shows "row_reset G t r = Some (blank_row G (length (inner r)) t)"
proof -
  let ?len = "length (inner r)"
  have len: "1 \<le> ?len" and occ: "occ r \<le> ?len"
    using assms by (auto simp: row_ok_def Suc_le_eq)
  obtain b where b: "drop (occ r) (inner r) = replicate (?len - occ r) (gc_reset G b b)"
    using assms by (auto simp: row_ok_def)
  let ?last = "inner r ! (?len - 1)"
  have rest: "drop (occ r) (inner r) = replicate (?len - occ r) (gc_reset G t t)"
    if "gc_disc G ?last = gc_disc G t"
  proof (cases "occ r = ?len")
    case False
    then have "?last = last (drop (occ r) (inner r))"
      using occ len by (simp add: last_conv_nth)
    also have "\<dots> = gc_reset G b b"
      using False occ by (simp add: b)
    finally have "gc_disc G b = gc_disc G t"
      using that by (simp add: reset_disc)
    then show ?thesis using b reset_cong by metis
  qed simp
  have r: "\<lparr>inner = cs, occ = 0, extras = []\<rparr> = r\<lparr>inner := cs, extras := [], occ := 0\<rparr>" for cs
    by simp
  show ?thesis
    using len occ rest
    by (simp add: row_reset_def Let_def map_reset blank_row_def r flip: replicate_add)
qed

lemma row_reset_with_prefix_reset:
  assumes ok: "row_ok G r" and len: "len \<le> length (inner r)"
    and fresh: "write (take len (inner r)) = Some (s1, res, n)"
    and plain: "write' (replicate len (gc_reset G t t)) = Some (s2, res, n)"
    and slices: "length s1 = len" "length s2 = len" "n \<le> len" "take n s1 = take n s2"
      "drop n s1 = drop n (take len (inner r))" "drop n s2 = replicate (len - n) (gc_reset G t t)"
  shows "row_reset_with_prefix G t len write r =
    do { r1 \<leftarrow> row_reset G t r; row_write_prefix 0 len write' r1 }"
proof -
  let ?row_len = "length (inner r)" and ?b = "gc_reset G t t"
  have pos: "1 \<le> ?row_len" and occ: "occ r \<le> ?row_len"
    using ok by (auto simp: row_ok_def Suc_le_eq)
  obtain b where b: "drop (occ r) (inner r) = replicate (?row_len - occ r) (gc_reset G b b)"
    using ok by (auto simp: row_ok_def)
  let ?last = "inner r ! (?row_len - 1)"
  define e where "e = (if gc_disc G ?last = gc_disc G t then occ r else ?row_len)"
  have e: "e \<le> ?row_len" using occ by (simp add: e_def)
  have rest: "drop e (inner r) = replicate (?row_len - e) ?b"
  proof (cases "e = ?row_len")
    case False
    then have eq: "e = occ r" "gc_disc G ?last = gc_disc G t" by (auto simp: e_def split: if_splits)
    have "?last = last (drop (occ r) (inner r))"
      using False eq occ pos by (simp add: last_conv_nth)
    also have "\<dots> = gc_reset G b b"
      using False eq occ by (simp add: b)
    finally have "gc_disc G b = gc_disc G t"
      using eq by (simp add: reset_disc)
    then show ?thesis using b reset_cong eq(1) by metis
  qed simp
  define cells where "cells = s1 @ drop len (inner r)"
  have tail: "drop n cells = drop n (inner r)"
    using slices len by (simp add: cells_def drop_take flip: drop_append)
      (metis append_take_drop_id drop_append drop_take length_take min.absorb2 slices(5))
  have new: "(if n < e then take n cells @ map (\<lambda>c. gc_reset G c t) (take (e - n) (drop n cells)) @ drop e cells
      else cells) = take n s2 @ replicate (?row_len - n) ?b"
  proof (cases "n < e")
    case True
    then have "drop e cells = drop e (inner r)"
      using tail by (metis drop_drop le_add_diff_inverse2 less_imp_le)
    then show ?thesis
      using True e slices len rest
      by (simp add: map_reset cells_def tail flip: replicate_add)
  next
    case False
    then have "drop n cells = replicate (?row_len - n) ?b"
      using rest tail by (metis diff_diff_left drop_drop drop_replicate le_add_diff_inverse2 not_less)
    moreover have "cells = take n cells @ drop n cells" by simp
    ultimately show ?thesis
      using False slices by (simp add: cells_def)
  qed
  have "row_reset_with_prefix G t len write r =
      Some (res, n, r\<lparr>inner := take n s2 @ replicate (?row_len - n) ?b, extras := [], occ := n\<rparr>)"
  proof -
    have last: "idx (inner r) (?row_len - 1) = Some ?last"
      using pos by (intro idx_Some) simp
    show ?thesis
      unfolding row_reset_with_prefix_def Let_def usub_Some [OF pos] Option.bind.simps last
        fresh e_def [symmetric] cells_def [symmetric] prod.case new
      using len slices(3) e by (simp add: fresh flip: cells_def)
  qed
  moreover have "row_write_prefix 0 len write' (blank_row G ?row_len t) =
      Some (res, n, r\<lparr>inner := take n s2 @ replicate (?row_len - n) ?b, extras := [], occ := n\<rparr>)"
  proof -
    have "s2 = take n s2 @ replicate (len - n) ?b"
      using slices(6) append_take_drop_id [of n s2] by simp
    moreover have "replicate (?row_len - n) ?b = replicate (len - n) ?b @ replicate (?row_len - len) ?b"
      using slices(3) len by (simp flip: replicate_add)
    ultimately have "s2 @ replicate (?row_len - len) ?b = take n s2 @ replicate (?row_len - n) ?b"
      by (metis append.assoc)
    then show ?thesis
      using len plain slices by (simp add: row_write_prefix_def blank_row_def)
  qed
  ultimately show ?thesis
    by (simp add: row_reset_blank [OF ok])
qed

end

section \<open>Writing while resetting\<close>

definition ascii_writer :: "bool \<Rightarrow> 8 word list \<Rightarrow> style_id \<Rightarrow> (cell, unit) writer" where
  "ascii_writer fresh bytes style cells =
     (let (cells', written) = fill_ascii fresh cells bytes style in Some (cells', (), written))"

definition chars_writer ::
  "(uchar \<Rightarrow> nat option) \<Rightarrow> bool \<Rightarrow> nat \<Rightarrow> style_id \<Rightarrow> 8 word list \<Rightarrow> (cell, 8 word list) writer" where
  "chars_writer uw fresh width style text cells = fill_chars uw fresh width style cells text"

lemma is_simple_reset: "is_simple (cell_reset w t)"
  by (simp add: is_simple_unpack unpack_reset intersects_def)

lemma ascii_run_fresh:
  assumes "list_all is_simple cells" "length cells = length cells'"
  shows "ascii_run False cells bytes = ascii_run True cells' bytes"
  using assms
proof (induction cells arbitrary: cells' bytes)
  case (Cons c cells)
  then obtain c' cells'' where "cells' = c' # cells''" by (cases cells') auto
  then show ?case
    using Cons by (cases bytes) (auto simp: ascii_run_def)
qed (simp add: ascii_run_def)

lemma char_run_fresh:
  assumes "list_all is_simple cells" "length cells = length cells'"
  shows "\<exists>new rest n. char_run uw False width style cells cs = (new @ drop n cells, rest, n) \<and>
    char_run uw True width style cells' cs = (new @ drop n cells', rest, n) \<and>
    (width = 1 \<or> width = 2 \<longrightarrow> length new = n) \<and> n \<le> length cells"
  using assms
proof (induction cs arbitrary: cells cells')
  case Nil
  then show ?case by (intro exI [of _ "[]"] exI [of _ 0]) simp
next
  case (Cons c cs)
  show ?case
  proof (cases "width \<le> length cells \<and> char_width uw c = Some width")
    case False
    then show ?thesis
      using Cons.prems by (intro exI [of _ "[]"] exI [of _ 0] exI [of _ "c # cs"]) auto
  next
    case True
    have simple: "list_all is_simple (take width cells)" "list_all is_simple (drop width cells)"
      using Cons.prems(1) by (auto simp: list_all_iff dest: in_set_takeD in_set_dropD)
    obtain new rest n where IH:
      "char_run uw False width style (drop width cells) cs = (new @ drop n (drop width cells), rest, n)"
      "char_run uw True width style (drop width cells') cs = (new @ drop n (drop width cells'), rest, n)"
      "width = 1 \<or> width = 2 \<longrightarrow> length new = n" "n \<le> length (drop width cells)"
      using Cons.IH [OF simple(2), of "drop width cells'"] Cons.prems(2) by auto
    let ?new = "(if width = 1 then [cell_write c style 0]
      else [cell_write c style WIDE_CHAR, cell_write SPACE style WIDE_CHAR_SPACER]) @ new"
    have "char_run uw False width style cells (c # cs) = (?new @ drop (width + n) cells, rest, width + n)"
      using True simple(1) IH(1) by (simp add: add.commute)
    moreover have "char_run uw True width style cells' (c # cs) = (?new @ drop (width + n) cells', rest, width + n)"
      using True Cons.prems(2) IH(2) by (simp add: add.commute)
    moreover have "width = 1 \<or> width = 2 \<longrightarrow> length ?new = width + n" "width + n \<le> length cells"
      using IH(3,4) True by auto
    ultimately show ?thesis by blast
  qed
qed

lemma reset_prefix_ascii:
  assumes "row_ok packed_cell_ops r" "len \<le> length (inner r)"
  shows "row_reset_with_prefix packed_cell_ops t len (ascii_writer True bytes style) r =
    do { r1 \<leftarrow> row_reset packed_cell_ops t r; row_write_prefix 0 len (ascii_writer False bytes style) r1 }"
proof -
  define n where "n = ascii_run True (take len (inner r)) bytes"
  have n': "ascii_run False (replicate len (cell_reset t t)) bytes = n"
    unfolding n_def by (rule ascii_run_fresh) (use assms in \<open>auto simp: list_all_iff is_simple_reset\<close>)
  have le: "n \<le> len" "n \<le> length bytes"
    using ascii_run_le [of True "take len (inner r)" bytes] assms(2) by (auto simp: n_def)
  let ?new = "map (\<lambda>b. cell_write (ucast b) style 0) (take n bytes)"
  have "length ?new = n" using le by simp
  then show ?thesis
    using assms le
    by (intro packed.row_reset_with_prefix_reset [where ?s1.0 = "?new @ drop n (take len (inner r))"
          and ?s2.0 = "?new @ drop n (replicate len (cell_reset t t))" and n = n and res = "()"])
      (simp_all add: ascii_writer_def fill_ascii_run Let_def n' packed_cell_ops_def flip: n_def)
qed

lemma reset_prefix_chars:
  assumes "row_ok packed_cell_ops r" "len \<le> length (inner r)" "width = 1 \<or> width = 2"
    and "list_all is_scalar cs"
  shows "row_reset_with_prefix packed_cell_ops t len (chars_writer uw True width style (text_of cs)) r =
    do { r1 \<leftarrow> row_reset packed_cell_ops t r;
         row_write_prefix 0 len (chars_writer uw False width style (text_of cs)) r1 }"
proof -
  have "list_all is_simple (replicate len (cell_reset t t))"
    by (auto simp: list_all_iff is_simple_reset)
  then obtain new rest n where run:
    "char_run uw False width style (replicate len (cell_reset t t)) cs
      = (new @ drop n (replicate len (cell_reset t t)), rest, n)"
    "char_run uw True width style (take len (inner r)) cs = (new @ drop n (take len (inner r)), rest, n)"
    "length new = n" "n \<le> len"
    using char_run_fresh [of "replicate len (cell_reset t t)" "take len (inner r)" uw width style cs]
      assms(2,3) by auto
  then show ?thesis
    using assms
    by (intro packed.row_reset_with_prefix_reset [where ?s1.0 = "new @ drop n (take len (inner r))"
          and ?s2.0 = "new @ drop n (replicate len (cell_reset t t))" and n = n and res = "text_of rest"])
      (simp_all add: chars_writer_def fill_chars_run packed_cell_ops_def)
qed

section \<open>Operations keep the invariant\<close>

lemma row_shape_nth:
  "row_shape G r \<longleftrightarrow> inner r \<noteq> [] \<and> occ r \<le> length (inner r) \<and>
     (\<exists>t. \<forall>i. occ r \<le> i \<and> i < length (inner r) \<longrightarrow> inner r ! i = gc_reset G t t) \<and>
     (\<forall>c \<in> set (inner r). extra_id_ok (extras r) (gc_extra G c))"
proof -
  have "drop n xs = replicate (length xs - n) b \<longleftrightarrow> (\<forall>i. n \<le> i \<and> i < length xs \<longrightarrow> xs ! i = b)"
    if "n \<le> length xs" for n and xs :: "'a list" and b
  proof
    assume "drop n xs = replicate (length xs - n) b"
    then have "drop n xs ! (i - n) = b" if "n \<le> i" "i < length xs" for i
      using that by simp
    with that show "\<forall>i. n \<le> i \<and> i < length xs \<longrightarrow> xs ! i = b" by simp
  next
    assume "\<forall>i. n \<le> i \<and> i < length xs \<longrightarrow> xs ! i = b"
    then show "drop n xs = replicate (length xs - n) b"
      by (intro nth_equalityI) simp_all
  qed
  then show ?thesis
    by (auto simp: row_shape_def)
qed

lemma row_ok_nth:
  "row_ok G r \<longleftrightarrow> inner r \<noteq> [] \<and> occ r \<le> length (inner r) \<and>
     (\<exists>t. \<forall>i. occ r \<le> i \<and> i < length (inner r) \<longrightarrow> inner r ! i = gc_reset G t t) \<and>
     (\<forall>c \<in> set (inner r). extra_id_ok (extras r) (gc_extra G c)) \<and> length (extras r) < PACKED_CAPACITY"
  unfolding row_ok_shape row_shape_nth by blast

lemma row_shape_modify:
  assumes "row_shape G r" "column < length (inner r)" "extra_id_ok (extras r) (gc_extra G (f (inner r ! column)))"
  shows "returns (row_modify column f r) (\<lambda>r'. row_shape G r' \<and>
    inner r' = (inner r)[column := f (inner r ! column)] \<and> extras r' = extras r \<and>
    occ r' = max (occ r) (column + 1))"
proof -
  let ?cs = "(inner r)[column := f (inner r ! column)]"
  let ?r = "r\<lparr>occ := max (occ r) (column + 1), inner := ?cs\<rparr>"
  have "row_modify column f r = Some ?r"
    using assms(2) by (simp add: row_modify_def)
  moreover have "row_shape G ?r"
    unfolding row_shape_nth
  proof (intro conjI)
    show "\<forall>c \<in> set (inner ?r). extra_id_ok (extras ?r) (gc_extra G c)"
      using assms set_update_subset_insert [of "inner r" column "f (inner r ! column)"]
      by (auto simp: row_shape_nth)
  qed (use assms in \<open>auto simp: row_shape_nth\<close>)
  ultimately show ?thesis by simp
qed

lemma row_ok_modify:
  assumes "row_ok G r" "column < length (inner r)" "extra_id_ok (extras r) (gc_extra G (f (inner r ! column)))"
  shows "returns (row_modify column f r) (\<lambda>r'. row_ok G r' \<and>
    inner r' = (inner r)[column := f (inner r ! column)] \<and> extras r' = extras r \<and>
    occ r' = max (occ r) (column + 1))"
  using row_shape_modify [of G r column f] assms by (auto simp: row_ok_shape returns_iff)

lemma row_ok_write_prefix:
  assumes ok: "row_ok G r" and len: "start + len \<le> length (inner r)"
    and w: "write (take len (drop start (inner r))) = Some (s, res, n)"
    and slice: "length s = len" "n \<le> len" "drop n s = drop n (take len (drop start (inner r)))"
    and extra: "\<forall>c \<in> set (take n s). gc_extra G c = extra_none"
  shows "returns (row_write_prefix start len write r) (\<lambda>(res', n', r'). res' = res \<and> n' = n \<and>
    row_ok G r' \<and> extras r' = extras r \<and>
    inner r' = take start (inner r) @ take n s @ drop (start + n) (inner r))"
proof -
  have keep: "s @ drop (start + len) (inner r) = take n s @ drop (start + n) (inner r)"
  proof -
    have "drop (start + n) (inner r) = drop n (take len (drop start (inner r))) @ drop (start + len) (inner r)"
      using slice(2) append_take_drop_id [of "len - n" "drop (start + n) (inner r)"]
      by (simp add: drop_take add.commute)
    then show ?thesis by (metis append.assoc append_take_drop_id slice(3))
  qed
  let ?cs = "take start (inner r) @ take n s @ drop (start + n) (inner r)"
  let ?r = "r\<lparr>inner := ?cs, occ := (if 0 < n then max (occ r) (start + n) else occ r)\<rparr>"
  have "row_write_prefix start len write r = Some (res, n, ?r)"
    using len slice(2) w keep by (simp add: row_write_prefix_def)
  moreover have "row_ok G ?r"
  proof -
    have length: "length ?cs = length (inner r)"
      using len slice(1,2) by simp
    have nth: "?cs ! i = inner r ! i" if "start + n \<le> i" "i < length (inner r)" for i
    proof -
      have "\<not> i < start" "\<not> i - start < n" using that by simp_all
      then show ?thesis using that len slice(1,2) by (simp add: nth_append)
    qed
    have zero: "n = 0 \<Longrightarrow> ?cs = inner r" by simp
    have "\<forall>c \<in> set ?cs. extra_id_ok (extras r) (gc_extra G c)"
      using ok extra by (auto simp: row_ok_def dest!: in_set_takeD [of _ start] in_set_dropD)
    moreover have "\<exists>t. \<forall>i. occ ?r \<le> i \<and> i < length ?cs \<longrightarrow> ?cs ! i = gc_reset G t t"
    proof (cases "n = 0")
      case True
      then show ?thesis using ok unfolding zero [OF True] by (simp add: row_ok_nth)
    next
      case False
      obtain t where t: "\<And>i. occ r \<le> i \<Longrightarrow> i < length (inner r) \<Longrightarrow> inner r ! i = gc_reset G t t"
        using ok by (auto simp: row_ok_nth)
      have "?cs ! i = gc_reset G t t" if "max (occ r) (start + n) \<le> i" "i < length (inner r)" for i
        using nth [of i] t [of i] that by simp
      then show ?thesis using False unfolding length by (intro exI [of _ t]) simp
    qed
    moreover have "?cs \<noteq> []" using ok length by (metis length_0_conv row_ok_def)
    moreover have "occ ?r \<le> length ?cs"
      using ok len slice length by (auto simp: row_ok_def)
    moreover have "length (extras ?r) < PACKED_CAPACITY" using ok by (simp add: row_ok_def)
    ultimately show ?thesis
      unfolding row_ok_nth by simp
  qed
  ultimately show ?thesis by simp
qed

lemma length_trim_end: "length (trim_end G cs) \<le> length cs"
  by (simp add: trim_end_def) (metis length_dropWhile_le length_rev)

lemma trim_end_append: "\<exists>rest. cs = trim_end G cs @ rest \<and> list_all (gc_is_empty G) rest"
proof -
  have "cs = rev (dropWhile (gc_is_empty G) (rev cs)) @ rev (takeWhile (gc_is_empty G) (rev cs))"
    by (metis rev_append rev_rev_ident takeWhile_dropWhile_id)
  then show ?thesis
    by (metis (no_types, lifting) list_all_iff set_rev set_takeWhileD trim_end_def)
qed

lemma row_shrink_spec:
  assumes "row_ok G r" "1 \<le> columns" "columns < length (inner r)"
  shows "case row_shrink G columns r of (gone, r') \<Rightarrow>
    row_ok G r' \<and> inner r' = take columns (inner r) \<and>
    (\<exists>rest. inner r = inner r' @ (case gone of None \<Rightarrow> [] | Some cs \<Rightarrow> cs) @ rest \<and> list_all (gc_is_empty G) rest)"
proof -
  obtain rest where rest: "drop columns (inner r) = trim_end G (drop columns (inner r)) @ rest"
    "list_all (gc_is_empty G) rest"
    using trim_end_append by blast
  have "row_ok G (r\<lparr>inner := take columns (inner r), occ := min (occ r) columns\<rparr>)"
    using assms by (auto simp: row_ok_nth dest: in_set_takeD)
  moreover have "inner r = take columns (inner r) @ trim_end G (drop columns (inner r)) @ rest"
    by (metis append_take_drop_id rest(1))
  moreover have "row_shrink G columns r =
      (if trim_end G (drop columns (inner r)) = [] then None else Some (trim_end G (drop columns (inner r))),
       r\<lparr>inner := take columns (inner r), occ := min (occ r) columns\<rparr>)"
    using assms(3) by (simp add: row_shrink_def Let_def)
  ultimately show ?thesis
    using rest(2) by (cases "trim_end G (drop columns (inner r)) = []") (simp_all, metis+)
qed

text \<open>Growing keeps the invariant unless the blank cells have another style than the default one.\<close>

lemma row_ok_grow:
  assumes "row_ok G r" "occ r = length (inner r) \<or> (\<forall>c \<in> set (drop (occ r) (inner r)). c = gc_default G)"
    "gc_reset G (gc_default G) (gc_default G) = gc_default G" "gc_extra G (gc_default G) = extra_none"
  shows "row_ok G (row_grow G columns r)"
proof (cases "columns \<le> length (inner r)")
  case False
  have "\<exists>t. \<forall>i. occ r \<le> i \<and> i < columns \<longrightarrow>
      (inner r @ replicate (columns - length (inner r)) (gc_default G)) ! i = gc_reset G t t"
  proof -
    have "inner r ! i = gc_default G" if "occ r \<le> i" "i < length (inner r)" for i
    proof -
      have "inner r ! i = drop (occ r) (inner r) ! (i - occ r)" "i - occ r < length (drop (occ r) (inner r))"
        using that by simp_all
      then show ?thesis using assms(2) that by (metis nth_mem not_less)
    qed
    then show ?thesis
      using assms(3) False by (intro exI [of _ "gc_default G"]) (auto simp: nth_append)
  qed
  then show ?thesis
    using assms False by (auto simp: row_ok_nth row_grow_def)
qed (use assms in \<open>simp add: row_grow_def\<close>)

section \<open>Updating extra content\<close>

definition extra_limit :: "'c row \<Rightarrow> nat" where
  "extra_limit r = min (max (length (inner r)) 8 * 2) (PACKED_CAPACITY - 1)"

lemma extra_id_ok_number:
  "extra_id_ok es i \<Longrightarrow> extra_number i \<le> length es"
  by (auto simp: extra_id_ok_def extra_position_def extra_number_def extra_none_def Let_def
      split: option.splits if_splits)

lemma extras_get_append: "extra_id_ok es i \<Longrightarrow> extras_get (es @ fs) i = extras_get es i"
  by (auto simp: extra_id_ok_def extras_get_def nth_append split: option.splits)

lemma extras_push_returns:
  assumes "length es + 1 < 2 ^ 31"
  shows "\<exists>es' i. extras_push es e = Some (es', i) \<and> length es' \<le> length es + 1"
  using extra_id_new_Some [of "length es" e] assms
  by (auto simp: extras_push_def)

lemma length_remdups_filter_le:
  "length (remdups (List.map_filter f xs)) \<le> length xs"
proof -
  have "length (List.map_filter f xs) \<le> length xs"
    by (induction xs) (auto simp: map_filter_simps split: option.split)
  then show ?thesis
    using length_remdups_leq le_trans by blast
qed

context grid_cell
begin

lemma set_extras_loop:
  assumes "\<forall>c \<in> set cs. returns (extras_remapped remap (gc_extra G c)) (Q c)"
  shows "returns (for_each (set_extras_step G remap) cs acc)
    (\<lambda>cs'. \<exists>es. cs' = acc @ map2 (gc_set_extra G) cs es \<and> length es = length cs \<and>
       (\<forall>i < length cs. Q (cs ! i) (es ! i)))"
  using assms
proof (induction cs arbitrary: acc)
  case Nil
  then show ?case by simp
next
  case (Cons c cs)
  obtain e where e: "extras_remapped remap (gc_extra G c) = Some e" "Q c e"
    using Cons.prems by (auto simp: returns_iff)
  obtain es where es: "for_each (set_extras_step G remap) cs (acc @ [gc_set_extra G c e])
      = Some ((acc @ [gc_set_extra G c e]) @ map2 (gc_set_extra G) cs es)"
    "length es = length cs" "\<forall>i < length cs. Q (cs ! i) (es ! i)"
    using Cons.IH [of "acc @ [gc_set_extra G c e]"] Cons.prems by (auto simp: returns_iff)
  have "\<forall>i < length (c # cs). Q ((c # cs) ! i) ((e # es) ! i)"
    using e(2) es(3) by (auto simp: nth_Cons split: nat.split)
  then show ?case
    using e(1) es(1,2) unfolding for_each.simps set_extras_step_def returns_bind
    by (auto simp: set_extras_step_def [abs_def] intro!: exI [of _ "e # es"])
qed

text \<open>
  The cell at \<open>column\<close> gets the updated content, every other cell keeps its own, and the row
  never keeps more entries than the limit.
\<close>

lemma row_update_extra_spec:
  assumes ok: "row_ok G r" and column: "column < length (inner r)"
    and wide: "length (inner r) < PACKED_CAPACITY"
  shows "returns (row_update_extra G column update r) (\<lambda>r'.
    row_ok G r' \<and> length (extras r') \<le> extra_limit r' \<and> length (inner r') = length (inner r) \<and>
    (\<forall>i < length (inner r).
       (\<exists>e. inner r' ! i = gc_set_extra G (inner r ! i) e) \<and>
       extras_get (extras r') (gc_extra G (inner r' ! i)) =
         (if i = column
          then let old = the (extras_get (extras r) (gc_extra G (inner r ! i)));
                   new = update (case old of None \<Rightarrow> empty_extra | Some e \<Rightarrow> e)
               in Some (if extra_is_empty new then None else Some new)
          else extras_get (extras r) (gc_extra G (inner r ! i)))))"
proof -
  let ?c = "inner r ! column"
  have cap: "PACKED_CAPACITY < 2 ^ 31" by (simp add: PACKED_CAPACITY_def PACKED_NUMBER_BITS_def)
  have es: "length (extras r) < PACKED_CAPACITY" using ok by (simp add: row_ok_def)
  have ids: "\<And>c. c \<in> set (inner r) \<Longrightarrow> extra_id_ok (extras r) (gc_extra G c)"
    using ok by (simp add: row_ok_def)
  obtain old where old: "extras_get (extras r) (gc_extra G ?c) = Some old"
    using extras_get_ok [OF ids] column nth_mem by blast
  define new where "new = update (case old of None \<Rightarrow> empty_extra | Some e \<Rightarrow> e)"
  obtain es1 i where push: "extras_push (extras r) new = Some (es1, i)" "length es1 \<le> length (extras r) + 1"
  proof -
    have "length (extras r) + 1 < 2 ^ 31"
      using es by (simp add: PACKED_CAPACITY_def PACKED_NUMBER_BITS_def)
    then show ?thesis using extras_push_returns [of "extras r" new] that by blast
  qed
  obtain fs where fs: "es1 = extras r @ fs"
    using extras_push_ok(2) [OF push(1)] by blast
  note i = extras_push_ok(1,3) [OF push(1)]
  have upd: "Extra.extras_update (extras r) (gc_extra G ?c) update = Some (es1, i)"
    using old push(1) by (simp add: Extra.extras_update_def new_def)
  let ?r0 = "r\<lparr>extras := es1\<rparr>"
  have small: "length es1 \<le> PACKED_CAPACITY"
    using push(2) es by simp
  have id_i: "gc_extra G (gc_set_extra G c i) = i" for c
    using set_extra extra_id_ok_number [OF i(1)] small by (meson le_trans)
  have ok0: "row_shape G ?r0"
    using ok ids extra_id_ok_append by (auto simp: row_ok_def row_shape_def fs)
  obtain r1 where r1: "row_modify column (\<lambda>c. gc_set_extra G c i) ?r0 = Some r1" "row_shape G r1"
    "inner r1 = (inner r)[column := gc_set_extra G ?c i]" "extras r1 = es1"
    using row_shape_modify [OF ok0, of column "\<lambda>c. gc_set_extra G c i"] column id_i i(1)
    by (auto simp: returns_iff)
  have get1: "extras_get es1 (gc_extra G (inner r1 ! j)) =
      (if j = column then Some (if extra_is_empty new then None else Some new)
       else extras_get (extras r) (gc_extra G (inner r ! j)))" if "j < length (inner r)" for j
    using that column i(2) id_i extras_get_append ids
    by (simp add: r1(3) fs nth_list_update)
  have set1: "\<exists>e. inner r1 ! j = gc_set_extra G (inner r ! j) e" if "j < length (inner r)" for j
    using that set_same by (cases "j = column") (auto simp: r1(3) nth_list_update, metis)
  have upd_eq: "row_update_extra G column update r =
      (if extra_limit r < length es1
       then do { (es', remap) \<leftarrow> extras_compact es1 (map (gc_extra G) (inner r1));
                 cells \<leftarrow> for_each (set_extras_step G remap) (inner r1) [];
                 Some (r1\<lparr>extras := es', inner := cells\<rparr>) }
       else Some r1)"
    using column upd r1(1) by (simp add: row_update_extra_def r1(3) extra_limit_def Let_def)
  have len1: "length (inner r1) = length (inner r)" "extra_limit r1 = extra_limit r"
    by (simp_all add: r1(3) extra_limit_def)
  show ?thesis
  proof (cases "extra_limit r < length es1")
    case False
    then have "row_ok G r1"
      using r1(2,4) by (auto simp: row_ok_shape extra_limit_def PACKED_CAPACITY_def PACKED_NUMBER_BITS_def)
    then show ?thesis
      using False r1(4) len1 set1 get1 old by (auto simp: upd_eq new_def Let_def)
  next
    case True
    have ids1: "\<forall>e \<in> set (map (gc_extra G) (inner r1)). extra_id_ok es1 e"
      using r1(2,4) by (auto simp: row_shape_def)
    have "length es1 < 2 ^ 31" using small cap by simp
    note compact = extras_compact_spec [OF this ids1]
    obtain es2 remap where c: "extras_compact es1 (map (gc_extra G) (inner r1)) = Some (es2, remap)"
      "length es2 \<le> length (remdups (List.map_filter extra_position (map (gc_extra G) (inner r1))))"
      "\<forall>e \<in> set (map (gc_extra G) (inner r1)). returns (extras_remapped remap e)
        (\<lambda>e'. extra_id_ok es2 e' \<and> extras_get es2 e' = extras_get es1 e)"
      using compact by (auto simp: returns_iff)
    let ?Q = "\<lambda>c e'. extra_id_ok es2 e' \<and> extras_get es2 e' = extras_get es1 (gc_extra G c) \<and>
      (gc_extra G c = extra_none \<longrightarrow> e' = extra_none)"
    have "returns (extras_remapped remap (gc_extra G c)) (?Q c)" if "c \<in> set (inner r1)" for c
      using c(3) that by (force simp: returns_iff extras_remapped_def)
    then obtain es where loop: "for_each (set_extras_step G remap) (inner r1) [] =
        Some (map2 (gc_set_extra G) (inner r1) es)" "length es = length (inner r1)"
      "\<forall>j < length (inner r1). ?Q (inner r1 ! j) (es ! j)"
      using set_extras_loop [of "inner r1" remap ?Q "[]"] by (auto simp: returns_iff)
    let ?cs = "map2 (gc_set_extra G) (inner r1) es"
    have le: "length es2 \<le> length (inner r)"
      using c(2) length_remdups_filter_le [of extra_position "map (gc_extra G) (inner r1)"] len1(1)
      by simp
    have nth: "?cs ! j = gc_set_extra G (inner r1 ! j) (es ! j)" "gc_extra G (?cs ! j) = es ! j"
      if "j < length (inner r1)" for j
    proof -
      show "?cs ! j = gc_set_extra G (inner r1 ! j) (es ! j)" using that loop(2) by simp
      moreover have "extra_number (es ! j) \<le> PACKED_CAPACITY"
        using extra_id_ok_number [of es2 "es ! j"] loop(3) that le wide by fastforce
      ultimately show "gc_extra G (?cs ! j) = es ! j" by (simp add: set_extra)
    qed
    have "row_ok G (r1\<lparr>extras := es2, inner := ?cs\<rparr>)"
    proof -
      obtain t where t: "\<And>j. occ r1 \<le> j \<Longrightarrow> j < length (inner r1) \<Longrightarrow> inner r1 ! j = gc_reset G t t"
        using r1(2) by (auto simp: row_shape_nth)
      have "?cs ! j = gc_reset G t t" if "occ r1 \<le> j" "j < length (inner r1)" for j
      proof -
        have "es ! j = extra_none" using loop(3) t that reset_extra by metis
        then show ?thesis using nth(1) t that set_same reset_extra by metis
      qed
      moreover have "\<forall>c \<in> set ?cs. extra_id_ok es2 (gc_extra G c)"
      proof
        fix c assume "c \<in> set ?cs"
        then obtain j where "j < length ?cs" "c = ?cs ! j" by (metis in_set_conv_nth)
        then show "extra_id_ok es2 (gc_extra G c)" using nth(2) [of j] loop(2,3) by simp
      qed
      ultimately show ?thesis
        using r1(2) loop(2) le wide unfolding row_shape_nth row_ok_nth by (auto simp flip: length_greater_0_conv)
    qed
    moreover have "length es2 \<le> extra_limit r"
      using le wide unfolding extra_limit_def by (simp add: le_diff_conv) linarith
    moreover have "extra_limit (r1\<lparr>extras := es2, inner := ?cs\<rparr>) = extra_limit r"
      using len1 loop(2) by (simp add: extra_limit_def)
    moreover have "(\<exists>e. ?cs ! j = gc_set_extra G (inner r ! j) e) \<and>
        extras_get es2 (gc_extra G (?cs ! j)) = extras_get es1 (gc_extra G (inner r1 ! j))"
      if "j < length (inner r)" for j
      using that nth [of j] loop(3) set1 [OF that] len1(1) set_extra_set_extra by metis
    ultimately show ?thesis
      using True c(1) loop(1,2) get1 len1(1) old
      by (auto simp: upd_eq new_def Let_def)
  qed
qed

end

text \<open>The property on rows of packed cells.\<close>


theorem reset_correct:
  assumes "row_ok packed_cell_ops r"
  shows "row_reset packed_cell_ops t r =
    Some \<lparr>inner = replicate (length (inner r)) (cell_reset t t), occ = 0, extras = []\<rparr>"
  using packed.row_reset_blank [OF assms] by (simp add: blank_row_def)

text \<open>
  Growing a row whose blank cells are coloured appends default cells without marking them
  occupied, so the cells after \<open>occ\<close> are no longer equal, and the next reset to the default
  cell, which only compares the last cell, leaves the coloured ones in place.
\<close>

text \<open>
  C23. A coloured blank row that is widened and then reset to the default cell keeps its
  coloured cells: growing a row breaks the assumption of the reset that cells after the
  occupied ones are equal.
\<close>

theorem grow_then_reset_keeps_color:
  assumes "0 < n" "n < columns" "cell_style t \<noteq> cell_style default_cell"
  shows "\<exists>r'. row_reset packed_cell_ops default_cell
      (row_grow packed_cell_ops columns (blank_row packed_cell_ops n t)) = Some r' \<and>
    inner r' ! 0 \<noteq> default_cell"
proof -
  let ?r = "row_grow packed_cell_ops columns (blank_row packed_cell_ops n t)"
  have inner: "inner ?r = replicate n (cell_reset t t) @ replicate (columns - n) default_cell"
    and occ: "occ ?r = 0"
    using assms(2) by (simp_all add: row_grow_def blank_row_def)
  have "inner ?r ! (columns - 1) = default_cell"
    using assms(1,2) by (auto simp: inner nth_append)
  then have "row_reset packed_cell_ops default_cell ?r = Some (?r\<lparr>extras := [], occ := 0\<rparr>)"
    using assms(1,2) by (simp add: row_reset_def Let_def inner occ idx_def)
  moreover have "cell_reset t t \<noteq> default_cell"
    using assms(3) by (metis packed.reset_disc packed_sel(8,9))
  ultimately show ?thesis
    using assms(1) inner by (auto simp: nth_append)
qed

text \<open>The length of a line: its width if it wraps, otherwise the cells up to the last one in use.\<close>

theorem line_length_correct:
  assumes "inner r \<noteq> []"
  shows "returns (line_length r) (\<lambda>n. n \<le> length (inner r) \<and>
    (has_layout (last (inner r)) WRAPLINE \<longrightarrow> n = length (inner r)) \<and>
    (\<not> has_layout (last (inner r)) WRAPLINE \<longrightarrow>
       (\<forall>i. n \<le> i \<and> i < length (inner r) \<longrightarrow>
          cell_c (inner r ! i) = SPACE \<and> \<not> has_zerowidth (extra_of (inner r ! i))) \<and>
       (0 < n \<longrightarrow> cell_c (inner r ! (n - 1)) \<noteq> SPACE \<or> has_zerowidth (extra_of (inner r ! (n - 1))))))"
proof -
  define P where "P = (\<lambda>c. cell_c c = SPACE \<and> \<not> has_zerowidth (extra_of c))"
  define n where "n = length (dropWhile P (rev (inner r)))"
  have n: "n \<le> length (inner r)"
    unfolding n_def by (metis length_dropWhile_le length_rev)
  have split: "inner r = rev (dropWhile P (rev (inner r))) @ rev (takeWhile P (rev (inner r)))"
    by (metis rev_append rev_rev_ident takeWhile_dropWhile_id)
  have after: "P (inner r ! i)" if "n \<le> i" "i < length (inner r)" for i
  proof -
    have "inner r ! i = rev (takeWhile P (rev (inner r))) ! (i - n)"
      using that split by (metis n_def length_rev not_less nth_append)
    moreover have "i - n < length (takeWhile P (rev (inner r)))"
      using that split by (metis add_diff_inverse_nat diff_less_mono length_append length_rev n_def
          add_diff_cancel_left' not_less)
    ultimately show ?thesis
      by (metis length_rev nth_mem set_rev set_takeWhileD)
  qed
  have before: "\<not> P (inner r ! (n - 1))" if "0 < n"
  proof -
    have ne: "dropWhile P (rev (inner r)) \<noteq> []" using that by (auto simp: n_def)
    have "inner r ! (n - 1) = rev (dropWhile P (rev (inner r))) ! (n - 1)"
      using that split by (metis diff_less length_rev n_def nth_append zero_less_one)
    also have "\<dots> = hd (dropWhile P (rev (inner r)))"
      using ne by (simp add: n_def rev_nth hd_conv_nth)
    finally show ?thesis using hd_dropWhile [OF ne] by simp
  qed
  have "last (inner r) = inner r ! (length (inner r) - 1)" "1 \<le> length (inner r)"
    using assms by (simp_all add: last_conv_nth Suc_le_eq)
  then show ?thesis
    using after before n
    by (auto simp: line_length_def row_get_def idx_def P_def [symmetric] n_def [symmetric]) (auto simp: P_def)
qed

text \<open>Instances: a row of four blank cells, the third one coloured.\<close>

definition sample_row :: "cell row" where
  "sample_row = \<lparr>inner = [default_cell, default_cell, cell_write 0x41 5 0, default_cell], occ = 3, extras = []\<rparr>"

lemma reset_default: "cell_reset default_cell default_cell = default_cell"
  by code_simp

lemma extra_of_write: "extra_of (cell_write 0x41 5 0) = 0"
  by code_simp

lemma extra_of_default: "extra_of default_cell = 0"
  by code_simp

lemma sample_row_ok: "row_ok packed_cell_ops sample_row"
  by (auto simp: row_ok_def sample_row_def reset_default extra_of_write extra_of_default extra_none_def
      extra_id_ok_none [unfolded extra_none_def] intro!: exI [of _ default_cell])

theorem reset_with_prefix_ascii:
  assumes "row_ok packed_cell_ops r" "len \<le> length (inner r)"
  shows "row_reset_with_prefix packed_cell_ops t len (ascii_writer True bytes style) r =
    do { r1 \<leftarrow> row_reset packed_cell_ops t r; row_write_prefix 0 len (ascii_writer False bytes style) r1 }"
  by (rule reset_prefix_ascii [OF assms])

theorem reset_with_prefix_ascii_witness:
  "row_reset_with_prefix packed_cell_ops default_cell 4 (ascii_writer True [0x61, 0x62] 3) sample_row =
    do { r1 \<leftarrow> row_reset packed_cell_ops default_cell sample_row;
         row_write_prefix 0 4 (ascii_writer False [0x61, 0x62] 3) r1 }"
  by (rule reset_with_prefix_ascii [OF sample_row_ok]) (simp add: sample_row_def)

theorem reset_with_prefix_chars:
  assumes "row_ok packed_cell_ops r" "len \<le> length (inner r)" "width = 1 \<or> width = 2"
    and "list_all is_scalar cs"
  shows "row_reset_with_prefix packed_cell_ops t len (chars_writer uw True width style (text_of cs)) r =
    do { r1 \<leftarrow> row_reset packed_cell_ops t r;
         row_write_prefix 0 len (chars_writer uw False width style (text_of cs)) r1 }"
  by (rule reset_prefix_chars [OF assms])

theorem reset_with_prefix_chars_witness:
  "row_reset_with_prefix packed_cell_ops default_cell 4
      (chars_writer (\<lambda>c. Some 2) True 2 3 (text_of [0x4E2D, 0x4E2E])) sample_row =
    do { r1 \<leftarrow> row_reset packed_cell_ops default_cell sample_row;
         row_write_prefix 0 4 (chars_writer (\<lambda>c. Some 2) False 2 3 (text_of [0x4E2D, 0x4E2E])) r1 }"
  by (rule reset_with_prefix_chars [OF sample_row_ok]) (simp_all add: sample_row_def is_scalar_def)


theorem reset_correct_witness:
  "row_reset packed_cell_ops default_cell sample_row =
    Some \<lparr>inner = replicate 4 default_cell, occ = 0, extras = []\<rparr>"
  using reset_correct [OF sample_row_ok, of default_cell]
  by (simp add: sample_row_def reset_default eval_nat_numeral)

theorem grow_then_reset_keeps_color_witness:
  "\<exists>r'. row_reset packed_cell_ops default_cell
      (row_grow packed_cell_ops 4 (blank_row packed_cell_ops 2 (set_style default_cell 5))) = Some r' \<and>
    inner r' ! 0 \<noteq> default_cell"
proof (rule grow_then_reset_keeps_color)
  show "cell_style (set_style default_cell 5) \<noteq> cell_style default_cell" by code_simp
qed simp_all

theorem line_length_correct_witness:
  "returns (line_length sample_row) (\<lambda>n. n = 3)"
proof -
  have c: "cell_c default_cell = SPACE" "cell_c (cell_write 0x41 5 0) \<noteq> SPACE"
    "\<not> has_zerowidth (extra_of default_cell)" "\<not> has_layout default_cell WRAPLINE"
    by code_simp+
  have "inner sample_row \<noteq> []" by (simp add: sample_row_def)
  from line_length_correct [OF this] show ?thesis
  proof (rule returns_mono)
    fix n assume n: "n \<le> length (inner sample_row) \<and>
      (has_layout (last (inner sample_row)) WRAPLINE \<longrightarrow> n = length (inner sample_row)) \<and>
      (\<not> has_layout (last (inner sample_row)) WRAPLINE \<longrightarrow>
       (\<forall>i. n \<le> i \<and> i < length (inner sample_row) \<longrightarrow>
          cell_c (inner sample_row ! i) = SPACE \<and> \<not> has_zerowidth (extra_of (inner sample_row ! i))) \<and>
       (0 < n \<longrightarrow> cell_c (inner sample_row ! (n - 1)) \<noteq> SPACE \<or> has_zerowidth (extra_of (inner sample_row ! (n - 1)))))"
    have "\<not> n \<le> 2" using n c(2,4) by (auto simp: sample_row_def dest!: spec [of _ 2])
    moreover have "n \<noteq> 4" using n c by (auto simp: sample_row_def)
    ultimately show "n = 3" using n by (simp add: sample_row_def)
  qed
qed

end
