(* ===== verification/Storage.thy ===== *)
theory Storage
  imports Row
begin

text \<open>
  The ring buffer that stores the rows of a grid, \<open>src/terminal/grid/storage.rs\<close>.

  \<open>Line\<close> is an \<open>i32\<close> and is modelled as an integer, \<open>usize\<close> as a natural number; a
  \<open>debug_assert\<close> that fails is a panic. The \<open>while\<close> loop of \<open>rotate\<close> is a partial function
  whose value is \<open>None\<close> when it does not end.
\<close>

section \<open>The ring buffer\<close>

definition MAX_CACHE_SIZE :: nat where "MAX_CACHE_SIZE = 256"

record 'c storage =
  rows :: "'c row list"
  zero :: nat
  visible_lines :: nat
  len :: nat

definition with_capacity :: "'c cell_ops \<Rightarrow> nat \<Rightarrow> nat \<Rightarrow> 'c storage option" where
  "with_capacity G visible columns =
     (if visible = 0 then Some \<lparr>rows = [], zero = 0, visible_lines = 0, len = 0\<rparr>
      else do { r \<leftarrow> row_new G columns;
                Some \<lparr>rows = replicate visible r, zero = 0, visible_lines = visible, len = visible\<rparr> })"

definition compute_index :: "'c storage \<Rightarrow> int \<Rightarrow> nat option" where
  "compute_index s requested =
     (if requested < int (visible_lines s)
      then let positive = nat (int (visible_lines s) - requested) - 1 in
           if positive < len s
           then let zeroed = zero s + positive in
                Some (if length (rows s) \<le> zeroed then zeroed - length (rows s) else zeroed)
           else None
      else None)"

definition storage_get :: "'c storage \<Rightarrow> int \<Rightarrow> 'c row option" where
  "storage_get s line = do { i \<leftarrow> compute_index s line; idx (rows s) i }"

definition storage_modify ::
  "('c row \<Rightarrow> 'c row option) \<Rightarrow> int \<Rightarrow> 'c storage \<Rightarrow> 'c storage option" where
  "storage_modify f line s =
     do { i \<leftarrow> compute_index s line;
          r \<leftarrow> idx (rows s) i;
          r' \<leftarrow> f r;
          rs \<leftarrow> upd (rows s) i r';
          Some (s\<lparr>rows := rs\<rparr>) }"

definition storage_swap :: "int \<Rightarrow> int \<Rightarrow> 'c storage \<Rightarrow> 'c storage option" where
  "storage_swap a b s =
     do { i \<leftarrow> compute_index s a;
          j \<leftarrow> compute_index s b;
          rs \<leftarrow> swap_at (rows s) i j;
          Some (s\<lparr>rows := rs\<rparr>) }"

definition rezero :: "'c storage \<Rightarrow> 'c storage" where
  "rezero s = (if zero s = 0 then s else s\<lparr>rows := rotate (zero s) (rows s), zero := 0\<rparr>)"

definition storage_truncate :: "'c storage \<Rightarrow> 'c storage" where
  "storage_truncate s = (let s = rezero s in s\<lparr>rows := take (len s) (rows s)\<rparr>)"

definition shrink_lines :: "nat \<Rightarrow> 'c storage \<Rightarrow> 'c storage option" where
  "shrink_lines shrinkage s =
     do { n \<leftarrow> usub (len s) shrinkage;
          let s = s\<lparr>len := n\<rparr>;
          Some (if n + MAX_CACHE_SIZE < length (rows s) then storage_truncate s else s) }"

definition storage_initialize :: "'c cell_ops \<Rightarrow> nat \<Rightarrow> nat \<Rightarrow> 'c storage \<Rightarrow> 'c storage option" where
  "storage_initialize G additional columns s =
     do { s \<leftarrow> (if length (rows s) < len s + additional
                then let s = rezero s in
                     do { r \<leftarrow> row_new G columns;
                          Some (s\<lparr>rows := rows s @ replicate (max additional MAX_CACHE_SIZE) r\<rparr>) }
                else Some s);
          Some (s\<lparr>len := len s + additional\<rparr>) }"

definition grow_visible_lines :: "'c cell_ops \<Rightarrow> nat \<Rightarrow> 'c storage \<Rightarrow> 'c storage option" where
  "grow_visible_lines G next s =
     do { additional \<leftarrow> usub next (visible_lines s);
          r \<leftarrow> storage_get s 0;
          s \<leftarrow> storage_initialize G additional (length (inner r)) s;
          Some (s\<lparr>visible_lines := next\<rparr>) }"

definition shrink_visible_lines :: "nat \<Rightarrow> 'c storage \<Rightarrow> 'c storage option" where
  "shrink_visible_lines next s =
     do { shrinkage \<leftarrow> usub (visible_lines s) next;
          s \<leftarrow> shrink_lines shrinkage s;
          Some (s\<lparr>visible_lines := next\<rparr>) }"

partial_function (option) wrap_zero :: "nat \<Rightarrow> nat \<Rightarrow> nat option" where
  "wrap_zero n z = (if n \<le> z then wrap_zero n (z - n) else Some z)"

declare wrap_zero.simps [code]

definition storage_rotate :: "int \<Rightarrow> 'c storage \<Rightarrow> 'c storage option" where
  "storage_rotate count s =
     (let n = length (rows s) in
      if nat \<bar>count\<bar> \<le> n
      then do { z \<leftarrow> wrap_zero n (nat (int (zero s) + count + int n));
                Some (s\<lparr>zero := z\<rparr>) }
      else None)"

definition rotate_down :: "nat \<Rightarrow> 'c storage \<Rightarrow> 'c storage option" where
  "rotate_down count s =
     (if rows s = [] then None else Some (s\<lparr>zero := (zero s + count) mod length (rows s)\<rparr>))"

definition replace_inner :: "'c row list \<Rightarrow> 'c storage \<Rightarrow> 'c storage" where
  "replace_inner rs s = s\<lparr>len := length rs, rows := rs, zero := 0\<rparr>"

definition take_all :: "'c storage \<Rightarrow> 'c row list \<times> 'c storage" where
  "take_all s = (let s = storage_truncate s in (rows s, s\<lparr>rows := [], len := 0\<rparr>))"

definition storage_map_owned :: "('c \<Rightarrow> 'd) \<Rightarrow> 'c storage \<Rightarrow> 'd storage" where
  "storage_map_owned f s = \<lparr>rows = map (row_map_owned f) (rows s), zero = zero s,
     visible_lines = visible_lines s, len = len s\<rparr>"

definition storage_map :: "('c row \<Rightarrow> 'c \<Rightarrow> 'd) \<Rightarrow> 'c storage \<Rightarrow> 'd storage" where
  "storage_map f s = \<lparr>rows = map (row_map f) (rows s), zero = zero s,
     visible_lines = visible_lines s, len = len s\<rparr>"

text \<open>Equality panics unless both buffers are rotated back to zero.\<close>

definition storage_eq :: "'c storage \<Rightarrow> 'c storage \<Rightarrow> bool option" where
  "storage_eq s t =
     (if zero s = 0 \<and> zero t = 0
      then Some (map inner (rows s) = map inner (rows t) \<and> len s = len t) else None)"

section \<open>The buffer as a list\<close>

text \<open>
  The ring read from its bottom line, and the lines in use: the bottom line first, the oldest
  line of the history last.
\<close>

definition ring :: "'c storage \<Rightarrow> 'c row list" where
  "ring s = rotate (zero s) (rows s)"

definition active :: "'c storage \<Rightarrow> 'c row list" where
  "active s = take (len s) (ring s)"

definition storage_ok :: "'c storage \<Rightarrow> bool" where
  "storage_ok s \<longleftrightarrow> zero s < length (rows s) \<and> len s \<le> length (rows s) \<and>
     visible_lines s \<le> len s \<and> 1 \<le> visible_lines s"

lemma length_ring [simp]: "length (ring s) = length (rows s)"
  by (simp add: ring_def)

lemma set_ring [simp]: "set (ring s) = set (rows s)"
  by (simp add: ring_def)

text \<open>The lines that can be indexed.\<close>

definition valid_line :: "'c storage \<Rightarrow> int \<Rightarrow> bool" where
  "valid_line s l \<longleftrightarrow> int (visible_lines s) - int (len s) \<le> l \<and> l < int (visible_lines s)"

definition line_slot :: "'c storage \<Rightarrow> int \<Rightarrow> nat" where
  "line_slot s l = nat (int (visible_lines s) - l) - 1"

lemma line_slot_less: "valid_line s l \<Longrightarrow> line_slot s l < len s"
  by (auto simp: valid_line_def line_slot_def)

lemma line_slot_inj: "valid_line s l \<Longrightarrow> valid_line s l' \<Longrightarrow> line_slot s l = line_slot s l' \<longleftrightarrow> l = l'"
  by (auto simp: valid_line_def line_slot_def)

lemma add_mod_below: "z < n \<Longrightarrow> k < n \<Longrightarrow> (z + k) mod n = (if n \<le> z + k then z + k - n else z + k)"
  for n :: nat
  by (auto simp: mod_if [of "z + k"])

lemma compute_index_mod:
  assumes "storage_ok s"
  shows "compute_index s l =
    (if valid_line s l then Some ((zero s + line_slot s l) mod length (rows s)) else None)"
proof -
  have "(zero s + k) mod length (rows s) =
      (if length (rows s) \<le> zero s + k then zero s + k - length (rows s) else zero s + k)"
    if "k < len s" for k
    using that assms by (intro add_mod_below) (auto simp: storage_ok_def)
  moreover have "valid_line s l \<longleftrightarrow> l < int (visible_lines s) \<and> line_slot s l < len s"
    by (auto simp: valid_line_def line_slot_def)
  ultimately show ?thesis
    by (auto simp: compute_index_def Let_def line_slot_def)
qed

lemma compute_index_inj:
  assumes "storage_ok s" "valid_line s a" "valid_line s b"
  shows "(zero s + line_slot s a) mod length (rows s) = (zero s + line_slot s b) mod length (rows s) \<longleftrightarrow> a = b"
proof
  let ?n = "length (rows s)"
  assume "(zero s + line_slot s a) mod ?n = (zero s + line_slot s b) mod ?n"
  moreover have "line_slot s a < ?n" "line_slot s b < ?n" "zero s < ?n"
    using line_slot_less assms by (fastforce simp: storage_ok_def)+
  ultimately have "line_slot s a = line_slot s b"
    using assms(1) by (simp add: add_mod_below split: if_splits)
  then show "a = b"
    using line_slot_inj [OF assms(2,3)] by blast
qed simp

text \<open>Indexing reads the line from the list; out of range it panics.\<close>

lemma storage_get_active:
  assumes "storage_ok s"
  shows "storage_get s l = (if valid_line s l then Some (active s ! line_slot s l) else None)"
proof (cases "valid_line s l")
  case True
  have "line_slot s l < len s" by (rule line_slot_less [OF True])
  moreover have "line_slot s l < length (rows s)" "0 < length (rows s)"
    using calculation assms by (auto simp: storage_ok_def)
  ultimately show ?thesis
    using True assms
    by (simp add: storage_get_def compute_index_mod active_def ring_def nth_rotate)
qed (use assms in \<open>simp add: storage_get_def compute_index_mod\<close>)

section \<open>An indexable store of lines\<close>

text \<open>
  What the scrolling loops of the grid use: a store whose lines can be read, replaced and
  swapped, where everything else the store holds, \<open>rest\<close>, stays as it is.
\<close>

locale line_store =
  fixes ok :: "'s \<Rightarrow> bool"
    and get :: "'s \<Rightarrow> int \<Rightarrow> 'r option"
    and swap :: "int \<Rightarrow> int \<Rightarrow> 's \<Rightarrow> 's option"
    and modify :: "('r \<Rightarrow> 'r option) \<Rightarrow> int \<Rightarrow> 's \<Rightarrow> 's option"
    and rest :: "'s \<Rightarrow> 'f"
  assumes swap_law: "ok s \<Longrightarrow> get s a = Some x \<Longrightarrow> get s b = Some y \<Longrightarrow>
      returns (swap a b s) (\<lambda>s'. ok s' \<and> get s' = (get s)(a \<mapsto> y, b \<mapsto> x) \<and> rest s' = rest s)"
    and modify_law: "ok s \<Longrightarrow> get s a = Some x \<Longrightarrow> f x = Some y \<Longrightarrow>
      returns (modify f a s) (\<lambda>s'. ok s' \<and> get s' = (get s)(a \<mapsto> y) \<and> rest s' = rest s)"
begin

text \<open>Resetting, or otherwise replacing, the lines from \<open>a\<close> to \<open>b\<close>.\<close>

lemma modify_range:
  assumes "ok s" "\<And>l. a \<le> l \<Longrightarrow> l < b \<Longrightarrow> \<exists>x. get s l = Some x \<and> f x = Some (g x)" "distinct ls" "set ls = {a..<b}"
  shows "returns (for_each (modify f) ls s) (\<lambda>s'. ok s' \<and> rest s' = rest s \<and>
    (\<forall>l. get s' l = (if a \<le> l \<and> l < b then map_option g (get s l) else get s l)))"
proof -
  define I where "I = (\<lambda>n s'. ok s' \<and> rest s' = rest s \<and>
    (\<forall>l. get s' l = (if l \<in> set (take n ls) then map_option g (get s l) else get s l)))"
  have "returns (for_each (modify f) ls s) (I (length ls))"
  proof (rule for_each_nth)
    show "I 0 s" using assms(1) by (simp add: I_def)
  next
    fix n t assume n: "n < length ls" and I: "I n t"
    let ?l = "ls ! n"
    have new: "?l \<notin> set (take n ls)"
      using assms(3) n by (auto simp: in_set_conv_nth nth_eq_iff_index_eq)
    have "?l \<in> {a..<b}" using assms(4) n nth_mem by blast
    then obtain x where x: "get s ?l = Some x" "f x = Some (g x)" using assms(2) by auto
    then have "get t ?l = Some x" using I new by (simp add: I_def)
    from modify_law [of t ?l x f "g x", OF _ this x(2)] have "returns (modify f ?l t)
        (\<lambda>t'. ok t' \<and> get t' = (get t)(?l \<mapsto> g x) \<and> rest t' = rest t)"
      using I by (simp add: I_def)
    then show "returns (modify f ?l t) (I (Suc n))"
      by (rule returns_mono) (use I n x(1) new in \<open>auto simp: I_def take_Suc_conv_app_nth\<close>)
  qed
  then show ?thesis
    by (rule returns_mono) (use assms(4) in \<open>simp add: I_def\<close>)
qed

text \<open>
  Swapping each line from \<open>a\<close> to \<open>b\<close> with the one \<open>p\<close> below moves the lines up by \<open>p\<close>; the
  first \<open>p\<close> lines end up, in some order, below.
\<close>

lemma swap_up:
  assumes "ok s" "0 \<le> p" "\<And>l. a \<le> l \<Longrightarrow> l < b + p \<Longrightarrow> get s l \<noteq> None" "a \<le> b"
  shows "returns (for_each (\<lambda>l. swap l (l + p)) (irange a b) s) (\<lambda>s'. ok s' \<and> rest s' = rest s \<and>
    (\<forall>l. a \<le> l \<and> l < b \<longrightarrow> get s' l = get s (l + p)) \<and>
    (\<forall>l. l < a \<or> b + p \<le> l \<longrightarrow> get s' l = get s l) \<and>
    (\<forall>l. b \<le> l \<and> l < b + p \<longrightarrow> (\<exists>k. a \<le> k \<and> k < a + p \<and> get s' l = get s k)))"
proof -
  define I where "I = (\<lambda>n s'. ok s' \<and> rest s' = rest s \<and>
    (\<forall>l. a \<le> l \<and> l < a + int n \<longrightarrow> get s' l = get s (l + p)) \<and>
    (\<forall>l. l < a \<or> a + int n + p \<le> l \<longrightarrow> get s' l = get s l) \<and>
    (\<forall>l. a + int n \<le> l \<and> l < a + int n + p \<longrightarrow> (\<exists>k. a \<le> k \<and> k < a + p \<and> get s' l = get s k)))"
  have "returns (for_each (\<lambda>l. swap l (l + p)) (irange a b) s) (I (length (irange a b)))"
  proof (rule for_each_nth)
    show "I 0 s" using assms(1) by (auto simp: I_def)
  next
    fix n t assume n: "n < length (irange a b)" and I: "I n t"
    let ?l = "a + int n"
    have item: "irange a b ! n = ?l" and le: "?l < b" using n by auto
    show "returns (swap (irange a b ! n) (irange a b ! n + p) t) (I (Suc n))"
    proof (cases "p = 0")
      case True
      obtain x where x: "get t ?l = Some x"
        using I assms(3) [of ?l] le True by (auto simp: I_def)
      have "returns (swap ?l ?l t) (\<lambda>t'. ok t' \<and> get t' = (get t)(?l \<mapsto> x, ?l \<mapsto> x) \<and> rest t' = rest t)"
        using swap_law [OF _ x x] I by (simp add: I_def)
      moreover have "get t l = get s l" for l
        using I True by (cases "l < a"; cases "l < a + int n") (auto simp: I_def)
      ultimately show ?thesis unfolding item True
        by (simp, elim returns_mono) (use I x True in \<open>auto simp: I_def fun_upd_idem\<close>)
    next
      case False
      obtain k where k: "a \<le> k" "k < a + p" "get t ?l = get s k"
        using I False assms(2) by (force simp: I_def)
      then obtain x where x: "get t ?l = Some x" using assms(3) [of k] le by auto
      have hi: "get t (?l + p) = get s (?l + p)" using I by (simp add: I_def)
      then obtain y where y: "get t (?l + p) = Some y" using assms(2) assms(3) [of "?l + p"] le by auto
      have "returns (swap ?l (?l + p) t)
          (\<lambda>t'. ok t' \<and> get t' = (get t)(?l \<mapsto> y, ?l + p \<mapsto> x) \<and> rest t' = rest t)"
        using swap_law [OF _ x y] I by (simp add: I_def)
      then show ?thesis unfolding item
      proof (rule returns_mono)
        fix t' assume t': "ok t' \<and> get t' = (get t)(?l \<mapsto> y, ?l + p \<mapsto> x) \<and> rest t' = rest t"
        have I2: "\<And>l. a \<le> l \<Longrightarrow> l < a + int n \<Longrightarrow> get t l = get s (l + p)"
          and I3: "\<And>l. l < a \<or> a + int n + p \<le> l \<Longrightarrow> get t l = get s l"
          using I unfolding I_def by blast+
        have "get t' l = get s (l + p)" if "a \<le> l" "l < a + int (Suc n)" for l
        proof (cases "l = ?l")
          case True
          then show ?thesis using t' hi y False by simp
        next
          case other: False
          then have "l < ?l" "l \<noteq> ?l + p" using that assms(2) by simp_all
          then show ?thesis using t' I2 [OF that(1)] other by simp
        qed
        moreover have "get t' l = get s l" if "l < a \<or> a + int (Suc n) + p \<le> l" for l
        proof -
          have "l \<noteq> ?l" "l \<noteq> ?l + p" using that assms(2) by auto
          then show ?thesis using t' I3 [of l] that by auto
        qed
        moreover have "\<exists>k. a \<le> k \<and> k < a + p \<and> get t' l = get s k"
          if "a + int (Suc n) \<le> l" "l < a + int (Suc n) + p" for l
        proof (cases "l = ?l + p")
          case True
          then show ?thesis using k x t' by (intro exI [of _ k]) simp
        next
          case other: False
          then have "a + int n \<le> l" "l < a + int n + p" "get t' l = get t l" using that t' by auto
          then show ?thesis using I by (auto simp: I_def)
        qed
        moreover have "ok t'" "rest t' = rest s" using t' I by (simp_all add: I_def)
        ultimately show "I (Suc n) t'" unfolding I_def by blast
      qed
    qed
  qed
  then show ?thesis
    by (rule returns_mono) (use assms(4) in \<open>auto simp: I_def\<close>)
qed

text \<open>The same from the bottom, which moves the lines down by \<open>p\<close>.\<close>

lemma swap_down:
  assumes "ok s" "0 \<le> p" "\<And>l. a - p \<le> l \<Longrightarrow> l < b \<Longrightarrow> get s l \<noteq> None" "a \<le> b"
  shows "returns (for_each (\<lambda>l. swap l (l - p)) (rev (irange a b)) s) (\<lambda>s'. ok s' \<and> rest s' = rest s \<and>
    (\<forall>l. a \<le> l \<and> l < b \<longrightarrow> get s' l = get s (l - p)) \<and>
    (\<forall>l. l < a - p \<or> b \<le> l \<longrightarrow> get s' l = get s l) \<and>
    (\<forall>l. a - p \<le> l \<and> l < a \<longrightarrow> (\<exists>k. b - p \<le> k \<and> k < b \<and> get s' l = get s k)))"
proof -
  define I where "I = (\<lambda>n s'. ok s' \<and> rest s' = rest s \<and>
    (\<forall>l. b - int n \<le> l \<and> l < b \<longrightarrow> get s' l = get s (l - p)) \<and>
    (\<forall>l. l < b - int n - p \<or> b \<le> l \<longrightarrow> get s' l = get s l) \<and>
    (\<forall>l. b - int n - p \<le> l \<and> l < b - int n \<longrightarrow> (\<exists>k. b - p \<le> k \<and> k < b \<and> get s' l = get s k)))"
  let ?ls = "rev (irange a b)"
  have "returns (for_each (\<lambda>l. swap l (l - p)) ?ls s) (I (length ?ls))"
  proof (rule for_each_nth)
    show "I 0 s" using assms(1) by (auto simp: I_def)
  next
    fix n t assume n: "n < length ?ls" and I: "I n t"
    let ?l = "b - 1 - int n"
    have le: "a \<le> ?l" "?l < b" using n by auto
    have item: "?ls ! n = ?l" using n by (simp add: rev_nth)
    have I1: "ok t" "rest t = rest s"
      and I2: "\<And>l. b - int n \<le> l \<Longrightarrow> l < b \<Longrightarrow> get t l = get s (l - p)"
      and I3: "\<And>l. l < b - int n - p \<or> b \<le> l \<Longrightarrow> get t l = get s l"
      and I4: "\<And>l. b - int n - p \<le> l \<Longrightarrow> l < b - int n \<Longrightarrow> \<exists>k. b - p \<le> k \<and> k < b \<and> get t l = get s k"
      using I unfolding I_def by blast+
    show "returns (swap (?ls ! n) (?ls ! n - p) t) (I (Suc n))"
    proof (cases "p = 0")
      case True
      have all: "get t l = get s l" for l
        using I2 [of l] I3 [of l] True by (cases "l < b - int n"; cases "l < b") auto
      then obtain x where x: "get t ?l = Some x"
        using assms(3) [of ?l] le True by auto
      have "returns (swap ?l ?l t) (\<lambda>t'. ok t' \<and> get t' = (get t)(?l \<mapsto> x, ?l \<mapsto> x) \<and> rest t' = rest t)"
        using swap_law [OF _ x x] I1 by simp
      then show ?thesis using all unfolding item True
        by (simp, elim returns_mono) (use I x True in \<open>auto simp: I_def fun_upd_idem\<close>)
    next
      case False
      obtain k where k: "b - p \<le> k" "k < b" "get t ?l = get s k"
        using I4 [of ?l] False assms(2) by auto
      then obtain x where x: "get t ?l = Some x" using assms(3) [of k] assms(4) by auto
      have hi: "get t (?l - p) = get s (?l - p)" using I3 by simp
      then obtain y where y: "get t (?l - p) = Some y" using assms(2) assms(3) [of "?l - p"] le by auto
      have "returns (swap ?l (?l - p) t)
          (\<lambda>t'. ok t' \<and> get t' = (get t)(?l \<mapsto> y, ?l - p \<mapsto> x) \<and> rest t' = rest t)"
        using swap_law [OF _ x y] I1 by simp
      then show ?thesis unfolding item
      proof (rule returns_mono)
        fix t' assume t': "ok t' \<and> get t' = (get t)(?l \<mapsto> y, ?l - p \<mapsto> x) \<and> rest t' = rest t"
        have "get t' l = get s (l - p)" if "b - int (Suc n) \<le> l" "l < b" for l
        proof (cases "l = ?l")
          case True
          then show ?thesis using t' hi y False by simp
        next
          case other: False
          then have "?l < l" "l \<noteq> ?l - p" using that assms(2) by auto
          then show ?thesis using t' I2 [of l] other that by simp
        qed
        moreover have "get t' l = get s l" if "l < b - int (Suc n) - p \<or> b \<le> l" for l
        proof -
          have "l \<noteq> ?l" "l \<noteq> ?l - p" using that assms(2) by auto
          then show ?thesis using t' I3 [of l] that by auto
        qed
        moreover have "\<exists>k. b - p \<le> k \<and> k < b \<and> get t' l = get s k"
          if "b - int (Suc n) - p \<le> l" "l < b - int (Suc n)" for l
        proof (cases "l = ?l - p")
          case True
          then show ?thesis using k x t' by (intro exI [of _ k]) simp
        next
          case other: False
          then have "b - int n - p \<le> l" "l < b - int n" "get t' l = get t l" using that t' by auto
          then show ?thesis using I4 [of l] by simp
        qed
        moreover have "ok t'" "rest t' = rest s" using t' I1 by simp_all
        ultimately show "I (Suc n) t'" unfolding I_def by blast
      qed
    qed
  qed
  then show ?thesis
    by (rule returns_mono) (use assms(4) in \<open>auto simp: I_def\<close>)
qed

end

section \<open>The ring buffer is such a store\<close>

text \<open>What swapping and replacing lines leaves alone: the shape of the buffer and the lines not in use.\<close>

definition storage_frame :: "'c storage \<Rightarrow> nat \<times> nat \<times> nat \<times> nat \<times> 'c row list" where
  "storage_frame s = (zero s, visible_lines s, len s, length (rows s), drop (len s) (ring s))"

lemma drop_rotate_update:
  assumes "z < length xs" "k < n" "n \<le> length xs"
  shows "drop n (rotate z (xs[(z + k) mod length xs := v])) = drop n (rotate z xs)"
proof (rule nth_equalityI)
  fix i assume "i < length (drop n (rotate z (xs[(z + k) mod length xs := v])))"
  then have i: "n + i < length xs" by simp
  then have "(z + (n + i)) mod length xs \<noteq> (z + k) mod length xs"
    using assms by (auto simp: add_mod_below split: if_splits)
  then show "drop n (rotate z (xs[(z + k) mod length xs := v])) ! i = drop n (rotate z xs) ! i"
    using i assms by (simp add: nth_rotate)
qed simp

lemma storage_get_update:
  assumes "storage_ok s" "valid_line s a"
  shows "storage_get (s\<lparr>rows := (rows s)[(zero s + line_slot s a) mod length (rows s) := r]\<rparr>)
      = (storage_get s)(a \<mapsto> r)"
    and "storage_ok (s\<lparr>rows := (rows s)[(zero s + line_slot s a) mod length (rows s) := r]\<rparr>)"
    and "storage_frame (s\<lparr>rows := (rows s)[(zero s + line_slot s a) mod length (rows s) := r]\<rparr>) = storage_frame s"
proof -
  let ?i = "(zero s + line_slot s a) mod length (rows s)"
  let ?s = "s\<lparr>rows := (rows s)[?i := r]\<rparr>"
  show ok: "storage_ok ?s"
    using assms(1) by (simp add: storage_ok_def)
  have pos: "0 < length (rows s)" using assms(1) by (auto simp: storage_ok_def)
  have same: "valid_line ?s = valid_line s" "line_slot ?s = line_slot s"
    by (simp_all add: valid_line_def line_slot_def fun_eq_iff)
  have "storage_get ?s l = ((storage_get s)(a \<mapsto> r)) l" for l
  proof (cases "valid_line s l")
    case True
    then show ?thesis
      using compute_index_mod [OF assms(1)] compute_index_mod [OF ok] compute_index_inj [OF assms True] pos
        compute_index_inj [OF assms(1) True assms(2)]
      by (simp add: storage_get_def same nth_list_update)
  next
    case False
    then show ?thesis
      using compute_index_mod [OF assms(1)] compute_index_mod [OF ok] assms(2)
      by (auto simp: storage_get_def same)
  qed
  then show "storage_get ?s = (storage_get s)(a \<mapsto> r)" by blast
  show "storage_frame ?s = storage_frame s"
    using drop_rotate_update [of "zero s" "rows s" "line_slot s a" "len s" r] assms line_slot_less [OF assms(2)]
    by (simp add: storage_frame_def ring_def storage_ok_def)
qed

lemma storage_get_Some:
  assumes "storage_ok s" "storage_get s a = Some x"
  shows "valid_line s a" "compute_index s a = Some ((zero s + line_slot s a) mod length (rows s))"
    "rows s ! ((zero s + line_slot s a) mod length (rows s)) = x"
    "(zero s + line_slot s a) mod length (rows s) < length (rows s)"
  using assms by (auto simp: storage_get_def compute_index_mod idx_eq_Some split: if_splits)

interpretation lines: line_store storage_ok storage_get storage_swap storage_modify storage_frame
proof
  fix s :: "'a storage" and a b x y
  assume ok: "storage_ok s" and a: "storage_get s a = Some x" and b: "storage_get s b = Some y"
  note A = storage_get_Some [OF ok a] and B = storage_get_Some [OF ok b]
  let ?i = "(zero s + line_slot s a) mod length (rows s)"
  let ?j = "(zero s + line_slot s b) mod length (rows s)"
  let ?s = "s\<lparr>rows := (rows s)[?i := y]\<rparr>"
  note s1 = storage_get_update [OF ok A(1), of y]
  have same: "valid_line ?s b" "line_slot ?s b = line_slot s b"
    using B(1) by (simp_all add: valid_line_def line_slot_def)
  note s2 = storage_get_update [OF s1(2) same(1), of x]
  have "storage_swap a b s = Some (?s\<lparr>rows := (rows ?s)[?j := x]\<rparr>)"
    using A B by (simp add: storage_swap_def)
  then show "returns (storage_swap a b s) (\<lambda>s'. storage_ok s' \<and>
      storage_get s' = (storage_get s)(a \<mapsto> y, b \<mapsto> x) \<and> storage_frame s' = storage_frame s)"
    using s1 s2 same(2) by simp
next
  fix s :: "'a storage" and a x f and y :: "'a row"
  assume ok: "storage_ok s" and a: "storage_get s a = Some x" and f: "f x = Some y"
  note A = storage_get_Some [OF ok a]
  have "storage_modify f a s = Some (s\<lparr>rows := (rows s)[(zero s + line_slot s a) mod length (rows s) := y]\<rparr>)"
    using A f by (simp add: storage_modify_def)
  then show "returns (storage_modify f a s) (\<lambda>s'. storage_ok s' \<and>
      storage_get s' = (storage_get s)(a \<mapsto> y) \<and> storage_frame s' = storage_frame s)"
    using storage_get_update [OF ok A(1), of y] by simp
qed

section \<open>Operations on the list of lines\<close>

lemma storage_swap_commute: "storage_swap a b s = storage_swap b a s"
proof -
  have "swap_at xs i j = swap_at xs j i" for xs :: "'a row list" and i j
    by (cases "i = j") (auto simp: swap_at_def list_update_swap)
  then show ?thesis
    by (cases "compute_index s a"; cases "compute_index s b") (simp_all add: storage_swap_def)
qed

lemma wrap_zero_mod: "0 < n \<Longrightarrow> wrap_zero n z = Some (z mod n)"
proof (induction z rule: less_induct)
  case (less z)
  show ?case
  proof (cases "n \<le> z")
    case True
    then show ?thesis
      using less.IH [of "z - n"] less.prems by (simp add: wrap_zero.simps [of n z] le_mod_geq)
  qed (simp add: wrap_zero.simps [of n z])
qed

lemma rotate_ring: "rotate k (ring s) = rotate ((k + zero s) mod length (rows s)) (rows s)"
  unfolding ring_def rotate_rotate by (rule rotate_conv_mod)

lemma storage_rotate_spec:
  assumes ok: "storage_ok s" and count: "\<bar>count\<bar> \<le> int (length (rows s))"
  shows "returns (storage_rotate count s) (\<lambda>s'. storage_ok s' \<and> rows s' = rows s \<and> len s' = len s \<and>
    visible_lines s' = visible_lines s \<and>
    ring s' = rotate (nat (count mod int (length (rows s)))) (ring s))"
proof -
  let ?n = "length (rows s)"
  have n: "0 < ?n" using ok by (auto simp: storage_ok_def)
  define z where "z = nat (int (zero s) + count + int ?n) mod ?n"
  have "int z = (int (zero s) + count + int ?n) mod int ?n"
    using count by (simp add: z_def zmod_int)
  also have "\<dots> = int ((nat (count mod int ?n) + zero s) mod ?n)"
    using n by (simp add: zmod_int mod_add_left_eq mod_add_right_eq add.commute [of count])
  finally have z: "z = (nat (count mod int ?n) + zero s) mod ?n" by simp
  have "storage_rotate count s = Some (s\<lparr>zero := z\<rparr>)"
    using n count by (simp add: storage_rotate_def Let_def wrap_zero_mod z_def)
  then show ?thesis
    using ok n by (simp add: storage_ok_def rotate_ring) (simp add: ring_def z z_def)
qed

lemma storage_rotate_up:
  assumes ok: "storage_ok s" and p: "p \<le> length (rows s)"
  shows "returns (storage_rotate (- int p) s) (\<lambda>s'. storage_ok s' \<and> rows s' = rows s \<and> len s' = len s \<and>
    visible_lines s' = visible_lines s \<and>
    ring s' = drop (length (rows s) - p) (ring s) @ take (length (rows s) - p) (ring s))"
proof -
  let ?n = "length (rows s)"
  have n: "0 < ?n" using ok by (auto simp: storage_ok_def)
  have "rotate (nat (- int p mod int ?n)) (ring s) = drop (?n - p) (ring s) @ take (?n - p) (ring s)"
  proof (cases "p = 0 \<or> p = ?n")
    case True
    then show ?thesis by auto
  next
    case False
    then have "- int p mod int ?n = int ?n - int p"
      using p by (simp add: zmod_zminus1_eq_if)
    then have "nat (- int p mod int ?n) = ?n - p" by simp
    moreover have "(?n - p) mod ?n = ?n - p" using False n by (intro mod_less) auto
    ultimately show ?thesis by (simp only: rotate_drop_take length_ring)
  qed
  then show ?thesis
    using storage_rotate_spec [OF ok, of "- int p"] p by simp
qed

lemma rotate_down_spec:
  assumes ok: "storage_ok s" and p: "p \<le> length (rows s)"
  shows "returns (rotate_down p s) (\<lambda>s'. storage_ok s' \<and> rows s' = rows s \<and> len s' = len s \<and>
    visible_lines s' = visible_lines s \<and> ring s' = drop p (ring s) @ take p (ring s))"
proof -
  let ?n = "length (rows s)"
  have n: "0 < ?n" using ok by (auto simp: storage_ok_def)
  have "rotate ((zero s + p) mod ?n) (rows s) = rotate p (ring s)"
    by (simp add: rotate_ring add.commute)
  also have "\<dots> = drop p (ring s) @ take p (ring s)"
    using p by (cases "p = ?n") (simp_all add: rotate_drop_take)
  finally show ?thesis
    using n ok by (auto simp: rotate_down_def storage_ok_def ring_def)
qed

lemma rezero_spec:
  "storage_ok s \<Longrightarrow> rows (rezero s) = ring s \<and> zero (rezero s) = 0 \<and> len (rezero s) = len s \<and>
    visible_lines (rezero s) = visible_lines s \<and> ring (rezero s) = ring s"
  by (simp add: rezero_def ring_def)

lemma storage_truncate_spec:
  assumes "zero s < length (rows s)" "len s \<le> length (rows s)"
  shows "rows (storage_truncate s) = active s" "zero (storage_truncate s) = 0" "len (storage_truncate s) = len s"
    "visible_lines (storage_truncate s) = visible_lines s" "active (storage_truncate s) = active s"
  using assms by (auto simp: storage_truncate_def rezero_def active_def ring_def Let_def min_def)

text \<open>\<open>shrink_lines\<close> drops the oldest lines, whether or not it frees their memory.\<close>

lemma shrink_lines_spec:
  assumes ok: "storage_ok s" and n: "n + visible_lines s \<le> len s"
  shows "returns (shrink_lines n s) (\<lambda>s'. storage_ok s' \<and> active s' = take (len s - n) (active s) \<and>
    len s' = len s - n \<and> visible_lines s' = visible_lines s \<and> set (rows s') \<subseteq> set (rows s))"
proof -
  let ?s = "s\<lparr>len := len s - n\<rparr>"
  have a: "active ?s = take (len s - n) (active s)" "ring ?s = ring s"
    by (simp_all add: active_def ring_def)
  have b: "zero ?s < length (rows ?s)" "len ?s \<le> length (rows ?s)" "storage_ok ?s"
    using ok n by (auto simp: storage_ok_def)
  note t = storage_truncate_spec [OF b(1,2)]
  have "set (active ?s) \<subseteq> set (rows s)"
    using set_take_subset [of "len ?s" "ring ?s"] by (simp add: active_def a(2) flip: set_ring)
  moreover have "length (active ?s) = len s - n"
    using b(2) by (simp add: active_def)
  ultimately show ?thesis
    using n b a t ok by (auto simp: shrink_lines_def storage_ok_def Let_def)
qed

text \<open>\<open>initialize\<close> adds lines above the oldest one: cached rows first, new rows once they run out.\<close>

lemma initialize_spec:
  assumes ok: "storage_ok s" and columns: "1 \<le> columns"
  shows "returns (storage_initialize G n columns s) (\<lambda>s'. storage_ok s' \<and>
    take (len s) (active s') = active s \<and> len s' = len s + n \<and> visible_lines s' = visible_lines s \<and>
    set (rows s') \<subseteq> insert \<lparr>inner = replicate columns (gc_default G), occ = 0, extras = []\<rparr> (set (rows s)) \<and>
    length (rows s) \<le> length (rows s') \<and> take (length (rows s)) (ring s') = ring s)"
proof -
  let ?b = "\<lparr>inner = replicate columns (gc_default G), occ = 0, extras = []\<rparr>"
  have "row_new G columns = Some ?b" using columns by (simp add: row_new_def)
  moreover have "min (len s) (len s + n) = len s" by simp
  ultimately show ?thesis
    using ok rezero_spec [OF ok]
    by (auto simp: storage_initialize_def Let_def storage_ok_def active_def ring_def min_def)
qed

section \<open>What the ring buffer promises\<close>

text \<open>A full buffer of three rows whose first row is the second slot.\<close>

definition sample_storage :: "cell storage" where
  "sample_storage = \<lparr>rows = replicate 3 (blank_row packed_cell_ops 2 default_cell), zero = 1,
     visible_lines = 2, len = 3\<rparr>"

lemma sample_storage_ok: "storage_ok sample_storage"
  by (simp add: storage_ok_def sample_storage_def)

theorem storage_rotate_correct:
  assumes "storage_ok s" "\<bar>count\<bar> \<le> int (length (rows s))"
  shows "returns (storage_rotate count s) (\<lambda>s'. storage_ok s' \<and> rows s' = rows s \<and> len s' = len s \<and>
    visible_lines s' = visible_lines s \<and>
    ring s' = rotate (nat (count mod int (length (rows s)))) (ring s))"
  by (rule storage_rotate_spec [OF assms])

theorem storage_rotate_correct_witness:
  "returns (storage_rotate (-1) sample_storage) (\<lambda>s'. storage_ok s' \<and>
    ring s' = rotate 2 (ring sample_storage))"
  by (rule returns_mono [OF storage_rotate_correct [OF sample_storage_ok]]) (simp_all add: sample_storage_def)

text \<open>
  Taking lines away at the far end and adding them back never changes what the other lines hold.
\<close>

theorem storage_lines_kept:
  assumes "storage_ok s" "n + visible_lines s \<le> len s" "1 \<le> columns"
  shows "returns (shrink_lines n s) (\<lambda>s'. storage_ok s' \<and> len s' = len s - n \<and>
      (\<forall>l. int (visible_lines s) - int (len s - n) \<le> l \<longrightarrow> storage_get s' l = storage_get s l)) \<and>
    returns (storage_initialize G m columns s) (\<lambda>s'. storage_ok s' \<and> len s' = len s + m \<and>
      (\<forall>l. int (visible_lines s) - int (len s) \<le> l \<longrightarrow> storage_get s' l = storage_get s l))"
proof
  have same: "storage_get s' l = storage_get s l"
    if ok: "storage_ok s" "storage_ok s'" and v: "visible_lines s' = visible_lines s"
      and a: "k \<le> len s" "k \<le> len s'" "take k (active s') = take k (active s)"
      and l: "int (visible_lines s) - int k \<le> l" for s s' :: "'a storage" and k l
  proof -
    have valid: "valid_line s' l \<longleftrightarrow> valid_line s l" using v a l by (auto simp: valid_line_def)
    moreover have "active s' ! line_slot s' l = active s ! line_slot s l" if "valid_line s l"
    proof -
      have slot: "line_slot s' l = line_slot s l" using v by (simp add: line_slot_def)
      have "line_slot s l < k" using that l by (auto simp: line_slot_def valid_line_def)
      then show ?thesis using a(3) slot by (metis nth_take)
    qed
    ultimately show ?thesis by (simp add: storage_get_active ok)
  qed
  show "returns (shrink_lines n s) (\<lambda>s'. storage_ok s' \<and> len s' = len s - n \<and>
      (\<forall>l. int (visible_lines s) - int (len s - n) \<le> l \<longrightarrow> storage_get s' l = storage_get s l))"
  proof (rule returns_mono [OF shrink_lines_spec [OF assms(1,2)]])
    fix s' assume s': "storage_ok s' \<and> active s' = take (len s - n) (active s) \<and> len s' = len s - n \<and>
      visible_lines s' = visible_lines s \<and> set (rows s') \<subseteq> set (rows s)"
    then show "storage_ok s' \<and> len s' = len s - n \<and>
      (\<forall>l. int (visible_lines s) - int (len s - n) \<le> l \<longrightarrow> storage_get s' l = storage_get s l)"
      using same [OF assms(1), of s' "len s - n"] by simp
  qed
  show "returns (storage_initialize G m columns s) (\<lambda>s'. storage_ok s' \<and> len s' = len s + m \<and>
      (\<forall>l. int (visible_lines s) - int (len s) \<le> l \<longrightarrow> storage_get s' l = storage_get s l))"
  proof (rule returns_mono [OF initialize_spec [OF assms(1,3)]])
    fix s' assume s': "storage_ok s' \<and> take (len s) (active s') = active s \<and> len s' = len s + m \<and>
      visible_lines s' = visible_lines s \<and>
      set (rows s') \<subseteq> insert \<lparr>inner = replicate columns (gc_default G), occ = 0, extras = []\<rparr> (set (rows s)) \<and>
      length (rows s) \<le> length (rows s') \<and> take (length (rows s)) (ring s') = ring s"
    then have "take (len s) (active s') = take (len s) (active s)"
    proof -
      have "take (len s) (active s) = active s" by (rule take_all) (simp add: active_def)
      then show ?thesis using s' by simp
    qed
    then show "storage_ok s' \<and> len s' = len s + m \<and>
      (\<forall>l. int (visible_lines s) - int (len s) \<le> l \<longrightarrow> storage_get s' l = storage_get s l)"
      using s' same [OF assms(1), of s' "len s"] by simp
  qed
qed

theorem storage_lines_kept_witness:
  "returns (shrink_lines 1 sample_storage) (\<lambda>s'. storage_ok s' \<and> len s' = 2 \<and>
      (\<forall>l. 0 \<le> l \<longrightarrow> storage_get s' l = storage_get sample_storage l)) \<and>
   returns (storage_initialize packed_cell_ops 5 2 sample_storage) (\<lambda>s'. storage_ok s' \<and> len s' = 8 \<and>
      (\<forall>l. - 1 \<le> l \<longrightarrow> storage_get s' l = storage_get sample_storage l))"
  using storage_lines_kept [OF sample_storage_ok, of 1 2 packed_cell_ops 5]
  by (simp add: sample_storage_def)

end
