(* ===== verification/Index.thy ===== *)
theory Index
  imports Prelude
begin

text \<open>
  Points, lines and grid boundaries: \<open>src/terminal/index.rs\<close>, and the \<open>Dimensions\<close> trait
  of \<open>src/terminal/grid/mod.rs\<close>. A \<open>Line\<close> is an \<open>i32\<close> counted from the top of the live
  viewport, negative in scrollback: here an \<open>int\<close>. A \<open>Column\<close> is a \<open>usize\<close>: here a
  \<open>nat\<close>. Every grid has at least one column (\<open>Row::new\<close> asserts it), so the
  subtraction in \<open>last_column\<close> and the divisions by the column count never fail.
\<close>

section \<open>Points\<close>

datatype point = Point (line: int) (column: nat)

text \<open>\<open>Ord for Point\<close>: by line, then by column.\<close>

instantiation point :: linorder
begin

definition less_eq_point :: "point \<Rightarrow> point \<Rightarrow> bool" where
  "less_eq_point p q \<longleftrightarrow> line p < line q \<or> (line p = line q \<and> column p \<le> column q)"

definition less_point :: "point \<Rightarrow> point \<Rightarrow> bool" where
  "less_point p q \<longleftrightarrow> line p < line q \<or> (line p = line q \<and> column p < column q)"

instance
  by standard (auto simp: less_eq_point_def less_point_def intro: point.expand)

end

datatype direction = DLeft | DRight

fun opposite :: "direction \<Rightarrow> direction" where
  "opposite DRight = DLeft"
| "opposite DLeft = DRight"

datatype boundary = BCursor | BGrid | BNone

section \<open>Grid dimensions\<close>

record dims =
  total_lines :: nat
  screen_lines :: nat
  columns :: nat

definition history_size :: "dims \<Rightarrow> nat" where
  "history_size d = total_lines d - screen_lines d"

definition last_column :: "dims \<Rightarrow> nat" where
  "last_column d = columns d - 1"

definition topmost_line :: "dims \<Rightarrow> int" where
  "topmost_line d = - int (history_size d)"

definition bottommost_line :: "dims \<Rightarrow> int" where
  "bottommost_line d = int (screen_lines d) - 1"

text \<open>\<open>Line::grid_clamp\<close>; the unbounded case wraps around with a truncating remainder.\<close>

fun line_grid_clamp :: "int \<Rightarrow> dims \<Rightarrow> boundary \<Rightarrow> int" where
  "line_grid_clamp l d BCursor = max 0 (min (bottommost_line d) l)"
| "line_grid_clamp l d BGrid = max (topmost_line d) (min (bottommost_line d) l)"
| "line_grid_clamp l d BNone =
     (let sl = int (screen_lines d); tl = int (total_lines d) in
      if l \<ge> sl then topmost_line d + trunc_rem (l - sl) tl
      else bottommost_line d + trunc_rem (l - sl + 1) tl)"

text \<open>\<open>Point::grid_clamp\<close>, match arms in order.\<close>

definition point_grid_clamp :: "point \<Rightarrow> dims \<Rightarrow> boundary \<Rightarrow> point" where
  "point_grid_clamp p d b =
     (let lc = last_column d; p' = Point (line p) (min (column p) lc) in
      if b = BCursor \<and> line p' < 0 then Point 0 0
      else if b = BGrid \<and> line p' < topmost_line d then Point (topmost_line d) 0
      else if (b = BCursor \<or> b = BGrid) \<and> line p' > bottommost_line d
        then Point (bottommost_line d) lc
      else if b = BNone then Point (line_grid_clamp (line p') d b) (column p')
      else p')"

text \<open>\<open>Point::sub\<close> and \<open>Point::add\<close>.\<close>

definition point_sub :: "point \<Rightarrow> dims \<Rightarrow> boundary \<Rightarrow> nat \<Rightarrow> point" where
  "point_sub p d b rhs =
     (let cols = columns d;
          line_changes = (rhs + cols - 1 - column p) div cols
      in point_grid_clamp
           (Point (line p - int line_changes) ((cols + column p - rhs mod cols) mod cols)) d b)"

definition point_add :: "point \<Rightarrow> dims \<Rightarrow> boundary \<Rightarrow> nat \<Rightarrow> point" where
  "point_add p d b rhs =
     (let cols = columns d
      in point_grid_clamp
           (Point (line p + int ((rhs + column p) div cols)) ((column p + rhs) mod cols)) d b)"

section \<open>Properties\<close>

text \<open>A point inside the grid, and its linear position in reading order.\<close>

definition in_grid :: "dims \<Rightarrow> point \<Rightarrow> bool" where
  "in_grid d p \<longleftrightarrow> topmost_line d \<le> line p \<and> line p \<le> bottommost_line d \<and> column p < columns d"

definition dims_ok :: "dims \<Rightarrow> bool" where
  "dims_ok d \<longleftrightarrow> 0 < columns d \<and> 0 < screen_lines d \<and> screen_lines d \<le> total_lines d"

definition pos :: "dims \<Rightarrow> point \<Rightarrow> int" where
  "pos d p = line p * int (columns d) + int (column p)"

lemma point_grid_clamp_id: "in_grid d p \<Longrightarrow> point_grid_clamp p d BGrid = p"
  by (cases p) (auto simp: point_grid_clamp_def in_grid_def last_column_def Let_def)

lemma pos_inj:
  assumes "column p < columns d" "column q < columns d" "pos d p = pos d q"
  shows "p = q"
proof -
  have lines: "line x = pos d x div int (columns d)" "int (column x) = pos d x mod int (columns d)"
    if "column x < columns d" for x
    using that by (simp_all add: pos_def)
  show ?thesis
    using lines [OF assms(1)] lines [OF assms(2)] assms(3) by (simp add: point.expand)
qed

lemma pos_less_iff:
  assumes "column p < columns d" "column q < columns d"
  shows "p < q \<longleftrightarrow> pos d p < pos d q"
proof -
  have "pos d p < pos d q" if "p < q" "column p < columns d" for p q
  proof (cases "line p = line q")
    case True
    then show ?thesis using that by (simp add: less_point_def pos_def)
  next
    case False
    then have "line p + 1 \<le> line q" using that by (simp add: less_point_def)
    then have "(line p + 1) * int (columns d) \<le> line q * int (columns d)"
      by (intro mult_right_mono) simp_all
    then show ?thesis using that(2) by (simp add: pos_def distrib_right)
  qed
  from this [of p q] this [of q p] assms show ?thesis
    by (metis linorder_less_linear order_less_asym order_less_irrefl)
qed

lemma pos_le_iff:
  assumes "column p < columns d" "column q < columns d"
  shows "p \<le> q \<longleftrightarrow> pos d p \<le> pos d q"
  using pos_less_iff [OF assms(2,1)] by (simp flip: not_less)

lemma pos_add_raw:
  "(line p + int ((rhs + column p) div cols)) * int cols + int ((column p + rhs) mod cols)
     = line p * int cols + int (column p) + int rhs"
proof -
  have "int ((rhs + column p) div cols) * int cols + int ((column p + rhs) mod cols)
      = int (column p) + int rhs"
    by (metis add.commute div_mult_mod_eq of_nat_add of_nat_mult)
  then show ?thesis
    by (simp add: distrib_right)
qed

lemma pos_sub_raw:
  fixes c cols rhs :: nat and l :: int
  assumes "c < cols"
  shows "(l - int ((rhs + cols - 1 - c) div cols)) * int cols + int ((cols + c - rhs mod cols) mod cols)
     = l * int cols + int c - int rhs"
proof -
  define q r where "q = rhs div cols" and "r = rhs mod cols"
  have rhs: "rhs = q * cols + r" and r: "r < cols"
    using assms by (auto simp: q_def r_def)
  have changes: "(rhs + cols - 1 - c) div cols = q + (if c < r then 1 else 0)"
  proof -
    have "rhs + cols - 1 - c = (r + cols - 1 - c) + q * cols"
      using assms by (simp add: rhs)
    moreover have "(r + cols - 1 - c) div cols = (if c < r then 1 else 0)"
    proof (cases "c < r")
      case True
      have "r + cols - 1 - c = (r - 1 - c) + cols" using True by simp
      moreover have "r - 1 - c < cols" using r by simp
      ultimately show ?thesis using True assms by (simp only: div_add_self2) simp
    next
      case False
      then have "r + cols - 1 - c < cols" using assms by simp
      then show ?thesis using False by simp
    qed
    ultimately show ?thesis
      using assms by (simp only: div_mult_self1)
  qed
  have col: "(cols + c - r) mod cols = (if c < r then cols + c - r else c - r)"
  proof (cases "c < r")
    case True
    then show ?thesis using r by (simp add: mod_if)
  next
    case False
    then have "cols + c - r = (c - r) + cols" by simp
    moreover have "c - r < cols" using assms by simp
    ultimately show ?thesis using False by (simp only: mod_add_self2 mod_less) simp
  qed
  have "(l - int (q + (if c < r then 1 else 0))) * int cols
        + int (if c < r then cols + c - r else c - r)
      = l * int cols + int c - int (q * cols + r)"
  proof -
    have "int (if c < r then cols + c - r else c - r)
        = int c - int r + (if c < r then int cols else 0)"
      using r by auto
    moreover have "int (q + (if c < r then 1 else 0)) = int q + (if c < r then 1 else 0)"
      by simp
    moreover have "(l - (x + d)) * n + (y - z + d * n) = l * n + y - (x * n + z)"
      for x d n y z :: int by (simp add: algebra_simps)
    from this [of "int q" "if c < r then 1 else 0" "int cols" "int c" "int r"]
    have "(l - (int q + (if c < r then 1 else 0))) * int cols
        + (int c - int r + (if c < r then int cols else 0))
      = l * int cols + int c - (int q * int cols + int r)"
      by (cases "c < r") simp_all
    ultimately show ?thesis
      by (simp only: of_nat_add of_nat_mult)
  qed
  then show ?thesis
    by (simp only: changes col rhs [symmetric] r_def [symmetric])
qed

text \<open>A step that stays inside the grid moves by exactly that many cells in reading order.\<close>

lemma point_add_pos:
  assumes "dims_ok d" "in_grid d p" "pos d p + int n \<le> pos d (Point (bottommost_line d) (last_column d))"
  shows "pos d (point_add p d BGrid n) = pos d p + int n" and "in_grid d (point_add p d BGrid n)"
proof -
  let ?cols = "columns d"
  let ?q = "Point (line p + int ((n + column p) div ?cols)) ((column p + n) mod ?cols)"
  have c: "0 < ?cols" using assms(1) by (simp add: dims_ok_def)
  have pos: "pos d ?q = pos d p + int n"
    using pos_add_raw [of p n ?cols] by (simp add: pos_def)
  have "line ?q * int ?cols \<le> bottommost_line d * int ?cols + int (last_column d)"
    using assms(3) pos by (simp add: pos_def)
  also have "\<dots> < (bottommost_line d + 1) * int ?cols"
    using c by (simp add: last_column_def distrib_right)
  finally have "line ?q < bottommost_line d + 1"
    using c by simp
  then have grid: "in_grid d ?q"
    using assms(2) c by (auto simp: in_grid_def)
  then have "point_add p d BGrid n = ?q"
    using point_grid_clamp_id by (simp add: point_add_def Let_def)
  with pos grid show "pos d (point_add p d BGrid n) = pos d p + int n"
    and "in_grid d (point_add p d BGrid n)" by simp_all
qed

lemma point_sub_pos:
  assumes "dims_ok d" "in_grid d p" "pos d (Point (topmost_line d) 0) \<le> pos d p - int n"
  shows "pos d (point_sub p d BGrid n) = pos d p - int n" and "in_grid d (point_sub p d BGrid n)"
proof -
  let ?cols = "columns d"
  let ?q = "Point (line p - int ((n + ?cols - 1 - column p) div ?cols))
                  ((?cols + column p - n mod ?cols) mod ?cols)"
  have c: "0 < ?cols" using assms(1) by (simp add: dims_ok_def)
  have pos: "pos d ?q = pos d p - int n"
    using pos_sub_raw [of "column p" ?cols "line p" n] assms(2) by (simp add: pos_def in_grid_def)
  have "topmost_line d * int ?cols \<le> pos d ?q"
    using assms(3) pos by (simp add: pos_def)
  also have "\<dots> < (line ?q + 1) * int ?cols"
    using c by (simp add: pos_def distrib_right)
  finally have "topmost_line d < line ?q + 1"
    using c by simp
  then have grid: "in_grid d ?q"
    using assms(2) c by (auto simp: in_grid_def)
  then have "point_sub p d BGrid n = ?q"
    using point_grid_clamp_id by (simp add: point_sub_def Let_def)
  with pos grid show "pos d (point_sub p d BGrid n) = pos d p - int n"
    and "in_grid d (point_sub p d BGrid n)" by simp_all
qed

lemma point_grid_clamp_in_grid:
  assumes "dims_ok d"
  shows "in_grid d (point_grid_clamp p d b)"
proof -
  have nz: "0 < int (total_lines d)" using assms by (auto simp: dims_ok_def)
  have rem: "trunc_rem a (int (total_lines d)) < int (total_lines d)"
    "- int (total_lines d) < trunc_rem a (int (total_lines d))" for a
    using nz pos_mod_bound [OF nz, of a] pos_mod_sign [OF nz, of a]
      pos_mod_bound [OF nz, of "\<bar>a\<bar>"] pos_mod_sign [OF nz, of "\<bar>a\<bar>"]
    by (auto simp: trunc_rem_def)
  have sign: "0 \<le> a \<Longrightarrow> 0 \<le> trunc_rem a (int (total_lines d))"
    "a \<le> 0 \<Longrightarrow> trunc_rem a (int (total_lines d)) \<le> 0" for a
    using nz by (auto simp: trunc_rem_def pos_mod_sign)
  show ?thesis
    using assms rem [of "line p - int (screen_lines d)"] rem [of "line p - int (screen_lines d) + 1"]
      sign [of "line p - int (screen_lines d)"] sign [of "line p - int (screen_lines d) + 1"]
    by (cases b) (auto simp: point_grid_clamp_def in_grid_def dims_ok_def last_column_def
        bottommost_line_def topmost_line_def history_size_def Let_def)
qed

section \<open>What the arithmetic on points promises\<close>

theorem point_add_sub:
  assumes "dims_ok d" "in_grid d p" "pos d p + int n \<le> pos d (Point (bottommost_line d) (last_column d))"
  shows "in_grid d (point_add p d BGrid n) \<and> pos d (point_add p d BGrid n) = pos d p + int n \<and>
    point_sub (point_add p d BGrid n) d BGrid n = p"
proof -
  let ?q = "point_add p d BGrid n"
  note q = point_add_pos [OF assms]
  have "topmost_line d * int (columns d) \<le> line p * int (columns d)"
    using assms(2) by (intro mult_right_mono) (auto simp: in_grid_def)
  then have top: "pos d (Point (topmost_line d) 0) \<le> pos d ?q - int n"
    using q(1) by (simp add: pos_def)
  note r = point_sub_pos [OF assms(1) q(2) top]
  have "point_sub ?q d BGrid n = p"
    using r q(1) assms(2) by (intro pos_inj [of _ d]) (simp_all add: in_grid_def)
  then show ?thesis using q by blast
qed

theorem point_add_sub_witness:
  "let d = \<lparr>total_lines = 5, screen_lines = 3, columns = 4\<rparr>; p = Point (-2) 3 in
     in_grid d (point_add p d BGrid 6) \<and> pos d (point_add p d BGrid 6) = pos d p + 6 \<and>
     point_sub (point_add p d BGrid 6) d BGrid 6 = p"
  using point_add_sub [of "\<lparr>total_lines = 5, screen_lines = 3, columns = 4\<rparr>" "Point (-2) 3" 6]
  by (simp add: dims_ok_def in_grid_def pos_def topmost_line_def bottommost_line_def history_size_def
      last_column_def)

theorem grid_clamp_correct:
  assumes "dims_ok d"
  shows "in_grid d (point_grid_clamp p d b) \<and> (b = BGrid \<and> in_grid d p \<longrightarrow> point_grid_clamp p d b = p)"
  using point_grid_clamp_in_grid [OF assms] point_grid_clamp_id by blast

theorem grid_clamp_correct_witness:
  "let d = \<lparr>total_lines = 5, screen_lines = 3, columns = 4\<rparr> in
     in_grid d (point_grid_clamp (Point (-7) 9) d BCursor)"
  using grid_clamp_correct [of "\<lparr>total_lines = 5, screen_lines = 3, columns = 4\<rparr>" "Point (-7) 9" BCursor]
  by (simp add: dims_ok_def)

end
