(* ===== verification/Grid.thy ===== *)
theory Grid
  imports Storage Index
begin

text \<open>
  The grid of a terminal screen with its history, \<open>src/terminal/grid/mod.rs\<close>, generic in the
  cell type through the record \<open>G\<close> of its operations.

  A region \<open>Range<Line>\<close> is a pair of integers, a loop over lines is \<open>for_each\<close> over \<open>irange\<close>.
  The index of a character set, an enumeration of the crate \<open>vvte\<close>, and a character set are
  natural numbers. Casts of line numbers to \<open>i32\<close> do not wrap for the sizes a screen has.
\<close>

section \<open>State\<close>

record 'c cursor =
  c_point :: point
  c_template :: 'c
  c_erase :: 'c
  c_charsets :: "nat list"
  c_wrap :: bool

definition default_cursor :: "'c cell_ops \<Rightarrow> 'c cursor" where
  "default_cursor G = \<lparr>c_point = Point 0 0, c_template = gc_default G, c_erase = gc_default G,
     c_charsets = replicate 4 0, c_wrap = False\<rparr>"

datatype scroll = Delta int | PageUp | PageDown | Top | Bottom

record 'c grid =
  cursor :: "'c cursor"
  saved_cursor :: "'c cursor"
  raw :: "'c storage"
  g_columns :: nat
  g_lines :: nat
  display_offset :: nat
  max_scroll_limit :: nat

type_synonym region = "int \<times> int"

definition grid_dims :: "'c grid \<Rightarrow> dims" where
  "grid_dims g = \<lparr>total_lines = len (raw g), screen_lines = g_lines g, columns = g_columns g\<rparr>"

abbreviation grid_history :: "'c grid \<Rightarrow> nat" where
  "grid_history g \<equiv> history_size (grid_dims g)"

definition grid_new :: "'c cell_ops \<Rightarrow> nat \<Rightarrow> nat \<Rightarrow> nat \<Rightarrow> 'c grid option" where
  "grid_new G lines cols max_scroll =
     do { s \<leftarrow> with_capacity G lines cols;
          Some \<lparr>cursor = default_cursor G, saved_cursor = default_cursor G, raw = s,
            g_columns = cols, g_lines = lines, display_offset = 0, max_scroll_limit = max_scroll\<rparr> }"

section \<open>History and the displayed area\<close>

definition update_history :: "nat \<Rightarrow> 'c grid \<Rightarrow> 'c grid option" where
  "update_history history g =
     do { s \<leftarrow> (if history < grid_history g then shrink_lines (grid_history g - history) (raw g)
                else Some (raw g));
          Some (g\<lparr>raw := s, display_offset := min (display_offset g) history, max_scroll_limit := history\<rparr>) }"

fun scroll_display :: "scroll \<Rightarrow> 'c grid \<Rightarrow> 'c grid" where
  "scroll_display (Delta count) g =
     g\<lparr>display_offset := min (nat (max (int (display_offset g) + count) 0)) (grid_history g)\<rparr>"
| "scroll_display PageUp g = g\<lparr>display_offset := min (display_offset g + g_lines g) (grid_history g)\<rparr>"
| "scroll_display PageDown g = g\<lparr>display_offset := display_offset g - g_lines g\<rparr>"
| "scroll_display Top g = g\<lparr>display_offset := grid_history g\<rparr>"
| "scroll_display Bottom g = g\<lparr>display_offset := 0\<rparr>"

definition on_raw :: "('c storage \<Rightarrow> 'c storage option) \<Rightarrow> 'c grid \<Rightarrow> 'c grid option" where
  "on_raw f g = do { s \<leftarrow> f (raw g); Some (g\<lparr>raw := s\<rparr>) }"

definition increase_scroll_limit :: "'c cell_ops \<Rightarrow> nat \<Rightarrow> 'c grid \<Rightarrow> 'c grid option" where
  "increase_scroll_limit G count g =
     do { room \<leftarrow> usub (max_scroll_limit g) (grid_history g);
          let count = min count room;
          if count \<noteq> 0 then on_raw (storage_initialize G count (g_columns g)) g else Some g }"

definition decrease_scroll_limit :: "nat \<Rightarrow> 'c grid \<Rightarrow> 'c grid option" where
  "decrease_scroll_limit count g =
     (let count = min count (grid_history g) in
      if count \<noteq> 0
      then do { g \<leftarrow> on_raw (shrink_lines (min count (grid_history g))) g;
                Some (g\<lparr>display_offset := min (display_offset g) (grid_history g)\<rparr>) }
      else Some g)"

section \<open>Scrolling\<close>

definition reset_lines :: "'c cell_ops \<Rightarrow> int list \<Rightarrow> 'c grid \<Rightarrow> 'c grid option" where
  "reset_lines G ls g =
     on_raw (for_each (storage_modify (row_reset G (c_erase (cursor g)))) ls) g"

definition scroll_down :: "'c cell_ops \<Rightarrow> region \<Rightarrow> nat \<Rightarrow> 'c grid \<Rightarrow> 'c grid option" where
  "scroll_down G = (\<lambda>(start, end) positions g.
     if end - start \<le> int positions then reset_lines G (irange start end) g
     else if max_scroll_limit g = 0 then
       do { g \<leftarrow> on_raw (for_each (\<lambda>i. storage_swap i (i - int positions)) (irange end (int (g_lines g)))) g;
            g \<leftarrow> on_raw (rotate_down positions) g;
            g \<leftarrow> reset_lines G (irange 0 (int positions)) g;
            on_raw (for_each (\<lambda>i. storage_swap i (i + int positions)) (irange 0 start)) g }
     else
       do { g \<leftarrow> on_raw (for_each (\<lambda>i. storage_swap i (i - int positions))
                   (rev (irange (start + int positions) end))) g;
            reset_lines G (rev (irange start (start + int positions))) g })"

definition scroll_up_resetting :: "'c cell_ops \<Rightarrow> region \<Rightarrow> nat \<Rightarrow> nat \<Rightarrow> 'c grid \<Rightarrow> 'c grid option" where
  "scroll_up_resetting G = (\<lambda>(start, end) positions n g.
     do { unreset \<leftarrow> usub positions n;
          if end - start \<le> int positions \<and> start \<noteq> 0
          then reset_lines G (irange start (end - int unreset)) g
          else do {
            let g = (if display_offset g \<noteq> 0
                     then g\<lparr>display_offset := min (display_offset g + positions) (max_scroll_limit g)\<rparr>
                     else g);
            g \<leftarrow> (if start = 0 then
              do { g \<leftarrow> increase_scroll_limit G positions g;
                   g \<leftarrow> on_raw (for_each (\<lambda>i. storage_swap i (i + int positions)) (rev (irange 0 start))) g;
                   g \<leftarrow> on_raw (storage_rotate (- int positions)) g;
                   on_raw (for_each (\<lambda>i. storage_swap i (i - int positions))
                     (rev (irange end (int (g_lines g))))) g }
              else on_raw (for_each (\<lambda>i. storage_swap i (i + int positions))
                     (irange start (end - int positions))) g);
            reset_lines G (irange (end - int positions) (end - int unreset)) g } })"

definition scroll_up :: "'c cell_ops \<Rightarrow> region \<Rightarrow> nat \<Rightarrow> 'c grid \<Rightarrow> 'c grid option" where
  "scroll_up G region positions = scroll_up_resetting G region positions positions"

definition scroll_up_unreset :: "'c cell_ops \<Rightarrow> region \<Rightarrow> 'c grid \<Rightarrow> 'c grid option" where
  "scroll_up_unreset G region = scroll_up_resetting G region 1 0"

section \<open>Iteration over cells\<close>

definition grid_cell_at :: "'c grid \<Rightarrow> point \<Rightarrow> 'c option" where
  "grid_cell_at g p = do { r \<leftarrow> storage_get (raw g) (line p); row_get r (column p) }"

text \<open>
  An iterator is its current and its last point. \<open>next\<close> and \<open>prev\<close> give the new point and cell,
  or nothing at the end; indexing the grid may panic.
\<close>

definition iter_from :: "'c grid \<Rightarrow> point \<Rightarrow> point \<times> point" where
  "iter_from g p = (p, Point (bottommost_line (grid_dims g)) (last_column (grid_dims g)))"

definition display_iter :: "'c grid \<Rightarrow> point \<times> point" where
  "display_iter g =
     (let lc = last_column (grid_dims g);
          start = Point (- int (display_offset g) - 1) lc
      in (start, Point (min (line start + int (g_lines g)) (bottommost_line (grid_dims g))) lc))"

definition iter_next :: "'c grid \<Rightarrow> point \<times> point \<Rightarrow> ((point \<times> 'c) option \<times> point \<times> point) option" where
  "iter_next g = (\<lambda>(p, end).
     if end \<le> p then Some (None, p, end)
     else let q = (if last_column (grid_dims g) \<le> column p then Point (line p + 1) 0
                   else Point (line p) (column p + 1))
          in do { c \<leftarrow> grid_cell_at g q; Some (Some (q, c), q, end) })"

definition iter_prev :: "'c grid \<Rightarrow> point \<times> point \<Rightarrow> ((point \<times> 'c) option \<times> point \<times> point) option" where
  "iter_prev g = (\<lambda>(p, end).
     if p \<le> Point (topmost_line (grid_dims g)) 0 then Some (None, p, end)
     else let q = (if column p = 0 then Point (line p - 1) (last_column (grid_dims g))
                   else Point (line p) (column p - 1))
          in do { c \<leftarrow> grid_cell_at g q; Some (Some (q, c), q, end) })"

definition iter_size_hint :: "'c grid \<Rightarrow> point \<times> point \<Rightarrow> nat option" where
  "iter_size_hint g = (\<lambda>(p, end).
     if end \<le> p then Some 0
     else if line p = line end then usub (column end) (column p)
     else do { middle_lines \<leftarrow> usub (nat (line end - line p)) 1;
               let cols_on_first_line = g_columns g - (column p + 1);
               Some (cols_on_first_line + middle_lines * g_columns g + (column end + 1)) })"

section \<open>Clearing\<close>

partial_function (option) last_content ::
  "'c cell_ops \<Rightarrow> 'c grid \<Rightarrow> point \<times> point \<Rightarrow> (point \<times> point) option" where
  "last_content G g it =
     do { (item, it) \<leftarrow> iter_prev g it;
          case item of None \<Rightarrow> Some it
          | Some (p, c) \<Rightarrow> if \<not> gc_is_empty G c \<or> line p < 0 then Some it else last_content G g it }"

declare last_content.simps [code]

definition clear_viewport :: "'c cell_ops \<Rightarrow> 'c grid \<Rightarrow> (nat \<times> 'c grid) option" where
  "clear_viewport G g =
     do { (p, _) \<leftarrow> last_content G g (iter_from g (Point (int (g_lines g) - 1) (g_columns g)));
          if line p < - 1 then None
          else do {
            let positions = nat (line p + 1);
            g \<leftarrow> scroll_up G (0, int (g_lines g)) positions g;
            n \<leftarrow> usub (g_lines g) positions;
            g \<leftarrow> reset_lines G (irange 0 (int n)) g;
            Some (positions, g) } }"

definition clear_history :: "'c grid \<Rightarrow> 'c grid option" where
  "clear_history g =
     do { s \<leftarrow> shrink_lines (grid_history g) (raw g);
          Some (g\<lparr>raw := storage_truncate s, display_offset := 0\<rparr>) }"

definition grid_reset :: "'c cell_ops \<Rightarrow> 'c grid \<Rightarrow> 'c grid option" where
  "grid_reset G g =
     do { g \<leftarrow> clear_history g;
          let g = g\<lparr>saved_cursor := default_cursor G, cursor := default_cursor G, display_offset := 0\<rparr>;
          reset_lines G (irange (topmost_line (grid_dims g)) (int (g_lines g))) g }"

datatype bound = Included int | Excluded int | Unbounded

definition reset_region :: "'c cell_ops \<Rightarrow> bound \<Rightarrow> bound \<Rightarrow> 'c grid \<Rightarrow> 'c grid option" where
  "reset_region G from to g =
     (let start = (case from of Included l \<Rightarrow> l | Excluded l \<Rightarrow> l + 1 | Unbounded \<Rightarrow> 0);
          end = (case to of Included l \<Rightarrow> l + 1 | Excluded l \<Rightarrow> l | Unbounded \<Rightarrow> int (g_lines g))
      in if start < int (g_lines g) \<and> end \<le> int (g_lines g)
         then reset_lines G (irange start end) g else None)"

definition grid_truncate :: "'c grid \<Rightarrow> 'c grid" where
  "grid_truncate g = g\<lparr>raw := storage_truncate (raw g)\<rparr>"

definition initialize_all :: "'c cell_ops \<Rightarrow> 'c grid \<Rightarrow> 'c grid option" where
  "initialize_all G g =
     (let g = grid_truncate g in
      do { n \<leftarrow> usub (max_scroll_limit g) (grid_history g);
           on_raw (storage_initialize G n (g_columns g)) g })"

definition cursor_map :: "('c \<Rightarrow> 'd) \<Rightarrow> 'c cursor \<Rightarrow> 'd cursor" where
  "cursor_map f c = \<lparr>c_point = c_point c, c_template = f (c_template c), c_erase = f (c_erase c),
     c_charsets = c_charsets c, c_wrap = c_wrap c\<rparr>"

definition grid_map_owned :: "('c \<Rightarrow> 'd) \<Rightarrow> 'c grid \<Rightarrow> 'd grid" where
  "grid_map_owned f g = \<lparr>cursor = cursor_map f (cursor g), saved_cursor = cursor_map f (saved_cursor g),
     raw = storage_map_owned f (raw g), g_columns = g_columns g, g_lines = g_lines g,
     display_offset = display_offset g, max_scroll_limit = max_scroll_limit g\<rparr>"

definition grid_for_each_cell :: "('c \<Rightarrow> 'c) \<Rightarrow> 'c grid \<Rightarrow> 'c grid" where
  "grid_for_each_cell f g =
     (let on_cursor = (\<lambda>c. c\<lparr>c_template := f (c_template c), c_erase := f (c_erase c)\<rparr>)
      in g\<lparr>raw := (raw g)\<lparr>rows := map (\<lambda>r. r\<lparr>inner := map f (inner r)\<rparr>) (rows (raw g))\<rparr>,
           cursor := on_cursor (cursor g), saved_cursor := on_cursor (saved_cursor g)\<rparr>)"

definition grid_has_extras :: "'c grid \<Rightarrow> bool" where
  "grid_has_extras g \<longleftrightarrow> list_ex (\<lambda>r. extras r \<noteq> []) (rows (raw g))"

definition grid_stored_cells :: "'c grid \<Rightarrow> nat" where
  "grid_stored_cells g = length (rows (raw g)) * g_columns g"

definition grid_map :: "'d cell_ops \<Rightarrow> ('c row \<Rightarrow> 'c \<Rightarrow> 'd) \<Rightarrow> 'c grid \<Rightarrow> 'd grid" where
  "grid_map G f g = \<lparr>cursor = default_cursor G, saved_cursor = default_cursor G,
     raw = storage_map f (raw g), g_columns = g_columns g, g_lines = g_lines g,
     display_offset = display_offset g, max_scroll_limit = max_scroll_limit g\<rparr>"

definition grid_eq :: "'c grid \<Rightarrow> 'c grid \<Rightarrow> bool option" where
  "grid_eq g h =
     do { same \<leftarrow> storage_eq (raw g) (raw h);
          Some (same \<and> g_columns g = g_columns h \<and> g_lines g = g_lines h \<and> display_offset g = display_offset h) }"

definition modify_cell :: "point \<Rightarrow> ('c \<Rightarrow> 'c) \<Rightarrow> 'c grid \<Rightarrow> 'c grid option" where
  "modify_cell p f g = on_raw (storage_modify (row_modify (column p) f) (line p)) g"

definition modify_cursor_cell :: "('c \<Rightarrow> 'c) \<Rightarrow> 'c grid \<Rightarrow> 'c grid option" where
  "modify_cursor_cell f g = modify_cell (c_point (cursor g)) f g"

section \<open>The invariant\<close>

definition rows_ok :: "'c cell_ops \<Rightarrow> nat \<Rightarrow> 'c storage \<Rightarrow> bool" where
  "rows_ok G cols s \<longleftrightarrow> (\<forall>r \<in> set (rows s). row_ok G r \<and> length (inner r) = cols)"

text \<open>The shape of a grid, without the displayed area; then the whole invariant.\<close>

definition grid_shape :: "'c cell_ops \<Rightarrow> 'c grid \<Rightarrow> bool" where
  "grid_shape G g \<longleftrightarrow> storage_ok (raw g) \<and> visible_lines (raw g) = g_lines g \<and> 1 \<le> g_columns g \<and>
     rows_ok G (g_columns g) (raw g) \<and> grid_history g \<le> max_scroll_limit g"

definition grid_ok :: "'c cell_ops \<Rightarrow> 'c grid \<Rightarrow> bool" where
  "grid_ok G g \<longleftrightarrow> grid_shape G g \<and> display_offset g \<le> grid_history g"

text \<open>The row at a line of the screen or of the history.\<close>

definition view :: "'c grid \<Rightarrow> int \<Rightarrow> 'c row option" where
  "view g l = storage_get (raw g) l"

lemma set_rows: "storage_ok s \<Longrightarrow>
    set (rows s) = {r. \<exists>l. storage_get s l = Some r} \<union> set (drop (len s) (ring s))"
proof -
  assume ok: "storage_ok s"
  have "set (rows s) = set (active s) \<union> set (drop (len s) (ring s))"
    unfolding active_def by (metis append_take_drop_id set_append set_ring)
  moreover have "set (active s) = {r. \<exists>l. storage_get s l = Some r}"
  proof (intro equalityI subsetI)
    fix r assume "r \<in> set (active s)"
    then obtain k where k: "k < len s" "active s ! k = r"
      using ok by (auto simp: in_set_conv_nth active_def)
    have "storage_get s (int (visible_lines s) - 1 - int k) = Some r"
      using k by (simp add: storage_get_active [OF ok] valid_line_def line_slot_def nat_add_distrib)
    then show "r \<in> {r. \<exists>l. storage_get s l = Some r}" by blast
  next
    fix r assume "r \<in> {r. \<exists>l. storage_get s l = Some r}"
    then obtain l where "valid_line s l" "active s ! line_slot s l = r"
      using ok by (auto simp: storage_get_active split: if_splits)
    moreover have "line_slot s l < length (active s)"
      using calculation(1) line_slot_less ok by (auto simp: active_def storage_ok_def)
    ultimately show "r \<in> set (active s)" by auto
  qed
  ultimately show ?thesis by simp
qed

lemma frame_simps:
  assumes "storage_frame s' = storage_frame s"
  shows "zero s' = zero s" "visible_lines s' = visible_lines s" "len s' = len s"
    "length (rows s') = length (rows s)" "drop (len s) (ring s') = drop (len s) (ring s)"
  using assms unfolding storage_frame_def by auto

lemma rows_ok_frame:
  assumes "storage_ok s" "storage_ok s'" "storage_frame s' = storage_frame s" "rows_ok G cols s"
    and "\<And>l r. storage_get s' l = Some r \<Longrightarrow> row_ok G r \<and> length (inner r) = cols"
  shows "rows_ok G cols s'"
  using assms frame_simps(3,5) [OF assms(3)] by (auto simp: rows_ok_def set_rows)

lemma view_Some: "storage_ok (raw g) \<Longrightarrow>
    view g l \<noteq> None \<longleftrightarrow> int (visible_lines (raw g)) - int (len (raw g)) \<le> l \<and> l < int (visible_lines (raw g))"
  by (simp add: view_def storage_get_active valid_line_def)

lemma history_len: "storage_ok (raw g) \<Longrightarrow> visible_lines (raw g) = g_lines g \<Longrightarrow>
    int (len (raw g)) = int (g_lines g) + int (grid_history g)"
  by (auto simp: storage_ok_def history_size_def grid_dims_def)

lemma view_iff: "grid_shape G g \<Longrightarrow> view g l \<noteq> None \<longleftrightarrow> - int (grid_history g) \<le> l \<and> l < int (g_lines g)"
  using history_len [of g] view_Some [of g l] by (simp add: grid_shape_def)

lemma view_row: "grid_shape G g \<Longrightarrow> view g l = Some r \<Longrightarrow> row_ok G r \<and> length (inner r) = g_columns g"
  by (auto simp: grid_shape_def rows_ok_def set_rows view_def)

lemma grid_dims_raw [simp]: "grid_dims (g\<lparr>raw := s\<rparr>) = (grid_dims g)\<lparr>total_lines := len s\<rparr>"
  by (simp add: grid_dims_def)

lemma grid_dims_offset [simp]: "grid_dims (g\<lparr>display_offset := n\<rparr>) = grid_dims g"
  by (simp add: grid_dims_def)

text \<open>Replacing the storage by one of the same shape.\<close>

lemma grid_shape_frame:
  assumes g: "grid_shape G g" and s: "storage_ok s" "storage_frame s = storage_frame (raw g)"
    and rows: "\<And>l r. storage_get s l = Some r \<Longrightarrow> row_ok G r \<and> length (inner r) = g_columns g"
  shows "grid_shape G (g\<lparr>raw := s\<rparr>)" and "grid_history (g\<lparr>raw := s\<rparr>) = grid_history g"
proof -
  have "rows_ok G (g_columns g) s"
    using rows_ok_frame [OF _ s, of G "g_columns g"] g rows by (simp add: grid_shape_def)
  moreover have h: "grid_history (g\<lparr>raw := s\<rparr>) = grid_history g"
    using frame_simps(3) [OF s(2)] by (simp add: history_size_def grid_dims_def)
  ultimately show "grid_shape G (g\<lparr>raw := s\<rparr>)"
    using g s frame_simps(2) [OF s(2)] by (simp add: grid_shape_def)
  show "grid_history (g\<lparr>raw := s\<rparr>) = grid_history g" by (rule h)
qed

definition erased :: "'c cell_ops \<Rightarrow> 'c grid \<Rightarrow> 'c row" where
  "erased G g = blank_row G (g_columns g) (c_erase (cursor g))"

lemma raw_trans: "h = g\<lparr>raw := a\<rparr> \<Longrightarrow> h' = h\<lparr>raw := b\<rparr> \<Longrightarrow> h' = g\<lparr>raw := b\<rparr>"
  by simp

lemma raw_offset:
  "g1 = g\<lparr>raw := a, display_offset := n\<rparr> \<Longrightarrow> g2 = g1\<lparr>raw := b\<rparr> \<Longrightarrow> g2 = g\<lparr>raw := b, display_offset := n\<rparr>"
  by simp

lemma swap_loop_commute:
  "for_each (\<lambda>i. storage_swap i (i - d)) (irange (a + d) (b + d)) s =
   for_each (\<lambda>i. storage_swap i (i + d)) (irange a b) s"
proof -
  have "(\<lambda>x. storage_swap (x + d) x) = (\<lambda>x. storage_swap x (x + d) :: 'a storage \<Rightarrow> 'a storage option)"
    by (intro ext) (rule storage_swap_commute)
  then show ?thesis
    by (simp add: irange_shift for_each_map)
qed

context grid_cell
begin

lemma reset_lines_spec:
  assumes g: "grid_shape G g" and lines: "distinct ls" "set ls = {a..<b}"
    and valid: "\<And>l. a \<le> l \<Longrightarrow> l < b \<Longrightarrow> view g l \<noteq> None"
  shows "returns (reset_lines G ls g) (\<lambda>g'. grid_shape G g' \<and> g' = g\<lparr>raw := raw g'\<rparr> \<and>
    grid_history g' = grid_history g \<and>
    (\<forall>l. view g' l = (if a \<le> l \<and> l < b then Some (erased G g) else view g l)))"
proof -
  let ?blank = "blank_row G (g_columns g) (c_erase (cursor g))"
  have ok: "storage_ok (raw g)" and cols: "1 \<le> g_columns g" using g by (auto simp: grid_shape_def)
  have "returns (for_each (storage_modify (row_reset G (c_erase (cursor g)))) ls (raw g)) (\<lambda>s'. storage_ok s' \<and>
    storage_frame s' = storage_frame (raw g) \<and>
    (\<forall>l. storage_get s' l = (if a \<le> l \<and> l < b then map_option (\<lambda>_. ?blank) (storage_get (raw g) l)
       else storage_get (raw g) l)))"
  proof (rule lines.modify_range [OF ok _ lines])
    fix l assume "a \<le> l" "l < b"
    then obtain r where "view g l = Some r" using valid by blast
    then show "\<exists>x. storage_get (raw g) l = Some x \<and> row_reset G (c_erase (cursor g)) x = Some ?blank"
      using view_row [OF g] row_reset_blank by (fastforce simp: view_def)
  qed
  then obtain s' where s': "for_each (storage_modify (row_reset G (c_erase (cursor g)))) ls (raw g) = Some s'"
    "storage_ok s'" "storage_frame s' = storage_frame (raw g)"
    and get: "\<And>l. storage_get s' l = (if a \<le> l \<and> l < b then map_option (\<lambda>_. ?blank) (storage_get (raw g) l)
       else storage_get (raw g) l)"
    by (auto simp: returns_iff)
  have "row_ok G r \<and> length (inner r) = g_columns g" if "storage_get s' l = Some r" for l r
    using that view_row [OF g, of l r] row_ok_blank [OF cols]
    by (auto simp: get view_def split: if_splits) (simp add: blank_row_def)
  note shape = grid_shape_frame [OF g s'(2,3) this]
  have "view (g\<lparr>raw := s'\<rparr>) l = (if a \<le> l \<and> l < b then Some ?blank else view g l)" for l
    using valid [of l] by (auto simp: view_def get)
  then show ?thesis
    using shape s'(1) by (simp add: reset_lines_def on_raw_def erased_def)
qed

text \<open>The rows of a region after lines were moved are rows the grid had before.\<close>

lemma moved_shape:
  assumes "grid_shape G g" "storage_ok s" "storage_frame s = storage_frame (raw g)"
    and "\<And>l. storage_get s l \<in> range (storage_get (raw g))"
  shows "grid_shape G (g\<lparr>raw := s\<rparr>)" and "grid_history (g\<lparr>raw := s\<rparr>) = grid_history g"
proof -
  have "row_ok G r \<and> length (inner r) = g_columns g" if r: "storage_get s l = Some r" for l r
  proof -
    obtain k where "storage_get s l = storage_get (raw g) k" using assms(4) [of l] by blast
    then show ?thesis using view_row [OF assms(1), of k r] r by (simp add: view_def)
  qed
  from grid_shape_frame [OF assms(1-3) this]
  show "grid_shape G (g\<lparr>raw := s\<rparr>)" and "grid_history (g\<lparr>raw := s\<rparr>) = grid_history g" by simp_all
qed

text \<open>Swapping a range of lines upwards, and downwards.\<close>

lemma swap_up_grid:
  assumes g: "grid_shape G g" and range: "- int (grid_history g) \<le> a" "a \<le> b" "b + int p \<le> int (g_lines g)"
  shows "returns (on_raw (for_each (\<lambda>i. storage_swap i (i + int p)) (irange a b)) g) (\<lambda>g'.
    grid_shape G g' \<and> g' = g\<lparr>raw := raw g'\<rparr> \<and> grid_history g' = grid_history g \<and>
    storage_frame (raw g') = storage_frame (raw g) \<and>
    (\<forall>l. a \<le> l \<and> l < b \<longrightarrow> view g' l = view g (l + int p)) \<and>
    (\<forall>l. l < a \<or> b + int p \<le> l \<longrightarrow> view g' l = view g l) \<and>
    (\<forall>l. b \<le> l \<and> l < b + int p \<longrightarrow> (\<exists>k. a \<le> k \<and> k < a + int p \<and> view g' l = view g k)))"
proof -
  have ok: "storage_ok (raw g)" using g by (simp add: grid_shape_def)
  have dom: "storage_get (raw g) l \<noteq> None" if "a \<le> l" "l < b + int p" for l
    using view_iff [OF g, of l] that range by (simp add: view_def)
  obtain s' where s': "for_each (\<lambda>i. storage_swap i (i + int p)) (irange a b) (raw g) = Some s'"
    "storage_ok s'" "storage_frame s' = storage_frame (raw g)"
    "\<forall>l. a \<le> l \<and> l < b \<longrightarrow> storage_get s' l = storage_get (raw g) (l + int p)"
    "\<forall>l. l < a \<or> b + int p \<le> l \<longrightarrow> storage_get s' l = storage_get (raw g) l"
    "\<forall>l. b \<le> l \<and> l < b + int p \<longrightarrow> (\<exists>k. a \<le> k \<and> k < a + int p \<and> storage_get s' l = storage_get (raw g) k)"
    using lines.swap_up [where p = "int p", OF ok _ dom range(2)] by (auto simp: returns_iff)
  have "storage_get s' l \<in> range (storage_get (raw g))" for l
    using s'(4-6) by (cases "l < a \<or> b + int p \<le> l"; cases "l < b") (auto intro: rangeI simp: not_less not_le)
  from moved_shape [OF g s'(2,3) this] s' show ?thesis
    by (simp add: on_raw_def view_def)
qed

lemma swap_down_grid:
  assumes g: "grid_shape G g" and range: "- int (grid_history g) \<le> a - int p" "a \<le> b" "b \<le> int (g_lines g)"
  shows "returns (on_raw (for_each (\<lambda>i. storage_swap i (i - int p)) (rev (irange a b))) g) (\<lambda>g'.
    grid_shape G g' \<and> g' = g\<lparr>raw := raw g'\<rparr> \<and> grid_history g' = grid_history g \<and>
    storage_frame (raw g') = storage_frame (raw g) \<and>
    (\<forall>l. a \<le> l \<and> l < b \<longrightarrow> view g' l = view g (l - int p)) \<and>
    (\<forall>l. l < a - int p \<or> b \<le> l \<longrightarrow> view g' l = view g l) \<and>
    (\<forall>l. a - int p \<le> l \<and> l < a \<longrightarrow> (\<exists>k. b - int p \<le> k \<and> k < b \<and> view g' l = view g k)))"
proof -
  have ok: "storage_ok (raw g)" using g by (simp add: grid_shape_def)
  have dom: "storage_get (raw g) l \<noteq> None" if "a - int p \<le> l" "l < b" for l
    using view_iff [OF g, of l] that range by (simp add: view_def)
  obtain s' where s': "for_each (\<lambda>i. storage_swap i (i - int p)) (rev (irange a b)) (raw g) = Some s'"
    "storage_ok s'" "storage_frame s' = storage_frame (raw g)"
    "\<forall>l. a \<le> l \<and> l < b \<longrightarrow> storage_get s' l = storage_get (raw g) (l - int p)"
    "\<forall>l. l < a - int p \<or> b \<le> l \<longrightarrow> storage_get s' l = storage_get (raw g) l"
    "\<forall>l. a - int p \<le> l \<and> l < a \<longrightarrow> (\<exists>k. b - int p \<le> k \<and> k < b \<and> storage_get s' l = storage_get (raw g) k)"
    using lines.swap_down [where p = "int p", OF ok _ dom range(2)] by (auto simp: returns_iff)
  have "storage_get s' l \<in> range (storage_get (raw g))" for l
    using s'(4-6) by (cases "l < a - int p \<or> b \<le> l"; cases "l < a") (auto intro: rangeI simp: not_less not_le)
  from moved_shape [OF g s'(2,3) this] s' show ?thesis
    by (simp add: on_raw_def view_def)
qed

lemma view_ring: "grid_shape G g \<Longrightarrow> - int (grid_history g) \<le> l \<Longrightarrow> l < int (g_lines g) \<Longrightarrow>
    view g l = Some (ring (raw g) ! (nat (int (g_lines g) - 1 - l)))"
proof -
  assume g: "grid_shape G g" and l: "- int (grid_history g) \<le> l" "l < int (g_lines g)"
  have ok: "storage_ok (raw g)" "visible_lines (raw g) = g_lines g" using g by (simp_all add: grid_shape_def)
  have valid: "valid_line (raw g) l"
    using l history_len [OF ok] ok(2) by (simp add: valid_line_def)
  have "line_slot (raw g) l = nat (int (g_lines g) - 1 - l)"
    using l(2) ok(2) by (simp add: line_slot_def)
  then show ?thesis
    using valid line_slot_less [OF valid] ok by (simp add: view_def storage_get_active active_def)
qed

text \<open>Rotating the buffer of a grid without history down, and of any grid up.\<close>

lemma same_rows_shape:
  assumes "grid_shape G g" "storage_ok s" "rows s = rows (raw g)" "len s = len (raw g)"
    "visible_lines s = visible_lines (raw g)"
  shows "grid_shape G (g\<lparr>raw := s\<rparr>)" and "grid_history (g\<lparr>raw := s\<rparr>) = grid_history g"
  using assms by (simp_all add: grid_shape_def rows_ok_def history_size_def grid_dims_def)

lemma rotate_down_grid:
  assumes g: "grid_shape G g" and p: "p \<le> g_lines g"
  shows "returns (on_raw (rotate_down p) g) (\<lambda>g'. grid_shape G g' \<and> g' = g\<lparr>raw := raw g'\<rparr> \<and>
    grid_history g' = grid_history g \<and>
    (\<forall>l. int p \<le> l \<and> l < int (g_lines g) \<longrightarrow> view g' l = view g (l - int p)))"
proof -
  have ok: "storage_ok (raw g)" "visible_lines (raw g) = g_lines g" using g by (simp_all add: grid_shape_def)
  have le: "g_lines g \<le> length (rows (raw g))" using ok by (auto simp: storage_ok_def)
  obtain s where s: "rotate_down p (raw g) = Some s" "storage_ok s" "rows s = rows (raw g)" "len s = len (raw g)"
    "visible_lines s = visible_lines (raw g)" "ring s = drop p (ring (raw g)) @ take p (ring (raw g))"
    using rotate_down_spec [OF ok(1), of p] p le by (auto simp: returns_iff)
  note shape = same_rows_shape [OF g s(2-5)]
  have "view (g\<lparr>raw := s\<rparr>) l = view g (l - int p)" if "int p \<le> l" "l < int (g_lines g)" for l
  proof -
    have "nat (int (g_lines g) - 1 - (l - int p)) = p + nat (int (g_lines g) - 1 - l)"
      using that by simp
    moreover have "nat (int (g_lines g) - 1 - l) < length (rows (raw g)) - p"
      using that le by simp
    ultimately show ?thesis
      using view_ring [OF shape(1), of l] view_ring [OF g, of "l - int p"] that s(6) shape(2)
      by (simp add: nth_append)
  qed
  then show ?thesis using s(1) shape by (simp add: on_raw_def)
qed

lemma rotate_up_grid:
  assumes g: "grid_shape G g" and p: "p \<le> g_lines g"
  shows "returns (on_raw (storage_rotate (- int p)) g) (\<lambda>g'. grid_shape G g' \<and> g' = g\<lparr>raw := raw g'\<rparr> \<and>
    grid_history g' = grid_history g \<and>
    (\<forall>l. - int (grid_history g) \<le> l \<and> l < int (g_lines g) - int p \<longrightarrow> view g' l = view g (l + int p)))"
proof -
  have ok: "storage_ok (raw g)" "visible_lines (raw g) = g_lines g" using g by (simp_all add: grid_shape_def)
  let ?n = "length (rows (raw g))"
  have le: "g_lines g \<le> ?n" using ok by (auto simp: storage_ok_def)
  obtain s where s: "storage_rotate (- int p) (raw g) = Some s" "storage_ok s" "rows s = rows (raw g)" "len s = len (raw g)"
    "visible_lines s = visible_lines (raw g)" "ring s = drop (?n - p) (ring (raw g)) @ take (?n - p) (ring (raw g))"
    using storage_rotate_up [OF ok(1), of p] p le by (auto simp: returns_iff)
  note shape = same_rows_shape [OF g s(2-5)]
  have "view (g\<lparr>raw := s\<rparr>) l = view g (l + int p)" if "- int (grid_history g) \<le> l" "l < int (g_lines g) - int p" for l
  proof -
    have k: "nat (int (g_lines g) - 1 - l) = p + nat (int (g_lines g) - 1 - (l + int p))"
      using that by simp
    have "nat (int (g_lines g) - 1 - l) < len (raw g)"
      using that history_len [OF ok] by simp
    then have "nat (int (g_lines g) - 1 - (l + int p)) < ?n - p"
      unfolding k using ok(1) by (auto simp: storage_ok_def less_diff_conv)
    then show ?thesis
      using view_ring [OF shape(1), of l] view_ring [OF g, of "l + int p"] that s(6) shape(2) k p le
      by (simp add: nth_append)
  qed
  then show ?thesis using s(1) shape by (simp add: on_raw_def)
qed

text \<open>Making room in the history.\<close>

lemma increase_scroll_limit_spec:
  assumes g: "grid_shape G g"
  shows "returns (increase_scroll_limit G n g) (\<lambda>g'. grid_shape G g' \<and> g' = g\<lparr>raw := raw g'\<rparr> \<and>
    grid_history g' = min (grid_history g + n) (max_scroll_limit g) \<and>
    (\<forall>l. - int (grid_history g) \<le> l \<and> l < int (g_lines g) \<longrightarrow> view g' l = view g l))"
proof -
  have ok: "storage_ok (raw g)" "visible_lines (raw g) = g_lines g" "1 \<le> g_columns g"
    and limit: "grid_history g \<le> max_scroll_limit g"
    using g by (simp_all add: grid_shape_def)
  let ?c = "min n (max_scroll_limit g - grid_history g)"
  show ?thesis
  proof (cases "?c = 0")
    case True
    then have "increase_scroll_limit G n g = Some g"
      using limit by (auto simp: increase_scroll_limit_def Let_def)
    moreover have "grid_history g = min (grid_history g + n) (max_scroll_limit g)"
      using True limit by auto
    ultimately show ?thesis using g by simp
  next
    case False
    obtain s where s: "storage_initialize G ?c (g_columns g) (raw g) = Some s" "storage_ok s"
      "take (len (raw g)) (active s) = active (raw g)" "len s = len (raw g) + ?c"
      "visible_lines s = visible_lines (raw g)"
      "set (rows s) \<subseteq> insert \<lparr>inner = replicate (g_columns g) (gc_default G), occ = 0, extras = []\<rparr> (set (rows (raw g)))"
      "take (length (rows (raw g))) (ring s) = ring (raw g)" "length (rows (raw g)) \<le> length (rows s)"
      using initialize_spec [OF ok(1,3), of G ?c] unfolding returns_iff by blast
    have "row_ok G \<lparr>inner = replicate (g_columns g) (gc_default G), occ = 0, extras = []\<rparr>"
      using row_ok_blank [OF ok(3), of "gc_default G"] by (simp add: blank_row_def reset_default)
    then have "rows_ok G (g_columns g) s"
      using s(6) g by (fastforce simp: rows_ok_def grid_shape_def)
    moreover have h: "grid_history (g\<lparr>raw := s\<rparr>) = grid_history g + ?c"
      using s(4) ok by (auto simp: history_size_def grid_dims_def storage_ok_def)
    ultimately have shape: "grid_shape G (g\<lparr>raw := s\<rparr>)"
      using s ok limit by (auto simp: grid_shape_def)
    have "view (g\<lparr>raw := s\<rparr>) l = view g l" if "- int (grid_history g) \<le> l" "l < int (g_lines g)" for l
    proof -
      let ?k = "nat (int (g_lines g) - 1 - l)"
      have "?k < len (raw g)" using that history_len [OF ok(1,2)] by simp
      then have "?k < length (rows (raw g))" using ok(1) by (simp add: storage_ok_def)
      then have "ring s ! ?k = ring (raw g) ! ?k" by (metis nth_take s(7))
      then show ?thesis
        using view_ring [OF shape, of l] view_ring [OF g that] that h by simp
    qed
    moreover have "increase_scroll_limit G n g = Some (g\<lparr>raw := s\<rparr>)"
      using limit False s(1) by (simp add: increase_scroll_limit_def Let_def on_raw_def)
    moreover have "grid_history g + ?c = min (grid_history g + n) (max_scroll_limit g)"
      using limit by auto
    ultimately show ?thesis using shape h by simp
  qed
qed

text \<open>Both ways of scrolling a region down, with a history and without, give the same lines.\<close>

lemma scroll_down_spec:
  assumes g: "grid_shape G g" and region: "0 \<le> start" "start \<le> end" "end \<le> int (g_lines g)"
  shows "returns (scroll_down G (start, end) p g) (\<lambda>g'. grid_shape G g' \<and> g' = g\<lparr>raw := raw g'\<rparr> \<and>
    grid_history g' = grid_history g \<and>
    (\<forall>l. view g' l =
       (if start \<le> l \<and> l < end then (if l < start + int p then Some (erased G g) else view g (l - int p))
        else view g l)))"
proof -
  have dom: "view h l \<noteq> None" if "grid_shape G h" "grid_history h = grid_history g" "g_lines h = g_lines g"
    "0 \<le> l" "l < int (g_lines g)" for h l
    using view_iff [OF that(1), of l] that by simp
  consider (all) "end - start \<le> int p" | (rot) "int p < end - start" "max_scroll_limit g = 0"
    | (swap) "int p < end - start" "max_scroll_limit g \<noteq> 0" by linarith
  then show ?thesis
  proof cases
    case all
    have "returns (reset_lines G (irange start end) g) (\<lambda>g'. grid_shape G g' \<and> g' = g\<lparr>raw := raw g'\<rparr> \<and>
        grid_history g' = grid_history g \<and>
        (\<forall>l. view g' l = (if start \<le> l \<and> l < end then Some (erased G g) else view g l)))"
      by (rule reset_lines_spec [OF g]) (use dom [OF g] region in auto)
    then show ?thesis
      unfolding scroll_down_def prod.case if_P [OF all]
      by (rule returns_mono) (use all in auto)
  next
    case swap
    obtain g1 where g1: "on_raw (for_each (\<lambda>i. storage_swap i (i - int p)) (rev (irange (start + int p) end))) g = Some g1"
      "grid_shape G g1" "g1 = g\<lparr>raw := raw g1\<rparr>" "grid_history g1 = grid_history g"
      and v1: "\<forall>l. start + int p \<le> l \<and> l < end \<longrightarrow> view g1 l = view g (l - int p)"
        "\<forall>l. l < start + int p - int p \<or> end \<le> l \<longrightarrow> view g1 l = view g l"
      using swap_down_grid [OF g, of "start + int p" p "end"] swap(1) region by (auto simp: returns_iff)
    have same: "g_lines g1 = g_lines g" "g_columns g1 = g_columns g" "cursor g1 = cursor g"
      by (subst g1(3); simp)+
    have "returns (reset_lines G (rev (irange start (start + int p))) g1) (\<lambda>g'. grid_shape G g' \<and>
        g' = g1\<lparr>raw := raw g'\<rparr> \<and> grid_history g' = grid_history g1 \<and>
        (\<forall>l. view g' l = (if start \<le> l \<and> l < start + int p then Some (erased G g1) else view g1 l)))"
      by (rule reset_lines_spec [OF g1(2)])
        (use dom [OF g1(2,4) same(1)] region swap in auto)
    then have "returns (reset_lines G (rev (irange start (start + int p))) g1) (\<lambda>g'. grid_shape G g' \<and>
        g' = g\<lparr>raw := raw g'\<rparr> \<and> grid_history g' = grid_history g \<and>
        (\<forall>l. view g' l = (if start \<le> l \<and> l < end then (if l < start + int p then Some (erased G g) else view g (l - int p))
          else view g l)))"
    proof (rule returns_mono)
      fix g' assume g': "grid_shape G g' \<and> g' = g1\<lparr>raw := raw g'\<rparr> \<and> grid_history g' = grid_history g1 \<and>
        (\<forall>l. view g' l = (if start \<le> l \<and> l < start + int p then Some (erased G g1) else view g1 l))"
      have "g' = g\<lparr>raw := raw g'\<rparr>"
        using raw_trans [OF g1(3)] g' by blast
      moreover have "erased G g1 = erased G g" by (simp add: erased_def same)
      ultimately show "grid_shape G g' \<and> g' = g\<lparr>raw := raw g'\<rparr> \<and> grid_history g' = grid_history g \<and>
        (\<forall>l. view g' l = (if start \<le> l \<and> l < end then (if l < start + int p then Some (erased G g) else view g (l - int p))
          else view g l))"
        using g' g1(4) v1 swap(1) by auto
    qed
    then show ?thesis
      using swap g1(1) by (simp add: scroll_down_def)
  next
    case rot
    have h0: "grid_history g = 0" using g rot(2) by (simp add: grid_shape_def)
    let ?L = "int (g_lines g)"
    have swaps: "for_each (\<lambda>i. storage_swap i (i - int p)) (irange end ?L) s
        = for_each (\<lambda>i. storage_swap i (i + int p)) (irange (end - int p) (?L - int p)) s" for s :: "'c storage"
      using swap_loop_commute [of "int p" "end - int p" "?L - int p" s] by simp
    obtain g1 where g1: "on_raw (for_each (\<lambda>i. storage_swap i (i - int p)) (irange end ?L)) g = Some g1"
      "grid_shape G g1" "g1 = g\<lparr>raw := raw g1\<rparr>" "grid_history g1 = 0"
      and v1: "\<And>l. end - int p \<le> l \<Longrightarrow> l < ?L - int p \<Longrightarrow> view g1 l = view g (l + int p)"
        "\<And>l. l < end - int p \<or> ?L \<le> l \<Longrightarrow> view g1 l = view g l"
      using swap_up_grid [OF g, of "end - int p" "?L - int p" p] rot(1) region h0
      by (auto simp: returns_iff swaps on_raw_def)
    have same1: "g_lines g1 = g_lines g" "g_columns g1 = g_columns g" "cursor g1 = cursor g"
      by (subst g1(3); simp)+
    have p: "p \<le> g_lines g1" using rot(1) region same1 by simp
    obtain g2 where g2: "on_raw (rotate_down p) g1 = Some g2" "grid_shape G g2" "g2 = g1\<lparr>raw := raw g2\<rparr>"
      "grid_history g2 = 0" and v2: "\<And>l. int p \<le> l \<Longrightarrow> l < ?L \<Longrightarrow> view g2 l = view g1 (l - int p)"
      using rotate_down_grid [OF g1(2) p] g1(4) same1 by (auto simp: returns_iff)
    have same2: "g_lines g2 = g_lines g" "g_columns g2 = g_columns g" "cursor g2 = cursor g"
      by (subst g2(3); simp add: same1)+
    have "returns (reset_lines G (irange 0 (int p)) g2) (\<lambda>g'. grid_shape G g' \<and> g' = g2\<lparr>raw := raw g'\<rparr> \<and>
        grid_history g' = grid_history g2 \<and>
        (\<forall>l. view g' l = (if 0 \<le> l \<and> l < int p then Some (erased G g2) else view g2 l)))"
      by (rule reset_lines_spec [OF g2(2)]) (use view_iff [OF g2(2)] g2(4) same2 rot(1) region in auto)
    then obtain g3 where g3: "reset_lines G (irange 0 (int p)) g2 = Some g3" "grid_shape G g3"
      "g3 = g2\<lparr>raw := raw g3\<rparr>" "grid_history g3 = 0"
      and v3: "\<And>l. view g3 l = (if 0 \<le> l \<and> l < int p then Some (erased G g) else view g2 l)"
      using g2(4) by (auto simp: returns_iff erased_def same2)
    have same3: "g_lines g3 = g_lines g"
      by (subst g3(3); simp add: same2)
    obtain g4 where g4: "on_raw (for_each (\<lambda>i. storage_swap i (i + int p)) (irange 0 start)) g3 = Some g4"
      "grid_shape G g4" "g4 = g3\<lparr>raw := raw g4\<rparr>" "grid_history g4 = 0"
      and v4: "\<And>l. 0 \<le> l \<Longrightarrow> l < start \<Longrightarrow> view g4 l = view g3 (l + int p)"
        "\<And>l. start + int p \<le> l \<Longrightarrow> view g4 l = view g3 l"
        "\<And>l. start \<le> l \<Longrightarrow> l < start + int p \<Longrightarrow> \<exists>k. 0 \<le> k \<and> k < int p \<and> view g4 l = view g3 k"
      using swap_up_grid [OF g3(2), of 0 start p] rot(1) region g3(4) same3 by (auto simp: returns_iff)
    have same4: "g_lines g4 = g_lines g"
      by (subst g4(3); simp add: same3)
    have g4_raw: "g4 = g\<lparr>raw := raw g4\<rparr>"
      by (rule raw_trans [OF raw_trans [OF raw_trans [OF g1(3) g2(3)] g3(3)] g4(3)])
    have "view g4 l = (if start \<le> l \<and> l < end then (if l < start + int p then Some (erased G g) else view g (l - int p))
        else view g l)" for l
    proof -
      consider "l < 0 \<or> ?L \<le> l" | "0 \<le> l" "l < start" | "start \<le> l" "l < start + int p"
        | "start + int p \<le> l" "l < end" | "end \<le> l" "l < ?L" by linarith
      then show ?thesis
      proof cases
        case 1
        then have "view g4 l = None" "view g l = None"
          using view_iff [OF g4(2), of l] view_iff [OF g, of l] h0 g4(4) same4 by auto
        then show ?thesis using 1 region by auto
      next
        case 2
        then have "view g4 l = view g1 l"
          using v4(1) [of l] v3 [of "l + int p"] v2 [of "l + int p"] rot(1) region by simp
        then show ?thesis using 2 v1(2) [of l] rot(1) by simp
      next
        case 3
        then have "view g4 l = Some (erased G g)" using v4(3) [of l] v3 by auto
        then show ?thesis using 3 rot(1) by simp
      next
        case 4
        then have "view g4 l = view g1 (l - int p)"
          using v4(2) [of l] v3 [of l] v2 [of l] region by simp
        then show ?thesis using 4 v1(2) [of "l - int p"] by simp
      next
        case 5
        then have "view g4 l = view g1 (l - int p)"
          using v4(2) [of l] v3 [of l] v2 [of l] rot(1) region by simp
        then show ?thesis using 5 v1(1) [of "l - int p"] by simp
      qed
    qed
    moreover have "scroll_down G (start, end) p g = Some g4"
      using rot g1(1) g2(1) g3(1) g4(1) by (simp add: scroll_down_def)
    ultimately show ?thesis
      using g4(2,4) g4_raw h0 by simp
  qed
qed

text \<open>
  Scrolling a region up. A region that starts at the top moves its lines into the history, as
  far as the limit allows; any other one drops them. The lines entering at the bottom are
  blank, except the last \<open>positions - n\<close> ones, which the caller resets.
\<close>

lemma scroll_up_resetting_spec:
  assumes g: "grid_shape G g" and region: "0 \<le> start" "start \<le> end" "end \<le> int (g_lines g)"
    and n: "n \<le> p" and small: "start = 0 \<Longrightarrow> int p \<le> end"
  shows "returns (scroll_up_resetting G (start, end) p n g) (\<lambda>g'. grid_shape G g' \<and>
    g' = g\<lparr>raw := raw g', display_offset := display_offset g'\<rparr> \<and>
    grid_history g' = (if start = 0 then min (grid_history g + p) (max_scroll_limit g) else grid_history g) \<and>
    display_offset g' = (if display_offset g = 0 \<or> end - start \<le> int p \<and> start \<noteq> 0 then display_offset g
      else min (display_offset g + p) (max_scroll_limit g)) \<and>
    (\<forall>l. \<not> (end - int (p - n) \<le> l \<and> start \<le> l \<and> l < end) \<longrightarrow> view g' l =
       (if end \<le> l then view g l
        else if end - int p \<le> l \<and> start \<le> l then Some (erased G g)
        else if start \<le> l \<or> start = 0 \<and> - int (grid_history g') \<le> l then view g (l + int p)
        else view g l)))"
proof -
  let ?u = "int (p - n)"
  have swap_fields: "g\<lparr>display_offset := a, raw := b\<rparr> = g\<lparr>raw := b, display_offset := a\<rparr>" for a b
    by simp
  let ?off = "if display_offset g \<noteq> 0 then min (display_offset g + p) (max_scroll_limit g) else display_offset g"
  have dom: "view h l \<noteq> None" if "grid_shape G h" "g_lines h = g_lines g" "0 \<le> l" "l < int (g_lines g)" for h l
    using view_iff [OF that(1), of l] that by simp
  consider (all) "end - start \<le> int p" "start \<noteq> 0" | (sub) "int p < end - start" "start \<noteq> 0" | (top) "start = 0"
    by linarith
  then show ?thesis
  proof cases
    case all
    have "returns (reset_lines G (irange start (end - ?u)) g) (\<lambda>g'. grid_shape G g' \<and> g' = g\<lparr>raw := raw g'\<rparr> \<and>
        grid_history g' = grid_history g \<and>
        (\<forall>l. view g' l = (if start \<le> l \<and> l < end - ?u then Some (erased G g) else view g l)))"
      by (rule reset_lines_spec [OF g]) (use dom [OF g refl] region in auto)
    then obtain g' where g': "reset_lines G (irange start (end - ?u)) g = Some g'" "grid_shape G g'"
      "g' = g\<lparr>raw := raw g'\<rparr>" "grid_history g' = grid_history g"
      "\<And>l. view g' l = (if start \<le> l \<and> l < end - ?u then Some (erased G g) else view g l)"
      by (auto simp: returns_iff)
    have off: "display_offset g' = display_offset g" by (subst g'(3)) simp
    have "scroll_up_resetting G (start, end) p n g = Some g'"
      using all n g'(1) by (simp add: scroll_up_resetting_def)
    moreover have "g' = g\<lparr>raw := raw g', display_offset := display_offset g'\<rparr>"
      using g'(3) off by simp
    ultimately show ?thesis
      using g'(2,4,5) off all by auto
  next
    case sub
    define g0 where "g0 = g\<lparr>display_offset := ?off\<rparr>"
    have g0: "grid_shape G g0" "grid_history g0 = grid_history g" "view g0 = view g" "raw g0 = raw g"
      using g by (simp_all add: g0_def grid_shape_def view_def fun_eq_iff)
    have same0: "g_lines g0 = g_lines g" "g_columns g0 = g_columns g" "cursor g0 = cursor g"
      by (simp_all add: g0_def)
    obtain g1 where g1: "on_raw (for_each (\<lambda>i. storage_swap i (i + int p)) (irange start (end - int p))) g0 = Some g1"
      "grid_shape G g1" "g1 = g0\<lparr>raw := raw g1\<rparr>" "grid_history g1 = grid_history g"
      and v1: "\<And>l. start \<le> l \<Longrightarrow> l < end - int p \<Longrightarrow> view g1 l = view g (l + int p)"
        "\<And>l. l < start \<Longrightarrow> view g1 l = view g l" "\<And>l. end \<le> l \<Longrightarrow> view g1 l = view g l"
      using swap_up_grid [OF g0(1), of start "end - int p" p] sub region same0(1) g0(2,3)
      by (auto simp: returns_iff)
    have same1: "g_lines g1 = g_lines g" "g_columns g1 = g_columns g" "cursor g1 = cursor g"
      by (subst g1(3); simp add: same0)+
    have "returns (reset_lines G (irange (end - int p) (end - ?u)) g1) (\<lambda>g'. grid_shape G g' \<and> g' = g1\<lparr>raw := raw g'\<rparr> \<and>
        grid_history g' = grid_history g1 \<and>
        (\<forall>l. view g' l = (if end - int p \<le> l \<and> l < end - ?u then Some (erased G g1) else view g1 l)))"
      by (rule reset_lines_spec [OF g1(2)]) (use dom [OF g1(2) same1(1)] region sub in auto)
    then obtain g' where g': "reset_lines G (irange (end - int p) (end - ?u)) g1 = Some g'" "grid_shape G g'"
      "g' = g1\<lparr>raw := raw g'\<rparr>" "grid_history g' = grid_history g"
      and v': "\<And>l. view g' l = (if end - int p \<le> l \<and> l < end - ?u then Some (erased G g) else view g1 l)"
      using g1(4) by (auto simp: returns_iff erased_def same1)
    have off: "display_offset g' = ?off" by (subst g'(3), subst g1(3)) (simp add: g0_def)
    have set: "g' = g\<lparr>display_offset := ?off, raw := raw g'\<rparr>"
      using raw_trans [OF g1(3) g'(3)] unfolding g0_def .
    have "g' = g\<lparr>raw := raw g', display_offset := display_offset g'\<rparr>"
      unfolding off by (rule trans [OF set swap_fields])
    moreover have "scroll_up_resetting G (start, end) p n g = Some g'"
    proof -
      have "(if display_offset g \<noteq> 0
          then g\<lparr>display_offset := min (display_offset g + p) (max_scroll_limit g)\<rparr> else g) = g0"
        by (simp add: g0_def)
      then show ?thesis
        using sub n g'(1) g1(1) by (simp add: scroll_up_resetting_def Let_def)
    qed
    ultimately show ?thesis
      using g'(2,4) off sub v' v1 by auto
  next
    case top
    let ?L = "int (g_lines g)"
    define g0 where "g0 = g\<lparr>display_offset := ?off\<rparr>"
    have g0: "grid_shape G g0" "grid_history g0 = grid_history g" "view g0 = view g"
      using g by (simp_all add: g0_def grid_shape_def view_def fun_eq_iff)
    have same0: "g_lines g0 = g_lines g" "g_columns g0 = g_columns g" "cursor g0 = cursor g"
      "max_scroll_limit g0 = max_scroll_limit g"
      by (simp_all add: g0_def)
    let ?h = "min (grid_history g + p) (max_scroll_limit g)"
    have h: "grid_history g \<le> ?h" using g by (simp add: grid_shape_def)
    have p: "int p \<le> end" using small top by simp
    obtain g1 where g1: "increase_scroll_limit G p g0 = Some g1" "grid_shape G g1" "g1 = g0\<lparr>raw := raw g1\<rparr>"
      "grid_history g1 = ?h"
      and v1: "\<And>l. - int (grid_history g) \<le> l \<Longrightarrow> l < ?L \<Longrightarrow> view g1 l = view g l"
      using increase_scroll_limit_spec [OF g0(1), of p] same0 g0(2,3) by (auto simp: returns_iff)
    have same1: "g_lines g1 = g_lines g" "g_columns g1 = g_columns g" "cursor g1 = cursor g"
      by (subst g1(3); simp add: same0)+
    obtain g2 where g2: "on_raw (storage_rotate (- int p)) g1 = Some g2" "grid_shape G g2" "g2 = g1\<lparr>raw := raw g2\<rparr>"
      "grid_history g2 = ?h"
      and v2: "\<And>l. - int ?h \<le> l \<Longrightarrow> l < ?L - int p \<Longrightarrow> view g2 l = view g1 (l + int p)"
      using rotate_up_grid [OF g1(2), of p] p region g1(4) same1(1) unfolding returns_iff by auto
    have same2: "g_lines g2 = g_lines g" "g_columns g2 = g_columns g" "cursor g2 = cursor g"
      by (subst g2(3); simp add: same1)+
    obtain g3 where g3: "on_raw (for_each (\<lambda>i. storage_swap i (i - int p)) (rev (irange end ?L))) g2 = Some g3"
      "grid_shape G g3" "g3 = g2\<lparr>raw := raw g3\<rparr>" "grid_history g3 = ?h"
      and v3: "\<And>l. end \<le> l \<Longrightarrow> l < ?L \<Longrightarrow> view g3 l = view g2 (l - int p)"
        "\<And>l. l < end - int p \<Longrightarrow> view g3 l = view g2 l"
      using swap_down_grid [OF g2(2), of "end" p ?L] p region g2(4) same2(1) unfolding returns_iff by auto
    have same3: "g_lines g3 = g_lines g" "g_columns g3 = g_columns g" "cursor g3 = cursor g"
      by (subst g3(3); simp add: same2)+
    have "returns (reset_lines G (irange (end - int p) (end - ?u)) g3) (\<lambda>g'. grid_shape G g' \<and> g' = g3\<lparr>raw := raw g'\<rparr> \<and>
        grid_history g' = grid_history g3 \<and>
        (\<forall>l. view g' l = (if end - int p \<le> l \<and> l < end - ?u then Some (erased G g3) else view g3 l)))"
      by (rule reset_lines_spec [OF g3(2)]) (use dom [OF g3(2) same3(1)] region p in auto)
    then obtain g' where g': "reset_lines G (irange (end - int p) (end - ?u)) g3 = Some g'" "grid_shape G g'"
      "g' = g3\<lparr>raw := raw g'\<rparr>" "grid_history g' = ?h"
      and v': "\<And>l. view g' l = (if end - int p \<le> l \<and> l < end - ?u then Some (erased G g) else view g3 l)"
      using g3(4) unfolding returns_iff by (auto simp: erased_def same3)
    have lines': "g_lines g' = g_lines g" by (subst g'(3)) (simp add: same3)
    have off: "display_offset g' = ?off"
      by (subst g'(3), subst g3(3), subst g2(3), subst g1(3)) (simp add: g0_def)
    have set: "g' = g\<lparr>display_offset := ?off, raw := raw g'\<rparr>"
      using raw_trans [OF raw_trans [OF raw_trans [OF g1(3) g2(3)] g3(3)] g'(3)] unfolding g0_def .
    have raw': "g' = g\<lparr>raw := raw g', display_offset := display_offset g'\<rparr>"
      unfolding off by (rule trans [OF set swap_fields])
    have eq: "scroll_up_resetting G (start, end) p n g = Some g'"
    proof -
      have "\<not> (end - start \<le> int p \<and> start \<noteq> 0)" using top by simp
      moreover have "(if display_offset g \<noteq> 0
          then g\<lparr>display_offset := min (display_offset g + p) (max_scroll_limit g)\<rparr> else g) = g0"
        by (simp add: g0_def)
      moreover have "on_raw (for_each (\<lambda>i. storage_swap i (i + int p)) (rev (irange 0 0))) g1 = Some g1"
        by (simp add: on_raw_def)
      ultimately show ?thesis
        using n top g1(1) g2(1) g3(1) g'(1) same2(1)
        by (simp add: scroll_up_resetting_def Let_def del: irange_empty)
    qed
    have "view g' l = (if end \<le> l then view g l else if end - int p \<le> l \<and> start \<le> l then Some (erased G g)
        else if start \<le> l \<or> start = 0 \<and> - int (grid_history g') \<le> l then view g (l + int p) else view g l)"
      if "\<not> (end - ?u \<le> l \<and> start \<le> l \<and> l < end)" for l
    proof -
      consider "?L \<le> l" | "end \<le> l" "l < ?L" | "end - int p \<le> l" "l < end" | "- int ?h \<le> l" "l < end - int p"
        | "l < - int ?h" "l < end - int p" by linarith
      then show ?thesis
      proof cases
        case 1
        then have "view g' l = None" "view g l = None"
          using view_iff [OF g'(2), of l] view_iff [OF g, of l] lines' by auto
        then show ?thesis using 1 region by simp
      next
        case 2
        then have "view g' l = view g1 l"
          using v' [of l] v3(1) [of l] v2 [of "l - int p"] p region by (simp split: if_splits)
        then show ?thesis using 2 v1 [of l] region by simp
      next
        case 3
        then show ?thesis using v' [of l] that p top by auto
      next
        case 4
        then have "view g' l = view g1 (l + int p)"
          using v' [of l] v3(2) [of l] v2 [of l] region by simp
        moreover have "view g1 (l + int p) = view g (l + int p)"
        proof (cases "- int (grid_history g) \<le> l + int p")
          case True
          then show ?thesis using v1 [of "l + int p"] 4 region by simp
        next
          case False
          then have False using 4 g by (auto simp: grid_shape_def min_def split: if_splits)
          then show ?thesis ..
        qed
        ultimately show ?thesis using 4 g'(4) top by simp
      next
        case 5
        then have "view g' l = None" "view g l = None"
          using view_iff [OF g'(2), of l] view_iff [OF g, of l] g'(4) h by auto
        then show ?thesis using 5 g'(4) top by simp
      qed
    qed
    then show ?thesis
      using eq g'(2,4) raw' off top by simp
  qed
qed

lemma scroll_up_spec:
  assumes g: "grid_shape G g" and region: "0 \<le> start" "start \<le> end" "end \<le> int (g_lines g)"
    and small: "start = 0 \<Longrightarrow> int p \<le> end"
  shows "returns (scroll_up G (start, end) p g) (\<lambda>g'. grid_shape G g' \<and>
    g' = g\<lparr>raw := raw g', display_offset := display_offset g'\<rparr> \<and>
    grid_history g' = (if start = 0 then min (grid_history g + p) (max_scroll_limit g) else grid_history g) \<and>
    display_offset g' = (if display_offset g = 0 \<or> end - start \<le> int p \<and> start \<noteq> 0 then display_offset g
      else min (display_offset g + p) (max_scroll_limit g)) \<and>
    (\<forall>l. view g' l =
       (if end \<le> l then view g l
        else if end - int p \<le> l \<and> start \<le> l then Some (erased G g)
        else if start \<le> l \<or> start = 0 \<and> - int (grid_history g') \<le> l then view g (l + int p)
        else view g l)))"
  unfolding scroll_up_def
  by (rule returns_mono [OF scroll_up_resetting_spec [OF g region order.refl small]])
    (auto split del: if_split)

text \<open>A scroll keeps the displayed area inside the history if it starts at the top, or if it is pinned.\<close>

lemma grid_ok_scroll_up:
  assumes g: "grid_ok G g" and region: "0 \<le> start" "start \<le> end" "end \<le> int (g_lines g)"
    and n: "n \<le> p" and small: "start = 0 \<Longrightarrow> int p \<le> end" and pinned: "start = 0 \<or> display_offset g = 0"
  shows "returns (scroll_up_resetting G (start, end) p n g) (grid_ok G)"
proof -
  have shape: "grid_shape G g" using g by (simp add: grid_ok_def)
  show ?thesis
    by (rule returns_mono [OF scroll_up_resetting_spec [OF shape region n small]])
      (use g pinned in \<open>auto simp: grid_ok_def split: if_splits\<close>)
qed

lemma grid_ok_scroll_down:
  assumes g: "grid_ok G g" and region: "0 \<le> start" "start \<le> end" "end \<le> int (g_lines g)"
  shows "returns (scroll_down G (start, end) p g) (grid_ok G)"
proof -
  have shape: "grid_shape G g" using g by (simp add: grid_ok_def)
  show ?thesis
  proof (rule returns_mono [OF scroll_down_spec [OF shape region]])
    fix g' assume g': "grid_shape G g' \<and> g' = g\<lparr>raw := raw g'\<rparr> \<and> grid_history g' = grid_history g \<and>
      (\<forall>l. view g' l = (if start \<le> l \<and> l < end
        then (if l < start + int p then Some (erased G g) else view g (l - int p)) else view g l))"
    then have "display_offset g' = display_offset g" by (metis grid.select_convs(6) grid.surjective grid.update_convs(3))
    then show "grid_ok G g'" using g g' by (simp add: grid_ok_def)
  qed
qed

text \<open>The other operations on the history and the displayed area.\<close>

lemma grid_new_spec:
  assumes "1 \<le> n" "1 \<le> cols"
  shows "returns (grid_new G n cols limit) (\<lambda>g. grid_ok G g \<and> grid_history g = 0 \<and> g_lines g = n \<and>
    g_columns g = cols \<and> max_scroll_limit g = limit \<and>
    (\<forall>l. 0 \<le> l \<and> l < int n \<longrightarrow> view g l = Some (blank_row G cols (gc_default G))))"
proof -
  let ?r = "blank_row G cols (gc_default G)"
  let ?s = "\<lparr>rows = replicate n ?r, zero = 0, visible_lines = n, len = n\<rparr>"
  let ?g = "\<lparr>cursor = default_cursor G, saved_cursor = default_cursor G, raw = ?s, g_columns = cols,
    g_lines = n, display_offset = 0, max_scroll_limit = limit\<rparr>"
  have "grid_new G n cols limit = Some ?g"
    using assms row_new_blank [OF assms(2)] by (simp add: grid_new_def with_capacity_def)
  moreover have ok: "storage_ok ?s" using assms by (simp add: storage_ok_def)
  moreover have shape: "grid_shape G ?g"
    using assms ok row_ok_blank [OF assms(2), of "gc_default G"]
    by (auto simp: grid_shape_def rows_ok_def history_size_def grid_dims_def) (simp add: blank_row_def)
  moreover have "view ?g l = Some ?r" if "0 \<le> l" "l < int n" for l
    using view_ring [OF shape, of l] that by (simp add: ring_def history_size_def grid_dims_def)
  ultimately show ?thesis
    by (simp add: grid_ok_def history_size_def grid_dims_def)
qed

end

lemma scroll_display_ok:
  "grid_ok G g \<Longrightarrow> grid_ok G (scroll_display sc g) \<and> raw (scroll_display sc g) = raw g"
  by (cases sc) (auto simp: grid_ok_def grid_shape_def history_size_def grid_dims_def)

text \<open>Dropping the oldest lines of the history.\<close>

lemma shrink_grid:
  assumes g: "grid_shape G g" and n: "n \<le> grid_history g"
  shows "returns (shrink_lines n (raw g)) (\<lambda>s. grid_shape G (g\<lparr>raw := s\<rparr>) \<and>
    grid_history (g\<lparr>raw := s\<rparr>) = grid_history g - n \<and> set (rows s) \<subseteq> set (rows (raw g)) \<and>
    (\<forall>l. - int (grid_history g - n) \<le> l \<longrightarrow> view (g\<lparr>raw := s\<rparr>) l = view g l))"
proof -
  have ok: "storage_ok (raw g)" "visible_lines (raw g) = g_lines g"
    using g by (simp_all add: grid_shape_def)
  have room: "n + visible_lines (raw g) \<le> len (raw g)"
    using n history_len [OF ok] ok(2) by simp
  obtain s where s: "shrink_lines n (raw g) = Some s" "storage_ok s" "active s = take (len (raw g) - n) (active (raw g))"
    "len s = len (raw g) - n" "visible_lines s = visible_lines (raw g)" "set (rows s) \<subseteq> set (rows (raw g))"
    using shrink_lines_spec [OF ok(1) room] unfolding returns_iff by blast
  have h: "grid_history (g\<lparr>raw := s\<rparr>) = grid_history g - n"
    using s(4) by (simp add: history_size_def grid_dims_def)
  have shape: "grid_shape G (g\<lparr>raw := s\<rparr>)"
    using g s h by (auto simp: grid_shape_def rows_ok_def)
  have "view (g\<lparr>raw := s\<rparr>) l = view g l" if "- int (grid_history g - n) \<le> l" for l
  proof (cases "l < int (g_lines g)")
    case True
    have valid: "valid_line s l" "valid_line (raw g) l"
      using that True s(4,5) ok room history_len [OF ok] n by (simp_all add: valid_line_def)
    moreover have "line_slot s l = line_slot (raw g) l"
      using s(5) by (simp add: line_slot_def)
    ultimately show ?thesis
      using s(2,3,4) ok(1) line_slot_less [OF valid(1)] by (simp add: view_def storage_get_active)
  next
    case False
    then show ?thesis
      using view_iff [OF shape, of l] view_iff [OF g, of l] by simp
  qed
  then show ?thesis using s(1,6) shape h by simp
qed

lemma update_history_spec:
  assumes "grid_shape G g"
  shows "returns (update_history n g) (\<lambda>g'. grid_shape G g' \<and> max_scroll_limit g' = n \<and>
    (grid_ok G g \<longrightarrow> grid_ok G g') \<and> cursor g' = cursor g \<and> saved_cursor g' = saved_cursor g \<and>
    g_columns g' = g_columns g \<and> g_lines g' = g_lines g \<and> set (rows (raw g')) \<subseteq> set (rows (raw g)) \<and>
    grid_history g' = min (grid_history g) n \<and>
    (\<forall>l. - int (grid_history g') \<le> l \<longrightarrow> view g' l = view g l))"
proof (cases "n < grid_history g")
  case False
  then show ?thesis
    using assms by (auto simp: update_history_def grid_ok_def grid_shape_def history_size_def grid_dims_def view_def)
next
  case True
  obtain s where s: "shrink_lines (grid_history g - n) (raw g) = Some s" "grid_shape G (g\<lparr>raw := s\<rparr>)"
    "grid_history (g\<lparr>raw := s\<rparr>) = n" "set (rows s) \<subseteq> set (rows (raw g))"
    "\<forall>l. - int n \<le> l \<longrightarrow> view (g\<lparr>raw := s\<rparr>) l = view g l"
    using shrink_grid [OF assms, of "grid_history g - n"] True unfolding returns_iff by auto
  let ?g = "g\<lparr>raw := s, display_offset := min (display_offset g) n, max_scroll_limit := n\<rparr>"
  have "grid_history ?g = n" using s(3) by (simp add: history_size_def grid_dims_def)
  moreover have "view ?g = view (g\<lparr>raw := s\<rparr>)" by (simp add: view_def fun_eq_iff)
  moreover have "grid_ok G ?g"
    using s(2) calculation(1) by (simp add: grid_ok_def grid_shape_def)
  ultimately show ?thesis
    using True s(1,4,5) by (simp add: update_history_def grid_ok_def)
qed

lemma clear_history_spec:
  assumes shape: "grid_shape G g"
  shows "returns (clear_history g) (\<lambda>g'. grid_ok G g' \<and> grid_history g' = 0 \<and> display_offset g' = 0 \<and>
    g' = g\<lparr>raw := raw g', display_offset := 0\<rparr> \<and> set (rows (raw g')) \<subseteq> set (rows (raw g)) \<and>
    (\<forall>l. 0 \<le> l \<longrightarrow> view g' l = view g l) \<and> length (rows (raw g')) = g_lines g)"
proof -
  obtain s where s: "shrink_lines (grid_history g) (raw g) = Some s" "grid_shape G (g\<lparr>raw := s\<rparr>)"
    "grid_history (g\<lparr>raw := s\<rparr>) = 0" "set (rows s) \<subseteq> set (rows (raw g))" "\<forall>l. 0 \<le> l \<longrightarrow> view (g\<lparr>raw := s\<rparr>) l = view g l"
    using shrink_grid [OF shape order.refl] unfolding returns_iff by auto
  have ok: "storage_ok s" "visible_lines s = g_lines g" and len: "len s = g_lines g"
    using s(2,3) history_len [of "g\<lparr>raw := s\<rparr>"] by (auto simp: grid_shape_def)
  note t = storage_truncate_spec [of s]
  have bounds: "zero s < length (rows s)" "len s \<le> length (rows s)"
    using ok by (auto simp: storage_ok_def)
  let ?t = "storage_truncate s"
  have tok: "storage_ok ?t"
    using t(1-4) [OF bounds] ok by (auto simp: storage_ok_def active_def)
  have "storage_get ?t l = storage_get s l" for l
    using storage_get_active [OF tok, of l] storage_get_active [OF ok(1), of l] t(3,4,5) [OF bounds]
    by (simp add: valid_line_def line_slot_def)
  moreover have sub: "set (rows ?t) \<subseteq> set (rows s)"
    using t(1) [OF bounds] set_take_subset [of "len s" "ring s"] by (simp add: active_def flip: set_ring)
  moreover have "length (rows ?t) = g_lines g"
    using t(1) [OF bounds] bounds(2) len by (simp add: active_def)
  ultimately show ?thesis
    using s tok t(3,4) [OF bounds] len ok(2) order_trans [OF sub s(4)]
    by (auto simp: clear_history_def grid_ok_def grid_shape_def rows_ok_def history_size_def grid_dims_def view_def)
qed

lemma scroll_display_shape:
  "grid_shape G g \<Longrightarrow> grid_shape G (scroll_display sc g) \<and> raw (scroll_display sc g) = raw g \<and>
    cursor (scroll_display sc g) = cursor g \<and> saved_cursor (scroll_display sc g) = saved_cursor g \<and>
    g_columns (scroll_display sc g) = g_columns g \<and> g_lines (scroll_display sc g) = g_lines g"
  by (cases sc) (auto simp: grid_shape_def history_size_def grid_dims_def)

context grid_cell
begin

lemma grid_reset_spec:
  assumes g: "grid_shape G g"
  shows "returns (grid_reset G g) (\<lambda>g'. grid_ok G g' \<and> grid_history g' = 0 \<and> cursor g' = default_cursor G \<and>
    saved_cursor g' = default_cursor G \<and> g_columns g' = g_columns g \<and> g_lines g' = g_lines g \<and>
    (\<forall>l. 0 \<le> l \<and> l < int (g_lines g) \<longrightarrow> view g' l = Some (blank_row G (g_columns g) (gc_default G))))"
proof -
  obtain g1 where g1: "clear_history g = Some g1" "grid_ok G g1" "grid_history g1 = 0"
    "g1 = g\<lparr>raw := raw g1, display_offset := 0\<rparr>"
    using clear_history_spec [OF g] by (auto simp: returns_iff)
  define g2 where "g2 = g1\<lparr>saved_cursor := default_cursor G, cursor := default_cursor G, display_offset := 0\<rparr>"
  have same: "g_columns g2 = g_columns g" "g_lines g2 = g_lines g"
    by (simp_all add: g2_def) (subst g1(4); simp)+
  have g2: "grid_shape G g2" "grid_history g2 = 0" "display_offset g2 = 0"
    using g1(2,3) by (auto simp: g2_def grid_ok_def grid_shape_def history_size_def grid_dims_def)
  have top: "topmost_line (grid_dims g2) = 0" using g2(2) by (simp add: topmost_line_def)
  have "returns (reset_lines G (irange 0 (int (g_lines g2))) g2) (\<lambda>g'. grid_shape G g' \<and> g' = g2\<lparr>raw := raw g'\<rparr> \<and>
      grid_history g' = grid_history g2 \<and>
      (\<forall>l. view g' l = (if 0 \<le> l \<and> l < int (g_lines g2) then Some (erased G g2) else view g2 l)))"
    by (rule reset_lines_spec [OF g2(1)]) (use view_iff [OF g2(1)] in auto)
  then obtain g3 where g3: "reset_lines G (irange 0 (int (g_lines g2))) g2 = Some g3" "grid_shape G g3"
    "g3 = g2\<lparr>raw := raw g3\<rparr>" "grid_history g3 = 0"
    and v3: "\<And>l. 0 \<le> l \<Longrightarrow> l < int (g_lines g2) \<Longrightarrow> view g3 l = Some (erased G g2)"
    using g2(2) by (auto simp: returns_iff)
  have same3: "g_columns g3 = g_columns g" "g_lines g3 = g_lines g" "cursor g3 = default_cursor G"
    "saved_cursor g3 = default_cursor G" "display_offset g3 = 0"
    by (subst g3(3); simp add: same g2(3); simp add: g2_def)+
  have "erased G g2 = blank_row G (g_columns g) (gc_default G)"
    by (simp add: erased_def same) (simp add: g2_def default_cursor_def)
  moreover have "grid_reset G g = Some g3"
  proof -
    have "grid_reset G g = reset_lines G (irange (topmost_line (grid_dims g2)) (int (g_lines g2))) g2"
      by (simp add: grid_reset_def g1(1) g2_def)
    then show ?thesis using top g3(1) by simp
  qed
  ultimately show ?thesis
    using g3(2,4) same3 same v3 by (simp add: grid_ok_def)
qed

lemma reset_region_spec:
  assumes g: "grid_shape G g"
    and start: "start = (case from of Included l \<Rightarrow> l | Excluded l \<Rightarrow> l + 1 | Unbounded \<Rightarrow> 0)"
    and stop: "stop = (case to of Included l \<Rightarrow> l + 1 | Excluded l \<Rightarrow> l | Unbounded \<Rightarrow> int (g_lines g))"
    and bounds: "- int (grid_history g) \<le> start" "start < int (g_lines g)" "stop \<le> int (g_lines g)"
  shows "returns (reset_region G from to g) (\<lambda>g'. grid_shape G g' \<and> g' = g\<lparr>raw := raw g'\<rparr> \<and>
    grid_history g' = grid_history g \<and>
    (\<forall>l. view g' l = (if start \<le> l \<and> l < stop then Some (erased G g) else view g l)))"
proof -
  have "reset_region G from to g = reset_lines G (irange start stop) g"
    using bounds by (simp add: reset_region_def Let_def flip: start stop)
  then show ?thesis
    using reset_lines_spec [OF g distinct_irange set_irange, of start stop] view_iff [OF g] bounds by auto
qed

end

section \<open>The iterators\<close>

definition point_at :: "dims \<Rightarrow> int \<Rightarrow> point" where
  "point_at d k = Point (k div int (columns d)) (nat (k mod int (columns d)))"

lemma point_at_pos: "column p < columns d \<Longrightarrow> point_at d (pos d p) = p"
  by (cases p) (simp add: point_at_def pos_def)

lemma pos_point_at: "0 < columns d \<Longrightarrow> pos d (point_at d k) = k \<and> column (point_at d k) < columns d"
proof -
  assume "0 < columns d"
  then have "0 \<le> k mod int (columns d)" "k mod int (columns d) < int (columns d)" by simp_all
  then show ?thesis
    by (simp add: point_at_def pos_def nat_less_iff)
qed

lemma grid_cell_at_ok:
  assumes "grid_shape G g" "in_grid (grid_dims g) p"
  obtains c r where "grid_cell_at g p = Some c" "view g (line p) = Some r" "inner r ! column p = c"
    "column p < length (inner r)"
proof -
  have "- int (grid_history g) \<le> line p \<and> line p < int (g_lines g)" "column p < g_columns g"
    using assms(2) by (auto simp: in_grid_def topmost_line_def bottommost_line_def grid_dims_def)
  then obtain r where r: "view g (line p) = Some r" using view_iff [OF assms(1)] by blast
  then have "length (inner r) = g_columns g" using view_row [OF assms(1)] by blast
  then show thesis
    using that [of "inner r ! column p" r] r \<open>column p < g_columns g\<close>
    by (simp add: grid_cell_at_def view_def row_get_def)
qed

text \<open>\<open>next\<close> moves to the following cell in reading order and \<open>prev\<close> to the preceding one.\<close>

lemma iter_next_spec:
  assumes g: "grid_shape G g" and p: "column p < g_columns g" and e: "in_grid (grid_dims g) e"
    and top: "topmost_line (grid_dims g) * int (g_columns g) \<le> pos (grid_dims g) p + 1"
  shows "if e \<le> p then iter_next g (p, e) = Some (None, p, e)
    else let q = point_at (grid_dims g) (pos (grid_dims g) p + 1) in
      in_grid (grid_dims g) q \<and> (\<exists>c. grid_cell_at g q = Some c \<and> iter_next g (p, e) = Some (Some (q, c), q, e))"
proof (cases "e \<le> p")
  case True
  then show ?thesis by (simp add: iter_next_def)
next
  case False
  let ?d = "grid_dims g" and ?n = "int (g_columns g)"
  have cols: "columns ?d = g_columns g" by (simp add: grid_dims_def)
  define q where "q = (if last_column ?d \<le> column p then Point (line p + 1) 0 else Point (line p) (column p + 1))"
  have qc: "column q < g_columns g" and qpos: "pos ?d q = pos ?d p + 1"
    using p by (auto simp: q_def last_column_def cols pos_def distrib_right)
  then have q: "q = point_at ?d (pos ?d p + 1)"
    by (metis cols point_at_pos)
  have "pos ?d p < pos ?d e"
    using False pos_less_iff [of p ?d e] p e by (simp add: cols in_grid_def not_le)
  then have "q \<le> e"
    using pos_le_iff [of q ?d e] qc qpos e by (simp add: cols in_grid_def)
  then have "line q \<le> bottommost_line ?d"
    using e by (auto simp: less_eq_point_def in_grid_def)
  moreover have "topmost_line ?d \<le> line q"
  proof (rule ccontr)
    assume "\<not> topmost_line ?d \<le> line q"
    then have "(line q + 1) * ?n \<le> topmost_line ?d * ?n" by (intro mult_right_mono) simp_all
    then show False using top qc qpos by (simp add: pos_def cols distrib_right)
  qed
  ultimately have "in_grid ?d q" using qc by (simp add: in_grid_def cols)
  moreover from grid_cell_at_ok [OF g this] obtain c where "grid_cell_at g q = Some c" by metis
  ultimately show ?thesis
    using False by (simp add: iter_next_def Let_def flip: q q_def)
qed

lemma iter_prev_spec:
  assumes g: "grid_shape G g" and p: "column p \<le> g_columns g"
    "line p \<le> bottommost_line (grid_dims g)"
    and top: "Point (topmost_line (grid_dims g)) 0 \<le> p"
  shows "if p = Point (topmost_line (grid_dims g)) 0 then iter_prev g (p, e) = Some (None, p, e)
    else let q = point_at (grid_dims g) (pos (grid_dims g) p - 1) in
      in_grid (grid_dims g) q \<and> pos (grid_dims g) q = pos (grid_dims g) p - 1 \<and>
      (\<exists>c. grid_cell_at g q = Some c \<and> iter_prev g (p, e) = Some (Some (q, c), q, e))"
proof (cases "p = Point (topmost_line (grid_dims g)) 0")
  case True
  then show ?thesis by (simp add: iter_prev_def)
next
  case False
  let ?d = "grid_dims g" and ?n = "int (g_columns g)"
  have cols: "columns ?d = g_columns g" by (simp add: grid_dims_def)
  have n: "1 \<le> g_columns g" using g by (simp add: grid_shape_def)
  define q where "q = (if column p = 0 then Point (line p - 1) (last_column ?d) else Point (line p) (column p - 1))"
  have qc: "column q < g_columns g" and qpos: "pos ?d q = pos ?d p - 1"
    using p n by (auto simp: q_def last_column_def cols pos_def left_diff_distrib of_nat_diff)
  then have q: "q = point_at ?d (pos ?d p - 1)"
    by (metis cols point_at_pos)
  have "topmost_line ?d \<le> line q" "line q \<le> bottommost_line ?d"
    using top False p by (cases p; auto simp: q_def less_eq_point_def)+
  then have "in_grid ?d q" using qc by (simp add: in_grid_def cols)
  moreover from grid_cell_at_ok [OF g this] obtain c where "grid_cell_at g q = Some c" by metis
  moreover have "\<not> p \<le> Point (topmost_line ?d) 0" using False top by auto
  ultimately show ?thesis
    using False qpos by (simp add: iter_prev_def Let_def flip: q q_def)
qed

text \<open>All the cells an iterator gives, and the size it announces.\<close>

fun collect :: "nat \<Rightarrow> 'c grid \<Rightarrow> point \<times> point \<Rightarrow> (point \<times> 'c) list option" where
  "collect 0 g it = Some []"
| "collect (Suc fuel) g it =
     do { (item, it) \<leftarrow> iter_next g it;
          case item of None \<Rightarrow> Some []
          | Some x \<Rightarrow> do { xs \<leftarrow> collect fuel g it; Some (x # xs) } }"

lemma collect_spec:
  assumes g: "grid_shape G g" and p: "column p < g_columns g" and e: "in_grid (grid_dims g) e"
    and top: "topmost_line (grid_dims g) * int (g_columns g) \<le> pos (grid_dims g) p + 1"
    and fuel: "nat (pos (grid_dims g) e - pos (grid_dims g) p) \<le> fuel"
  shows "returns (collect fuel g (p, e)) (\<lambda>xs.
    map fst xs = map (point_at (grid_dims g)) (irange (pos (grid_dims g) p + 1) (pos (grid_dims g) e + 1)) \<and>
    (\<forall>(q, c) \<in> set xs. grid_cell_at g q = Some c))"
  using p top fuel
proof (induction fuel arbitrary: p)
  case 0
  then show ?case by simp
next
  case (Suc fuel)
  let ?d = "grid_dims g"
  have cols: "columns ?d = g_columns g" by (simp add: grid_dims_def)
  have n: "0 < columns ?d" using Suc.prems(1) cols by simp
  note step = iter_next_spec [OF g Suc.prems(1) e Suc.prems(2)]
  show ?case
  proof (cases "e \<le> p")
    case True
    then have "pos ?d e \<le> pos ?d p"
      using pos_le_iff [of e ?d p] Suc.prems(1) e by (simp add: cols in_grid_def)
    then show ?thesis using True step by simp
  next
    case False
    define q where "q = point_at ?d (pos ?d p + 1)"
    obtain c where q: "in_grid ?d q" "grid_cell_at g q = Some c" "iter_next g (p, e) = Some (Some (q, c), q, e)"
      using step False by (auto simp: q_def Let_def)
    have qp: "pos ?d q = pos ?d p + 1" "column q < g_columns g"
      using pos_point_at [OF n] cols by (simp_all add: q_def)
    have lt: "pos ?d p < pos ?d e"
      using False pos_less_iff [of p ?d e] Suc.prems(1) e by (simp add: cols in_grid_def not_le)
    have "returns (collect fuel g (q, e)) (\<lambda>xs.
        map fst xs = map (point_at ?d) (irange (pos ?d q + 1) (pos ?d e + 1)) \<and>
        (\<forall>(q, c) \<in> set xs. grid_cell_at g q = Some c))"
      using Suc.prems(2,3) qp by (intro Suc.IH) simp_all
    then show ?thesis
      using q lt qp(1) irange_Cons [of "pos ?d p + 1" "pos ?d e + 1"]
      by (auto elim!: returns_mono simp: q_def returns_iff)
  qed
qed

lemma size_hint_exact:
  assumes "column p < g_columns g" "column e < g_columns g"
  shows "iter_size_hint g (p, e) = Some (nat (pos (grid_dims g) e - pos (grid_dims g) p))"
proof -
  let ?d = "grid_dims g" and ?n = "int (g_columns g)"
  have cols: "columns ?d = g_columns g" by (simp add: grid_dims_def)
  show ?thesis
  proof (cases "e \<le> p")
    case True
    then show ?thesis
      using pos_le_iff [of e ?d p] assms by (simp add: iter_size_hint_def cols)
  next
    case False
    show ?thesis
    proof (cases "line p = line e")
      case True
      then show ?thesis
        using False assms by (auto simp: iter_size_hint_def less_eq_point_def pos_def nat_diff_distrib)
    next
      case other: False
      then have lt: "line p < line e" using False by (auto simp: less_eq_point_def)
      define m where "m = nat (line e - line p) - 1"
      define r where "r = g_columns g - (column p + 1)"
      have m: "line e = line p + 1 + int m" using lt by (simp add: m_def)
      have r: "int r = ?n - int (column p) - 1" using assms by (simp add: r_def)
      have "int (r + m * g_columns g + (column e + 1)) = pos ?d e - pos ?d p"
        by (simp add: pos_def cols m r algebra_simps)
      then have "r + m * g_columns g + (column e + 1) = nat (pos ?d e - pos ?d p)" by (metis nat_int)
      moreover have "usub (nat (line e - line p)) 1 = Some m" using lt by (simp add: m_def)
      ultimately show ?thesis
        using False other by (simp add: iter_size_hint_def r_def)
    qed
  qed
qed

text \<open>The display iterator gives the cells of the displayed area, and announces their number.\<close>

lemma display_iter_spec:
  assumes "grid_ok G g"
  shows "returns (collect (g_lines g * g_columns g) g (display_iter g)) (\<lambda>xs.
    map fst xs = map (point_at (grid_dims g))
      (irange (- int (display_offset g) * int (g_columns g))
        ((int (g_lines g) - int (display_offset g)) * int (g_columns g))) \<and>
    (\<forall>(q, c) \<in> set xs. grid_cell_at g q = Some c))"
    and "iter_size_hint g (display_iter g) = Some (g_lines g * g_columns g)"
proof -
  let ?d = "grid_dims g" and ?n = "int (g_columns g)" and ?off = "int (display_offset g)"
  have g: "grid_shape G g" and off: "display_offset g \<le> grid_history g"
    and n: "1 \<le> g_columns g" and lines: "1 \<le> g_lines g"
    using assms by (auto simp: grid_ok_def grid_shape_def storage_ok_def)
  have cols: "columns ?d = g_columns g" "last_column ?d = g_columns g - 1"
    "bottommost_line ?d = int (g_lines g) - 1" "topmost_line ?d = - int (grid_history g)"
    by (simp_all add: grid_dims_def last_column_def bottommost_line_def topmost_line_def)
  define p where "p = Point (- ?off - 1) (g_columns g - 1)"
  define e where "e = Point (int (g_lines g) - 1 - ?off) (g_columns g - 1)"
  have it: "display_iter g = (p, e)"
    using lines by (simp add: display_iter_def Let_def cols p_def e_def min_def)
  have pos: "pos ?d p + 1 = - ?off * ?n" "pos ?d e + 1 = (int (g_lines g) - ?off) * ?n"
    using n by (simp_all add: pos_def cols p_def e_def of_nat_diff algebra_simps)
  have diff: "nat (pos ?d e - pos ?d p) = g_lines g * g_columns g"
  proof -
    have "pos ?d e - pos ?d p = int (g_lines g * g_columns g)"
      using pos by (simp add: algebra_simps)
    then show ?thesis by (simp only: nat_int)
  qed
  have e: "in_grid ?d e"
    using lines n off by (simp add: in_grid_def cols e_def)
  have top: "topmost_line ?d * ?n \<le> pos ?d p + 1"
    unfolding pos cols using off by (intro mult_right_mono) simp_all
  have pc: "column p < g_columns g" using n by (simp add: p_def)
  show "returns (collect (g_lines g * g_columns g) g (display_iter g)) (\<lambda>xs.
      map fst xs = map (point_at ?d) (irange (- ?off * ?n) ((int (g_lines g) - ?off) * ?n)) \<and>
      (\<forall>(q, c) \<in> set xs. grid_cell_at g q = Some c))"
    using collect_spec [OF g pc e top, of "g_lines g * g_columns g"] diff
    unfolding it pos by simp
  show "iter_size_hint g (display_iter g) = Some (g_lines g * g_columns g)"
    unfolding it using size_hint_exact [of p g e] pc e diff by (simp add: in_grid_def cols)
qed

section \<open>Clearing the viewport\<close>

lemma last_content_spec:
  assumes g: "grid_shape G g" and p: "column p \<le> g_columns g" "line p \<le> bottommost_line (grid_dims g)"
    and top: "Point (topmost_line (grid_dims g)) 0 \<le> p" "0 \<le> line p"
  shows "returns (last_content G g (p, e)) (\<lambda>(p', _). - 1 \<le> line p' \<and> line p' \<le> line p \<and>
    (\<forall>q c. in_grid (grid_dims g) q \<and> line p' < line q \<and> pos (grid_dims g) q < pos (grid_dims g) p \<and>
       grid_cell_at g q = Some c \<longrightarrow> gc_is_empty G c) \<and>
    (0 \<le> line p' \<longrightarrow> (\<exists>c. grid_cell_at g p' = Some c \<and> \<not> gc_is_empty G c) \<or>
       grid_history g = 0 \<and> line p' = 0))"
  using p top
proof (induction "nat (pos (grid_dims g) p - pos (grid_dims g) (Point (topmost_line (grid_dims g)) 0))"
    arbitrary: p rule: less_induct)
  case less
  let ?d = "grid_dims g" and ?n = "int (g_columns g)"
  have cols: "columns ?d = g_columns g" "topmost_line ?d = - int (grid_history g)"
    by (simp_all add: grid_dims_def topmost_line_def)
  have n: "0 < columns ?d" using g by (simp add: grid_shape_def cols)
  note step = iter_prev_spec [OF g less.prems(1-3), of e]
  have unfold: "last_content G g it = do { (item, it) \<leftarrow> iter_prev g it;
      case item of None \<Rightarrow> Some it
      | Some (p, c) \<Rightarrow> if \<not> gc_is_empty G c \<or> line p < 0 then Some it else last_content G g it }" for it
    by (rule last_content.simps)
  show ?case
  proof (cases "p = Point (topmost_line ?d) 0")
    case True
    then have stop: "last_content G g (p, e) = Some (p, e)"
      using step by (simp add: unfold)
    have "line p = 0" "grid_history g = 0" using True less.prems(4) cols(2) by auto
    moreover have "\<not> (line p < line q \<and> pos ?d q < pos ?d p)" if "in_grid ?d q" for q
    proof
      assume q: "line p < line q \<and> pos ?d q < pos ?d p"
      then have "1 * ?n \<le> line q * ?n" using \<open>line p = 0\<close> by (intro mult_right_mono) simp_all
      then show False using q True n by (simp add: pos_def cols \<open>grid_history g = 0\<close>)
    qed
    ultimately show ?thesis using stop by auto
  next
    case False
    define q where "q = point_at ?d (pos ?d p - 1)"
    obtain c where q: "in_grid ?d q" "pos ?d q = pos ?d p - 1" "grid_cell_at g q = Some c"
      "iter_prev g (p, e) = Some (Some (q, c), q, e)"
      using step False by (auto simp: q_def Let_def)
    have qc: "column q < g_columns g" using q(1) by (simp add: in_grid_def cols)
    have qline: "line q \<le> line p" "- 1 \<le> line q"
    proof -
      show "line q \<le> line p"
      proof (rule ccontr)
        assume "\<not> line q \<le> line p"
        then have "(line p + 1) * ?n \<le> line q * ?n" by (intro mult_right_mono) simp_all
        then show False using q(2) less.prems(1) by (simp add: pos_def cols distrib_right)
      qed
      show "- 1 \<le> line q"
      proof (rule ccontr)
        assume "\<not> - 1 \<le> line q"
        then have "(line q + 1) * ?n \<le> - 1 * ?n" by (intro mult_right_mono) simp_all
        moreover have "0 \<le> line p * ?n" using less.prems(4) by simp
        ultimately show False using q(2) qc by (simp add: pos_def cols distrib_right)
      qed
    qed
    have before: "r = q \<or> pos ?d r < pos ?d q" if "in_grid ?d r" "pos ?d r < pos ?d p" for r
    proof -
      have "pos ?d r \<le> pos ?d q" using that(2) q(2) by simp
      moreover have "r = q" if "pos ?d r = pos ?d q"
        using that \<open>in_grid ?d r\<close> qc by (metis cols(1) in_grid_def point_at_pos)
      ultimately show ?thesis by fastforce
    qed
    show ?thesis
    proof (cases "\<not> gc_is_empty G c \<or> line q < 0")
      case True
      then have stop: "last_content G g (p, e) = Some (q, e)"
        using q(4) by (simp add: unfold)
      have "gc_is_empty G x" if r: "in_grid ?d r" "line q < line r" "pos ?d r < pos ?d p" "grid_cell_at g r = Some x" for r x
      proof -
        have "\<not> pos ?d r < pos ?d q"
        proof
          assume "pos ?d r < pos ?d q"
          moreover have "(line q + 1) * ?n \<le> line r * ?n" using r(2) by (intro mult_right_mono) simp_all
          ultimately show False using qc by (simp add: pos_def cols distrib_right)
        qed
        then show ?thesis using before [OF r(1,3)] r(2) by auto
      qed
      then show ?thesis using stop qline q(3) True by auto
    next
      case cont: False
      have topq: "Point (topmost_line ?d) 0 \<le> q"
        using q(1) by (cases q) (auto simp: in_grid_def less_eq_point_def)
      have zero: "pos ?d (Point (topmost_line ?d) 0) \<le> pos ?d q"
        using pos_le_iff [of "Point (topmost_line ?d) 0" ?d q] topq qc n by (simp add: cols)
      have IH: "returns (last_content G g (q, e)) (\<lambda>(p', _). - 1 \<le> line p' \<and> line p' \<le> line q \<and>
        (\<forall>r c. in_grid ?d r \<and> line p' < line r \<and> pos ?d r < pos ?d q \<and>
           grid_cell_at g r = Some c \<longrightarrow> gc_is_empty G c) \<and>
        (0 \<le> line p' \<longrightarrow> (\<exists>c. grid_cell_at g p' = Some c \<and> \<not> gc_is_empty G c) \<or>
           grid_history g = 0 \<and> line p' = 0))"
      proof (rule less.hyps)
        show "nat (pos ?d q - pos ?d (Point (topmost_line ?d) 0)) < nat (pos ?d p - pos ?d (Point (topmost_line ?d) 0))"
          using q(2) zero by simp
      qed (use qc q(1) topq cont in \<open>auto simp: in_grid_def\<close>)
      have same: "last_content G g (p, e) = last_content G g (q, e)"
        using q(4) cont by (subst unfold) simp
      have ext: "gc_is_empty G x"
        if "\<forall>r c. in_grid ?d r \<and> l < line r \<and> pos ?d r < pos ?d q \<and> grid_cell_at g r = Some c \<longrightarrow> gc_is_empty G c"
          "in_grid ?d r" "l < line r" "pos ?d r < pos ?d p" "grid_cell_at g r = Some x" for l r x
        using before [OF that(2,4)] that q(3) cont by auto
      show ?thesis
        unfolding same
      proof (rule returns_mono [OF IH])
        fix z assume z: "case z of (p', _) \<Rightarrow> - 1 \<le> line p' \<and> line p' \<le> line q \<and>
          (\<forall>r c. in_grid ?d r \<and> line p' < line r \<and> pos ?d r < pos ?d q \<and> grid_cell_at g r = Some c \<longrightarrow> gc_is_empty G c) \<and>
          (0 \<le> line p' \<longrightarrow> (\<exists>c. grid_cell_at g p' = Some c \<and> \<not> gc_is_empty G c) \<or> grid_history g = 0 \<and> line p' = 0)"
        obtain p' e' where zz: "z = (p', e')" by fastforce
        from z have a: "- 1 \<le> line p'" "line p' \<le> line q"
          "\<forall>r c. in_grid ?d r \<and> line p' < line r \<and> pos ?d r < pos ?d q \<and> grid_cell_at g r = Some c \<longrightarrow> gc_is_empty G c"
          "0 \<le> line p' \<longrightarrow> (\<exists>c. grid_cell_at g p' = Some c \<and> \<not> gc_is_empty G c) \<or> grid_history g = 0 \<and> line p' = 0"
          unfolding zz prod.case by blast+
        show "case z of (p', _) \<Rightarrow> - 1 \<le> line p' \<and> line p' \<le> line p \<and>
          (\<forall>q c. in_grid ?d q \<and> line p' < line q \<and> pos ?d q < pos ?d p \<and> grid_cell_at g q = Some c \<longrightarrow> gc_is_empty G c) \<and>
          (0 \<le> line p' \<longrightarrow> (\<exists>c. grid_cell_at g p' = Some c \<and> \<not> gc_is_empty G c) \<or> grid_history g = 0 \<and> line p' = 0)"
          unfolding zz prod.case using a(1,2,4) qline(1) ext [OF a(3)] by auto
      qed
    qed
  qed
qed

text \<open>
  Clearing the viewport keeps every line with content: it moves the lines down to the last such
  line into the history, as far as the limit allows, and leaves the screen blank.
\<close>

context grid_cell
begin

lemma clear_viewport_spec:
  assumes g: "grid_shape G g"
  shows "returns (clear_viewport G g) (\<lambda>(n, g'). grid_shape G g' \<and> n \<le> g_lines g \<and>
    (grid_ok G g \<longrightarrow> grid_ok G g') \<and> g' = g\<lparr>raw := raw g', display_offset := display_offset g'\<rparr> \<and>
    grid_history g' = min (grid_history g + n) (max_scroll_limit g) \<and>
    (\<forall>l r. int n \<le> l \<and> view g l = Some r \<longrightarrow> row_is_clear G r) \<and>
    (0 < n \<longrightarrow> (\<exists>r. view g (int n - 1) = Some r \<and> \<not> row_is_clear G r) \<or> grid_history g = 0 \<and> n = 1) \<and>
    (\<forall>l. 0 \<le> l \<and> l < int (g_lines g) \<longrightarrow> view g' l = Some (erased G g)) \<and>
    (\<forall>l. - int (grid_history g') \<le> l \<and> l < 0 \<longrightarrow> view g' l = view g (l + int n)))"
proof -
  let ?d = "grid_dims g" and ?n = "int (g_columns g)" and ?L = "int (g_lines g)"
  have n: "1 \<le> g_columns g" and lines: "1 \<le> g_lines g"
    using g by (auto simp: grid_shape_def storage_ok_def)
  have cols: "columns ?d = g_columns g" "last_column ?d = g_columns g - 1"
    "bottommost_line ?d = ?L - 1" "topmost_line ?d = - int (grid_history g)"
    by (simp_all add: grid_dims_def last_column_def bottommost_line_def topmost_line_def)
  let ?start = "Point (?L - 1) (g_columns g)"
  have top: "Point (topmost_line ?d) 0 \<le> ?start" "column ?start \<le> g_columns g"
    "line ?start \<le> bottommost_line ?d" "0 \<le> line ?start"
    using n lines by (auto simp: less_eq_point_def cols)
  obtain p e where p: "last_content G g (iter_from g ?start) = Some (p, e)" "- 1 \<le> line p" "line p \<le> ?L - 1"
    and after: "\<And>q c. in_grid ?d q \<Longrightarrow> line p < line q \<Longrightarrow> grid_cell_at g q = Some c \<Longrightarrow> gc_is_empty G c"
    and at: "0 \<le> line p \<longrightarrow> (\<exists>c. grid_cell_at g p = Some c \<and> \<not> gc_is_empty G c) \<or> grid_history g = 0 \<and> line p = 0"
  proof -
    obtain p e where pe: "last_content G g (iter_from g ?start) = Some (p, e)" "- 1 \<le> line p" "line p \<le> ?L - 1"
      "\<forall>q c. in_grid ?d q \<and> line p < line q \<and> pos ?d q < pos ?d ?start \<and> grid_cell_at g q = Some c \<longrightarrow> gc_is_empty G c"
      "0 \<le> line p \<longrightarrow> (\<exists>c. grid_cell_at g p = Some c \<and> \<not> gc_is_empty G c) \<or> grid_history g = 0 \<and> line p = 0"
      using last_content_spec [OF g top(2,3,1,4), of "snd (iter_from g ?start)"] unfolding iter_from_def
      by (auto simp: returns_iff)
    have "pos ?d q < pos ?d ?start" if "in_grid ?d q" for q
    proof -
      have "(line q + 1) * ?n \<le> ?L * ?n"
        using that by (intro mult_right_mono) (simp_all add: in_grid_def cols)
      moreover have "pos ?d ?start = ?L * ?n" by (simp add: pos_def cols left_diff_distrib)
      ultimately show ?thesis using that by (simp add: pos_def cols in_grid_def distrib_right)
    qed
    with pe show thesis using that by blast
  qed
  define k where "k = nat (line p + 1)"
  have k: "k \<le> g_lines g" "int k = line p + 1" using p(2,3) by (simp_all add: k_def)
  have clear: "row_is_clear G r" if "int k \<le> l" "view g l = Some r" for l r
    unfolding row_is_clear_def list_all_length
  proof (intro allI impI)
    fix c assume c: "c < length (inner r)"
    have l: "l < ?L" using view_iff [OF g, of l] that by simp
    have len: "length (inner r) = g_columns g" using view_row [OF g that(2)] by simp
    have "in_grid ?d (Point l c)" using that l c len p(2) by (simp add: in_grid_def cols)
    moreover have "grid_cell_at g (Point l c) = Some (inner r ! c)"
      using that(2) c by (simp add: grid_cell_at_def row_get_def flip: view_def)
    ultimately show "gc_is_empty G (inner r ! c)"
      using after [of "Point l c"] that(1) k by simp
  qed
  have content: "(\<exists>r. view g (int k - 1) = Some r \<and> \<not> row_is_clear G r) \<or> grid_history g = 0 \<and> k = 1" if "0 < k"
  proof -
    have "0 \<le> line p" using that k(2) by simp
    with at consider c where "grid_cell_at g p = Some c \<and> \<not> gc_is_empty G c" | "grid_history g = 0" "line p = 0" by auto
    then show ?thesis
    proof cases
      case 1
      then obtain r where r: "view g (line p) = Some r" "row_get r (column p) = Some c"
        by (auto simp: grid_cell_at_def view_def bind_eq_Some_conv)
      then have "c \<in> set (inner r)" by (auto simp: row_get_def idx_eq_Some)
      then have "\<not> row_is_clear G r" using 1 by (auto simp: row_is_clear_def list_all_iff)
      then show ?thesis using r(1) k(2) by auto
    qed (simp add: k_def)
  qed
  have region: "(0::int) \<le> 0" "0 \<le> ?L" "?L \<le> ?L" "(0::int) = 0 \<Longrightarrow> int k \<le> ?L" using k by simp_all
  obtain g1 where g1: "scroll_up G (0, ?L) k g = Some g1" "grid_shape G g1"
    "g1 = g\<lparr>raw := raw g1, display_offset := display_offset g1\<rparr>"
    and h1: "grid_history g1 = (if (0::int) = 0 then min (grid_history g + k) (max_scroll_limit g) else grid_history g)"
    and off1: "display_offset g1 = (if display_offset g = 0 \<or> ?L - 0 \<le> int k \<and> (0::int) \<noteq> 0 then display_offset g
      else min (display_offset g + k) (max_scroll_limit g))"
    and v1: "\<forall>l. view g1 l = (if ?L \<le> l then view g l else if ?L - int k \<le> l \<and> 0 \<le> l then Some (erased G g)
        else if 0 \<le> l \<or> (0::int) = 0 \<and> - int (grid_history g1) \<le> l then view g (l + int k) else view g l)"
    using scroll_up_spec [OF g region] unfolding returns_iff by blast
  have same: "g_lines g1 = g_lines g" "g_columns g1 = g_columns g" "cursor g1 = cursor g" "max_scroll_limit g1 = max_scroll_limit g"
    by (subst g1(3); simp)+
  have "returns (reset_lines G (irange 0 (int (g_lines g - k))) g1) (\<lambda>g'. grid_shape G g' \<and> g' = g1\<lparr>raw := raw g'\<rparr> \<and>
      grid_history g' = grid_history g1 \<and>
      (\<forall>l. view g' l = (if 0 \<le> l \<and> l < int (g_lines g - k) then Some (erased G g1) else view g1 l)))"
    by (rule reset_lines_spec [OF g1(2)]) (use view_iff [OF g1(2)] same k p(2) in auto)
  then obtain g2 where g2: "reset_lines G (irange 0 (int (g_lines g - k))) g1 = Some g2" "grid_shape G g2"
    "g2 = g1\<lparr>raw := raw g2\<rparr>" "grid_history g2 = grid_history g1"
    and v2: "\<And>l. view g2 l = (if 0 \<le> l \<and> l < int (g_lines g - k) then Some (erased G g) else view g1 l)"
    by (auto simp: returns_iff erased_def same)
  have off2: "display_offset g2 = display_offset g1" by (subst g2(3)) simp
  then have "grid_ok G g \<longrightarrow> grid_ok G g2"
    using g2(2,4) h1 off1 by (auto simp: grid_ok_def min_le_iff_disj)
  moreover have "g2 = g\<lparr>raw := raw g2, display_offset := display_offset g2\<rparr>"
    unfolding off2 using g1(3) g2(3) by (metis raw_offset)
  moreover have "view g2 l = Some (erased G g)" if "0 \<le> l" "l < ?L" for l
    using v2 [of l] spec [OF v1, of l] that k by auto
  moreover have "view g2 l = view g (l + int k)" if "- int (grid_history g2) \<le> l" "l < 0" for l
    using v2 [of l] spec [OF v1, of l] that g2(4) by auto
  moreover have "clear_viewport G g = Some (k, g2)"
    using p k(1) g1(1) g2(1) same(1) by (simp add: clear_viewport_def Let_def k_def)
  moreover have "\<forall>l r. int k \<le> l \<and> view g l = Some r \<longrightarrow> row_is_clear G r"
    using clear by blast
  ultimately show ?thesis
    using k(1) g2(2,4) h1 content by simp
qed

end

section \<open>Properties of the terminal's grid\<close>

text \<open>An instance: three lines of four columns, \<open>h\<close> lines of history, the user at its top.\<close>

definition sample_grid :: "nat \<Rightarrow> cell grid" where
  "sample_grid h = \<lparr>cursor = default_cursor packed_cell_ops, saved_cursor = default_cursor packed_cell_ops,
     raw = \<lparr>rows = replicate (3 + h) (blank_row packed_cell_ops 4 default_cell), zero = 0,
       visible_lines = 3, len = 3 + h\<rparr>,
     g_columns = 4, g_lines = 3, display_offset = h, max_scroll_limit = 10\<rparr>"

lemma sample_grid_ok:
  assumes "h \<le> 10"
  shows "grid_ok packed_cell_ops (sample_grid h)"
proof -
  have "row_ok packed_cell_ops (blank_row packed_cell_ops 4 default_cell)"
    by (rule packed.row_ok_blank) simp
  moreover have "length (inner (blank_row packed_cell_ops 4 default_cell)) = 4" by (simp add: blank_row_def)
  ultimately show ?thesis
    using assms by (auto simp: grid_ok_def grid_shape_def sample_grid_def storage_ok_def rows_ok_def
        grid_dims_def history_size_def)
qed

lemma sample_grid_sel [simp]:
  "g_lines (sample_grid h) = 3" "g_columns (sample_grid h) = 4" "display_offset (sample_grid h) = h"
  "max_scroll_limit (sample_grid h) = 10" "history_size (grid_dims (sample_grid h)) = h"
  by (simp_all add: sample_grid_def grid_dims_def history_size_def)

text \<open>
  C6. Scrolling a region of the screen down by any number of lines succeeds and keeps the
  invariant: the region's lines move down, its first n lines are blank, everything outside it
  and the history are unchanged.
\<close>

theorem scroll_down_correct:
  assumes "grid_ok packed_cell_ops g" "0 \<le> start" "start \<le> end" "end \<le> int (g_lines g)"
  shows "returns (scroll_down packed_cell_ops (start, end) n g) (\<lambda>g'. grid_ok packed_cell_ops g' \<and>
    grid_history g' = grid_history g \<and>
    (\<forall>l. view g' l =
       (if start \<le> l \<and> l < end
        then (if l < start + int n then Some (erased packed_cell_ops g) else view g (l - int n))
        else view g l)))"
proof -
  have shape: "grid_shape packed_cell_ops g" using assms(1) by (simp add: grid_ok_def)
  show ?thesis
    using returns_conj [OF packed.scroll_down_spec [OF shape assms(2-4)] packed.grid_ok_scroll_down [OF assms]]
    by (rule returns_mono) simp
qed

theorem scroll_down_correct_witness:
  "returns (scroll_down packed_cell_ops (0, 3) 1 (sample_grid 0)) (\<lambda>g'. grid_ok packed_cell_ops g' \<and>
    view g' 0 = Some (erased packed_cell_ops (sample_grid 0)) \<and> view g' 2 = view (sample_grid 0) 1)"
  by (rule returns_mono [OF scroll_down_correct [OF sample_grid_ok]]) simp_all





text \<open>
  Scrolling a region that does not start at the top moves no line into the history, but the
  display offset grows all the same while the user looks at the history: it can leave it.
\<close>



text \<open>The display iterator visits exactly the displayed cells, in reading order.\<close>



text \<open>Resizing or dropping the history keeps every line that remains.\<close>

text \<open>
  C21. Changing the history limit or clearing the history keeps the invariant and every line
  that remains; scrolling the display keeps the displayed area inside the history.
\<close>

theorem history_correct:
  assumes "grid_ok packed_cell_ops g"
  shows "returns (update_history n g) (\<lambda>g'. grid_ok packed_cell_ops g' \<and> max_scroll_limit g' = n \<and>
      grid_history g' = min (grid_history g) n \<and>
      (\<forall>l. - int (grid_history g') \<le> l \<longrightarrow> view g' l = view g l)) \<and>
    returns (clear_history g) (\<lambda>g'. grid_ok packed_cell_ops g' \<and> grid_history g' = 0 \<and>
      display_offset g' = 0 \<and> (\<forall>l. 0 \<le> l \<longrightarrow> view g' l = view g l)) \<and>
    grid_ok packed_cell_ops (scroll_display sc g) \<and> raw (scroll_display sc g) = raw g"
proof -
  have shape: "grid_shape packed_cell_ops g" using assms by (simp add: grid_ok_def)
  have "returns (update_history n g) (\<lambda>g'. grid_ok packed_cell_ops g' \<and> max_scroll_limit g' = n \<and>
      grid_history g' = min (grid_history g) n \<and> (\<forall>l. - int (grid_history g') \<le> l \<longrightarrow> view g' l = view g l))"
    by (rule returns_mono [OF update_history_spec [OF shape]]) (use assms in blast)
  then show ?thesis
    using scroll_display_ok [OF assms] returns_mono [OF clear_history_spec [OF shape]] by simp
qed

theorem history_correct_witness:
  "returns (update_history 1 (sample_grid 2)) (\<lambda>g'. grid_ok packed_cell_ops g' \<and> grid_history g' = 1 \<and>
      view g' (- 1) = view (sample_grid 2) (- 1))"
  by (rule returns_mono [OF conjunct1 [OF history_correct [OF sample_grid_ok]]]) simp_all

end
