(* ===== verification/Text.thy ===== *)
theory Text
  imports Prelude
begin

text \<open>
  Text as a list of bytes: literals, splitting and joining as the standard library does, and
  decimal numbers.
\<close>

type_synonym byte = "8 word"

definition ascii :: "string \<Rightarrow> byte list" where
  "ascii s = map of_char s"

text \<open>Splitting a slice at a separator, and joining with one.\<close>

fun split_on :: "byte \<Rightarrow> byte list \<Rightarrow> byte list list" where
  "split_on b [] = [[]]"
| "split_on b (x # xs) =
     (if x = b then [] # split_on b xs
      else case split_on b xs of [] \<Rightarrow> [[x]] | y # ys \<Rightarrow> (x # y) # ys)"

fun join :: "byte list \<Rightarrow> byte list list \<Rightarrow> byte list" where
  "join sep [] = []"
| "join sep [x] = x"
| "join sep (x # y # xs) = x @ sep @ join sep (y # xs)"

lemma split_on_ne [simp]: "split_on b xs \<noteq> []"
  by (induction xs) (auto split: list.splits)

lemma split_on_plain: "b \<notin> set xs \<Longrightarrow> split_on b xs = [xs]"
  by (induction xs) (auto split: list.splits)

lemma split_on_append: "b \<notin> set xs \<Longrightarrow> split_on b (xs @ b # ys) = xs # split_on b ys"
  by (induction xs) (auto split: list.splits)

lemma split_join:
  assumes "xss \<noteq> []" "\<forall>xs \<in> set xss. b \<notin> set xs"
  shows "split_on b (join [b] xss) = xss"
  using assms by (induction "[b]" xss rule: join.induct) (auto simp: split_on_plain split_on_append)

section \<open>Decimal numbers\<close>

fun dec :: "nat \<Rightarrow> byte list" where
  "dec n = (if n < 10 then [of_nat (48 + n)] else dec (n div 10) @ [of_nat (48 + n mod 10)])"

declare dec.simps [simp del]

fun digits :: "nat \<Rightarrow> byte list \<Rightarrow> nat option" where
  "digits n [] = Some n"
| "digits n (b # bs) = (if 48 \<le> unat b \<and> unat b \<le> 57 then digits (10 * n + (unat b - 48)) bs else None)"

lemma unat_byte: "n < 256 \<Longrightarrow> unat (of_nat n :: byte) = n"
  by (simp add: unsigned_of_nat take_bit_nat_eq_self)

lemma byte_less: "unat (b :: byte) < 256"
  using unsigned_less [of b] by simp

definition is_digit :: "byte \<Rightarrow> bool" where
  "is_digit b \<longleftrightarrow> 48 \<le> unat b \<and> unat b \<le> 57"

lemma digits_append: "digits n (xs @ ys) = do { m \<leftarrow> digits n xs; digits m ys }"
  by (induction n xs rule: digits.induct) auto

lemma digits_None: "digits n bs = None \<longleftrightarrow> \<not> list_all is_digit bs"
  by (induction n bs rule: digits.induct) (auto simp: is_digit_def)

lemma digits_grow: "digits n bs = Some m \<Longrightarrow> n \<le> m"
  by (induction n bs rule: digits.induct) (auto split: if_splits)

lemma digits_dec [simp]: "digits 0 (dec n) = Some n"
proof (induction n rule: dec.induct)
  case (1 n)
  have digit: "digits m [of_nat (48 + k)] = Some (10 * m + k)" if "k < 10" for m k
    using that unat_byte [of "48 + k"] by simp
  show ?case
  proof (cases "n < 10")
    case True
    then show ?thesis using digit [of n 0] by (simp add: dec.simps [of n])
  next
    case False
    then have "digits 0 (dec n) = digits (n div 10) [of_nat (48 + n mod 10)]"
      using 1 by (subst dec.simps) (simp add: digits_append del: of_nat_add)
    then show ?thesis using digit [of "n mod 10" "n div 10"] by (simp del: of_nat_add)
  qed
qed

lemma dec_ne [simp]: "dec n \<noteq> []"
  by (subst dec.simps) simp

lemma dec_digits: "b \<in> set (dec n) \<Longrightarrow> is_digit b"
proof (induction n rule: dec.induct)
  case (1 n)
  have digit: "is_digit (of_nat (48 + k))" if "k < 10" for k
    using that unat_byte [of "48 + k"] by (simp add: is_digit_def del: of_nat_add)
  show ?case
    using 1 digit [of n] digit [of "n mod 10"] by (subst (asm) (2) dec.simps) (auto split: if_splits simp del: of_nat_add)
qed

end
