(* ===== verification/Dcs.thy ===== *)
theory Dcs
  imports Text
begin

text \<open>
  The scanner that splits the bytes of the terminal into data and the device control strings
  the emulator answers itself: \<open>DcsScanner\<close> of \<open>src/terminal/term/mod.rs\<close>.

  The searches of the crate \<open>memchr\<close> are parameters; the locale \<open>byte_search\<close> states what their
  documentation promises. The closure \<open>emit\<close> is the list of the chunks it is called with. The
  loop of \<open>push\<close> is a partial function over single steps: that it ends, and never panics, is
  proved. The reference is a machine that reads one byte at a time.
\<close>

section \<open>The scanner\<close>

definition ESC :: byte where "ESC = 0x1B"
definition DCS_MAX_BYTES :: nat where "DCS_MAX_BYTES = 4096"

datatype dcs_state = Ground | Escape | Body | BodyEscape | Discarding | DiscardingEscape

record dcs_scanner =
  dcs_state :: dcs_state
  body :: "byte list"
  dcs_raw :: "byte list"

definition dcs_default :: dcs_scanner where
  "dcs_default = \<lparr>dcs_state = Ground, body = [], dcs_raw = []\<rparr>"

datatype dcs_chunk = Bytes "byte list" | Decrqss "byte list" | Xtgettcap "byte list" | Xtsettcap "byte list"

definition push_body :: "byte list \<Rightarrow> dcs_scanner \<Rightarrow> dcs_scanner" where
  "push_body chunk s =
     (if DCS_MAX_BYTES < length (body s @ chunk)
      then \<lparr>dcs_state = Discarding, body = [], dcs_raw = []\<rparr>
      else \<lparr>dcs_state = Body, body = body s @ chunk, dcs_raw = dcs_raw s @ chunk\<rparr>)"

definition strip_prefix :: "byte list \<Rightarrow> byte list \<Rightarrow> byte list option" where
  "strip_prefix p xs = (if take (length p) xs = p then Some (drop (length p) xs) else None)"

definition dcs_finish :: "dcs_scanner \<Rightarrow> dcs_chunk" where
  "dcs_finish s =
     (case strip_prefix [0x24, 0x71] (body s) of Some b \<Rightarrow> Decrqss b | None \<Rightarrow>
      case strip_prefix [0x2B, 0x71] (body s) of Some b \<Rightarrow> Xtgettcap b | None \<Rightarrow>
      case strip_prefix [0x2B, 0x70] (body s) of Some b \<Rightarrow> Xtsettcap b | None \<Rightarrow> Bytes (dcs_raw s))"

text \<open>One iteration of the loop of \<open>push\<close>, on at least one byte.\<close>

definition dcs_step ::
  "(byte \<Rightarrow> byte list \<Rightarrow> nat option) \<Rightarrow> (byte list \<Rightarrow> byte list \<Rightarrow> nat option) \<Rightarrow>
   dcs_scanner \<Rightarrow> byte list \<Rightarrow> (dcs_scanner \<times> byte list \<times> dcs_chunk list) option" where
  "dcs_step memchr memmem s bytes =
     (case dcs_state s of
        Ground \<Rightarrow>
          let (end, next) =
            (case memmem bytes [ESC, 0x50] of
               Some index \<Rightarrow> (index, Escape)
             | None \<Rightarrow> if last bytes = ESC then (length bytes - 1, Escape) else (length bytes, Ground))
          in Some (s\<lparr>dcs_state := next\<rparr>, drop (end + 1) bytes, if 0 < end then [Bytes (take end bytes)] else [])
      | Escape \<Rightarrow>
          let b = hd bytes in
          if b = 0x50 then Some (\<lparr>dcs_state = Body, body = [], dcs_raw = [ESC, 0x50]\<rparr>, tl bytes, [])
          else if b = ESC then Some (s, tl bytes, [Bytes [ESC]])
          else Some (s\<lparr>dcs_state := Ground\<rparr>, tl bytes, [Bytes [ESC, b]])
      | Body \<Rightarrow>
          let limit = (case memchr ESC bytes of Some i \<Rightarrow> i | None \<Rightarrow> length bytes) in
          if limit = 0 then Some (s\<lparr>dcs_state := BodyEscape\<rparr>, tl bytes, [])
          else do { room \<leftarrow> usub (DCS_MAX_BYTES + 1) (length (body s));
                    let n = min limit room;
                    Some (push_body (take n bytes) s, drop n bytes, []) }
      | BodyEscape \<Rightarrow>
          let b = hd bytes in
          if b = 0x5C
          then Some (\<lparr>dcs_state = Ground, body = [], dcs_raw = []\<rparr>, tl bytes,
                     [dcs_finish (s\<lparr>dcs_raw := dcs_raw s @ [ESC, 0x5C]\<rparr>)])
          else let s = push_body [ESC] s;
                   s = (if dcs_state s = Body then push_body [b] s else s)
               in Some (s, tl bytes, [])
      | Discarding \<Rightarrow>
          (case memchr ESC bytes of
             Some i \<Rightarrow> Some (s\<lparr>dcs_state := DiscardingEscape\<rparr>, drop (i + 1) bytes, [])
           | None \<Rightarrow> Some (s, [], []))
      | DiscardingEscape \<Rightarrow>
          let b = hd bytes in
          if b = 0x5C then Some (\<lparr>dcs_state = Ground, body = [], dcs_raw = []\<rparr>, tl bytes, [])
          else if b = ESC then Some (s, tl bytes, [])
          else Some (s\<lparr>dcs_state := Discarding\<rparr>, tl bytes, []))"

partial_function (option) dcs_push ::
  "(byte \<Rightarrow> byte list \<Rightarrow> nat option) \<Rightarrow> (byte list \<Rightarrow> byte list \<Rightarrow> nat option) \<Rightarrow>
   dcs_scanner \<Rightarrow> byte list \<Rightarrow> (dcs_scanner \<times> dcs_chunk list) option" where
  "dcs_push memchr memmem s bytes =
     (if bytes = [] then Some (s, [])
      else do { (s, bytes, chunks) \<leftarrow> dcs_step memchr memmem s bytes;
                (s, more) \<leftarrow> dcs_push memchr memmem s bytes;
                Some (s, chunks @ more) })"

declare dcs_push.simps [code]

section \<open>Searching\<close>

text \<open>What the crate documents: the position of the first occurrence.\<close>

definition first_byte :: "byte \<Rightarrow> byte list \<Rightarrow> nat option" where
  "first_byte b xs = (if b \<in> set xs then Some (length (takeWhile (\<lambda>x. x \<noteq> b) xs)) else None)"

fun first_slice :: "byte list \<Rightarrow> byte list \<Rightarrow> nat option" where
  "first_slice [] ns = (if ns = [] then Some 0 else None)"
| "first_slice (x # xs) ns =
     (if take (length ns) (x # xs) = ns then Some 0 else map_option Suc (first_slice xs ns))"

locale byte_search =
  fixes memchr :: "byte \<Rightarrow> byte list \<Rightarrow> nat option" and memmem :: "byte list \<Rightarrow> byte list \<Rightarrow> nat option"
  assumes memchr: "memchr b xs = Some i \<Longrightarrow> i < length xs \<and> xs ! i = b \<and> (\<forall>j < i. xs ! j \<noteq> b)"
    and memchr_None: "memchr b xs = None \<Longrightarrow> b \<notin> set xs"
    and memmem: "memmem xs ns = Some i \<Longrightarrow> take (length ns) (drop i xs) = ns \<and>
      (\<forall>j < i. take (length ns) (drop j xs) \<noteq> ns)"
    and memmem_None: "memmem xs ns = None \<Longrightarrow> take (length ns) (drop j xs) \<noteq> ns"

interpretation reference: byte_search first_byte first_slice
proof
  show "i < length xs \<and> xs ! i = b \<and> (\<forall>j < i. xs ! j \<noteq> b)" if "first_byte b xs = Some i" for b xs i
  proof -
    have b: "b \<in> set xs" and i: "i = length (takeWhile (\<lambda>x. x \<noteq> b) xs)"
      using that by (auto simp: first_byte_def split: if_splits)
    then have "i < length xs"
      by (metis (mono_tags, lifting) length_takeWhile_le nless_le takeWhile_eq_all_conv takeWhile_eq_take take_all_iff)
    moreover have "xs ! i = b"
      using nth_length_takeWhile [of "\<lambda>x. x \<noteq> b" xs] \<open>i < length xs\<close> i by simp
    moreover have "xs ! j \<noteq> b" if "j < i" for j
      using that i by (metis (mono_tags, lifting) nth_mem set_takeWhileD takeWhile_nth)
    ultimately show ?thesis by blast
  qed
  show "b \<notin> set xs" if "first_byte b xs = None" for b xs
    using that by (auto simp: first_byte_def split: if_splits)
  show "take (length ns) (drop i xs) = ns \<and> (\<forall>j < i. take (length ns) (drop j xs) \<noteq> ns)"
    if "first_slice xs ns = Some i" for xs ns i
    using that
  proof (induction xs ns arbitrary: i rule: first_slice.induct)
    case (2 x xs ns)
    show ?case
    proof (cases "take (length ns) (x # xs) = ns")
      case False
      then obtain i' where i: "i = Suc i'" "first_slice xs ns = Some i'"
        using 2(2) by auto
      have "take (length ns) (drop j (x # xs)) \<noteq> ns" if "j < i" for j
        using False 2(1) [OF False i(2)] that i(1) by (cases j) auto
      then show ?thesis using 2(1) [OF False i(2)] i(1) by simp
    qed (use 2(2) in auto)
  qed (auto split: if_splits)
  show "take (length ns) (drop j xs) \<noteq> ns" if "first_slice xs ns = None" for xs ns j
    using that
  proof (induction xs ns arbitrary: j rule: first_slice.induct)
    case (2 x xs ns)
    then show ?case by (cases j) (auto split: if_splits)
  qed (auto split: if_splits)
qed


section \<open>The byte machine\<close>

text \<open>
  What the scanner means, one byte at a time: terminal bytes and answered requests in order. A
  chunk of bytes stands for its bytes, so how a read is cut into chunks is forgotten.
\<close>

datatype dcs_item = Byte byte | Request dcs_chunk

fun items :: "dcs_chunk list \<Rightarrow> dcs_item list" where
  "items [] = []"
| "items (Bytes bs # cs) = map Byte bs @ items cs"
| "items (c # cs) = Request c # items cs"

definition dcs_byte :: "dcs_scanner \<Rightarrow> byte \<Rightarrow> dcs_scanner \<times> dcs_item list" where
  "dcs_byte s b =
     (case dcs_state s of
        Ground \<Rightarrow> if b = ESC then (s\<lparr>dcs_state := Escape\<rparr>, []) else (s, [Byte b])
      | Escape \<Rightarrow>
          if b = 0x50 then (\<lparr>dcs_state = Body, body = [], dcs_raw = [ESC, 0x50]\<rparr>, [])
          else if b = ESC then (s, [Byte ESC]) else (s\<lparr>dcs_state := Ground\<rparr>, [Byte ESC, Byte b])
      | Body \<Rightarrow> if b = ESC then (s\<lparr>dcs_state := BodyEscape\<rparr>, []) else (push_body [b] s, [])
      | BodyEscape \<Rightarrow>
          if b = 0x5C
          then (dcs_default, items [dcs_finish (s\<lparr>dcs_raw := dcs_raw s @ [ESC, 0x5C]\<rparr>)])
          else (if length (body s) + 1 \<le> DCS_MAX_BYTES then push_body [b] (push_body [ESC] s)
                else push_body [ESC] s, [])
      | Discarding \<Rightarrow> (if b = ESC then s\<lparr>dcs_state := DiscardingEscape\<rparr> else s, [])
      | DiscardingEscape \<Rightarrow>
          (if b = 0x5C then dcs_default else if b = ESC then s else s\<lparr>dcs_state := Discarding\<rparr>, []))"

fun dcs_machine :: "dcs_scanner \<Rightarrow> byte list \<Rightarrow> dcs_scanner \<times> dcs_item list" where
  "dcs_machine s [] = (s, [])"
| "dcs_machine s (b # bs) =
     (let (s, out) = dcs_byte s b; (s, more) = dcs_machine s bs in (s, out @ more))"

definition dcs_ok :: "dcs_scanner \<Rightarrow> bool" where
  "dcs_ok s \<longleftrightarrow> length (body s) \<le> DCS_MAX_BYTES"

lemma items_append [simp]: "items (cs @ ds) = items cs @ items ds"
  by (induction cs rule: items.induct) simp_all

lemma dcs_machine_append:
  "dcs_machine s (xs @ ys) =
     (let (s, out) = dcs_machine s xs; (s, more) = dcs_machine s ys in (s, out @ more))"
  by (induction xs arbitrary: s) (simp_all add: Let_def split: prod.splits)

lemma dcs_machine_snoc:
  assumes "dcs_machine s xs = (s', out)"
  shows "dcs_machine s (xs @ [b]) = (fst (dcs_byte s' b), out @ snd (dcs_byte s' b))"
  using assms by (simp add: dcs_machine_append Let_def split: prod.splits)

lemma strip_prefix_Some: "strip_prefix p xs = Some ys \<longleftrightarrow> xs = p @ ys"
  by (auto simp: strip_prefix_def) (metis append_take_drop_id)

lemma push_body_ok [simp]: "dcs_ok (push_body xs s)"
  by (simp add: push_body_def dcs_ok_def)

lemma push_body_state: "dcs_state (push_body xs s) \<in> {Body, Discarding}"
  by (simp add: push_body_def)

lemma push_body_Body:
  "dcs_state (push_body xs s) = Body \<longleftrightarrow> length (body s) + length xs \<le> DCS_MAX_BYTES"
  by (auto simp: push_body_def)

lemma push_body_append:
  assumes "length (body s) + length xs \<le> DCS_MAX_BYTES"
  shows "push_body ys (push_body xs s) = push_body (xs @ ys) s"
  using assms by (simp add: push_body_def)

lemma dcs_byte_ok: "dcs_ok s \<Longrightarrow> dcs_ok (fst (dcs_byte s b))"
  by (auto simp: dcs_byte_def dcs_ok_def [of "s\<lparr>dcs_state := _\<rparr>"] dcs_ok_def [of s] dcs_default_def
      dcs_ok_def [of "\<lparr>dcs_state = _, body = [], dcs_raw = _\<rparr>"] split: dcs_state.split)

lemma dcs_machine_ok: "dcs_ok s \<Longrightarrow> dcs_ok (fst (dcs_machine s bs))"
proof (induction bs arbitrary: s)
  case (Cons b bs)
  then show ?case using dcs_byte_ok [of s b]
    by (cases "dcs_byte s b"; cases "dcs_machine (fst (dcs_byte s b)) bs")
      (metis Cons.IH dcs_machine.simps(2) fst_conv prod.case)
qed simp

text \<open>The runs the loop takes in one step.\<close>

lemma ground_run:
  assumes "dcs_state s = Ground" "\<And>j. take 2 (drop j xs) \<noteq> [ESC, 0x50]"
  shows "dcs_machine s xs =
    (if xs \<noteq> [] \<and> last xs = ESC then (s\<lparr>dcs_state := Escape\<rparr>, map Byte (butlast xs))
     else (s, map Byte xs))"
  using assms(2)
proof (induction xs rule: rev_induct)
  case (snoc b xs)
  have no: "take 2 (drop j xs) \<noteq> [ESC, 0x50]" for j
  proof
    assume *: "take 2 (drop j xs) = [ESC, 0x50]"
    then have "length (take 2 (drop j xs)) = 2" by simp
    then have "Suc (Suc j) \<le> length xs" by simp
    then have "take 2 (drop j (xs @ [b])) = [ESC, 0x50]" using * by simp
    then show False using snoc.prems by blast
  qed
  note IH = snoc.IH [OF no]
  have P: "b \<noteq> 0x50" if "xs \<noteq> []" "last xs = ESC"
  proof
    assume "b = 0x50"
    moreover have "xs = butlast xs @ [ESC]" using that by (metis append_butlast_last_id)
    ultimately have "drop (length (butlast xs)) (xs @ [b]) = [ESC, 0x50]"
      by (metis append.assoc append_Cons append_Nil append_eq_conv_conj)
    then show False using snoc.prems [of "length (butlast xs)"] by simp
  qed
  show ?case
  proof (cases "xs \<noteq> [] \<and> last xs = ESC")
    case True
    then have "map Byte (butlast xs) @ [Byte ESC] = map Byte xs"
      by (metis append_butlast_last_id list.simps(8,9) map_append)
    then show ?thesis
      using True P IH assms(1) by (auto simp: dcs_machine_snoc dcs_byte_def append_assoc [symmetric]
          simp del: append_assoc)
  next
    case False
    then have "dcs_machine s xs = (s, map Byte xs)" using IH by (simp add: if_not_P)
    then show ?thesis using assms(1) by (simp add: dcs_machine_snoc dcs_byte_def)
  qed
qed simp

lemma body_run:
  assumes "dcs_state s = Body" "ESC \<notin> set xs" "length (body s) + length xs \<le> DCS_MAX_BYTES + 1" "xs \<noteq> []"
  shows "dcs_machine s xs = (push_body xs s, [])"
  using assms(2-)
proof (induction xs rule: rev_induct)
  case (snoc b xs)
  show ?case
  proof (cases "xs = []")
    case True
    then show ?thesis using snoc assms(1) by (simp add: dcs_byte_def)
  next
    case False
    then have m: "dcs_machine s xs = (push_body xs s, [])" using snoc by simp
    have "dcs_state (push_body xs s) = Body" using snoc.prems by (simp add: push_body_Body)
    then show ?thesis using snoc.prems
      by (auto simp: dcs_machine_snoc [OF m] dcs_byte_def push_body_append)
  qed
qed simp

lemma discard_run:
  assumes "dcs_state s = Discarding" "ESC \<notin> set xs"
  shows "dcs_machine s xs = (s, [])"
  using assms(2) by (induction xs) (auto simp: dcs_byte_def assms(1))

context byte_search begin

lemma dcs_step_machine:
  assumes "dcs_ok s" "bytes \<noteq> []"
  shows "\<exists>s' pre rest cs. dcs_step memchr memmem s bytes = Some (s', rest, cs) \<and> bytes = pre @ rest \<and>
    pre \<noteq> [] \<and> dcs_machine s pre = (s', items cs)"
proof -
  obtain b bs where bytes: "bytes = b # bs" using assms(2) by (cases bytes) auto
  have limit: "\<exists>i. (case memchr ESC bytes of Some i \<Rightarrow> i | None \<Rightarrow> length bytes) = i \<and> i \<le> length bytes \<and>
      ESC \<notin> set (take i bytes) \<and> (i = 0 \<longrightarrow> b = ESC)"
  proof (cases "memchr ESC bytes")
    case None
    then show ?thesis using memchr_None [OF None] assms(2) by simp
  next
    case (Some i)
    then show ?thesis using memchr [OF Some] bytes by (auto simp: in_set_conv_nth)
  qed
  have many: ?thesis
    if "dcs_step memchr memmem s bytes = Some (s', drop n bytes, cs)"
      "dcs_machine s (take n bytes) = (s', items cs)" "0 < n" for s' n cs
    using that assms(2) by (intro exI [of _ s'] exI [of _ "take n bytes"] exI [of _ "drop n bytes"]
        exI [of _ cs]) simp
  have one: ?thesis
    if "dcs_step memchr memmem s bytes = Some (s', bs, cs)" "dcs_byte s b = (s', items cs)" for s' cs
    using that by (intro exI [of _ s'] exI [of _ "[b]"] exI [of _ bs] exI [of _ cs]) (simp add: bytes)
  show ?thesis
  proof (cases "dcs_state s")
    case Ground
    show ?thesis
    proof (cases "memmem bytes [ESC, 0x50]")
      case None
      have "take 2 (drop j bytes) \<noteq> [ESC, 0x50]" for j
        using memmem_None [OF None, of j] by (simp add: numeral_2_eq_2)
      note run = ground_run [OF Ground this]
      have same: "s\<lparr>dcs_state := Ground\<rparr> = s" using Ground by simp
      show ?thesis
      proof (cases "last bytes = ESC")
        case True
        then have "dcs_step memchr memmem s bytes = Some (s\<lparr>dcs_state := Escape\<rparr>, [],
            if 0 < length bytes - 1 then [Bytes (take (length bytes - 1) bytes)] else [])"
          using Ground None assms(2) by (simp add: dcs_step_def)
        then show ?thesis using run True assms(2) by (cases "length bytes - 1")
            (auto simp: butlast_conv_take)
      next
        case False
        then have "dcs_step memchr memmem s bytes = Some (s, [], [Bytes bytes])"
          using Ground None assms(2) same by (simp add: dcs_step_def)
        then show ?thesis using run False assms(2) by auto
      qed
    next
      case (Some i)
      have i: "take 2 (drop i bytes) = [ESC, 0x50]" and first: "\<And>j. j < i \<Longrightarrow> take 2 (drop j bytes) \<noteq> [ESC, 0x50]"
        using memmem [OF Some] by (auto simp: numeral_2_eq_2)
      have len: "Suc i < length bytes" using arg_cong [OF i, of length] by simp
      have at: "bytes ! i = ESC" using i len
        by (metis Cons_nth_drop_Suc Suc_lessD list.inject numeral_2_eq_2 take_Suc_Cons)
      have pre: "take (Suc i) bytes = take i bytes @ [ESC]" using at len by (simp add: take_Suc_conv_app_nth)
      have "take 2 (drop j (take (Suc i) bytes)) \<noteq> [ESC, 0x50]" for j
      proof
        assume *: "take 2 (drop j (take (Suc i) bytes)) = [ESC, 0x50]"
        then have "length (take 2 (drop j (take (Suc i) bytes))) = 2" by simp
        then have "j < i" using len by simp
        then show False using first * by (simp add: drop_take min_def split: if_splits)
      qed
      from ground_run [OF Ground this]
      have "dcs_machine s (take (Suc i) bytes) = (s\<lparr>dcs_state := Escape\<rparr>, map Byte (take i bytes))"
        by (simp add: pre)
      moreover have "dcs_step memchr memmem s bytes =
          Some (s\<lparr>dcs_state := Escape\<rparr>, drop (Suc i) bytes, if 0 < i then [Bytes (take i bytes)] else [])"
        using Ground Some by (simp add: dcs_step_def)
      ultimately show ?thesis
        by (intro many [of "s\<lparr>dcs_state := Escape\<rparr>" "Suc i" "if 0 < i then [Bytes (take i bytes)] else []"]) simp_all
    qed
  next
    case Escape
    then show ?thesis
      by (intro one [of "if b = 0x50 then \<lparr>dcs_state = Body, body = [], dcs_raw = [ESC, 0x50]\<rparr>
            else if b = ESC then s else s\<lparr>dcs_state := Ground\<rparr>"
          "if b = 0x50 then [] else if b = ESC then [Bytes [ESC]] else [Bytes [ESC, b]]"])
        (auto simp: dcs_step_def dcs_byte_def bytes Let_def)
  next
    case Body
    obtain i where i: "(case memchr ESC bytes of Some i \<Rightarrow> i | None \<Rightarrow> length bytes) = i" "i \<le> length bytes"
      "ESC \<notin> set (take i bytes)" "i = 0 \<longrightarrow> b = ESC" using limit by (elim exE conjE)
    show ?thesis
    proof (cases "i = 0")
      case True
      then have "dcs_step memchr memmem s bytes = Some (s\<lparr>dcs_state := BodyEscape\<rparr>, bs, [])"
        unfolding dcs_step_def Body using i(1) bytes by simp
      then show ?thesis by (rule one) (use True Body i(4) in \<open>simp add: dcs_byte_def\<close>)
    next
      case False
      define n where "n = min i (DCS_MAX_BYTES + 1 - length (body s))"
      have room: "usub (DCS_MAX_BYTES + 1) (length (body s)) = Some (DCS_MAX_BYTES + 1 - length (body s))"
        using assms(1) by (simp add: usub_def dcs_ok_def)
      have n: "0 < n" "n \<le> i" "length (body s) + n \<le> DCS_MAX_BYTES + 1"
        using False assms(1) by (auto simp: n_def dcs_ok_def)
      have "ESC \<notin> set (take n bytes)"
        using i(3) n(2) by (meson in_mono set_take_subset_set_take)
      then have "dcs_machine s (take n bytes) = (push_body (take n bytes) s, [])"
        using body_run [OF Body] n i(2) assms(2) by simp
      moreover have "dcs_step memchr memmem s bytes = Some (push_body (take n bytes) s, drop n bytes, [])"
        unfolding dcs_step_def Body using False room i(1) by (simp add: n_def Let_def)
      ultimately show ?thesis using n(1) by (intro many [of _ n "[]"]) simp_all
    qed
  next
    case BodyEscape
    show ?thesis
    proof (cases "b = 0x5C")
      case True
      then show ?thesis using BodyEscape
        by (intro one [of dcs_default "[dcs_finish (s\<lparr>dcs_raw := dcs_raw s @ [ESC, 0x5C]\<rparr>)]"])
          (simp_all add: dcs_step_def dcs_byte_def bytes dcs_default_def)
    next
      case False
      then show ?thesis using BodyEscape
        by (intro one [of "if length (body s) + 1 \<le> DCS_MAX_BYTES then push_body [b] (push_body [ESC] s)
                else push_body [ESC] s" "[]"])
          (auto simp: dcs_step_def dcs_byte_def bytes Let_def push_body_Body)
    qed
  next
    case Discarding
    show ?thesis
    proof (cases "memchr ESC bytes")
      case None
      then show ?thesis using discard_run [OF Discarding] memchr_None [OF None] assms(2)
        by (simp add: dcs_step_def Discarding)
    next
      case (Some i)
      have i: "i < length bytes" "bytes ! i = ESC" "\<forall>j < i. bytes ! j \<noteq> ESC" using memchr [OF Some] by auto
      have no: "ESC \<notin> set (take i bytes)" using i by (auto simp: in_set_conv_nth)
      have "dcs_machine s (take (Suc i) bytes) = (s\<lparr>dcs_state := DiscardingEscape\<rparr>, [])"
        using discard_run [OF Discarding no] i
        by (simp add: take_Suc_conv_app_nth dcs_machine_snoc dcs_byte_def Discarding)
      moreover have "dcs_step memchr memmem s bytes = Some (s\<lparr>dcs_state := DiscardingEscape\<rparr>, drop (Suc i) bytes, [])"
        using Discarding Some by (simp add: dcs_step_def)
      ultimately show ?thesis by (intro many [of _ "Suc i" "[]"]) simp_all
    qed
  next
    case DiscardingEscape
    then show ?thesis
      by (intro one [of "if b = 0x5C then dcs_default else if b = ESC then s else s\<lparr>dcs_state := Discarding\<rparr>" "[]"])
        (auto simp: dcs_step_def dcs_byte_def bytes dcs_default_def Let_def)
  qed
qed

lemma dcs_push_machine:
  assumes "dcs_ok s"
  shows "\<exists>cs. dcs_push memchr memmem s bytes = Some (fst (dcs_machine s bytes), cs) \<and>
    items cs = snd (dcs_machine s bytes)"
  using assms
proof (induction bytes arbitrary: s rule: length_induct)
  case (1 bytes)
  show ?case
  proof (cases "bytes = []")
    case True
    then show ?thesis by (simp add: dcs_push.simps)
  next
    case False
    obtain s' pre rest cs where step: "dcs_step memchr memmem s bytes = Some (s', rest, cs)"
      "bytes = pre @ rest" "pre \<noteq> []" "dcs_machine s pre = (s', items cs)"
      using dcs_step_machine [OF "1.prems" False] by blast
    have "dcs_ok s'" using dcs_machine_ok [OF "1.prems", of pre] step(4) by simp
    then obtain more where "dcs_push memchr memmem s' rest = Some (fst (dcs_machine s' rest), more)"
      "items more = snd (dcs_machine s' rest)"
      using "1.IH" step(2,3) by (metis length_append less_add_same_cancel2 length_greater_0_conv)
    then show ?thesis using step False
      by (subst dcs_push.simps) (auto simp: dcs_machine_append Let_def split: prod.splits)
  qed
qed

end

section \<open>What the scanner promises\<close>

text \<open>
  C12. The scanner of device control strings, which searches ahead with memchr and memmem,
  terminates without panic on every read, behaves like a machine that looks at one byte at a
  time, and never buffers more than its limit.
\<close>

theorem dcs_push_correct:
  assumes "byte_search memchr memmem" "dcs_ok s"
  shows "\<exists>s' cs. dcs_push memchr memmem s bytes = Some (s', cs) \<and>
    dcs_machine s bytes = (s', items cs) \<and> dcs_ok s'"
  using byte_search.dcs_push_machine [OF assms] dcs_machine_ok [OF assms(2)]
  by (metis prod.collapse)

theorem dcs_push_correct_witness:
  "\<exists>s' cs. dcs_push first_byte first_slice dcs_default [0x61, ESC, 0x50, 0x24, 0x71, 0x6D, ESC, 0x5C] = Some (s', cs) \<and>
    (dcs_default, [Byte 0x61, Request (Decrqss [0x6D])]) = (s', items cs) \<and> dcs_ok s'"
proof -
  have "dcs_machine dcs_default [0x61, ESC, 0x50, 0x24, 0x71, 0x6D, ESC, 0x5C] =
      (dcs_default, [Byte 0x61, Request (Decrqss [0x6D])])"
    by code_simp
  then show ?thesis
    using dcs_push_correct [OF reference.byte_search_axioms, of dcs_default
        "[0x61, ESC, 0x50, 0x24, 0x71, 0x6D, ESC, 0x5C]"]
    by (simp add: dcs_ok_def dcs_default_def)
qed

theorem dcs_chunk_independent:
  assumes "byte_search memchr memmem" "dcs_ok s"
  shows "\<exists>s1 cs1 s2 cs2 cs. dcs_push memchr memmem s xs = Some (s1, cs1) \<and>
    dcs_push memchr memmem s1 ys = Some (s2, cs2) \<and>
    dcs_push memchr memmem s (xs @ ys) = Some (s2, cs) \<and> items cs = items (cs1 @ cs2)"
proof -
  note push = byte_search.dcs_push_machine [OF assms(1)]
  obtain s1 o1 where m1: "dcs_machine s xs = (s1, o1)" by fastforce
  obtain s2 o2 where m2: "dcs_machine s1 ys = (s2, o2)" by fastforce
  have ok: "dcs_ok s1" using dcs_machine_ok [OF assms(2), of xs] m1 by simp
  have m: "dcs_machine s (xs @ ys) = (s2, o1 @ o2)" by (simp add: dcs_machine_append m1 m2)
  show ?thesis using push [OF assms(2), of xs] push [OF ok, of ys] push [OF assms(2), of "xs @ ys"]
    by (auto simp: m1 m2 m)
qed

theorem dcs_chunk_independent_witness:
  "\<exists>s1 cs1 s2 cs2 cs. dcs_push first_byte first_slice dcs_default [0x61, ESC] = Some (s1, cs1) \<and>
    dcs_push first_byte first_slice s1 [0x50, 0x62, ESC, 0x5C] = Some (s2, cs2) \<and>
    dcs_push first_byte first_slice dcs_default ([0x61, ESC] @ [0x50, 0x62, ESC, 0x5C]) = Some (s2, cs) \<and>
    items cs = items (cs1 @ cs2)"
  by (rule dcs_chunk_independent [OF reference.byte_search_axioms]) (simp add: dcs_ok_def dcs_default_def)

lemma discarding_machine:
  assumes "dcs_state s = Discarding" "ESC \<notin> set b"
  shows "dcs_machine s (b @ [ESC, 0x5C]) = (dcs_default, [])"
  using discard_run [OF assms] assms(1) by (simp add: dcs_machine_append dcs_byte_def ESC_def)

lemma dcs_finish_cong: "body s = body t \<Longrightarrow> dcs_raw s = dcs_raw t \<Longrightarrow> dcs_finish s = dcs_finish t"
  unfolding dcs_finish_def by presburger

lemma body_machine:
  assumes "ESC \<notin> set b" "length bo \<le> DCS_MAX_BYTES"
  shows "dcs_machine \<lparr>dcs_state = Body, body = bo, dcs_raw = r\<rparr> (b @ [ESC, 0x5C]) =
    (dcs_default, if length (bo @ b) \<le> DCS_MAX_BYTES
       then items [dcs_finish \<lparr>dcs_state = Body, body = bo @ b, dcs_raw = r @ b @ [ESC, 0x5C]\<rparr>] else [])"
  using assms
proof (induction b arbitrary: bo r)
  case Nil
  have "dcs_finish \<lparr>dcs_state = BodyEscape, body = bo, dcs_raw = r @ [ESC, 0x5C]\<rparr> =
      dcs_finish \<lparr>dcs_state = Body, body = bo, dcs_raw = r @ [ESC, 0x5C]\<rparr>"
    by (rule dcs_finish_cong) simp_all
  then show ?case using Nil by (simp add: dcs_byte_def ESC_def)
next
  case (Cons x b)
  have x: "dcs_byte \<lparr>dcs_state = Body, body = bo, dcs_raw = r\<rparr> x =
      (push_body [x] \<lparr>dcs_state = Body, body = bo, dcs_raw = r\<rparr>, [])"
    using Cons.prems by (auto simp: dcs_byte_def)
  show ?case
  proof (cases "length bo + 1 \<le> DCS_MAX_BYTES")
    case True
    then show ?thesis using Cons.IH [of "bo @ [x]" "r @ [x]"] Cons.prems x by (simp add: push_body_def)
  next
    case False
    then have "dcs_state (push_body [x] \<lparr>dcs_state = Body, body = bo, dcs_raw = r\<rparr>) = Discarding"
      by (simp add: push_body_def)
    then show ?thesis using discarding_machine Cons.prems False x by simp
  qed
qed

text \<open>
  A whole control string sent in the ground state is answered once and leaves nothing behind; one
  over the limit disappears.
\<close>

text \<open>
  C13. A complete control string sent in the ground state is answered once as the request its
  prefix names, passed on verbatim when it is none of them, and dropped when it is over the
  limit; afterwards the scanner is back in its initial state.
\<close>

theorem dcs_request_answered:
  assumes "byte_search memchr memmem" "ESC \<notin> set b"
  shows "\<exists>cs. dcs_push memchr memmem dcs_default ([ESC, 0x50] @ b @ [ESC, 0x5C]) = Some (dcs_default, cs) \<and>
    items cs =
      (if DCS_MAX_BYTES < length b then []
       else if take 2 b = [0x24, 0x71] then [Request (Decrqss (drop 2 b))]
       else if take 2 b = [0x2B, 0x71] then [Request (Xtgettcap (drop 2 b))]
       else if take 2 b = [0x2B, 0x70] then [Request (Xtsettcap (drop 2 b))]
       else map Byte ([ESC, 0x50] @ b @ [ESC, 0x5C]))"
proof -
  have ok: "dcs_ok dcs_default" by (simp add: dcs_ok_def dcs_default_def)
  define s where "s = \<lparr>dcs_state = Body, body = [], dcs_raw = [ESC, 0x50]\<rparr>"
  have "dcs_machine dcs_default ([ESC, 0x50] @ b @ [ESC, 0x5C]) = dcs_machine s (b @ [ESC, 0x5C])"
    by (simp add: dcs_byte_def dcs_default_def s_def)
  also have "\<dots> = (dcs_default, if length b \<le> DCS_MAX_BYTES
      then items [dcs_finish (s\<lparr>body := b, dcs_raw := [ESC, 0x50] @ b @ [ESC, 0x5C]\<rparr>)] else [])"
    using body_machine [OF assms(2), of "[]" "[ESC, 0x50]"] by (simp add: s_def)
  finally have "dcs_machine dcs_default ([ESC, 0x50] @ b @ [ESC, 0x5C]) = \<dots>" .
  then show ?thesis
    using byte_search.dcs_push_machine [OF assms(1) ok, of "[ESC, 0x50] @ b @ [ESC, 0x5C]"]
    by (auto simp: dcs_finish_def strip_prefix_def numeral_2_eq_2 not_le)
qed

theorem dcs_request_answered_witness:
  "\<exists>cs. dcs_push first_byte first_slice dcs_default ([ESC, 0x50] @ [0x2B, 0x71, 0x61] @ [ESC, 0x5C]) =
      Some (dcs_default, cs) \<and> items cs = [Request (Xtgettcap [0x61])]"
  using dcs_request_answered [OF reference.byte_search_axioms, of "[0x2B, 0x71, 0x61]"]
  by (simp add: ESC_def DCS_MAX_BYTES_def)

end
