(* ===== verification/Reports.thy ===== *)
theory Reports
  imports Style Text
begin

text \<open>
  Answers to the queries of programs, \<open>src/terminal/term/mod.rs\<close>: hexadecimal encoding, the
  version number of secondary device attributes, the state of SGR, DECSTBM and DECSCUSR asked for
  by DECRQSS, and the capabilities asked for by XTGETTCAP.
\<close>

section \<open>Numbers\<close>

text \<open>\<open>char::to_digit(16)\<close> of a byte.\<close>

definition to_digit16 :: "byte \<Rightarrow> nat option" where
  "to_digit16 b =
     (let n = unat b in
      if 48 \<le> n \<and> n \<le> 57 then Some (n - 48)
      else if 97 \<le> n \<and> n \<le> 102 then Some (n - 87)
      else if 65 \<le> n \<and> n \<le> 70 then Some (n - 55)
      else None)"

fun decode_pairs :: "byte list \<Rightarrow> byte list option" where
  "decode_pairs (x # y # rest) =
     do { high \<leftarrow> to_digit16 x;
          low \<leftarrow> to_digit16 y;
          more \<leftarrow> decode_pairs rest;
          Some (of_nat (16 * high + low) # more) }"
| "decode_pairs _ = Some []"

definition decode_hex :: "byte list \<Rightarrow> byte list option" where
  "decode_hex value = (if even (length value) then decode_pairs value else None)"

definition hex_digit :: "nat \<Rightarrow> byte" where
  "hex_digit n = (if n < 10 then of_nat (48 + n) else of_nat (87 + n))"

definition encode_hex :: "byte list \<Rightarrow> byte list" where
  "encode_hex value = concat (map (\<lambda>b. [hex_digit (unat b div 16), hex_digit (unat b mod 16)]) value)"

lemma to_digit16_hex_digit:
  assumes "n < 16"
  shows "to_digit16 (hex_digit n) = Some n"
proof -
  have "unat (hex_digit n) = (if n < 10 then 48 + n else 87 + n)"
    using assms unat_byte [of "48 + n"] unat_byte [of "87 + n"] by (simp add: hex_digit_def)
  then show ?thesis using assms by (auto simp: to_digit16_def Let_def)
qed

lemma decode_encode: "decode_hex (encode_hex bs) = Some bs"
proof -
  have "even (length (encode_hex bs))" by (induction bs) (simp_all add: encode_hex_def)
  moreover have "decode_pairs (encode_hex bs) = Some bs"
  proof (induction bs)
    case (Cons b bs)
    have "unat b < 256" by (rule byte_less)
    then have "unat b div 16 < 16" by simp
    then have "decode_pairs (encode_hex (b # bs)) = Some (of_nat (16 * (unat b div 16) + unat b mod 16) # bs)"
      using Cons.IH by (simp add: encode_hex_def to_digit16_hex_digit del: of_nat_add of_nat_mult)
    moreover have "of_nat (16 * (unat b div 16) + unat b mod 16) = b"
      by (simp only: mult_div_mod_eq) simp
    ultimately show ?case by simp
  qed (simp add: encode_hex_def)
  ultimately show ?thesis by (simp add: decode_hex_def)
qed

text \<open>Parsing a \<open>usize\<close>: digits with an optional plus sign, below the limit.\<close>

definition parse_usize :: "byte list \<Rightarrow> nat option" where
  "parse_usize bs =
     (let bs = (case bs of b # rest \<Rightarrow> if b = 0x2B then rest else bs | [] \<Rightarrow> []) in
      if bs = [] then None
      else do { n \<leftarrow> digits 0 bs; if n < 2 ^ 64 then Some n else None })"

text \<open>Everything before the last minus sign, if there is one.\<close>

definition before_last :: "byte \<Rightarrow> byte list \<Rightarrow> byte list" where
  "before_last b xs =
     (if b \<in> set xs then rev (tl (dropWhile (\<lambda>x. x \<noteq> b) (rev xs))) else xs)"

definition version_number :: "byte list \<Rightarrow> nat" where
  "version_number version =
     (let parts = rev (split_on 0x2E (before_last 0x2D version)) in
      sum_list (map (\<lambda>(i, part). 100 ^ i * (case parse_usize part of Some n \<Rightarrow> n | None \<Rightarrow> 0))
        (enumerate 0 parts)))"

section \<open>DECRQSS\<close>

definition sgr_color :: "color \<Rightarrow> bool \<Rightarrow> byte list list" where
  "sgr_color color foreground =
     (let base = (if foreground then 30 else 40);
          wide = ascii (if foreground then ''38'' else ''48'')
      in case color of
           Named named \<Rightarrow>
             (let n = unat named in
              if n < 8 then [dec (base + n)] else if n < 16 then [dec (base + 60 + n - 8)] else [])
         | Indexed i \<Rightarrow>
             (let n = unat i in
              if n \<le> 7 then [dec (base + n)]
              else if n \<le> 15 then [dec (base + 60 + n - 8)]
              else [wide @ ascii '';5;'' @ dec n])
         | Spec r g b \<Rightarrow>
             [wide @ ascii '';2;'' @ dec (unat r) @ ascii '';'' @ dec (unat g) @ ascii '';'' @ dec (unat b)])"

definition sgr_status :: "style \<Rightarrow> byte list" where
  "sgr_status s =
     (let has = contains (attrs s);
          one = (\<lambda>f t. if has f then [ascii t] else []);
          underline = take 1 (concat (map (\<lambda>(f, t). one f t)
            [(UNDERLINE, ''4''), (DOUBLE_UNDERLINE, ''4:2''), (UNDERCURL, ''4:3''),
             (DOTTED_UNDERLINE, ''4:4''), (DASHED_UNDERLINE, ''4:5'')]));
          params = one BOLD ''1'' @ one DIM ''2'' @ one ITALIC ''3'' @ underline @ one INVERSE ''7'' @
            one HIDDEN ''8'' @ one STRIKEOUT ''9'' @ sgr_color (fg s) True @ sgr_color (bg s) False;
          params = (if params = [] then [ascii ''0''] else params)
      in join (ascii '';'') params @ ascii ''m'')"

datatype cursor_shape = Block | Underline | Beam | HollowBlock | Hidden

record cursor_style =
  shape :: cursor_shape
  blinking :: bool

definition steady_code :: "cursor_shape \<Rightarrow> nat" where
  "steady_code s = (case s of Underline \<Rightarrow> 4 | Beam \<Rightarrow> 6 | _ \<Rightarrow> 2)"

definition ESCAPE :: byte where "ESCAPE = 0x1B"

definition status_string :: "style \<Rightarrow> int \<times> int \<Rightarrow> cursor_style \<Rightarrow> byte list \<Rightarrow> byte list option" where
  "status_string template region cs request =
     (if request = ascii ''m'' then Some (sgr_status template)
      else if request = ascii ''r''
      then Some (dec (nat (fst region + 1)) @ ascii '';'' @ dec (nat (snd region)) @ ascii ''r'')
      else if request = ascii '' q''
      then Some (dec (steady_code (shape cs) - of_bool (blinking cs)) @ ascii '' q'')
      else if request = 0x22 # ascii ''p'' then Some (ascii ''61;1'' @ [0x22] @ ascii ''p'')
      else if request = 0x22 # ascii ''q'' then Some (ascii ''0'' @ [0x22] @ ascii ''q'')
      else None)"

definition report_status_string :: "style \<Rightarrow> int \<times> int \<Rightarrow> cursor_style \<Rightarrow> byte list \<Rightarrow> byte list" where
  "report_status_string template region cs request =
     (case status_string template region cs request of
        Some status \<Rightarrow> [ESCAPE] @ ascii ''P1$r'' @ status @ [ESCAPE, 0x5C]
      | None \<Rightarrow> [ESCAPE] @ ascii ''P0$r'' @ [ESCAPE, 0x5C])"

section \<open>XTGETTCAP\<close>

text \<open>The capabilities answered: without a value, with one, or unknown.\<close>

definition capability :: "byte list \<Rightarrow> byte list option option" where
  "capability name =
     (if name = ascii ''TN'' then Some (Some (ascii ''xterm-vivido''))
      else if name = ascii ''Co'' then Some (Some (ascii ''256''))
      else if name = ascii ''RGB'' then Some (Some (ascii ''8''))
      else if name = ascii ''Tc'' then Some None
      else None)"

definition termcap_entry :: "byte list \<Rightarrow> byte list option" where
  "termcap_entry encoded =
     do { name \<leftarrow> decode_hex encoded;
          value \<leftarrow> capability name;
          Some (encoded @ (case value of Some v \<Rightarrow> ascii ''='' @ encode_hex v | None \<Rightarrow> [])) }"

definition report_termcap :: "byte list \<Rightarrow> byte list" where
  "report_termcap request =
     (let values = List.map_filter termcap_entry (split_on 0x3B request) in
      if values = [] then [ESCAPE] @ ascii ''P0+r'' @ [ESCAPE, 0x5C]
      else [ESCAPE] @ ascii ''P1+r'' @ join (ascii '';'') values @ [ESCAPE, 0x5C])"

definition xtsettcap_valid :: "byte list \<Rightarrow> bool" where
  "xtsettcap_valid request \<longleftrightarrow>
     list_all (\<lambda>item. item \<noteq> [] \<and> decode_hex item \<noteq> None) (split_on 0x3B request)"

lemma hex_digit_not_separator: "n < 16 \<Longrightarrow> hex_digit n \<noteq> 0x3B"
proof
  assume n: "n < 16" "hex_digit n = 0x3B"
  then have "to_digit16 (0x3B :: byte) = Some n" using to_digit16_hex_digit by metis
  then show False by (simp add: to_digit16_def)
qed

lemma encode_hex_no_separator: "0x3B \<notin> set (encode_hex bs)"
proof -
  have "unat b div 16 < 16" for b :: byte using byte_less [of b] by simp
  then show ?thesis using hex_digit_not_separator by (fastforce simp: encode_hex_def)
qed

text \<open>
  A program that asks for a list of names in hexadecimal gets back, in the order it asked, each
  name this terminal knows, with the hexadecimal form of its value.
\<close>

text \<open>
  C36. A request for terminal capabilities by hexadecimal names is answered with each name that
  is known, in order, with its value in hexadecimal, or with a failure when none is known.
\<close>

theorem termcap_answers:
  "report_termcap (join (ascii '';'') (map encode_hex names)) =
     (let known = filter (\<lambda>n. capability n \<noteq> None) names in
      if known = [] then [ESCAPE] @ ascii ''P0+r'' @ [ESCAPE, 0x5C]
      else [ESCAPE] @ ascii ''P1+r'' @
        join (ascii '';'') (map (\<lambda>n. encode_hex n @
          (case the (capability n) of Some v \<Rightarrow> ascii ''='' @ encode_hex v | None \<Rightarrow> [])) known) @
        [ESCAPE, 0x5C])"
proof -
  have sep: "ascii '';'' = [0x3B]" by code_simp
  have "List.map_filter termcap_entry (map encode_hex ns) =
      map (\<lambda>n. encode_hex n @ (case the (capability n) of Some v \<Rightarrow> ascii ''='' @ encode_hex v | None \<Rightarrow> []))
        (filter (\<lambda>n. capability n \<noteq> None) ns)" for ns
    by (induction ns) (auto simp: map_filter_simps termcap_entry_def decode_encode)
  moreover have "split_on 0x3B (join [0x3B] (map encode_hex names)) = map encode_hex names" if "names \<noteq> []"
    using that encode_hex_no_separator by (intro split_join) auto
  moreover have "termcap_entry [] = None" by code_simp
  ultimately show ?thesis
    by (cases "names = []") (auto simp: report_termcap_def sep map_filter_simps Let_def)
qed

theorem hex_roundtrip:
  "decode_hex (encode_hex bs) = Some bs \<and> length (encode_hex bs) = 2 * length bs"
proof
  show "length (encode_hex bs) = 2 * length bs" by (induction bs) (simp_all add: encode_hex_def)
qed (rule decode_encode)

end
