(* ===== verification/Scheduler.thy ===== *)
theory Scheduler
  imports Prelude "HOL-Library.Multiset"
begin

text \<open>
  The queue of timed events, \<open>src/scheduler.rs\<close>.

  An \<open>Instant\<close> is a number of nanoseconds. Every call of \<open>Instant::now()\<close> is a reading of the
  clock: the \<open>i\<close>-th reading of a run is \<open>clock i\<close>, and an operation that reads the clock returns
  the number of readings taken so far. The event proxy is the list of the events sent to it.
\<close>

datatype topic = SelectionScrolling | DelayedSearch | BlinkCursor | BlinkTimeout | Frame
  | RendererRecovery | HiddenRelease | VividResizeSettled | MessageTimeout | ProgressTimeout
  | ScreenshotReadback | Automation

record timer_id =
  topic :: topic
  window_id :: nat

record 'e timer =
  deadline :: nat
  event :: 'e
  id_of :: timer_id
  interval :: "nat option"

text \<open>\<open>position\<close> of an iterator.\<close>

definition position :: "('a \<Rightarrow> bool) \<Rightarrow> 'a list \<Rightarrow> nat option" where
  "position P xs = (let n = length (takeWhile (\<lambda>x. \<not> P x) xs) in if n < length xs then Some n else None)"

definition schedule ::
  "nat \<Rightarrow> 'e \<Rightarrow> nat \<Rightarrow> bool \<Rightarrow> timer_id \<Rightarrow> 'e timer list \<Rightarrow> 'e timer list" where
  "schedule now e d repeat i timers =
     (let due = now + d;
          index = (case position (\<lambda>t. due < deadline t) timers of Some n \<Rightarrow> n | None \<Rightarrow> length timers);
          timer = \<lparr>deadline = due, event = e, id_of = i, interval = (if repeat then Some d else None)\<rparr>
      in take index timers @ timer # drop index timers)"

text \<open>The loop of \<open>update\<close>, which a repeated timer could keep going for ever.\<close>

partial_function (option) update_loop ::
  "(nat \<Rightarrow> nat) \<Rightarrow> nat \<Rightarrow> nat \<Rightarrow> 'e timer list \<Rightarrow> ('e timer list \<times> 'e list \<times> nat) option" where
  "update_loop clock now i timers =
     (case timers of
        [] \<Rightarrow> Some ([], [], i)
      | t # rest \<Rightarrow>
          if deadline t \<le> now
          then do { let (rest, i) =
                      (case interval t of
                         Some d \<Rightarrow> (schedule (clock i) (event t) d True (id_of t) rest, i + 1)
                       | None \<Rightarrow> (rest, i));
                    (left, sent, i) \<leftarrow> update_loop clock now i rest;
                    Some (left, event t # sent, i) }
          else Some (timers, [], i))"

declare update_loop.simps [code]

definition update ::
  "(nat \<Rightarrow> nat) \<Rightarrow> nat \<Rightarrow> 'e timer list \<Rightarrow> ('e timer list \<times> 'e list \<times> nat \<times> nat option) option" where
  "update clock i timers =
     do { (left, sent, i) \<leftarrow> update_loop clock (clock i) (i + 1) timers;
          Some (left, sent, i, case left of [] \<Rightarrow> None | t # _ \<Rightarrow> Some (deadline t)) }"

definition unschedule :: "timer_id \<Rightarrow> 'e timer list \<Rightarrow> 'e timer option \<times> 'e timer list" where
  "unschedule i timers =
     (case position (\<lambda>t. id_of t = i) timers of
        None \<Rightarrow> (None, timers)
      | Some n \<Rightarrow> (Some (timers ! n), take n timers @ drop (Suc n) timers))"

definition scheduled :: "timer_id \<Rightarrow> 'e timer list \<Rightarrow> bool" where
  "scheduled i timers \<longleftrightarrow> list_ex (\<lambda>t. id_of t = i) timers"

definition unschedule_window :: "nat \<Rightarrow> 'e timer list \<Rightarrow> 'e timer list" where
  "unschedule_window w timers = filter (\<lambda>t. window_id (id_of t) \<noteq> w) timers"

section \<open>The queue stays sorted\<close>

definition by_deadline :: "'e timer list \<Rightarrow> bool" where
  "by_deadline timers \<longleftrightarrow> sorted (map deadline timers)"

lemma position_split:
  "position P xs = Some n \<Longrightarrow> n < length xs \<and> P (xs ! n) \<and> (\<forall>x \<in> set (take n xs). \<not> P x)"
proof -
  assume *: "position P xs = Some n"
  then have n: "n = length (takeWhile (\<lambda>x. \<not> P x) xs)" "n < length xs"
    by (auto simp: position_def Let_def split: if_splits)
  have "take n xs = takeWhile (\<lambda>x. \<not> P x) xs" unfolding n(1) by (rule takeWhile_eq_take [symmetric])
  moreover have "P (xs ! n)" using nth_length_takeWhile [of "\<lambda>x. \<not> P x" xs] n by simp
  ultimately show ?thesis using n(2) by (auto dest: set_takeWhileD)
qed

lemma position_None: "position P xs = None \<longleftrightarrow> (\<forall>x \<in> set xs. \<not> P x)"
proof -
  have "length (takeWhile (\<lambda>x. \<not> P x) xs) < length xs \<longleftrightarrow> takeWhile (\<lambda>x. \<not> P x) xs \<noteq> xs"
    by (metis length_takeWhile_le nat_less_le takeWhile_eq_take take_all_iff)
  then show ?thesis by (auto simp: position_def Let_def takeWhile_eq_all_conv)
qed

lemma schedule_sorted: "by_deadline ts \<Longrightarrow> by_deadline (schedule now e d rep i ts)"
proof -
  assume ts: "by_deadline ts"
  define n where "n = (case position (\<lambda>t. now + d < deadline t) ts of Some n \<Rightarrow> n | None \<Rightarrow> length ts)"
  have le: "\<forall>t \<in> set (take n ts). deadline t \<le> now + d"
    using position_split [of "\<lambda>t. now + d < deadline t" ts]
    by (auto simp: n_def position_None not_less split: option.splits)
  have parts: "sorted (map deadline (take n ts))" "sorted (map deadline (drop n ts))"
    "\<forall>s \<in> set (take n ts). \<forall>t \<in> set (drop n ts). deadline s \<le> deadline t"
  proof -
    have "sorted (map deadline (take n ts) @ map deadline (drop n ts))"
      using ts by (simp add: by_deadline_def flip: map_append)
    then show "sorted (map deadline (take n ts))" "sorted (map deadline (drop n ts))"
      "\<forall>s \<in> set (take n ts). \<forall>t \<in> set (drop n ts). deadline s \<le> deadline t"
      by (auto simp: sorted_append)
  qed
  have ge: "now + d \<le> deadline t" if "t \<in> set (drop n ts)" for t
  proof (cases "position (\<lambda>t. now + d < deadline t) ts")
    case None
    then show ?thesis using that by (simp add: n_def)
  next
    case (Some k)
    then have k: "n = k" "k < length ts" "now + d < deadline (ts ! k)"
      using position_split [OF Some] by (auto simp: n_def)
    then have "drop n ts = ts ! k # drop (Suc k) ts" by (simp add: Cons_nth_drop_Suc)
    then have "deadline (ts ! k) \<le> deadline t" using parts(2) that by auto
    then show ?thesis using k(3) by simp
  qed
  show ?thesis
    using le parts ge by (auto simp: by_deadline_def schedule_def Let_def sorted_append simp flip: n_def)
qed

lemma mset_schedule:
  "mset (schedule now e d rep i ts) =
     add_mset \<lparr>deadline = now + d, event = e, id_of = i, interval = (if rep then Some d else None)\<rparr> (mset ts)"
proof -
  have "mset (take n ts @ t # drop n ts) = add_mset t (mset ts)" for n t
    by (metis append_take_drop_id mset.simps(2) mset_append union_mset_add_mset_right)
  then show ?thesis by (simp add: schedule_def Let_def)
qed

lemma filter_schedule:
  assumes "now < clk + d"
  shows "filter (\<lambda>t. deadline t \<le> now) (schedule clk e d rep i ts) = filter (\<lambda>t. deadline t \<le> now) ts"
proof -
  have part: "filter P (take n ts) @ filter P (drop n ts) = filter P ts" for P n
    by (metis append_take_drop_id filter_append)
  then show ?thesis using assms by (simp add: schedule_def Let_def part)
qed

section \<open>What an update does\<close>

definition rearmed :: "(nat \<Rightarrow> nat) \<Rightarrow> nat \<Rightarrow> nat \<Rightarrow> 'e timer \<Rightarrow> 'e timer \<Rightarrow> bool" where
  "rearmed clock i j t t' \<longleftrightarrow> (\<exists>k d. i \<le> k \<and> k < j \<and> interval t = Some d \<and> t' = t\<lparr>deadline := clock k + d\<rparr>)"

lemma rearmed_mono: "rearmed clock i j t t' \<Longrightarrow> i0 \<le> i \<Longrightarrow> j \<le> j0 \<Longrightarrow> rearmed clock i0 j0 t t'"
  unfolding rearmed_def by (metis order.strict_trans2 order_trans)

lemma update_loop_spec:
  assumes "by_deadline ts" "\<forall>t \<in> set ts. interval t \<noteq> Some 0" "\<forall>k \<ge> i. now \<le> clock k"
  shows "\<exists>left j again. update_loop clock now i ts = Some (left, map event (filter (\<lambda>t. deadline t \<le> now) ts), j) \<and>
    i \<le> j \<and> by_deadline left \<and> (\<forall>t \<in> set left. now < deadline t \<and> interval t \<noteq> Some 0) \<and>
    list_all2 (rearmed clock i j) (filter (\<lambda>t. deadline t \<le> now \<and> interval t \<noteq> None) ts) again \<and>
    mset left = mset (filter (\<lambda>t. now < deadline t) ts) + mset again"
  using assms
proof (induction "length (filter (\<lambda>t. deadline t \<le> now) ts)" arbitrary: ts i rule: less_induct)
  case less
  show ?case
  proof (cases ts)
    case Nil
    then show ?thesis by (simp add: update_loop.simps by_deadline_def)
  next
    case (Cons t rest)
    have sorted: "by_deadline rest" and least: "\<forall>s \<in> set rest. deadline t \<le> deadline s"
      using less.prems Cons by (auto simp: by_deadline_def)
    show ?thesis
    proof (cases "deadline t \<le> now")
      case False
      then have "\<forall>s \<in> set ts. now < deadline s" using least Cons by auto
      then have "filter (\<lambda>s. deadline s \<le> now) ts = []" "filter (\<lambda>s. now < deadline s) ts = ts"
        "filter (\<lambda>s. deadline s \<le> now \<and> interval s \<noteq> None) ts = []"
        by (auto simp: filter_empty_conv filter_id_conv)
      moreover have "update_loop clock now i ts = Some (ts, [], i)"
        using False Cons by (simp add: update_loop.simps)
      ultimately show ?thesis
        using less.prems \<open>\<forall>s \<in> set ts. now < deadline s\<close>
        by (intro exI [of _ ts] exI [of _ i] exI [of _ "[]"]) simp
    next
      case due: True
      show ?thesis
      proof (cases "interval t")
        case None
        obtain left j again where IH: "update_loop clock now i rest =
              Some (left, map event (filter (\<lambda>t. deadline t \<le> now) rest), j)" "i \<le> j" "by_deadline left"
            "\<forall>t \<in> set left. now < deadline t \<and> interval t \<noteq> Some 0"
            "list_all2 (rearmed clock i j) (filter (\<lambda>t. deadline t \<le> now \<and> interval t \<noteq> None) rest) again"
            "mset left = mset (filter (\<lambda>t. now < deadline t) rest) + mset again"
          using less.hyps [of rest i] less.prems sorted Cons due by auto
        then show ?thesis
          using Cons due None by (subst update_loop.simps) (auto intro!: exI [of _ again])
      next
        case (Some d)
        define next_due where "next_due = t\<lparr>deadline := clock i + d\<rparr>"
        define queue where "queue = schedule (clock i) (event t) d True (id_of t) rest"
        have d: "0 < d" using less.prems Cons Some by auto
        have "now \<le> clock i" using less.prems(3) by simp
        with d have later: "now < clock i + d" by linarith
        have due_queue: "filter (\<lambda>t. deadline t \<le> now) queue = filter (\<lambda>t. deadline t \<le> now) rest"
          unfolding queue_def by (rule filter_schedule [OF later])
        have again_queue: "filter (\<lambda>t. deadline t \<le> now \<and> interval t \<noteq> None) queue =
            filter (\<lambda>t. deadline t \<le> now \<and> interval t \<noteq> None) rest"
          using arg_cong [OF due_queue, of "filter (\<lambda>t. interval t \<noteq> None)"] by (simp add: conj_commute)
        have mset_queue: "mset queue = add_mset next_due (mset rest)"
          using Some by (simp add: queue_def mset_schedule next_due_def)
        have wf: "\<forall>t \<in> set queue. interval t \<noteq> Some 0"
        proof -
          have "set queue = insert next_due (set rest)"
            using arg_cong [OF mset_queue, of set_mset] by simp
          then show ?thesis using less.prems Cons Some d by (auto simp: next_due_def)
        qed
        obtain left j again where IH: "update_loop clock now (i + 1) queue =
              Some (left, map event (filter (\<lambda>t. deadline t \<le> now) rest), j)" "i + 1 \<le> j" "by_deadline left"
            "\<forall>t \<in> set left. now < deadline t \<and> interval t \<noteq> Some 0"
            "list_all2 (rearmed clock (i + 1) j) (filter (\<lambda>t. deadline t \<le> now \<and> interval t \<noteq> None) rest) again"
            "mset left = mset (filter (\<lambda>t. now < deadline t) queue) + mset again"
        proof -
          have "length (filter (\<lambda>t. deadline t \<le> now) queue) < length (filter (\<lambda>t. deadline t \<le> now) ts)"
            using Cons due by (simp add: due_queue)
          moreover have "by_deadline queue" unfolding queue_def by (rule schedule_sorted [OF sorted])
          moreover have "\<forall>k \<ge> i + 1. now \<le> clock k" using less.prems(3) by simp
          ultimately show ?thesis
            using less.hyps [of queue "i + 1"] wf that unfolding due_queue again_queue by blast
        qed
        have "mset (filter (\<lambda>t. now < deadline t) queue) =
            add_mset next_due (mset (filter (\<lambda>t. now < deadline t) rest))"
          using mset_queue later by (simp add: next_due_def)
        moreover have "update_loop clock now i ts = Some (left, event t # map event (filter (\<lambda>t. deadline t \<le> now) rest), j)"
          using IH(1) Cons due Some by (subst update_loop.simps) (simp add: queue_def)
        moreover have "list_all2 (rearmed clock i j) (filter (\<lambda>t. deadline t \<le> now \<and> interval t \<noteq> None) ts)
            (next_due # again)"
          using IH(2,5) Cons due Some by (auto simp: next_due_def rearmed_def [of _ _ _ t] elim!: list_all2_mono
              intro: rearmed_mono)
        ultimately show ?thesis
          using IH(2-4,6) Cons due
          by (intro exI [of _ left] exI [of _ j] exI [of _ "next_due # again"]) simp
      qed
    qed
  qed
qed

text \<open>
  C37. Processing the timers terminates when no timer repeats without delay: every timer that
  is due fires once, in order of deadlines, repeating ones are armed again after now, the
  others are kept, and the answer is the earliest deadline left.
\<close>

theorem update_correct:
  assumes "by_deadline ts" "\<And>k. i \<le> k \<Longrightarrow> clock i \<le> clock k" "\<forall>t \<in> set ts. interval t \<noteq> Some 0"
  shows "\<exists>left j again. update clock i ts =
      Some (left, map event (filter (\<lambda>t. deadline t \<le> clock i) ts), j,
            if left = [] then None else Some (Min (deadline ` set left))) \<and>
    by_deadline left \<and> (\<forall>t \<in> set left. clock i < deadline t) \<and>
    list_all2 (rearmed clock i j) (filter (\<lambda>t. deadline t \<le> clock i \<and> interval t \<noteq> None) ts) again \<and>
    mset left = mset (filter (\<lambda>t. clock i < deadline t) ts) + mset again"
proof -
  obtain left j again where loop:
      "update_loop clock (clock i) (i + 1) ts = Some (left, map event (filter (\<lambda>t. deadline t \<le> clock i) ts), j)"
    and left: "by_deadline left" "\<forall>t \<in> set left. clock i < deadline t \<and> interval t \<noteq> Some 0"
    and again: "list_all2 (rearmed clock (i + 1) j)
      (filter (\<lambda>t. deadline t \<le> clock i \<and> interval t \<noteq> None) ts) again"
      "mset left = mset (filter (\<lambda>t. clock i < deadline t) ts) + mset again"
    using update_loop_spec [OF assms(1,3), of "i + 1" "clock i" clock] assms(2) by auto
  have "(case left of [] \<Rightarrow> None | t # _ \<Rightarrow> Some (deadline t)) =
      (if left = [] then None else Some (Min (deadline ` set left)))"
  proof (cases left)
    case (Cons t rest)
    then have "\<forall>s \<in> set rest. deadline t \<le> deadline s" using left(1) by (auto simp: by_deadline_def)
    then have "Min (deadline ` set left) = deadline t" using Cons by (intro Min_eqI) auto
    then show ?thesis using Cons by simp
  qed simp
  moreover have "list_all2 (rearmed clock i j) (filter (\<lambda>t. deadline t \<le> clock i \<and> interval t \<noteq> None) ts) again"
    by (rule list_all2_mono [OF again(1)]) (rule rearmed_mono, auto)
  ultimately show ?thesis
    using loop left again(2) by (intro exI [of _ left] exI [of _ j] exI [of _ again]) (simp add: update_def)
qed

theorem update_correct_witness:
  "\<exists>left j. update id 100 [\<lparr>deadline = 60, event = ''blink'', id_of = \<lparr>topic = BlinkCursor, window_id = 1\<rparr>,
       interval = Some 50\<rparr>] = Some (left, [''blink''], j, if left = [] then None else Some (Min (deadline ` set left))) \<and>
    length left = 1"
proof -
  let ?ts = "[\<lparr>deadline = 60, event = ''blink'', id_of = \<lparr>topic = BlinkCursor, window_id = 1\<rparr>, interval = Some 50\<rparr>]"
  obtain left j again where "update id 100 ?ts = Some (left, [''blink''], j, if left = [] then None else Some (Min (deadline ` set left)))"
    and a: "list_all2 (rearmed id 100 j) ?ts again" "mset left = mset again"
    using update_correct [of ?ts 100 id] by (auto simp: by_deadline_def)
  moreover have "length left = 1" using list_all2_lengthD [OF a(1)] arg_cong [OF a(2), of size] by simp
  ultimately show ?thesis by blast
qed

text \<open>
  Scheduling keeps the order and every other timer; cancelling a window leaves no timer of it and
  every other one.
\<close>

theorem schedule_correct:
  assumes "by_deadline ts"
  shows "by_deadline (schedule now e d rep i ts) \<and> scheduled i (schedule now e d rep i ts) \<and>
    mset (schedule now e d rep i ts) =
      add_mset \<lparr>deadline = now + d, event = e, id_of = i, interval = (if rep then Some d else None)\<rparr> (mset ts) \<and>
    by_deadline (unschedule_window w ts) \<and> (\<forall>t \<in> set (unschedule_window w ts). window_id (id_of t) \<noteq> w) \<and>
    (window_id i \<noteq> w \<longrightarrow> (scheduled i (unschedule_window w ts) \<longleftrightarrow> scheduled i ts))"
proof -
  have "\<lparr>deadline = now + d, event = e, id_of = i, interval = (if rep then Some d else None)\<rparr>
      \<in> set (schedule now e d rep i ts)"
    using mset_schedule [of now e d rep i ts] by (metis set_mset_mset union_single_eq_member)
  then have "scheduled i (schedule now e d rep i ts)"
    by (force simp: scheduled_def list_ex_iff)
  moreover have "by_deadline (unschedule_window w ts)"
    using assms by (simp add: by_deadline_def unschedule_window_def sorted_map sorted_wrt_filter)
  ultimately show ?thesis
    using schedule_sorted [OF assms] mset_schedule [of now e d rep i ts]
    by (auto simp: unschedule_window_def scheduled_def list_ex_iff)
qed

theorem schedule_correct_witness:
  "by_deadline (schedule 5 ''frame'' 7 False \<lparr>topic = Frame, window_id = 2\<rparr> [])"
  using schedule_correct [of "[] :: string timer list"] by (simp add: by_deadline_def)

end
