(* ===== verification/Damage.thy ===== *)
theory Damage
  imports Index
begin

text \<open>
  Damage of the screen and points relative to the viewport, \<open>src/terminal/term/mod.rs\<close>:
  for each line the inclusive range of columns that changed since the last frame, read by the
  renderer through an iterator that skips undamaged lines and lines scrolled out of view.
\<close>

section \<open>Points relative to the viewport\<close>

text \<open>A point of the viewport, \<open>Point<usize>\<close>, is a line and a column.\<close>

definition point_to_viewport :: "nat \<Rightarrow> point \<Rightarrow> (nat \<times> nat) option" where
  "point_to_viewport offset p =
     (let l = line p + int offset in if 0 \<le> l then Some (nat l, column p) else None)"

definition viewport_to_point :: "nat \<Rightarrow> nat \<times> nat \<Rightarrow> point" where
  "viewport_to_point offset p = Point (int (fst p) - int offset) (snd p)"

lemma viewport_of_point [simp]: "point_to_viewport offset (viewport_to_point offset p) = Some p"
  by (cases p) (simp add: point_to_viewport_def viewport_to_point_def)

lemma point_of_viewport: "point_to_viewport offset p = Some q \<longleftrightarrow> viewport_to_point offset q = p"
  by (cases p; cases q) (auto simp: point_to_viewport_def viewport_to_point_def Let_def)

section \<open>Damage of lines\<close>

record line_damage =
  dmg_line :: nat
  dmg_left :: nat
  dmg_right :: nat

definition undamaged :: "nat \<Rightarrow> nat \<Rightarrow> line_damage" where
  "undamaged l cols = \<lparr>dmg_line = l, dmg_left = cols, dmg_right = 0\<rparr>"

definition damage_reset_line :: "nat \<Rightarrow> line_damage \<Rightarrow> line_damage" where
  "damage_reset_line cols d = undamaged (dmg_line d) cols"

definition damage_expand :: "nat \<Rightarrow> nat \<Rightarrow> line_damage \<Rightarrow> line_damage" where
  "damage_expand l r d = d\<lparr>dmg_left := min (dmg_left d) l, dmg_right := max (dmg_right d) r\<rparr>"

definition is_damaged :: "line_damage \<Rightarrow> bool" where
  "is_damaged d \<longleftrightarrow> dmg_left d \<le> dmg_right d"

text \<open>The iterator over the damaged lines of the viewport: \<open>new\<close> and repeated \<open>next\<close>.\<close>

definition damage_visible :: "line_damage list \<Rightarrow> nat \<Rightarrow> line_damage list" where
  "damage_visible lines offset = take (length lines - offset) lines"

fun damage_next :: "nat \<Rightarrow> line_damage list \<Rightarrow> line_damage option \<times> line_damage list" where
  "damage_next offset [] = (None, [])"
| "damage_next offset (d # ds) =
     (if is_damaged d
      then (Some \<lparr>dmg_line = dmg_line d + offset, dmg_left = dmg_left d, dmg_right = dmg_right d\<rparr>, ds)
      else damage_next offset ds)"

lemma damage_next_shorter: "damage_next offset ds = (Some d, ds') \<Longrightarrow> length ds' < length ds"
  by (induction offset ds rule: damage_next.induct) (auto split: if_splits)

function damage_collect :: "nat \<Rightarrow> line_damage list \<Rightarrow> line_damage list" where
  "damage_collect offset ds =
     (case damage_next offset ds of (None, _) \<Rightarrow> [] | (Some d, ds') \<Rightarrow> d # damage_collect offset ds')"
  by auto
termination
  by (relation "measure (length \<circ> snd)") (auto dest: damage_next_shorter [OF sym])

declare damage_collect.simps [simp del]

record damage_state =
  dmg_full :: bool
  dmg_lines :: "line_damage list"
  last_cursor :: point

definition damage_new :: "nat \<Rightarrow> nat \<Rightarrow> damage_state" where
  "damage_new cols lines =
     \<lparr>dmg_full = True, dmg_lines = map (\<lambda>l. undamaged l cols) [0..<lines], last_cursor = Point 0 0\<rparr>"

definition damage_resize :: "nat \<Rightarrow> nat \<Rightarrow> damage_state \<Rightarrow> damage_state" where
  "damage_resize cols lines s =
     s\<lparr>last_cursor := Point 0 0, dmg_full := True, dmg_lines := map (\<lambda>l. undamaged l cols) [0..<lines]\<rparr>"

definition damage_line :: "nat \<Rightarrow> nat \<Rightarrow> nat \<Rightarrow> damage_state \<Rightarrow> damage_state option" where
  "damage_line l left right s =
     do { d \<leftarrow> idx (dmg_lines s) l;
          Some (s\<lparr>dmg_lines := (dmg_lines s)[l := damage_expand left right d]\<rparr>) }"

definition damage_point :: "nat \<times> nat \<Rightarrow> damage_state \<Rightarrow> damage_state option" where
  "damage_point p s = damage_line (fst p) (snd p) (snd p) s"

definition damage_reset :: "nat \<Rightarrow> damage_state \<Rightarrow> damage_state" where
  "damage_reset cols s = s\<lparr>dmg_full := False, dmg_lines := map (damage_reset_line cols) (dmg_lines s)\<rparr>"

text \<open>Every line has its own entry, whose number is its position.\<close>

definition damage_ok :: "nat \<Rightarrow> nat \<Rightarrow> damage_state \<Rightarrow> bool" where
  "damage_ok cols lines s \<longleftrightarrow> map dmg_line (dmg_lines s) = [0..<lines]"

lemma damage_ok_length: "damage_ok cols lines s \<Longrightarrow> length (dmg_lines s) = lines"
  by (metis damage_ok_def length_map length_upt diff_zero)

lemma damage_ok_nth: "damage_ok cols lines s \<Longrightarrow> l < lines \<Longrightarrow> dmg_line (dmg_lines s ! l) = l"
  by (metis damage_ok_def damage_ok_length nth_map nth_upt plus_nat.add_0)

lemma damage_ok_new [simp]: "damage_ok cols lines (damage_new cols lines)"
  by (simp add: damage_ok_def damage_new_def undamaged_def comp_def)

lemma damage_ok_resize [simp]: "damage_ok cols lines (damage_resize cols lines s)"
  by (simp add: damage_ok_def damage_resize_def undamaged_def comp_def)

lemma damage_ok_reset: "damage_ok cols lines s \<Longrightarrow> damage_ok cols lines (damage_reset cols s)"
  by (simp add: damage_ok_def damage_reset_def damage_reset_line_def undamaged_def comp_def)

lemma damage_line_spec:
  assumes "damage_ok cols lines s" "l < lines"
  shows "returns (damage_line l left right s) (\<lambda>s'. damage_ok cols lines s' \<and>
    s' = s\<lparr>dmg_lines := (dmg_lines s)[l := damage_expand left right (dmg_lines s ! l)]\<rparr>)"
proof -
  have len: "length (dmg_lines s) = lines" using damage_ok_length [OF assms(1)] .
  have "map dmg_line ((dmg_lines s)[l := damage_expand left right (dmg_lines s ! l)]) = [0..<lines]"
    using assms len by (intro nth_equalityI) (auto simp: nth_list_update damage_expand_def damage_ok_nth)
  then show ?thesis using assms len by (simp add: damage_line_def damage_ok_def)
qed

section \<open>What the renderer sees\<close>

definition shown :: "nat \<Rightarrow> line_damage \<Rightarrow> line_damage" where
  "shown offset d = d\<lparr>dmg_line := dmg_line d + offset\<rparr>"

lemma damage_next_shown:
  "damage_next offset (d # ds) = (if is_damaged d then (Some (shown offset d), ds) else damage_next offset ds)"
  by (cases d) (simp add: shown_def)

lemma damage_collect_filter: "damage_collect offset ds = map (shown offset) (filter is_damaged ds)"
proof (induction ds)
  case Nil
  then show ?case by (subst damage_collect.simps) simp
next
  case (Cons d ds)
  show ?case
  proof (cases "is_damaged d")
    case True
    then show ?thesis using Cons.IH by (subst damage_collect.simps) (simp add: damage_next_shown del: damage_next.simps)
  next
    case False
    have "damage_collect offset (d # ds) = damage_collect offset ds"
      using False by (subst damage_collect.simps) (subst damage_collect.simps [of offset ds], simp)
    then show ?thesis using Cons.IH False by simp
  qed
qed

text \<open>
  A change of the columns \<open>a..b\<close> of a line in view is reported for the row it is shown at, in a
  range that covers it, and a reported range only grows until the damage is reset.
\<close>

text \<open>
  C38. A damaged span of a visible line is reported by the iterator over the damage, at the
  line where it is displayed, and no damage reported before is lost.
\<close>

theorem damage_reported:
  assumes "damage_ok cols lines s" "l + offset < lines" "a \<le> b"
  shows "returns (damage_line l a b s) (\<lambda>s'. damage_ok cols lines s' \<and>
    (\<exists>d \<in> set (damage_collect offset (damage_visible (dmg_lines s') offset)).
       dmg_line d = l + offset \<and> dmg_left d \<le> a \<and> b \<le> dmg_right d) \<and>
    (\<forall>d \<in> set (damage_collect offset (damage_visible (dmg_lines s) offset)).
       \<exists>d' \<in> set (damage_collect offset (damage_visible (dmg_lines s') offset)).
         dmg_line d' = dmg_line d \<and> dmg_left d' \<le> dmg_left d \<and> dmg_right d \<le> dmg_right d'))"
proof -
  have len: "length (dmg_lines s) = lines" using damage_ok_length [OF assms(1)] .
  let ?e = "damage_expand a b (dmg_lines s ! l)"
  let ?v = "take (lines - offset) (dmg_lines s)"
  have at: "dmg_line (dmg_lines s ! l) = l" using assms damage_ok_nth by simp
  have e: "is_damaged ?e" "dmg_left ?e \<le> a" "b \<le> dmg_right ?e" "dmg_line ?e = l"
    using assms(3) at by (auto simp: damage_expand_def is_damaged_def)
  have in_new: "shown offset ?e \<in> set (damage_collect offset (?v[l := ?e]))"
    unfolding damage_collect_filter using assms(2) len e(1) by (auto intro!: imageI set_update_memI)
  have covers: "dmg_line (shown offset ?e) = l + offset" "dmg_left (shown offset ?e) \<le> a" "b \<le> dmg_right (shown offset ?e)"
    using e by (simp_all add: shown_def)
  have grows: "\<exists>d' \<in> set (damage_collect offset (?v[l := ?e])).
      dmg_line d' = dmg_line d \<and> dmg_left d' \<le> dmg_left d \<and> dmg_right d \<le> dmg_right d'"
    if d: "d \<in> set (damage_collect offset ?v)" for d
  proof -
    obtain i where i: "i < length ?v" "is_damaged (?v ! i)" "d = shown offset (?v ! i)"
      using d unfolding damage_collect_filter by (auto simp: in_set_conv_nth)
    show ?thesis
    proof (cases "i = l")
      case True
      then show ?thesis using i at covers(1)
        by (intro bexI [OF _ in_new]) (auto simp: shown_def damage_expand_def)
    next
      case False
      then have "?v[l := ?e] ! i = ?v ! i" "i < length (?v[l := ?e])" using i(1) by simp_all
      then have "?v ! i \<in> set (?v[l := ?e])" by (metis nth_mem)
      then show ?thesis
        using i unfolding damage_collect_filter by (intro bexI [of _ d]) auto
    qed
  qed
  show ?thesis
  proof (rule returns_mono [OF damage_line_spec [OF assms(1), of l a b]])
    show "l < lines" using assms(2) by simp
    fix s' assume s': "damage_ok cols lines s' \<and> s' = s\<lparr>dmg_lines := (dmg_lines s)[l := ?e]\<rparr>"
    then have v': "damage_visible (dmg_lines s') offset = ?v[l := ?e]"
      by (simp add: damage_visible_def len take_update_swap)
    have v: "damage_visible (dmg_lines s) offset = ?v" by (simp add: damage_visible_def len)
    show "damage_ok cols lines s' \<and>
      (\<exists>d \<in> set (damage_collect offset (damage_visible (dmg_lines s') offset)).
         dmg_line d = l + offset \<and> dmg_left d \<le> a \<and> b \<le> dmg_right d) \<and>
      (\<forall>d \<in> set (damage_collect offset (damage_visible (dmg_lines s) offset)).
         \<exists>d' \<in> set (damage_collect offset (damage_visible (dmg_lines s') offset)).
           dmg_line d' = dmg_line d \<and> dmg_left d' \<le> dmg_left d \<and> dmg_right d \<le> dmg_right d')"
      unfolding v v' using s' in_new covers grows by blast
  qed
qed

theorem damage_reported_witness:
  "returns (damage_line 1 2 3 (damage_new 5 4)) (\<lambda>s'.
    \<exists>d \<in> set (damage_collect 2 (damage_visible (dmg_lines s') 2)).
       dmg_line d = 3 \<and> dmg_left d \<le> 2 \<and> 3 \<le> dmg_right d)"
  by (rule returns_mono [OF damage_reported [of 5 4 "damage_new 5 4" 1 2 2 3]])
    (simp_all add: eval_nat_numeral)

end
