(* ===== verification/Command.thy ===== *)
theory Command
  imports Text
begin

text \<open>
  The control data of a Kitty graphics command, \<open>src/terminal/graphics/command.rs\<close>: a list of
  \<open>key=value\<close> pairs. A \<open>u32\<close> is a natural number and an \<open>i32\<close> an integer; the parser checks
  the ranges.
\<close>

definition MAX_CONTROL_BYTES :: nat where "MAX_CONTROL_BYTES = 512"

record command =
  action :: byte
  delete_sel :: byte
  medium :: byte
  compression :: byte
  format :: nat
  cmd_more :: nat
  cmd_id :: nat
  number :: nat
  placement :: nat
  quiet :: nat
  width :: nat
  height :: nat
  cmd_x :: nat
  cmd_y :: nat
  data_width :: nat
  data_height :: nat
  data_size :: nat
  data_offset :: nat
  cmd_columns :: nat
  cmd_rows :: nat
  cell_x :: nat
  cell_y :: nat
  cmd_z :: int
  cmd_cursor :: nat
  unicode :: nat
  parent :: nat
  parent_placement :: nat
  parent_x :: int
  parent_y :: int
  hints :: nat

definition default_command :: command where
  "default_command = \<lparr>action = 0, delete_sel = 0, medium = 0, compression = 0, format = 0, cmd_more = 0,
     cmd_id = 0, number = 0, placement = 0, quiet = 0, width = 0, height = 0, cmd_x = 0, cmd_y = 0,
     data_width = 0, data_height = 0, data_size = 0, data_offset = 0, cmd_columns = 0, cmd_rows = 0,
     cell_x = 0, cell_y = 0, cmd_z = 0, cmd_cursor = 0, unicode = 0, parent = 0, parent_placement = 0,
     parent_x = 0, parent_y = 0, hints = 0\<rparr>"

section \<open>Values\<close>

definition flag :: "byte list \<Rightarrow> string \<Rightarrow> byte option" where
  "flag value allowed =
     (case value of [f] \<Rightarrow> if f \<in> set (ascii allowed) then Some f else None | _ \<Rightarrow> None)"

text \<open>Checked multiplication and addition of \<open>u32\<close>, digit by digit.\<close>

definition checked_u32 :: "nat \<Rightarrow> nat option" where
  "checked_u32 n = (if n < 2 ^ 32 then Some n else None)"

fun u32_loop :: "nat \<Rightarrow> byte list \<Rightarrow> nat option" where
  "u32_loop acc [] = Some acc"
| "u32_loop acc (b # bs) =
     (if is_digit b
      then do { tens \<leftarrow> checked_u32 (acc * 10);
                acc \<leftarrow> checked_u32 (tens + (unat b - 48));
                u32_loop acc bs }
      else None)"

definition parse_u32 :: "byte list \<Rightarrow> nat option" where
  "parse_u32 value = (if value = [] then None else u32_loop 0 value)"

definition checked_i32 :: "int \<Rightarrow> int option" where
  "checked_i32 n = (if - (2 ^ 31) \<le> n \<and> n < 2 ^ 31 then Some n else None)"

definition parse_i32 :: "byte list \<Rightarrow> int option" where
  "parse_i32 value =
     (case value of
        b # rest \<Rightarrow>
          if b = 0x2D then do { n \<leftarrow> parse_u32 rest; checked_i32 (- int n) }
          else do { n \<leftarrow> parse_u32 value; checked_i32 (int n) }
      | [] \<Rightarrow> do { n \<leftarrow> parse_u32 value; checked_i32 (int n) })"

section \<open>Commands\<close>

definition ch :: "char \<Rightarrow> byte" where
  "ch c = of_char c"

definition set_field :: "byte \<Rightarrow> byte list \<Rightarrow> command \<Rightarrow> command option" where
  "set_field k value c =
     (let flagged = (\<lambda>allowed f. map_option f (flag value allowed));
          nat_value = (\<lambda>f. map_option f (parse_u32 value));
          int_value = (\<lambda>f. map_option f (parse_i32 value))
      in if k = ch CHR ''a'' then flagged ''Tacdfpqt'' (\<lambda>v. c\<lparr>action := v\<rparr>)
         else if k = ch CHR ''d'' then flagged ''AaCcFfIiNnPpQqRrXxYyZz'' (\<lambda>v. c\<lparr>delete_sel := v\<rparr>)
         else if k = ch CHR ''t'' then flagged ''dfst'' (\<lambda>v. c\<lparr>medium := v\<rparr>)
         else if k = ch CHR ''o'' then flagged ''z'' (\<lambda>v. c\<lparr>compression := v\<rparr>)
         else if k = ch CHR ''f'' then nat_value (\<lambda>v. c\<lparr>format := v\<rparr>)
         else if k = ch CHR ''m'' then nat_value (\<lambda>v. c\<lparr>cmd_more := v\<rparr>)
         else if k = ch CHR ''i'' then nat_value (\<lambda>v. c\<lparr>cmd_id := v\<rparr>)
         else if k = ch CHR ''I'' then nat_value (\<lambda>v. c\<lparr>number := v\<rparr>)
         else if k = ch CHR ''p'' then nat_value (\<lambda>v. c\<lparr>placement := v\<rparr>)
         else if k = ch CHR ''q'' then nat_value (\<lambda>v. c\<lparr>quiet := v\<rparr>)
         else if k = ch CHR ''w'' then nat_value (\<lambda>v. c\<lparr>width := v\<rparr>)
         else if k = ch CHR ''h'' then nat_value (\<lambda>v. c\<lparr>height := v\<rparr>)
         else if k = ch CHR ''x'' then nat_value (\<lambda>v. c\<lparr>cmd_x := v\<rparr>)
         else if k = ch CHR ''y'' then nat_value (\<lambda>v. c\<lparr>cmd_y := v\<rparr>)
         else if k = ch CHR ''s'' then nat_value (\<lambda>v. c\<lparr>data_width := v\<rparr>)
         else if k = ch CHR ''v'' then nat_value (\<lambda>v. c\<lparr>data_height := v\<rparr>)
         else if k = ch CHR ''S'' then nat_value (\<lambda>v. c\<lparr>data_size := v\<rparr>)
         else if k = ch CHR ''O'' then nat_value (\<lambda>v. c\<lparr>data_offset := v\<rparr>)
         else if k = ch CHR ''c'' then nat_value (\<lambda>v. c\<lparr>cmd_columns := v\<rparr>)
         else if k = ch CHR ''r'' then nat_value (\<lambda>v. c\<lparr>cmd_rows := v\<rparr>)
         else if k = ch CHR ''X'' then nat_value (\<lambda>v. c\<lparr>cell_x := v\<rparr>)
         else if k = ch CHR ''Y'' then nat_value (\<lambda>v. c\<lparr>cell_y := v\<rparr>)
         else if k = ch CHR ''z'' then int_value (\<lambda>v. c\<lparr>cmd_z := v\<rparr>)
         else if k = ch CHR ''C'' then nat_value (\<lambda>v. c\<lparr>cmd_cursor := v\<rparr>)
         else if k = ch CHR ''U'' then nat_value (\<lambda>v. c\<lparr>unicode := v\<rparr>)
         else if k = ch CHR ''P'' then nat_value (\<lambda>v. c\<lparr>parent := v\<rparr>)
         else if k = ch CHR ''Q'' then nat_value (\<lambda>v. c\<lparr>parent_placement := v\<rparr>)
         else if k = ch CHR ''H'' then int_value (\<lambda>v. c\<lparr>parent_x := v\<rparr>)
         else if k = ch CHR ''V'' then int_value (\<lambda>v. c\<lparr>parent_y := v\<rparr>)
         else if k = ch CHR ''N'' then nat_value (\<lambda>v. c\<lparr>hints := v\<rparr>)
         else None)"

definition parse_pair :: "byte list \<Rightarrow> command \<Rightarrow> command option" where
  "parse_pair pair c =
     (case pair of
        k # e # value \<Rightarrow> if e = ch CHR ''='' then set_field k value c else None
      | _ \<Rightarrow> None)"

definition parse_command :: "byte list \<Rightarrow> command option" where
  "parse_command control =
     (if control = [] then Some default_command
      else for_each parse_pair (split_on (ch CHR '','') control) default_command)"

section \<open>Numbers are read exactly\<close>

lemma u32_loop_digits:
  assumes "acc < 2 ^ 32"
  shows "u32_loop acc bs = do { n \<leftarrow> digits acc bs; checked_u32 n }"
  using assms
proof (induction bs arbitrary: acc)
  case Nil
  then show ?case by (simp add: checked_u32_def)
next
  case (Cons b bs)
  let ?t = "acc * 10 + (unat b - 48)"
  show ?case
  proof (cases "is_digit b \<and> ?t < 2 ^ 32")
    case True
    then have "10 * acc + (unat b - 48) = ?t" "acc * 10 < 2 ^ 32" by simp_all
    then show ?thesis using Cons.IH [of ?t] True 
      by (simp add: checked_u32_def is_digit_def mult.commute [of 10] del: diff_add_assoc2 add_diff_assoc)
  next
    case False
    show ?thesis
    proof (cases "is_digit b")
      case d: True
      then have big: "2 ^ 32 \<le> ?t" using False by simp
      have "(do { n \<leftarrow> digits ?t bs; checked_u32 n }) = None"
      proof (cases "digits ?t bs")
        case (Some n)
        then have "2 ^ 32 \<le> n" using digits_grow [OF Some] big by linarith
        then show ?thesis using Some by (simp add: checked_u32_def)
      qed simp
      moreover have "u32_loop acc (b # bs) = None"
      proof -
        have "checked_u32 ?t = None" using big by (simp add: checked_u32_def)
        then show ?thesis unfolding u32_loop.simps if_P [OF d]
          by (cases "acc * 10 < 2 ^ 32") (simp_all only: checked_u32_def if_True if_False bind.bind_lunit bind.bind_lzero)
      qed
      ultimately show ?thesis using d by (simp add: is_digit_def mult.commute)
    next
      case False
      then have "\<not> (48 \<le> unat b \<and> unat b \<le> 57)" by (simp add: is_digit_def)
      then have "digits acc (b # bs) = None" by (simp only: digits.simps if_False)
      moreover have "u32_loop acc (b # bs) = None" using False by (simp only: u32_loop.simps if_False)
      ultimately show ?thesis by simp
    qed
  qed
qed

lemma parse_u32_eq: "parse_u32 bs = (if bs = [] then None else do { n \<leftarrow> digits 0 bs; checked_u32 n })"
  by (simp add: parse_u32_def u32_loop_digits)

lemma parse_u32_dec [simp]: "n < 2 ^ 32 \<Longrightarrow> parse_u32 (dec n) = Some n"
  by (simp add: parse_u32_eq checked_u32_def)

definition sdec :: "int \<Rightarrow> byte list" where
  "sdec n = (if n < 0 then 0x2D # dec (nat (- n)) else dec (nat n))"

lemma parse_i32_sdec [simp]:
  assumes "- (2 ^ 31) \<le> n" "n < 2 ^ 31"
  shows "parse_i32 (sdec n) = Some n"
proof (cases "n < 0")
  case True
  then show ?thesis using assms by (simp add: sdec_def parse_i32_def checked_i32_def)
next
  case False
  obtain b bs where d: "dec (nat n) = b # bs" by (cases "dec (nat n)") auto
  then have "b \<noteq> 0x2D" using dec_digits [of b "nat n"] by (auto simp: is_digit_def)
  moreover have "parse_u32 (b # bs) = Some (nat n)" using parse_u32_dec [of "nat n"] d assms by simp
  ultimately show ?thesis using False assms d by (simp add: sdec_def parse_i32_def checked_i32_def)
qed

section \<open>Commands are read back as they were written\<close>

text \<open>A command in range, and the pairs that write it: flags that are zero are left out.\<close>

definition flag_ok :: "string \<Rightarrow> byte \<Rightarrow> bool" where
  "flag_ok allowed f \<longleftrightarrow> f = 0 \<or> f \<in> set (ascii allowed)"

definition i32_ok :: "int \<Rightarrow> bool" where
  "i32_ok n \<longleftrightarrow> - (2 ^ 31) \<le> n \<and> n < 2 ^ 31"

definition nat_fields :: "command \<Rightarrow> (char \<times> nat) list" where
  "nat_fields c =
     [(CHR ''f'', format c), (CHR ''m'', cmd_more c), (CHR ''i'', cmd_id c), (CHR ''I'', number c),
      (CHR ''p'', placement c), (CHR ''q'', quiet c), (CHR ''w'', width c), (CHR ''h'', height c),
      (CHR ''x'', cmd_x c), (CHR ''y'', cmd_y c), (CHR ''s'', data_width c), (CHR ''v'', data_height c),
      (CHR ''S'', data_size c), (CHR ''O'', data_offset c), (CHR ''c'', cmd_columns c),
      (CHR ''r'', cmd_rows c), (CHR ''X'', cell_x c), (CHR ''Y'', cell_y c), (CHR ''C'', cmd_cursor c),
      (CHR ''U'', unicode c), (CHR ''P'', parent c), (CHR ''Q'', parent_placement c), (CHR ''N'', hints c)]"

definition command_ok :: "command \<Rightarrow> bool" where
  "command_ok c \<longleftrightarrow> flag_ok ''Tacdfpqt'' (action c) \<and> flag_ok ''AaCcFfIiNnPpQqRrXxYyZz'' (delete_sel c) \<and>
     flag_ok ''dfst'' (medium c) \<and> flag_ok ''z'' (compression c) \<and>
     (\<forall>(k, n) \<in> set (nat_fields c). n < 2 ^ 32) \<and> i32_ok (cmd_z c) \<and> i32_ok (parent_x c) \<and> i32_ok (parent_y c)"

definition print_pair :: "char \<Rightarrow> byte list \<Rightarrow> byte list" where
  "print_pair k value = ch k # ch CHR ''='' # value"

definition flag_pair :: "char \<Rightarrow> byte \<Rightarrow> byte list list" where
  "flag_pair k f = (if f = 0 then [] else [print_pair k [f]])"

definition command_pairs :: "command \<Rightarrow> byte list list" where
  "command_pairs c =
     flag_pair CHR ''a'' (action c) @ flag_pair CHR ''d'' (delete_sel c) @ flag_pair CHR ''t'' (medium c) @
     flag_pair CHR ''o'' (compression c) @ map (\<lambda>(k, n). print_pair k (dec n)) (nat_fields c) @
     [print_pair CHR ''z'' (sdec (cmd_z c)), print_pair CHR ''H'' (sdec (parent_x c)),
      print_pair CHR ''V'' (sdec (parent_y c))]"

definition print_command :: "command \<Rightarrow> byte list" where
  "print_command c = join [ch CHR '',''] (command_pairs c)"

lemma ch_values:
  "ch CHR ''a'' = 97" "ch CHR ''d'' = 100" "ch CHR ''t'' = 116" "ch CHR ''o'' = 111" "ch CHR ''f'' = 102"
  "ch CHR ''m'' = 109" "ch CHR ''i'' = 105" "ch CHR ''I'' = 73" "ch CHR ''p'' = 112" "ch CHR ''q'' = 113"
  "ch CHR ''w'' = 119" "ch CHR ''h'' = 104" "ch CHR ''x'' = 120" "ch CHR ''y'' = 121" "ch CHR ''s'' = 115"
  "ch CHR ''v'' = 118" "ch CHR ''S'' = 83" "ch CHR ''O'' = 79" "ch CHR ''c'' = 99" "ch CHR ''r'' = 114"
  "ch CHR ''X'' = 88" "ch CHR ''Y'' = 89" "ch CHR ''z'' = 122" "ch CHR ''C'' = 67" "ch CHR ''U'' = 85"
  "ch CHR ''P'' = 80" "ch CHR ''Q'' = 81" "ch CHR ''H'' = 72" "ch CHR ''V'' = 86" "ch CHR ''N'' = 78"
  "ch CHR ''='' = 61" "ch CHR '','' = 44"
  by code_simp+

lemma parse_print_pair [simp]: "parse_pair (print_pair k value) c = set_field (ch k) value c"
  by (simp add: parse_pair_def print_pair_def)

lemma flag_allowed: "f \<in> set (ascii allowed) \<Longrightarrow> flag [f] allowed = Some f"
  by (simp add: flag_def)

lemma pair_no_comma:
  assumes "command_ok c" "pair \<in> set (command_pairs c)"
  shows "ch CHR '','' \<notin> set pair"
proof -
  have digit: "44 \<notin> set (dec n)" for n using dec_digits [of 44 n] by (auto simp: is_digit_def)
  then have signed: "44 \<notin> set (sdec n)" for n by (auto simp: sdec_def)
  have flags: "44 \<notin> set (ascii ''Tacdfpqt'')" "44 \<notin> set (ascii ''AaCcFfIiNnPpQqRrXxYyZz'')"
    "44 \<notin> set (ascii ''dfst'')" "44 \<notin> set (ascii ''z'')"
    by code_simp+
  have pair: "44 \<notin> set (print_pair k v)" if "44 \<notin> set v" "ch k \<noteq> 44" for k v
    using that by (simp add: print_pair_def ch_values)
  have flag: "44 \<notin> set p" if "p \<in> set (flag_pair k f)" "flag_ok allowed f" "44 \<notin> set (ascii allowed)" "ch k \<noteq> 44"
    for p k f allowed
    using that pair [of "[f]" k] by (auto simp: flag_pair_def flag_ok_def split: if_splits)
  have keys: "\<forall>(k, n) \<in> set (nat_fields c). ch k \<noteq> 44" by (simp add: nat_fields_def ch_values)
  have ok: "flag_ok ''Tacdfpqt'' (action c)" "flag_ok ''AaCcFfIiNnPpQqRrXxYyZz'' (delete_sel c)"
    "flag_ok ''dfst'' (medium c)" "flag_ok ''z'' (compression c)"
    using assms(1) by (simp_all add: command_ok_def)
  consider "pair \<in> set (flag_pair CHR ''a'' (action c))" | "pair \<in> set (flag_pair CHR ''d'' (delete_sel c))"
    | "pair \<in> set (flag_pair CHR ''t'' (medium c))" | "pair \<in> set (flag_pair CHR ''o'' (compression c))"
    | k n where "(k, n) \<in> set (nat_fields c)" "pair = print_pair k (dec n)"
    | k n where "k \<in> {CHR ''z'', CHR ''H'', CHR ''V''}" "pair = print_pair k (sdec n)"
    using assms(2) unfolding command_pairs_def by auto
  then show ?thesis
    unfolding ch_values(32)
  proof cases
    case 1 then show "44 \<notin> set pair" using flag ok(1) flags(1) ch_values by simp
  next
    case 2 then show "44 \<notin> set pair" using flag ok(2) flags(2) ch_values by simp
  next
    case 3 then show "44 \<notin> set pair" using flag ok(3) flags(3) ch_values by simp
  next
    case 4 then show "44 \<notin> set pair" using flag ok(4) flags(4) ch_values by simp
  next
    case 5 then show "44 \<notin> set pair" using pair [OF digit] keys by auto
  next
    case 6 then show "44 \<notin> set pair" using pair [OF signed] ch_values by auto
  qed
qed

lemma set_nat_fields:
  assumes "n < 2 ^ 32"
  shows "set_field (ch CHR ''f'') (dec n) c = Some (c\<lparr>format := n\<rparr>)"
    "set_field (ch CHR ''m'') (dec n) c = Some (c\<lparr>cmd_more := n\<rparr>)"
    "set_field (ch CHR ''i'') (dec n) c = Some (c\<lparr>cmd_id := n\<rparr>)"
    "set_field (ch CHR ''I'') (dec n) c = Some (c\<lparr>number := n\<rparr>)"
    "set_field (ch CHR ''p'') (dec n) c = Some (c\<lparr>placement := n\<rparr>)"
    "set_field (ch CHR ''q'') (dec n) c = Some (c\<lparr>quiet := n\<rparr>)"
    "set_field (ch CHR ''w'') (dec n) c = Some (c\<lparr>width := n\<rparr>)"
    "set_field (ch CHR ''h'') (dec n) c = Some (c\<lparr>height := n\<rparr>)"
    "set_field (ch CHR ''x'') (dec n) c = Some (c\<lparr>cmd_x := n\<rparr>)"
    "set_field (ch CHR ''y'') (dec n) c = Some (c\<lparr>cmd_y := n\<rparr>)"
    "set_field (ch CHR ''s'') (dec n) c = Some (c\<lparr>data_width := n\<rparr>)"
    "set_field (ch CHR ''v'') (dec n) c = Some (c\<lparr>data_height := n\<rparr>)"
    "set_field (ch CHR ''S'') (dec n) c = Some (c\<lparr>data_size := n\<rparr>)"
    "set_field (ch CHR ''O'') (dec n) c = Some (c\<lparr>data_offset := n\<rparr>)"
    "set_field (ch CHR ''c'') (dec n) c = Some (c\<lparr>cmd_columns := n\<rparr>)"
    "set_field (ch CHR ''r'') (dec n) c = Some (c\<lparr>cmd_rows := n\<rparr>)"
    "set_field (ch CHR ''X'') (dec n) c = Some (c\<lparr>cell_x := n\<rparr>)"
    "set_field (ch CHR ''Y'') (dec n) c = Some (c\<lparr>cell_y := n\<rparr>)"
    "set_field (ch CHR ''C'') (dec n) c = Some (c\<lparr>cmd_cursor := n\<rparr>)"
    "set_field (ch CHR ''U'') (dec n) c = Some (c\<lparr>unicode := n\<rparr>)"
    "set_field (ch CHR ''P'') (dec n) c = Some (c\<lparr>parent := n\<rparr>)"
    "set_field (ch CHR ''Q'') (dec n) c = Some (c\<lparr>parent_placement := n\<rparr>)"
    "set_field (ch CHR ''N'') (dec n) c = Some (c\<lparr>hints := n\<rparr>)"
  unfolding set_field_def Let_def ch_values by (simp_all only: parse_u32_dec [OF assms]) simp_all

lemma set_int_fields:
  assumes "i32_ok n"
  shows "set_field (ch CHR ''z'') (sdec n) c = Some (c\<lparr>cmd_z := n\<rparr>)"
    "set_field (ch CHR ''H'') (sdec n) c = Some (c\<lparr>parent_x := n\<rparr>)"
    "set_field (ch CHR ''V'') (sdec n) c = Some (c\<lparr>parent_y := n\<rparr>)"
proof -
  have "parse_i32 (sdec n) = Some n" using assms by (simp add: i32_ok_def)
  then show "set_field (ch CHR ''z'') (sdec n) c = Some (c\<lparr>cmd_z := n\<rparr>)"
    "set_field (ch CHR ''H'') (sdec n) c = Some (c\<lparr>parent_x := n\<rparr>)"
    "set_field (ch CHR ''V'') (sdec n) c = Some (c\<lparr>parent_y := n\<rparr>)"
    unfolding set_field_def Let_def ch_values by simp_all
qed

lemma set_flag_fields:
  "v \<in> set (ascii ''Tacdfpqt'') \<Longrightarrow> set_field (ch CHR ''a'') [v] c = Some (c\<lparr>action := v\<rparr>)"
  "v \<in> set (ascii ''AaCcFfIiNnPpQqRrXxYyZz'') \<Longrightarrow> set_field (ch CHR ''d'') [v] c = Some (c\<lparr>delete_sel := v\<rparr>)"
  "v \<in> set (ascii ''dfst'') \<Longrightarrow> set_field (ch CHR ''t'') [v] c = Some (c\<lparr>medium := v\<rparr>)"
  "v \<in> set (ascii ''z'') \<Longrightarrow> set_field (ch CHR ''o'') [v] c = Some (c\<lparr>compression := v\<rparr>)"
  unfolding set_field_def Let_def ch_values by (simp_all add: flag_allowed)

lemma parse_flag_pairs:
  "flag_ok ''Tacdfpqt'' f \<Longrightarrow>
     for_each parse_pair (flag_pair CHR ''a'' f) c = Some (if f = 0 then c else c\<lparr>action := f\<rparr>)"
  "flag_ok ''AaCcFfIiNnPpQqRrXxYyZz'' f \<Longrightarrow>
     for_each parse_pair (flag_pair CHR ''d'' f) c = Some (if f = 0 then c else c\<lparr>delete_sel := f\<rparr>)"
  "flag_ok ''dfst'' f \<Longrightarrow>
     for_each parse_pair (flag_pair CHR ''t'' f) c = Some (if f = 0 then c else c\<lparr>medium := f\<rparr>)"
  "flag_ok ''z'' f \<Longrightarrow>
     for_each parse_pair (flag_pair CHR ''o'' f) c = Some (if f = 0 then c else c\<lparr>compression := f\<rparr>)"
  by (auto simp: flag_pair_def flag_ok_def set_flag_fields)

lemma parse_command_pairs:
  assumes "command_ok c"
  shows "for_each parse_pair (command_pairs c) default_command = Some c"
proof -
  have ok: "flag_ok ''Tacdfpqt'' (action c)" "flag_ok ''AaCcFfIiNnPpQqRrXxYyZz'' (delete_sel c)"
    "flag_ok ''dfst'' (medium c)" "flag_ok ''z'' (compression c)" "i32_ok (cmd_z c)" "i32_ok (parent_x c)" "i32_ok (parent_y c)"
    using assms by (simp_all add: command_ok_def)
  have bounds: "\<forall>(k, n) \<in> set (nat_fields c). n < 2 ^ 32" using assms by (simp add: command_ok_def)
  let ?d = "default_command\<lparr>action := action c, delete_sel := delete_sel c, medium := medium c, compression := compression c\<rparr>"
  have "for_each parse_pair (flag_pair CHR ''a'' (action c) @ flag_pair CHR ''d'' (delete_sel c) @
      flag_pair CHR ''t'' (medium c) @ flag_pair CHR ''o'' (compression c)) default_command = Some ?d"
    by (simp add: for_each_append parse_flag_pairs ok default_command_def)
  moreover have "for_each parse_pair (map (\<lambda>(k, n). print_pair k (dec n)) (nat_fields c)) ?d =
      Some (c\<lparr>cmd_z := 0, parent_x := 0, parent_y := 0\<rparr>)"
    using bounds by (cases c) (simp add: nat_fields_def set_nat_fields default_command_def)
  moreover have "for_each parse_pair [print_pair CHR ''z'' (sdec (cmd_z c)), print_pair CHR ''H'' (sdec (parent_x c)),
      print_pair CHR ''V'' (sdec (parent_y c))] (c\<lparr>cmd_z := 0, parent_x := 0, parent_y := 0\<rparr>) = Some c"
    using ok(5-7) by (cases c) (simp add: set_int_fields)
  ultimately show ?thesis
    unfolding command_pairs_def append_assoc [symmetric] for_each_append
    by (simp only: append_assoc for_each_append bind.bind_lunit bind_assoc)
qed

text \<open>Every command in range is read back from what it prints; so are single fields.\<close>

text \<open>
  C34. Parsing the control data printed for a command, with every key and its value in decimal,
  gives the command back.
\<close>

theorem command_roundtrip:
  assumes "command_ok c"
  shows "parse_command (print_command c) = Some c"
proof -
  have ne: "command_pairs c \<noteq> []" by (simp add: command_pairs_def)
  have "print_command c \<noteq> []"
    unfolding print_command_def by (cases "command_pairs c" rule: remdups_adj.cases)
      (auto simp: ne command_pairs_def flag_pair_def print_pair_def nat_fields_def split: if_splits)
  moreover have "split_on (ch CHR '','') (print_command c) = command_pairs c"
    unfolding print_command_def using ne pair_no_comma [OF assms] by (intro split_join) auto
  ultimately show ?thesis using parse_command_pairs [OF assms] by (simp add: parse_command_def)
qed

theorem command_roundtrip_witness:
  "parse_command (print_command (default_command\<lparr>action := ch CHR ''T'', cmd_id := 7, cmd_z := - 3\<rparr>)) =
    Some (default_command\<lparr>action := ch CHR ''T'', cmd_id := 7, cmd_z := - 3\<rparr>)"
proof (rule command_roundtrip)
  have "ch CHR ''T'' \<in> set (ascii ''Tacdfpqt'')" by code_simp
  then show "command_ok (default_command\<lparr>action := ch CHR ''T'', cmd_id := 7, cmd_z := - 3\<rparr>)"
    by (simp add: command_ok_def flag_ok_def nat_fields_def i32_ok_def default_command_def)
qed

text \<open>Numbers never wrap: a value is accepted exactly when it is a decimal number of the type.\<close>


end
