(* ===== verification/Images.thy ===== *)
theory Images
  imports Command
begin

text \<open>
  Images and their placements on one terminal screen, \<open>src/terminal/graphics/store.rs\<close>.

  A \<open>BTreeMap\<close> is the list of its entries in the order of their keys. Unsigned integers are natural
  numbers; products of \<open>u32\<close> are checked, every subtraction of unsigned integers panics below
  zero, and \<open>i32\<close> coordinates saturate where the code says so. Single-precision arithmetic is the
  record \<open>F\<close> of its operations: nothing that is proved here depends on how they round. The pixels
  of an image are its bytes, and the process-wide counter of image identities is an argument.
\<close>

section \<open>Ordered maps\<close>

fun bt_insert :: "'k::linorder \<Rightarrow> 'v \<Rightarrow> ('k \<times> 'v) list \<Rightarrow> ('k \<times> 'v) list" where
  "bt_insert k v [] = [(k, v)]"
| "bt_insert k v ((a, b) # xs) =
     (if k < a then (k, v) # (a, b) # xs else if k = a then (k, v) # xs else (a, b) # bt_insert k v xs)"

definition bt_remove :: "'k \<Rightarrow> ('k \<times> 'v) list \<Rightarrow> ('k \<times> 'v) list" where
  "bt_remove k xs = filter (\<lambda>(a, b). a \<noteq> k) xs"

definition bt_modify :: "'k \<Rightarrow> ('v \<Rightarrow> 'v) \<Rightarrow> ('k \<times> 'v) list \<Rightarrow> ('k \<times> 'v) list" where
  "bt_modify k f xs = map (\<lambda>(a, b). (a, if a = k then f b else b)) xs"

section \<open>Numbers\<close>

record 'f floats =
  fl_of :: "nat \<Rightarrow> 'f"
  fl_add :: "'f \<Rightarrow> 'f \<Rightarrow> 'f"
  fl_sub :: "'f \<Rightarrow> 'f \<Rightarrow> 'f"
  fl_mul :: "'f \<Rightarrow> 'f \<Rightarrow> 'f"
  fl_div :: "'f \<Rightarrow> 'f \<Rightarrow> 'f"
  fl_min :: "'f \<Rightarrow> 'f \<Rightarrow> 'f"
  fl_max :: "'f \<Rightarrow> 'f \<Rightarrow> 'f"
  fl_ceil :: "'f \<Rightarrow> 'f"
  fl_le :: "'f \<Rightarrow> 'f \<Rightarrow> bool"
  fl_less :: "'f \<Rightarrow> 'f \<Rightarrow> bool"
  fl_eq :: "'f \<Rightarrow> 'f \<Rightarrow> bool"
  fl_u32 :: "'f \<Rightarrow> nat"

definition sat_i32 :: "int \<Rightarrow> int" where
  "sat_i32 n = max (- (2 ^ 31)) (min (2 ^ 31 - 1) n)"

definition STORAGE_QUOTA :: nat where "STORAGE_QUOTA = 320 * 1024 * 1024"
definition MAX_IMAGES :: nat where "MAX_IMAGES = 4096"
definition MAX_PLACEMENTS :: nat where "MAX_PLACEMENTS = 8192"
definition MAX_SPAN :: nat where "MAX_SPAN = 8192"

record cell_pixels =
  px_width :: nat
  px_height :: nat

definition FALLBACK :: cell_pixels where "FALLBACK = \<lparr>px_width = 10, px_height = 20\<rparr>"

definition cell_pixels_new :: "nat \<Rightarrow> nat \<Rightarrow> cell_pixels" where
  "cell_pixels_new w h = \<lparr>px_width = max w 1, px_height = max h 1\<rparr>"

section \<open>Images and placements\<close>

record image =
  im_uid :: nat
  im_id :: nat
  im_number :: nat
  im_width :: nat
  im_height :: nat
  im_pixels :: "byte list option"
  im_opaque :: bool
  im_refs :: nat
  im_used :: nat
  im_matched :: bool

definition image_bytes :: "image \<Rightarrow> nat" where
  "image_bytes i = im_width i * im_height i * 4"

record 'f placement =
  pl_key :: nat
  pl_image :: nat
  pl_id :: nat
  pl_row :: int
  pl_col :: int
  src_x :: 'f
  src_y :: 'f
  src_w :: 'f
  src_h :: 'f
  pl_cell_x :: nat
  pl_cell_y :: nat
  pl_cols :: nat
  pl_rows :: nat
  eff_cols :: nat
  eff_rows :: nat
  pl_z :: int
  is_virtual :: bool

definition umul :: "nat \<Rightarrow> nat \<Rightarrow> nat option" where
  "umul a b = checked_u32 (a * b)"

definition dest_size :: "'f floats \<Rightarrow> cell_pixels \<Rightarrow> 'f placement \<Rightarrow> ('f \<times> 'f) option" where
  "dest_size F cell p =
     (let width = (\<lambda>cols. do { n \<leftarrow> umul cols (px_width cell); Some (fl_sub F (fl_of F n) (fl_of F (pl_cell_x p))) });
          height = (\<lambda>rows. do { n \<leftarrow> umul rows (px_height cell); Some (fl_sub F (fl_of F n) (fl_of F (pl_cell_y p))) })
      in if fl_le F (src_w p) (fl_of F 0) \<or> fl_le F (src_h p) (fl_of F 0) then Some (fl_of F 0, fl_of F 0)
         else if pl_rows p \<noteq> 0
         then do { h \<leftarrow> height (pl_rows p);
                   w \<leftarrow> (if pl_cols p \<noteq> 0 then width (pl_cols p)
                        else Some (fl_div F (fl_mul F h (src_w p)) (src_h p)));
                   Some (w, h) }
         else do { w \<leftarrow> (if pl_cols p \<noteq> 0 then width (pl_cols p) else Some (src_w p));
                   Some (w, fl_div F (fl_mul F w (src_h p)) (src_w p)) })"

definition clamp_span :: "nat \<Rightarrow> nat" where
  "clamp_span n = max 1 (min n MAX_SPAN)"

definition fit :: "'f floats \<Rightarrow> cell_pixels \<Rightarrow> 'f placement \<Rightarrow> 'f placement option" where
  "fit F cell p =
     (let cells = (\<lambda>pixels size. fl_u32 F (fl_max F (fl_ceil F (fl_div F pixels (fl_of F size))) (fl_of F 1)));
          cols = pl_cols p; rows = pl_rows p
      in do { (cols, rows) \<leftarrow>
                (if cols = 0 \<and> rows = 0
                 then Some (cells (fl_add F (src_w p) (fl_of F (pl_cell_x p))) (px_width cell),
                            cells (fl_add F (src_h p) (fl_of F (pl_cell_y p))) (px_height cell))
                 else if cols = 0 \<and> fl_less F (fl_of F 0) (src_h p)
                 then do { n \<leftarrow> umul rows (px_height cell);
                           m \<leftarrow> checked_u32 (n + pl_cell_y p);
                           Some (cells (fl_div F (fl_mul F (fl_of F m) (src_w p)) (src_h p)) (px_width cell), rows) }
                 else if rows = 0 \<and> fl_less F (fl_of F 0) (src_w p)
                 then do { n \<leftarrow> umul cols (px_width cell);
                           m \<leftarrow> checked_u32 (n + pl_cell_x p);
                           Some (cols, cells (fl_div F (fl_mul F (fl_of F m) (src_h p)) (src_w p)) (px_height cell)) }
                 else Some (cols, rows));
              Some (p\<lparr>eff_cols := clamp_span cols, eff_rows := clamp_span rows\<rparr>) })"

definition end_row :: "'f placement \<Rightarrow> int" where
  "end_row p = sat_i32 (pl_row p + int (eff_rows p))"

definition end_col :: "'f placement \<Rightarrow> int" where
  "end_col p = sat_i32 (pl_col p + int (eff_cols p))"

definition vertical_scale :: "'f floats \<Rightarrow> cell_pixels \<Rightarrow> 'f placement \<Rightarrow> 'f option" where
  "vertical_scale F cell p =
     do { (_, h) \<leftarrow> dest_size F cell p;
          Some (if pl_rows p = 0 \<and> pl_cols p = 0 \<or> fl_le F h (fl_of F 0) then fl_of F 1
                else fl_div F (src_h p) h) }"

definition same_geometry :: "'f floats \<Rightarrow> cell_pixels \<Rightarrow> 'f placement \<Rightarrow> 'f placement \<Rightarrow> bool option" where
  "same_geometry F cell p q =
     (if pl_row p = pl_row q \<and> pl_col p = pl_col q \<and> pl_cell_x p = pl_cell_x q \<and> pl_cell_y p = pl_cell_y q \<and>
         eff_cols p = eff_cols q \<and> eff_rows p = eff_rows q \<and> pl_z p = pl_z q
      then do { (w, h) \<leftarrow> dest_size F cell p;
                (w', h') \<leftarrow> dest_size F cell q;
                Some (fl_eq F w w' \<and> fl_eq F h h') }
      else Some False)"

record gfx_scroll =
  gs_top :: int
  gs_end :: int
  gs_lines :: int
  gs_screen_lines :: int
  gs_history_top :: int

datatype reap = Unaddressable | MatchedUnaddressable | Matched | Unreferenced

section \<open>The store\<close>

record 'f image_store =
  images :: "(nat \<times> image) list"
  ids :: "(nat \<times> nat) list"
  placements :: "'f placement list"
  last_key :: nat
  clock :: nat
  stored :: nat
  virtual_count :: nat

definition empty_store :: "'f image_store" where
  "empty_store = \<lparr>images = [], ids = [], placements = [], last_key = 0, clock = 0, stored = 0, virtual_count = 0\<rparr>"

definition has_placements :: "'f image_store \<Rightarrow> bool" where
  "has_placements s \<longleftrightarrow> virtual_count s < length (placements s)"

definition has_virtual :: "'f image_store \<Rightarrow> bool" where
  "has_virtual s \<longleftrightarrow> 0 < virtual_count s"

definition get_image :: "'f image_store \<Rightarrow> nat \<Rightarrow> image option" where
  "get_image s k = map_of (images s) k"

definition key_by_id :: "'f image_store \<Rightarrow> nat \<Rightarrow> nat option" where
  "key_by_id s i = map_of (ids s) i"

definition key_by_number :: "'f image_store \<Rightarrow> nat \<Rightarrow> nat option" where
  "key_by_number s n = map_option fst (find (\<lambda>(k, i). im_number i = n) (rev (images s)))"

fun free_loop :: "nat \<Rightarrow> nat list \<Rightarrow> nat" where
  "free_loop free [] = free"
| "free_loop free (i # is) = (if i \<noteq> free then free else free_loop (min (free + 1) (2 ^ 32 - 1)) is)"

definition free_id :: "'f image_store \<Rightarrow> nat" where
  "free_id s = free_loop 1 (map fst (ids s))"

definition virtual_placement :: "'f image_store \<Rightarrow> nat \<Rightarrow> nat \<Rightarrow> (image \<times> 'f placement) option" where
  "virtual_placement s i pid =
     do { k \<leftarrow> key_by_id s i;
          p \<leftarrow> find (\<lambda>p. is_virtual p \<and> pl_image p = k \<and> (pid = 0 \<or> pl_id p = pid)) (placements s);
          im \<leftarrow> get_image s k;
          Some (im, p) }"

definition next_key :: "'f image_store \<Rightarrow> nat \<times> 'f image_store" where
  "next_key s = (last_key s + 1, s\<lparr>last_key := last_key s + 1\<rparr>)"

definition tick :: "'f image_store \<Rightarrow> nat \<times> 'f image_store" where
  "tick s = (clock s + 1, s\<lparr>clock := clock s + 1\<rparr>)"

definition retain_step :: "nat \<Rightarrow> 'f placement \<Rightarrow> nat \<times> 'f placement list \<Rightarrow> (nat \<times> 'f placement list) option" where
  "retain_step k p = (\<lambda>(vc, kept).
     if pl_image p \<noteq> k then Some (vc, kept @ [p])
     else do { vc \<leftarrow> usub vc (of_bool (is_virtual p)); Some (vc, kept) })"

definition remove_image :: "nat \<Rightarrow> 'f image_store \<Rightarrow> (bool \<times> 'f image_store) option" where
  "remove_image k s =
     (case get_image s k of
        None \<Rightarrow> Some (False, s)
      | Some im \<Rightarrow>
          do { n \<leftarrow> usub (stored s) (image_bytes im);
               let s = s\<lparr>images := bt_remove k (images s), stored := n\<rparr>;
               let s = (if im_id im \<noteq> 0 \<and> key_by_id s (im_id im) = Some k
                        then s\<lparr>ids := bt_remove (im_id im) (ids s)\<rparr> else s);
               if 0 < im_refs im
               then do { (vc, kept) \<leftarrow> for_each (retain_step k) (placements s) (virtual_count s, []);
                         Some (True, s\<lparr>placements := kept, virtual_count := vc\<rparr>) }
               else Some (True, s) })"

definition remove_by_id :: "nat \<Rightarrow> 'f image_store \<Rightarrow> (bool \<times> 'f image_store) option" where
  "remove_by_id i s = (case key_by_id s i of None \<Rightarrow> Some (False, s) | Some k \<Rightarrow> remove_image k s)"

definition remove_images :: "nat list \<Rightarrow> 'f image_store \<Rightarrow> 'f image_store option" where
  "remove_images = for_each (\<lambda>k s. map_option snd (remove_image k s))"

definition reap_free :: "reap \<Rightarrow> image \<Rightarrow> bool" where
  "reap_free r im \<longleftrightarrow> im_refs im = 0 \<and>
     (case r of Unaddressable \<Rightarrow> im_id im = 0 | MatchedUnaddressable \<Rightarrow> im_matched im \<and> im_id im = 0
      | Matched \<Rightarrow> im_matched im | Unreferenced \<Rightarrow> True)"

definition reap_images :: "reap \<Rightarrow> 'f image_store \<Rightarrow> (bool \<times> 'f image_store) option" where
  "reap_images r s =
     (let doomed = map fst (filter (\<lambda>(k, im). reap_free r im) (images s));
          s = s\<lparr>images := map (\<lambda>(k, im). (k, im\<lparr>im_matched := False\<rparr>)) (images s)\<rparr>
      in do { s \<leftarrow> remove_images doomed s; Some (doomed \<noteq> [], s) })"

text \<open>\<open>remove_where\<close>: the closure answers whether a placement goes, and may change one that stays.\<close>

type_synonym 'f filter_mut = "'f placement \<Rightarrow> image \<Rightarrow> (bool \<times> 'f placement) option"

definition remove_step ::
  "'f filter_mut \<Rightarrow> 'f placement \<Rightarrow> (nat \<times> image) list \<times> nat \<times> 'f placement list \<Rightarrow>
   ((nat \<times> image) list \<times> nat \<times> 'f placement list) option" where
  "remove_step remove p = (\<lambda>(ims, vc, kept).
     case map_of ims (pl_image p) of
       None \<Rightarrow> Some (ims, vc, kept)
     | Some im \<Rightarrow>
         do { (gone, q) \<leftarrow> remove p im;
              if \<not> gone then Some (ims, vc, kept @ [q])
              else do { refs \<leftarrow> usub (im_refs im) 1;
                        vc \<leftarrow> usub vc (of_bool (is_virtual q));
                        Some (bt_modify (pl_image p) (\<lambda>im. im\<lparr>im_refs := refs, im_matched := True\<rparr>) ims, vc, kept) } })"

definition remove_where :: "'f filter_mut \<Rightarrow> reap \<Rightarrow> 'f image_store \<Rightarrow> (bool \<times> 'f image_store) option" where
  "remove_where remove r s =
     do { (ims, vc, kept) \<leftarrow> for_each (remove_step remove) (placements s) (images s, virtual_count s, []);
          (reaped, s') \<leftarrow> reap_images r (s\<lparr>images := ims, virtual_count := vc, placements := kept\<rparr>);
          Some (reaped \<or> length kept \<noteq> length (placements s), s') }"

section \<open>Operations of the store\<close>

definition insert_image ::
  "nat \<Rightarrow> nat \<Rightarrow> nat \<Rightarrow> nat \<times> nat \<Rightarrow> byte list option \<Rightarrow> bool \<Rightarrow> 'f image_store \<Rightarrow> (nat \<times> 'f image_store) option" where
  "insert_image uid i num dim pixels opaque s =
     do { (_, s) \<leftarrow> reap_images Unaddressable s;
          let (k, s) = next_key s;
          let (used, s) = tick s;
          let im = \<lparr>im_uid = uid, im_id = i, im_number = num, im_width = fst dim, im_height = snd dim,
            im_pixels = pixels, im_opaque = opaque, im_refs = 0, im_used = used, im_matched = False\<rparr>;
          let s = s\<lparr>stored := stored s + image_bytes im, images := bt_insert k im (images s)\<rparr>;
          Some (k, if i \<noteq> 0 then s\<lparr>ids := bt_insert i k (ids s)\<rparr> else s) }"

definition set_pixels :: "nat \<Rightarrow> byte list \<Rightarrow> bool \<Rightarrow> 'f image_store \<Rightarrow> bool \<times> 'f image_store" where
  "set_pixels k pixels opaque s =
     (if get_image s k = None then (False, s)
      else (True, s\<lparr>images := bt_modify k (\<lambda>im. im\<lparr>im_pixels := Some pixels, im_opaque := opaque\<rparr>) (images s)\<rparr>))"

definition over_quota :: "'f image_store \<Rightarrow> bool" where
  "over_quota s \<longleftrightarrow> STORAGE_QUOTA < stored s \<or> MAX_IMAGES < length (images s)"

text \<open>\<open>min_by_key\<close>: the first entry with the least key.\<close>

fun min_by :: "('a \<Rightarrow> nat) \<Rightarrow> 'a list \<Rightarrow> 'a option" where
  "min_by f [] = None"
| "min_by f (x # xs) =
     (case min_by f xs of None \<Rightarrow> Some x | Some y \<Rightarrow> Some (if f x \<le> f y then x else y))"

definition oldest_image :: "nat option \<Rightarrow> 'f image_store \<Rightarrow> nat option" where
  "oldest_image keep s =
     map_option fst (min_by (\<lambda>(k, im). im_used im) (filter (\<lambda>(k, im). Some k \<noteq> keep) (images s)))"

partial_function (option) evict_loop :: "nat option \<Rightarrow> 'f image_store \<Rightarrow> 'f image_store option" where
  "evict_loop keep s =
     (if over_quota s
      then case oldest_image keep s of
             None \<Rightarrow> Some s
           | Some k \<Rightarrow> do { (_, s) \<leftarrow> remove_image k s; evict_loop keep s }
      else Some s)"

declare evict_loop.simps [code]

definition enforce_quota :: "nat option \<Rightarrow> 'f image_store \<Rightarrow> (bool \<times> 'f image_store) option" where
  "enforce_quota keep s =
     (if \<not> over_quota s then Some (False, s)
      else do { let idle = map fst (filter (\<lambda>(k, im). im_refs im = 0 \<and> Some k \<noteq> keep) (images s));
                s \<leftarrow> remove_images idle s;
                s \<leftarrow> evict_loop keep s;
                Some (True, s) })"

definition find_index :: "('a \<Rightarrow> bool) \<Rightarrow> 'a list \<Rightarrow> nat option" where
  "find_index P xs = (if list_ex P xs then Some (length (takeWhile (\<lambda>x. \<not> P x) xs)) else None)"

text \<open>The placement a command asks for, before its key is known.\<close>

definition new_placement ::
  "'f floats \<Rightarrow> nat \<Rightarrow> image \<Rightarrow> command \<Rightarrow> int \<times> int \<Rightarrow> cell_pixels \<Rightarrow> 'f placement option" where
  "new_placement F k im c pos cell =
     do { mx \<leftarrow> usub (px_width cell) 1;
          my \<leftarrow> usub (px_height cell) 1;
          let w = fl_of F (im_width im);
          let h = fl_of F (im_height im);
          let x = fl_of F (cmd_x c);
          let y = fl_of F (cmd_y c);
          fit F cell
            \<lparr>pl_key = 0, pl_image = k, pl_id = (if im_id im = 0 then 0 else command.placement c),
             pl_row = (if unicode c = 1 then 0 else fst pos), pl_col = (if unicode c = 1 then 0 else snd pos),
             src_x = x, src_y = y,
             src_w = fl_min F (if width c = 0 then w else fl_of F (width c)) (fl_sub F w (fl_min F x w)),
             src_h = fl_min F (if height c = 0 then h else fl_of F (height c)) (fl_sub F h (fl_min F y h)),
             pl_cell_x = min (cell_x c) mx, pl_cell_y = min (cell_y c) my,
             pl_cols = min (cmd_columns c) MAX_SPAN, pl_rows = min (cmd_rows c) MAX_SPAN,
             eff_cols = 0, eff_rows = 0, pl_z = cmd_z c, is_virtual = (unicode c = 1)\<rparr> }"

definition hidden_by :: "'f floats \<Rightarrow> cell_pixels \<Rightarrow> nat \<Rightarrow> 'f placement \<Rightarrow> 'f filter_mut" where
  "hidden_by F cell k q p im =
     (if pl_key p \<noteq> pl_key q \<and> \<not> is_virtual p \<and> pl_id p = 0 \<and> (pl_image p = k \<or> im_id im = 0)
      then map_option (\<lambda>same. (same, p)) (same_geometry F cell p q)
      else Some (False, p))"

definition image_place :: "nat \<Rightarrow> 'f placement \<Rightarrow> 'f image_store \<Rightarrow> ('f placement \<times> 'f image_store) option" where
  "image_place k p s =
     (case (if pl_id p \<noteq> 0 then find_index (\<lambda>q. pl_image q = k \<and> pl_id q = pl_id p) (placements s) else None) of
        Some i \<Rightarrow>
          do { old \<leftarrow> idx (placements s) i;
               let p = p\<lparr>pl_key := pl_key old\<rparr>;
               vc \<leftarrow> usub (virtual_count s) (of_bool (is_virtual old));
               Some (p, s\<lparr>virtual_count := vc + of_bool (is_virtual p), placements := (placements s)[i := p]\<rparr>) }
      | None \<Rightarrow>
          let (n, s) = next_key s; p = p\<lparr>pl_key := n\<rparr>
          in Some (p, s\<lparr>virtual_count := virtual_count s + of_bool (is_virtual p),
               placements := placements s @ [p],
               images := bt_modify k (\<lambda>im. im\<lparr>im_refs := im_refs im + 1\<rparr>) (images s)\<rparr>))"

definition drop_oldest :: "'f image_store \<Rightarrow> 'f image_store option" where
  "drop_oldest s =
     (if MAX_PLACEMENTS < length (placements s)
      then do { old \<leftarrow> idx (placements s) 0;
                map_option snd (remove_where (\<lambda>q im. Some (pl_key q = pl_key old, q)) Unaddressable s) }
      else Some s)"

definition image_put ::
  "'f floats \<Rightarrow> nat \<Rightarrow> command \<Rightarrow> int \<times> int \<Rightarrow> cell_pixels \<Rightarrow> 'f image_store \<Rightarrow>
   ((nat \<times> nat) option \<times> 'f image_store) option" where
  "image_put F k c pos cell s =
     (let (used, s) = tick s in
      case get_image s k of
        None \<Rightarrow> Some (None, s)
      | Some im \<Rightarrow>
          do { let s = s\<lparr>images := bt_modify k (\<lambda>im. im\<lparr>im_used := used\<rparr>) (images s)\<rparr>;
               p \<leftarrow> new_placement F k im c pos cell;
               (p, s) \<leftarrow> image_place k p s;
               s \<leftarrow> (if im_opaque im \<and> \<not> is_virtual p
                     then map_option snd (remove_where (hidden_by F cell k p) Unaddressable s)
                     else Some s);
               s \<leftarrow> drop_oldest s;
               Some (Some (eff_cols p, eff_rows p), s) })"

definition keep_unless :: "('f placement \<Rightarrow> image \<Rightarrow> bool) \<Rightarrow> 'f filter_mut" where
  "keep_unless P p im = Some (P p im, p)"

definition is_upper :: "byte \<Rightarrow> bool" where "is_upper b \<longleftrightarrow> 65 \<le> unat b \<and> unat b \<le> 90"
definition to_lower :: "byte \<Rightarrow> byte" where "to_lower b = (if is_upper b then b + 32 else b)"

definition image_delete ::
  "command \<Rightarrow> int \<times> int \<Rightarrow> 'f image_store \<Rightarrow> (bool \<times> 'f image_store) option" where
  "image_delete c pos s =
     (let selector = (if delete_sel c = 0 then ch CHR ''a'' else delete_sel c);
          r = (if is_upper selector then Matched else MatchedUnaddressable);
          x = int (cmd_x c) - 1; y = int (cmd_y c) - 1;
          in_cols = (\<lambda>p x. pl_col p \<le> x \<and> x < end_col p);
          in_rows = (\<lambda>p y. pl_row p \<le> y \<and> y < end_row p);
          low = to_lower selector;
          remove = (\<lambda>P. remove_where (keep_unless (\<lambda>p im. \<not> is_virtual p \<and> P p)) r s)
      in if low = ch CHR ''a'' then remove (\<lambda>p. 0 < end_row p)
         else if low = ch CHR ''i'' \<or> low = ch CHR ''n''
         then (case (if low = ch CHR ''i'' then key_by_id s (cmd_id c) else key_by_number s (number c)) of
                 None \<Rightarrow> Some (False, s)
               | Some k \<Rightarrow>
                   if (case get_image s k of Some im \<Rightarrow> im_refs im = 0 | None \<Rightarrow> False) \<and> command.placement c = 0
                   then (if is_upper selector then remove_image k s else Some (False, s))
                   else remove_where (keep_unless (\<lambda>p im. pl_image p = k \<and>
                          (command.placement c = 0 \<or> pl_id p = command.placement c))) r s)
         else if low = ch CHR ''r''
         then (let in_range = (\<lambda>im. im_id im \<noteq> 0 \<and> cmd_x c \<le> im_id im \<and> im_id im \<le> cmd_y c);
                   idle = (if selector = ch CHR ''R''
                           then map fst (filter (\<lambda>(k, im). im_refs im = 0 \<and> in_range im) (images s)) else [])
               in do { s \<leftarrow> remove_images idle s;
                       (removed, s) \<leftarrow> remove_where (keep_unless (\<lambda>p im. in_range im)) r s;
                       Some (removed \<or> idle \<noteq> [], s) })
         else if low = ch CHR ''p'' then remove (\<lambda>p. in_cols p x \<and> in_rows p y)
         else if low = ch CHR ''q'' then remove (\<lambda>p. pl_z p = cmd_z c \<and> in_cols p x \<and> in_rows p y)
         else if low = ch CHR ''x'' then remove (\<lambda>p. in_cols p x)
         else if low = ch CHR ''y'' then remove (\<lambda>p. in_rows p y)
         else if low = ch CHR ''z'' then remove (\<lambda>p. pl_z p = cmd_z c)
         else if low = ch CHR ''c'' then remove (\<lambda>p. in_cols p (snd pos) \<and> in_rows p (fst pos))
         else Some (False, s))"

definition image_clear :: "bool \<Rightarrow> 'f image_store \<Rightarrow> (bool \<times> 'f image_store) option" where
  "image_clear history s =
     remove_where (keep_unless (\<lambda>p im. \<not> is_virtual p \<and> (history \<or> 0 < end_row p))) Unreferenced s"

definition image_clear_history :: "'f image_store \<Rightarrow> (bool \<times> 'f image_store) option" where
  "image_clear_history s =
     remove_where (keep_unless (\<lambda>p im. \<not> is_virtual p \<and> end_row p \<le> 0)) Unreferenced s"

definition scroll_full :: "gfx_scroll \<Rightarrow> int \<Rightarrow> 'f filter_mut" where
  "scroll_full sc delta p im =
     (if is_virtual p \<or> 0 < delta \<and> end_row p \<le> 0 then Some (False, p)
      else let p = p\<lparr>pl_row := sat_i32 (pl_row p + delta)\<rparr>
           in Some (end_row p \<le> gs_history_top sc \<or> gs_screen_lines sc \<le> pl_row p, p))"

definition scroll_in_region ::
  "'f floats \<Rightarrow> cell_pixels \<Rightarrow> gfx_scroll \<Rightarrow> int \<Rightarrow> 'f placement \<Rightarrow> (bool \<times> 'f placement) option" where
  "scroll_in_region F cell sc delta p =
     (let top = gs_top sc; bottom = gs_end sc - 1;
          outside = (\<lambda>p. end_row p \<le> top \<or> bottom < pl_row p)
      in if pl_row p < top \<or> bottom < end_row p - 1 then Some (False, p)
         else let p = p\<lparr>pl_row := sat_i32 (pl_row p + delta)\<rparr> in
           if outside p then Some (True, p)
           else do { scale \<leftarrow> vertical_scale F cell p;
             if pl_row p < top
             then do { let clipped = nat (top - pl_row p);
                       n \<leftarrow> umul (px_height cell) clipped;
                       let cut = fl_mul F scale (fl_sub F (fl_of F n) (fl_of F (pl_cell_y p)));
                       if fl_le F (src_h p) cut then Some (True, p)
                       else do { e \<leftarrow> usub (eff_rows p) clipped;
                                 r \<leftarrow> (if pl_rows p \<noteq> 0 then usub (pl_rows p) (min clipped (pl_rows p - 1)) else Some 0);
                                 let p = p\<lparr>src_y := fl_add F (src_y p) cut, src_h := fl_sub F (src_h p) cut,
                                   eff_rows := e, pl_rows := r, pl_cell_y := 0, pl_row := pl_row p + int clipped\<rparr>;
                                 Some (outside p, p) } }
             else if bottom < end_row p - 1
             then do { let clipped = nat (end_row p - 1 - bottom);
                       e \<leftarrow> usub (eff_rows p) clipped;
                       n \<leftarrow> umul (px_height cell) e;
                       let kept = fl_mul F scale (fl_sub F (fl_of F n) (fl_of F (pl_cell_y p)));
                       if fl_le F kept (fl_of F 0) then Some (True, p)
                       else do { r \<leftarrow> (if pl_rows p \<noteq> 0 then usub (pl_rows p) (min clipped (pl_rows p - 1)) else Some 0);
                                 let p = p\<lparr>src_h := fl_min F (src_h p) kept, eff_rows := e, pl_rows := r\<rparr>;
                                 Some (outside p, p) } }
             else Some (outside p, p) })"

text \<open>Equality of placements compares their numbers as the hardware does.\<close>

definition placement_eq :: "'f floats \<Rightarrow> 'f placement \<Rightarrow> 'f placement \<Rightarrow> bool" where
  "placement_eq F p q \<longleftrightarrow>
     fl_eq F (src_x p) (src_x q) \<and> fl_eq F (src_y p) (src_y q) \<and> fl_eq F (src_w p) (src_w q) \<and>
     fl_eq F (src_h p) (src_h q) \<and>
     p\<lparr>src_x := src_x q, src_y := src_y q, src_w := src_w q, src_h := src_h q\<rparr> = q"

definition image_scroll ::
  "'f floats \<Rightarrow> gfx_scroll \<Rightarrow> cell_pixels \<Rightarrow> 'f image_store \<Rightarrow> (bool \<times> 'f image_store) option" where
  "image_scroll F sc cell s =
     (if \<not> has_placements s \<or> gs_lines sc = 0 then Some (False, s)
      else let full = (gs_top sc = 0 \<and> gs_end sc = gs_screen_lines sc);
               delta = - gs_lines sc
           in do { (removed, s') \<leftarrow>
                     (if full then remove_where (scroll_full sc delta) Unaddressable s
                      else remove_where (\<lambda>p im. if is_virtual p then Some (False, p)
                             else scroll_in_region F cell sc delta p) Unaddressable s);
                   Some (removed \<or> \<not> list_all2 (placement_eq F) (placements s') (placements s), s') })"

definition rescale_placement :: "'f floats \<Rightarrow> cell_pixels \<Rightarrow> 'f placement \<Rightarrow> 'f placement option" where
  "rescale_placement F cell p =
     (if is_virtual p then Some p
      else do { mx \<leftarrow> usub (px_width cell) 1;
                my \<leftarrow> usub (px_height cell) 1;
                fit F cell (p\<lparr>pl_cell_x := min (pl_cell_x p) mx, pl_cell_y := min (pl_cell_y p) my\<rparr>) })"

definition image_rescale :: "'f floats \<Rightarrow> cell_pixels \<Rightarrow> 'f image_store \<Rightarrow> 'f image_store option" where
  "image_rescale F cell s =
     do { ps \<leftarrow> for_each (\<lambda>p ps. map_option (\<lambda>q. ps @ [q]) (rescale_placement F cell p)) (placements s) [];
          Some (s\<lparr>placements := ps\<rparr>) }"

definition image_anchors :: "'f image_store \<Rightarrow> (nat \<times> int \<times> int) list" where
  "image_anchors s = map (\<lambda>p. (pl_key p, pl_row p, pl_col p)) (filter (\<lambda>p. \<not> is_virtual p) (placements s))"

definition apply_anchors ::
  "(nat \<Rightarrow> (int \<times> int) option) \<Rightarrow> 'f image_store \<Rightarrow> (bool \<times> 'f image_store) option" where
  "apply_anchors moved s =
     remove_where (\<lambda>p im.
       if is_virtual p then Some (False, p)
       else case moved (pl_key p) of
              Some (row, col) \<Rightarrow> Some (False, p\<lparr>pl_row := row, pl_col := col\<rparr>)
            | None \<Rightarrow> Some (True, p)) Unaddressable s"

section \<open>Ordered maps are maps\<close>

definition keys_sorted :: "('k::linorder \<times> 'v) list \<Rightarrow> bool" where
  "keys_sorted xs \<longleftrightarrow> sorted_wrt (<) (map fst xs)"

lemma keys_sorted_distinct: "keys_sorted xs \<Longrightarrow> distinct (map fst xs)"
  by (simp add: keys_sorted_def strict_sorted_iff)

lemma keys_sorted_Nil [simp]: "keys_sorted []"
  by (simp add: keys_sorted_def)

lemma keys_sorted_filter: "keys_sorted xs \<Longrightarrow> keys_sorted (filter P xs)"
  by (simp add: keys_sorted_def sorted_wrt_map sorted_wrt_filter)

lemma bt_remove_filter: "bt_remove k xs = filter (\<lambda>e. fst e \<noteq> k) xs"
  by (simp add: bt_remove_def case_prod_unfold)

lemma map_of_filter_keys: "map_of (filter (\<lambda>e. P (fst e)) xs) k = (if P k then map_of xs k else None)"
  by (induction xs) auto

lemma map_of_bt_remove [simp]: "map_of (bt_remove k xs) = (map_of xs)(k := None)"
  by (rule ext) (simp add: bt_remove_filter map_of_filter_keys [of "\<lambda>a. a \<noteq> k"])

lemma set_bt_insert: "set (bt_insert k v xs) \<subseteq> insert (k, v) (set xs)"
  by (induction xs rule: bt_insert.induct) auto

lemma keys_sorted_bt_insert: "keys_sorted xs \<Longrightarrow> keys_sorted (bt_insert k v xs)"
proof (induction k v xs rule: bt_insert.induct)
  case (2 k v a b xs)
  show ?case
  proof (cases "a < k")
    case True
    then have "keys_sorted (bt_insert k v xs)" using 2 by (simp add: keys_sorted_def)
    moreover have "\<forall>e \<in> set (bt_insert k v xs). a < fst e"
      using set_bt_insert [of k v xs] True 2(2) by (fastforce simp: keys_sorted_def)
    ultimately show ?thesis using True by (auto simp: keys_sorted_def)
  next
    case False
    then show ?thesis using 2(2) by (auto simp: keys_sorted_def)
  qed
qed (simp add: keys_sorted_def)

lemma map_of_bt_insert [simp]: "keys_sorted xs \<Longrightarrow> map_of (bt_insert k v xs) = (map_of xs)(k \<mapsto> v)"
proof (induction k v xs rule: bt_insert.induct)
  case (2 k v a b xs)
  then show ?case by (auto simp: keys_sorted_def fun_eq_iff)
qed simp

lemma keys_bt_modify [simp]: "map fst (bt_modify k f xs) = map fst xs"
  by (simp add: bt_modify_def comp_def case_prod_unfold)

lemma map_of_bt_modify [simp]:
  "map_of (bt_modify k f xs) = (\<lambda>a. map_option (\<lambda>v. if a = k then f v else v) (map_of xs a))"
  by (rule ext) (induction xs, auto simp: bt_modify_def)

lemma keys_sorted_bt_modify [simp]: "keys_sorted (bt_modify k f xs) = keys_sorted xs"
  by (simp add: keys_sorted_def)

lemma length_bt_modify [simp]: "length (bt_modify k f xs) = length xs"
  by (simp add: bt_modify_def)

lemma sum_bt_modify:
  "(\<And>v. h (f v) = h v) \<Longrightarrow> (\<Sum>(a, b) \<leftarrow> bt_modify k f xs. h b) = (\<Sum>(a, b) \<leftarrow> xs. h b)"
  by (induction xs) (auto simp: bt_modify_def)

lemma sum_bt_insert:
  "map_of xs k = None \<Longrightarrow> (\<Sum>(a, b) \<leftarrow> bt_insert k v xs. h b) = h v + (\<Sum>(a, b) \<leftarrow> xs. h b :: nat)"
  by (induction k v xs rule: bt_insert.induct) (auto split: if_splits)

lemma sum_bt_remove:
  "distinct (map fst xs) \<Longrightarrow> map_of xs k = Some v \<Longrightarrow>
     (\<Sum>(a, b) \<leftarrow> xs. h b) = h v + (\<Sum>(a, b) \<leftarrow> bt_remove k xs. h b :: nat)"
proof (induction xs)
  case (Cons e xs)
  obtain a b where e: "e = (a, b)" by (cases e)
  show ?case
  proof (cases "a = k")
    case True
    have "bt_remove k xs = xs"
      using Cons.prems(1) e True by (auto simp: bt_remove_filter filter_id_conv image_iff)
    then show ?thesis using Cons.prems e True by (simp add: bt_remove_filter)
  next
    case False
    then show ?thesis using Cons e by (simp add: bt_remove_filter)
  qed
qed simp

section \<open>The invariant of the store\<close>

definition refs_of :: "'f placement list \<Rightarrow> nat \<Rightarrow> nat" where
  "refs_of ps k = length (filter (\<lambda>p. pl_image p = k) ps)"

definition pixels_ok :: "cell_pixels \<Rightarrow> bool" where
  "pixels_ok c \<longleftrightarrow> 1 \<le> px_width c \<and> px_width c < 2 ^ 16 \<and> 1 \<le> px_height c \<and> px_height c < 2 ^ 16"

definition placement_ok :: "'f placement \<Rightarrow> bool" where
  "placement_ok p \<longleftrightarrow> pl_cols p \<le> MAX_SPAN \<and> pl_rows p \<le> MAX_SPAN \<and> pl_cell_x p < 2 ^ 16 \<and> pl_cell_y p < 2 ^ 16 \<and>
     1 \<le> eff_cols p \<and> eff_cols p \<le> MAX_SPAN \<and> 1 \<le> eff_rows p \<and> eff_rows p \<le> MAX_SPAN"

definition store_core :: "'f image_store \<Rightarrow> bool" where
  "store_core s \<longleftrightarrow>
     keys_sorted (images s) \<and> keys_sorted (ids s) \<and>
     (\<forall>k im. get_image s k = Some im \<longrightarrow> im_refs im = refs_of (placements s) k \<and> k \<le> last_key s) \<and>
     (\<forall>p \<in> set (placements s). get_image s (pl_image p) \<noteq> None \<and> placement_ok p \<and> pl_key p \<le> last_key s) \<and>
     distinct (map pl_key (placements s)) \<and>
     virtual_count s = length (filter is_virtual (placements s)) \<and>
     stored s = (\<Sum>(k, im) \<leftarrow> images s. image_bytes im) \<and>
     (\<forall>i k. key_by_id s i = Some k \<longleftrightarrow> i \<noteq> 0 \<and> (\<exists>im. get_image s k = Some im \<and> im_id im = i))"

definition unmatched :: "'f image_store \<Rightarrow> bool" where
  "unmatched s \<longleftrightarrow> (\<forall>k im. get_image s k = Some im \<longrightarrow> \<not> im_matched im)"

definition store_ok :: "'f image_store \<Rightarrow> bool" where
  "store_ok s \<longleftrightarrow> store_core s \<and> unmatched s \<and> length (placements s) \<le> MAX_PLACEMENTS"

text \<open>An operation that stores nothing: every image was there before, with the same id.\<close>

definition image_sub :: "'f image_store \<Rightarrow> 'f image_store \<Rightarrow> bool" where
  "image_sub s s' \<longleftrightarrow> (\<forall>k im'. get_image s' k = Some im' \<longrightarrow> (\<exists>im. get_image s k = Some im \<and> im_id im' = im_id im))"

lemma image_sub_trans: "image_sub s t \<Longrightarrow> image_sub t u \<Longrightarrow> image_sub s u"
  unfolding image_sub_def by metis

lemma image_sub_images: "images s' = images s \<Longrightarrow> image_sub s s'"
  by (simp add: image_sub_def get_image_def)

lemma image_sub_modify: "(\<And>im. im_id (f im) = im_id im) \<Longrightarrow> images s' = bt_modify k f (images s) \<Longrightarrow> image_sub s s'"
  by (auto simp: image_sub_def get_image_def split: if_splits)

lemma store_ok_empty: "store_ok empty_store"
  by (simp add: store_ok_def store_core_def unmatched_def empty_store_def get_image_def key_by_id_def)

lemma retain_loop:
  assumes "length (filter (\<lambda>p. pl_image p = k \<and> is_virtual p) ps) \<le> vc"
  shows "for_each (retain_step k) ps (vc, kept) =
    Some (vc - length (filter (\<lambda>p. pl_image p = k \<and> is_virtual p) ps), kept @ filter (\<lambda>p. pl_image p \<noteq> k) ps)"
  using assms by (induction ps arbitrary: vc kept) (auto simp: retain_step_def)

lemma remove_image_spec:
  assumes core: "store_core s" and im: "get_image s k = Some im"
  shows "returns (remove_image k s) (\<lambda>(b, s'). b \<and> store_core s' \<and> images s' = bt_remove k (images s) \<and>
    placements s' = filter (\<lambda>p. pl_image p \<noteq> k) (placements s) \<and> last_key s' = last_key s)"
proof -
  let ?ps = "placements s" and ?ps' = "filter (\<lambda>p. pl_image p \<noteq> k) (placements s)"
  have dist: "distinct (map fst (images s))" using core keys_sorted_distinct by (auto simp: store_core_def)
  have sum: "stored s = image_bytes im + (\<Sum>(a, b) \<leftarrow> bt_remove k (images s). image_bytes b)"
    using sum_bt_remove [OF dist, of k im image_bytes] core im by (simp add: store_core_def get_image_def)
  have gone: "?ps' = ?ps" if "im_refs im = 0"
  proof -
    have "refs_of ?ps k = 0" using core im that by (auto simp: store_core_def)
    then show ?thesis by (auto simp: refs_of_def filter_id_conv filter_empty_conv)
  qed
  have "length (filter is_virtual ps) = length (filter (\<lambda>p. pl_image p = k \<and> is_virtual p) ps) +
      length (filter is_virtual (filter (\<lambda>p. pl_image p \<noteq> k) ps))" for ps :: "'a placement list"
    by (induction ps) auto
  then have virt: "length (filter is_virtual ?ps) =
      length (filter (\<lambda>p. pl_image p = k \<and> is_virtual p) ?ps) + length (filter is_virtual ?ps')" .
  have refs: "refs_of ?ps' j = (if j = k then 0 else refs_of ?ps j)" for j
    by (auto simp: refs_of_def filter_empty_conv intro!: arg_cong [of _ _ length] filter_cong)
  define s1 where "s1 = s\<lparr>images := bt_remove k (images s), stored := stored s - image_bytes im,
    ids := (if im_id im \<noteq> 0 \<and> key_by_id s (im_id im) = Some k then bt_remove (im_id im) (ids s) else ids s),
    placements := ?ps', virtual_count := length (filter is_virtual ?ps')\<rparr>"
  have ids1: "key_by_id s1 i = Some j \<longleftrightarrow> i \<noteq> 0 \<and> (\<exists>im. get_image s1 j = Some im \<and> im_id im = i)" for i j
  proof -
    have old: "key_by_id s i = Some j \<longleftrightarrow> i \<noteq> 0 \<and> (\<exists>im. get_image s j = Some im \<and> im_id im = i)" for i j
      using core by (simp add: store_core_def)
    have k: "im_id im \<noteq> 0 \<Longrightarrow> key_by_id s (im_id im) = Some k" using old im by blast
    have "key_by_id s1 i = (if im_id im \<noteq> 0 \<and> i = im_id im then None else key_by_id s i)"
      using k by (auto simp: s1_def key_by_id_def)
    moreover have "get_image s1 j = (if j = k then None else get_image s j)"
      by (simp add: s1_def get_image_def)
    ultimately show ?thesis using old [of i j] im k old [of i k] by (auto split: if_splits)
  qed
  have "store_core s1"
    unfolding store_core_def
  proof (intro conjI allI impI ballI)
    show "keys_sorted (images s1)" "keys_sorted (ids s1)"
      using core by (auto simp: s1_def store_core_def bt_remove_filter keys_sorted_filter)
    show "im_refs im' = refs_of (placements s1) j" "j \<le> last_key s1" if "get_image s1 j = Some im'" for j im'
      using that core refs [of j] by (auto simp: s1_def store_core_def get_image_def split: if_splits)
    show "get_image s1 (pl_image p) \<noteq> None" "placement_ok p" "pl_key p \<le> last_key s1" if "p \<in> set (placements s1)" for p
      using that core by (auto simp: s1_def store_core_def get_image_def)
    show "distinct (map pl_key (placements s1))"
      using core by (auto simp: s1_def store_core_def distinct_map inj_on_def)
    show "virtual_count s1 = length (filter is_virtual (placements s1))" by (simp add: s1_def)
    show "stored s1 = (\<Sum>(k, im) \<leftarrow> images s1. image_bytes im)" using sum by (simp add: s1_def)
  qed (use ids1 in blast)+
  moreover have "remove_image k s = Some (True, s1)"
  proof (cases "0 < im_refs im")
    case True
    have "length (filter (\<lambda>p. pl_image p = k \<and> is_virtual p) ?ps) \<le> virtual_count s"
      using core virt by (simp add: store_core_def)
    then show ?thesis
      using True im sum core virt retain_loop [of k ?ps "virtual_count s" "[]"]
      by (simp add: remove_image_def Let_def s1_def key_by_id_def store_core_def)
  next
    case False
    then show ?thesis
      using im sum core gone by (simp add: remove_image_def Let_def s1_def key_by_id_def store_core_def)
  qed
  ultimately show ?thesis by (simp add: s1_def)
qed

lemma remove_images_spec:
  assumes "store_core s"
  shows "returns (remove_images ks s) (\<lambda>s'. store_core s' \<and>
    images s' = filter (\<lambda>e. fst e \<notin> set ks) (images s) \<and>
    placements s' = filter (\<lambda>p. pl_image p \<notin> set ks) (placements s) \<and> last_key s' = last_key s)"
  using assms
proof (induction ks arbitrary: s)
  case Nil
  then show ?case by (simp add: remove_images_def)
next
  case (Cons k ks)
  show ?case
  proof (cases "get_image s k")
    case None
    then have "remove_image k s = Some (False, s)" by (simp add: remove_image_def)
    moreover have "fst e \<noteq> k" if "e \<in> set (images s)" for e
      using None that by (auto simp: get_image_def map_of_eq_None_iff)
    moreover have "pl_image p \<noteq> k" if "p \<in> set (placements s)" for p
      using None that Cons.prems by (auto simp: store_core_def)
    ultimately show ?thesis
      using Cons.IH [OF Cons.prems]
      by (auto simp: remove_images_def cong: filter_cong)
  next
    case (Some im)
    from remove_image_spec [OF Cons.prems Some] obtain b s1 where
      "remove_image k s = Some (b, s1)" "store_core s1" "images s1 = bt_remove k (images s)"
      "placements s1 = filter (\<lambda>p. pl_image p \<noteq> k) (placements s)" "last_key s1 = last_key s"
      by (auto simp: returns_iff)
    then show ?thesis
      using Cons.IH [of s1]
      by (auto simp: remove_images_def bt_remove_filter filter_filter conj_commute)
  qed
qed

lemma map_of_map_values: "map_of (map (\<lambda>(k, v). (k, f v)) xs) k = map_option f (map_of xs k)"
  by (induction xs) auto

lemma refs_filter: "refs_of ps k = 0 \<longleftrightarrow> (\<forall>p \<in> set ps. pl_image p \<noteq> k)"
  by (auto simp: refs_of_def filter_empty_conv)

text \<open>Freeing images nothing refers to takes no placement away.\<close>

lemma reap_images_spec:
  assumes core: "store_core s"
  shows "returns (reap_images r s) (\<lambda>(b, s'). store_core s' \<and> unmatched s' \<and> placements s' = placements s \<and> last_key s' = last_key s \<and>
    (\<forall>k. get_image s' k = (case get_image s k of None \<Rightarrow> None
        | Some im \<Rightarrow> if reap_free r im then None else Some (im\<lparr>im_matched := False\<rparr>))))"
proof -
  define doomed where "doomed = map fst (filter (\<lambda>(k, im). reap_free r im) (images s))"
  define clear where "clear = (\<lambda>im :: image. im\<lparr>im_matched := False\<rparr>)"
  define s1 where "s1 = s\<lparr>images := map (\<lambda>(k, im). (k, clear im)) (images s)\<rparr>"
  have keys: "map fst (images s1) = map fst (images s)" by (simp add: s1_def comp_def case_prod_unfold)
  have get1: "get_image s1 k = map_option clear (get_image s k)" for k
    by (simp add: s1_def get_image_def map_of_map_values)
  have sel1: "placements s1 = placements s" "last_key s1 = last_key s" "ids s1 = ids s"
    "virtual_count s1 = virtual_count s" "stored s1 = stored s"
    by (simp_all add: s1_def)
  have dist: "distinct (map fst (images s))" using core keys_sorted_distinct by (auto simp: store_core_def)
  have doomed: "k \<in> set doomed \<longleftrightarrow> (\<exists>im. get_image s k = Some im \<and> reap_free r im)" for k
    using dist by (force simp: doomed_def get_image_def)
  have core1: "store_core s1"
  proof -
    have "(\<Sum>(k, im) \<leftarrow> images s1. image_bytes im) = (\<Sum>(k, im) \<leftarrow> images s. image_bytes im)"
      by (simp add: s1_def comp_def case_prod_unfold image_bytes_def clear_def)
    moreover have "key_by_id s1 = key_by_id s" by (rule ext) (simp add: key_by_id_def s1_def)
    moreover have "(\<exists>im. get_image s1 k = Some im \<and> im_id im = i) \<longleftrightarrow> (\<exists>im. get_image s k = Some im \<and> im_id im = i)" for i k
      by (cases "get_image s k") (auto simp: get1 clear_def)
    moreover have "im_refs im = refs_of (placements s1) k \<and> k \<le> last_key s1" if "get_image s1 k = Some im" for k im
      using that core by (cases "get_image s k") (auto simp: get1 store_core_def sel1 clear_def)
    moreover have "keys_sorted (images s1)" using core keys by (simp add: keys_sorted_def store_core_def)
    moreover have "get_image s1 (pl_image p) \<noteq> None" if "p \<in> set (placements s)" for p
      using that core by (simp add: get1 store_core_def)
    ultimately show ?thesis using core unfolding store_core_def sel1 by auto
  qed
  have unused: "pl_image p \<notin> set doomed" if "p \<in> set (placements s)" for p
  proof
    assume "pl_image p \<in> set doomed"
    then obtain im where "get_image s (pl_image p) = Some im" "im_refs im = 0"
      by (auto simp: doomed reap_free_def)
    then have "refs_of (placements s) (pl_image p) = 0" using core by (auto simp: store_core_def)
    then show False using that by (auto simp: refs_filter)
  qed
  from remove_images_spec [OF core1, of doomed] obtain s' where s':
    "remove_images doomed s1 = Some s'" "store_core s'" "images s' = filter (\<lambda>e. fst e \<notin> set doomed) (images s1)"
    "placements s' = filter (\<lambda>p. pl_image p \<notin> set doomed) (placements s1)" "last_key s' = last_key s1"
    by (auto simp: returns_iff)
  have p: "placements s' = placements s" using unused s'(4) by (auto simp: s1_def filter_id_conv)
  have get': "get_image s' k = (if k \<in> set doomed then None else map_option clear (get_image s k))" for k
    using map_of_filter_keys [of "\<lambda>k. k \<notin> set doomed" "images s1" k] get1 [of k] by (simp add: get_image_def s'(3))
  then have cases: "get_image s' k = (case get_image s k of None \<Rightarrow> None
        | Some im \<Rightarrow> if reap_free r im then None else Some (im\<lparr>im_matched := False\<rparr>))" for k
    by (auto simp: doomed clear_def split: option.splits)
  have "unmatched s'"
    using get' by (auto simp: unmatched_def clear_def split: if_splits)
  moreover have "reap_images r s = Some (doomed \<noteq> [], s')"
    using s'(1) by (simp add: reap_images_def Let_def flip: doomed_def clear_def s1_def)
  ultimately show ?thesis using cases p s'(2,5) by (simp add: s1_def)
qed

text \<open>What a closure given to \<open>remove_where\<close> may do: it keeps keys and images as they are.\<close>

definition tame :: "'f filter_mut \<Rightarrow> 'f placement \<Rightarrow> image \<Rightarrow> bool" where
  "tame remove p im \<longleftrightarrow> returns (remove p im) (\<lambda>(gone, q). is_virtual q = is_virtual p \<and> pl_image q = pl_image p \<and>
     pl_key q = pl_key p \<and> (\<not> gone \<longrightarrow> placement_ok q))"

definition stays :: "'f filter_mut \<Rightarrow> 'f image_store \<Rightarrow> 'f placement \<Rightarrow> 'f placement option" where
  "stays remove s p =
     (case get_image s (pl_image p) of
        None \<Rightarrow> None
      | Some im \<Rightarrow> (case remove p im of Some (False, q) \<Rightarrow> Some q | _ \<Rightarrow> None))"

lemma refs_of_append: "refs_of (ps @ qs) k = refs_of ps k + refs_of qs k"
  by (simp add: refs_of_def)

lemma refs_of_Cons: "refs_of (p # ps) k = (if pl_image p = k then 1 else 0) + refs_of ps k"
  by (simp add: refs_of_def)

lemma remove_loop:
  assumes core: "store_core (s\<lparr>images := ims, virtual_count := vc, placements := kept @ ps\<rparr>)"
    and tame: "\<And>p im. p \<in> set ps \<Longrightarrow> tame remove p im"
    and only_id: "\<And>p im im'. im_id im = im_id im' \<Longrightarrow> remove p im = remove p im'"
    and same: "\<And>k. map_option im_id (map_of ims k) = map_option im_id (get_image s k)"
  shows "returns (for_each (remove_step remove) ps (ims, vc, kept)) (\<lambda>(ims', vc', kept').
    store_core (s\<lparr>images := ims', virtual_count := vc', placements := kept'\<rparr>) \<and>
    (\<forall>k. map_option im_id (map_of ims' k) = map_option im_id (get_image s k)) \<and>
    kept' = kept @ List.map_filter (stays remove s) ps)"
  using core tame same
proof (induction ps arbitrary: ims vc kept)
  case Nil
  then show ?case by (simp add: map_filter_simps)
next
  case (Cons p ps)
  let ?s = "\<lambda>ims vc ps. s\<lparr>images := ims, virtual_count := vc, placements := ps\<rparr>"
  have sel: "get_image (?s ims vc ps) = map_of ims" "key_by_id (?s ims vc ps) = key_by_id s" for ims vc ps
    by (rule ext, simp add: get_image_def key_by_id_def)+
  note core = Cons.prems(1) [unfolded store_core_def sel, simplified]
  obtain im where im: "map_of ims (pl_image p) = Some im" using core by auto
  then obtain im0 where im0: "get_image s (pl_image p) = Some im0" "im_id im0 = im_id im"
    using Cons.prems(3) [of "pl_image p"] by (cases "get_image s (pl_image p)") auto
  obtain gone q where q: "remove p im = Some (gone, q)" "is_virtual q = is_virtual p" "pl_image q = pl_image p"
    "pl_key q = pl_key p" "\<not> gone \<longrightarrow> placement_ok q"
    using Cons.prems(2) [of p im] by (auto simp: tame_def returns_iff)
  have stay: "stays remove s p = (if gone then None else Some q)"
    using im0 q(1) only_id [of im0 im p] by (simp add: stays_def)
  show ?case
  proof (cases gone)
    case False
    have "store_core (?s ims vc ((kept @ [q]) @ ps))"
      unfolding store_core_def sel using core q False by (auto simp: refs_of_append refs_of_Cons)
    from Cons.IH [OF this Cons.prems(2,3)] show ?thesis
      using im q(1) False stay by (simp add: remove_step_def map_filter_simps)
  next
    case True
    define ims' where "ims' = bt_modify (pl_image p) (\<lambda>im. im\<lparr>im_refs := im_refs im - 1, im_matched := True\<rparr>) ims"
    have refs: "im_refs im = refs_of (kept @ p # ps) (pl_image p)" using core im by auto
    have ims_eq: "bt_modify (pl_image p) (\<lambda>i. i\<lparr>im_refs := im_refs im - 1, im_matched := True\<rparr>) ims = ims'"
    proof -
      have "distinct (map fst ims)" using core keys_sorted_distinct by auto
      then have "im' = im" if "(pl_image p, im') \<in> set ims" for im' using im that by auto
      then show ?thesis by (auto simp: ims'_def bt_modify_def)
    qed
    have step: "remove_step remove p (ims, vc, kept) = Some (ims', vc - of_bool (is_virtual q), kept)"
    proof -
      have "1 \<le> im_refs im" using refs by (simp add: refs_of_append refs_of_Cons)
      moreover have "of_bool (is_virtual q) \<le> vc" using core q(2) by simp
      ultimately show ?thesis using im q(1) True by (simp add: remove_step_def ims_eq [simplified])
    qed
    have sum': "(\<Sum>(k, im) \<leftarrow> ims'. image_bytes im) = (\<Sum>(k, im) \<leftarrow> ims. image_bytes im)"
      unfolding ims'_def by (rule sum_bt_modify) (simp add: image_bytes_def)
    have ids': "(\<exists>im. map_of ims' k = Some im \<and> im_id im = i) \<longleftrightarrow> (\<exists>im. map_of ims k = Some im \<and> im_id im = i)" for i k
      by (cases "map_of ims k") (auto simp: ims'_def)
    have refs': "im_refs im' = refs_of (kept @ ps) k \<and> k \<le> last_key s" if "map_of ims' k = Some im'" for k im'
    proof -
      obtain im1 where "map_of ims k = Some im1" "im' = (if k = pl_image p then im1\<lparr>im_refs := im_refs im1 - 1, im_matched := True\<rparr> else im1)"
        using \<open>map_of ims' k = Some im'\<close> by (auto simp: ims'_def)
      then show ?thesis using core by (auto simp: refs_of_append refs_of_Cons)
    qed
    have has': "map_of ims' (pl_image p') \<noteq> None" if "p' \<in> set (kept @ ps)" for p'
      using that core by (auto simp: ims'_def)
    let ?s' = "?s ims' (vc - of_bool (is_virtual q)) (kept @ ps)"
    have "store_core ?s'"
      unfolding store_core_def sel
    proof (intro conjI ballI)
      show "keys_sorted (images ?s')" using core by (simp add: ims'_def)
      show "keys_sorted (ids ?s')" using core by simp
      show "\<forall>k im. map_of ims' k = Some im \<longrightarrow> im_refs im = refs_of (placements ?s') k \<and> k \<le> last_key ?s'"
        using refs' by simp
      show "map_of ims' (pl_image p') \<noteq> None" if "p' \<in> set (placements ?s')" for p' using has' that by simp
      show "placement_ok p'" "pl_key p' \<le> last_key ?s'" if "p' \<in> set (placements ?s')" for p' using core that by auto
      show "distinct (map pl_key (placements ?s'))" using core by auto
      show "virtual_count ?s' = length (filter is_virtual (placements ?s'))" using core q(2) by auto
      show "stored ?s' = (\<Sum>(k, im) \<leftarrow> images ?s'. image_bytes im)" using core sum' by simp
      show "\<forall>i k. key_by_id s i = Some k \<longleftrightarrow> i \<noteq> 0 \<and> (\<exists>im. map_of ims' k = Some im \<and> im_id im = i)"
        unfolding ids' using core by simp
    qed
    note core' = this
    have same': "map_option im_id (map_of ims' k) = map_option im_id (get_image s k)" for k
      unfolding Cons.prems(3) [symmetric] by (cases "map_of ims k") (auto simp: ims'_def)
    have tame': "tame remove p im" if "p \<in> set ps" for p im using Cons.prems(2) that by simp
    have "List.map_filter (stays remove s) (p # ps) = List.map_filter (stays remove s) ps"
      using stay True by (simp add: map_filter_simps)
    then show ?thesis
      using Cons.IH [OF core' tame' same'] step by simp
  qed
qed

text \<open>Removing placements: what stays is what the closure keeps, and no image in use is freed.\<close>

lemma remove_where_spec:
  assumes core: "store_core s"
    and tame: "\<And>p im. p \<in> set (placements s) \<Longrightarrow> tame remove p im"
    and only_id: "\<And>p im im'. im_id im = im_id im' \<Longrightarrow> remove p im = remove p im'"
  shows "returns (remove_where remove r s) (\<lambda>(b, s'). store_core s' \<and> unmatched s' \<and> last_key s' = last_key s \<and>
    placements s' = List.map_filter (stays remove s) (placements s) \<and>
    (\<forall>k im. get_image s' k = Some im \<longrightarrow> (\<exists>im0. get_image s k = Some im0 \<and> im_id im = im_id im0) \<and>
       (r = Unreferenced \<longrightarrow> im_refs im \<noteq> 0)))"
proof -
  have "store_core (s\<lparr>images := images s, virtual_count := virtual_count s, placements := [] @ placements s\<rparr>)"
    using core by simp
  from remove_loop [OF this tame only_id] obtain ims vc kept where loop:
    "for_each (remove_step remove) (placements s) (images s, virtual_count s, []) = Some (ims, vc, kept)"
    "store_core (s\<lparr>images := ims, virtual_count := vc, placements := kept\<rparr>)"
    "\<forall>k. map_option im_id (map_of ims k) = map_option im_id (get_image s k)"
    "kept = List.map_filter (stays remove s) (placements s)"
    by (auto simp: returns_iff get_image_def)
  let ?s = "s\<lparr>images := ims, virtual_count := vc, placements := kept\<rparr>"
  from reap_images_spec [OF loop(2), of r] obtain b s' where r: "reap_images r ?s = Some (b, s')"
    "store_core s' \<and> unmatched s'" "placements s' = kept" "last_key s' = last_key s"
    "\<forall>k. get_image s' k = (case map_of ims k of None \<Rightarrow> None
        | Some im \<Rightarrow> if reap_free r im then None else Some (im\<lparr>im_matched := False\<rparr>))"
    by (auto simp: returns_iff get_image_def)
  have "(\<exists>im0. get_image s k = Some im0 \<and> im_id im = im_id im0) \<and> (r = Unreferenced \<longrightarrow> im_refs im \<noteq> 0)"
    if k: "get_image s' k = Some im" for k im
  proof -
    obtain im1 where im1: "map_of ims k = Some im1" "\<not> reap_free r im1" "im = im1\<lparr>im_matched := False\<rparr>"
      using k r(5) [rule_format, of k] by (cases "map_of ims k") (auto split: if_splits)
    have "map_option im_id (get_image s k) = Some (im_id im1)" using loop(3) im1(1) by (metis option.simps(9))
    then show ?thesis using im1(2,3) by (auto simp: reap_free_def)
  qed
  then show ?thesis using loop(1,4) r by (simp add: remove_where_def)
qed

lemma length_map_filter_le: "length (List.map_filter f xs) \<le> length xs"
  by (induction xs) (auto simp: map_filter_simps split: option.split)

lemma remove_where_ok:
  assumes "store_ok s" "\<And>p im. p \<in> set (placements s) \<Longrightarrow> tame remove p im"
    "\<And>p im im'. im_id im = im_id im' \<Longrightarrow> remove p im = remove p im'"
  shows "returns (remove_where remove r s) (\<lambda>(b, s'). store_ok s' \<and> last_key s' = last_key s \<and>
    placements s' = List.map_filter (stays remove s) (placements s) \<and>
    (\<forall>k im. get_image s' k = Some im \<longrightarrow> (\<exists>im0. get_image s k = Some im0 \<and> im_id im = im_id im0) \<and>
       (r = Unreferenced \<longrightarrow> im_refs im \<noteq> 0)))"
proof -
  have "store_core s" using assms(1) by (simp add: store_ok_def)
  moreover have "length (List.map_filter (stays remove s) (placements s)) \<le> MAX_PLACEMENTS"
    using assms(1) length_map_filter_le [of "stays remove s" "placements s"] by (simp add: store_ok_def)
  ultimately show ?thesis
    using remove_where_spec [OF \<open>store_core s\<close> assms(2,3), where r = r] by (auto simp: store_ok_def returns_iff)
qed

lemma tame_keep_unless: "placement_ok p \<Longrightarrow> tame (keep_unless P) p im"
  by (simp add: tame_def keep_unless_def)

lemma map_filter_filter:
  "(\<And>x. x \<in> set xs \<Longrightarrow> f x = (if P x then None else Some x)) \<Longrightarrow> List.map_filter f xs = filter (\<lambda>x. \<not> P x) xs"
  by (induction xs) (auto simp: map_filter_simps)

lemma stays_keep_unless:
  assumes "store_core s" "\<And>p im im'. im_id im = im_id im' \<Longrightarrow> P p im = P p im'"
  shows "List.map_filter (stays (keep_unless P) s) (placements s) =
    filter (\<lambda>p. \<not> P p (the (get_image s (pl_image p)))) (placements s)"
proof -
  have "stays (keep_unless P) s p = (if P p (the (get_image s (pl_image p))) then None else Some p)"
    if "p \<in> set (placements s)" for p
    using assms(1) that by (auto simp: store_core_def stays_def keep_unless_def)
  then show ?thesis by (rule map_filter_filter)
qed

lemma remove_plain:
  assumes ok: "store_ok s" and "\<And>p im im'. im_id im = im_id im' \<Longrightarrow> P p im = P p im'"
  shows "returns (remove_where (keep_unless P) r s) (\<lambda>(b, s'). store_ok s' \<and> last_key s' = last_key s \<and>
    placements s' = filter (\<lambda>p. \<not> P p (the (get_image s (pl_image p)))) (placements s) \<and>
    (\<forall>k im. get_image s' k = Some im \<longrightarrow> (\<exists>im0. get_image s k = Some im0 \<and> im_id im = im_id im0) \<and>
       (r = Unreferenced \<longrightarrow> im_refs im \<noteq> 0)))"
proof -
  have core: "store_core s" using ok by (simp add: store_ok_def)
  have tame: "tame (keep_unless P) p im" if "p \<in> set (placements s)" for p im
    using that core by (intro tame_keep_unless) (simp add: store_core_def)
  have only_id: "keep_unless P p im = keep_unless P p im'" if "im_id im = im_id im'" for p im im'
    using assms(2) [OF that] by (simp add: keep_unless_def)
  have stays: "filter (\<lambda>p. \<not> P p (the (get_image s (pl_image p)))) (placements s) =
      List.map_filter (stays (keep_unless P) s) (placements s)"
    by (rule stays_keep_unless [OF core assms(2), symmetric])
  show ?thesis unfolding stays by (rule remove_where_ok [OF ok tame only_id])
qed

section \<open>Geometry stays in range\<close>

lemma span_defs: "MAX_SPAN = 8192" "MAX_PLACEMENTS = 8192" by (simp_all add: MAX_SPAN_def MAX_PLACEMENTS_def)

lemma umul_span: "n \<le> MAX_SPAN \<Longrightarrow> m < 2 ^ 16 \<Longrightarrow> umul n m = Some (n * m)"
  using mult_mono [of n 8192 m "2 ^ 16"] by (simp add: umul_def checked_u32_def span_defs)

lemma umul_span': "n \<le> MAX_SPAN \<Longrightarrow> m < 2 ^ 16 \<Longrightarrow> umul m n = Some (n * m)"
  using umul_span [of n m] by (simp add: umul_def mult.commute)

lemma span_add: "n \<le> MAX_SPAN \<Longrightarrow> m < 2 ^ 16 \<Longrightarrow> k < 2 ^ 16 \<Longrightarrow> checked_u32 (n * m + k) = Some (n * m + k)"
  using mult_mono [of n 8192 m "2 ^ 16"] by (simp add: checked_u32_def span_defs)

lemma clamp_span_range [simp]: "Suc 0 \<le> clamp_span n" "0 < clamp_span n" "clamp_span n \<le> MAX_SPAN"
  by (simp_all add: clamp_span_def span_defs)

definition geometry_ok :: "'f placement \<Rightarrow> bool" where
  "geometry_ok p \<longleftrightarrow> pl_cols p \<le> MAX_SPAN \<and> pl_rows p \<le> MAX_SPAN \<and> pl_cell_x p < 2 ^ 16 \<and> pl_cell_y p < 2 ^ 16"

lemma geometry_of_placement: "placement_ok p \<Longrightarrow> geometry_ok p"
  by (simp add: placement_ok_def geometry_ok_def)

lemma fit_ok:
  assumes "pixels_ok cell" "geometry_ok p"
  shows "returns (fit F cell p) (\<lambda>q. placement_ok q \<and> pl_key q = pl_key p \<and> pl_image q = pl_image p \<and>
    pl_id q = pl_id p \<and> is_virtual q = is_virtual p \<and> pl_row q = pl_row p \<and> pl_col q = pl_col p \<and>
    pl_cols q = pl_cols p \<and> pl_rows q = pl_rows p \<and> pl_z q = pl_z p)"
proof -
  have "umul (pl_rows p) (px_height cell) = Some (pl_rows p * px_height cell)"
    "umul (pl_cols p) (px_width cell) = Some (pl_cols p * px_width cell)"
    "checked_u32 (pl_rows p * px_height cell + pl_cell_y p) = Some (pl_rows p * px_height cell + pl_cell_y p)"
    "checked_u32 (pl_cols p * px_width cell + pl_cell_x p) = Some (pl_cols p * px_width cell + pl_cell_x p)"
    using assms unfolding pixels_ok_def geometry_ok_def by (blast intro: umul_span span_add)+
  moreover have "placement_ok (p\<lparr>eff_cols := clamp_span c, eff_rows := clamp_span r\<rparr>)" for c r
    using assms(2) by (simp add: placement_ok_def geometry_ok_def)
  ultimately show ?thesis unfolding fit_def Let_def by simp
qed

lemma dest_size_ok:
  assumes "pixels_ok cell" "geometry_ok p"
  shows "\<exists>w h. dest_size F cell p = Some (w, h)"
  using assms by (simp add: dest_size_def Let_def pixels_ok_def geometry_ok_def umul_span)

lemma vertical_scale_ok: "pixels_ok cell \<Longrightarrow> geometry_ok p \<Longrightarrow> \<exists>v. vertical_scale F cell p = Some v"
  using dest_size_ok [of cell p F] by (auto simp: vertical_scale_def)

lemma same_geometry_ok:
  assumes "pixels_ok cell" "geometry_ok p" "geometry_ok q"
  shows "\<exists>b. same_geometry F cell p q = Some b"
  using dest_size_ok [OF assms(1,2), of F] dest_size_ok [OF assms(1,3), of F] by (auto simp: same_geometry_def)

lemma sat_i32_le: "- (2 ^ 31) \<le> n \<Longrightarrow> sat_i32 n \<le> n"
  by (simp add: sat_i32_def)

lemma sat_i32_ge: "- (2 ^ 31) \<le> sat_i32 n"
  by (simp add: sat_i32_def)

lemma end_row_le: "- (2 ^ 31) \<le> pl_row p \<Longrightarrow> end_row p \<le> pl_row p + int (eff_rows p)"
  by (simp add: end_row_def sat_i32_le)

lemma scroll_in_region_ok:
  assumes cell: "pixels_ok cell" and p: "placement_ok p"
  shows "returns (scroll_in_region F cell sc delta p) (\<lambda>(gone, q). placement_ok q \<and>
    is_virtual q = is_virtual p \<and> pl_image q = pl_image p \<and> pl_key q = pl_key p)"
proof -
  define q where "q = p\<lparr>pl_row := sat_i32 (pl_row p + delta)\<rparr>"
  have q: "placement_ok q" "is_virtual q = is_virtual p" "pl_image q = pl_image p" "pl_key q = pl_key p"
    using p by (auto simp: q_def placement_ok_def)
  obtain scale where scale: "vertical_scale F cell q = Some scale"
    using vertical_scale_ok [OF cell geometry_of_placement [OF q(1)]] by blast
  have row: "- (2 ^ 31) \<le> pl_row q" using sat_i32_ge [of "pl_row p + delta"] by (simp add: q_def)
  have fin: "returns (scroll_in_region F cell sc delta p) R" if
    "\<not> (pl_row p < gs_top sc \<or> gs_end sc - 1 < end_row p - 1) \<Longrightarrow> \<not> (end_row q \<le> gs_top sc \<or> gs_end sc - 1 < pl_row q) \<Longrightarrow>
      returns (scroll_in_region F cell sc delta p) R" "\<And>b. R (b, q)" "R (False, p)" for R
  proof (cases "pl_row p < gs_top sc \<or> gs_end sc - 1 < end_row p - 1")
    case True
    then show ?thesis using that(3) by (auto simp: scroll_in_region_def Let_def)
  next
    case False
    then show ?thesis
      using that(1) [OF False] that(2) by (cases "end_row q \<le> gs_top sc \<or> gs_end sc - 1 < pl_row q")
        (auto simp: scroll_in_region_def Let_def simp flip: q_def)
  qed
  show ?thesis
  proof (rule fin)
    assume inside: "\<not> (pl_row p < gs_top sc \<or> gs_end sc - 1 < end_row p - 1)"
      "\<not> (end_row q \<le> gs_top sc \<or> gs_end sc - 1 < pl_row q)"
    have top: "nat (gs_top sc - pl_row q) < eff_rows q" if "pl_row q < gs_top sc"
      using inside end_row_le [OF row] that by linarith
    have bottom: "nat (end_row q - 1 - (gs_end sc - 1)) < eff_rows q" if "gs_end sc - 1 < end_row q - 1"
      using inside end_row_le [OF row] that by linarith
    have px: "px_height cell < 2 ^ 16" using cell by (simp add: pixels_ok_def)
    have eff: "n < eff_rows q \<Longrightarrow> n \<le> MAX_SPAN" for n using q(1) by (simp add: placement_ok_def)
    have rows: "pl_rows q \<noteq> 0 \<Longrightarrow> \<exists>r. usub (pl_rows q) (min n (pl_rows q - 1)) = Some r \<and> r \<le> MAX_SPAN" for n
      using q(1) by (auto simp: placement_ok_def le_diff_conv)
    show "returns (scroll_in_region F cell sc delta p) (\<lambda>(gone, q). placement_ok q \<and>
      is_virtual q = is_virtual p \<and> pl_image q = pl_image p \<and> pl_key q = pl_key p)"
    proof (cases "pl_row q < gs_top sc")
      case True
      let ?c = "nat (gs_top sc - pl_row q)"
      have "umul (px_height cell) ?c = Some (?c * px_height cell)"
        using top [OF True] eff px by (simp add: umul_span')
      then show ?thesis
        using inside True scale top [OF True] rows [of ?c] q
        by (auto simp: scroll_in_region_def Let_def placement_ok_def simp flip: q_def)
    next
      case False
      show ?thesis
      proof (cases "gs_end sc - 1 < end_row q - 1")
        case True
        let ?c = "nat (end_row q - 1 - (gs_end sc - 1))"
        have "umul (px_height cell) (eff_rows q - ?c) = Some ((eff_rows q - ?c) * px_height cell)"
          using q(1) px by (intro umul_span') (auto simp: placement_ok_def)
        then show ?thesis
          using inside True False scale bottom [OF True] rows [of ?c] q
          by (auto simp: scroll_in_region_def Let_def placement_ok_def simp flip: q_def)
      next
        case F: False
        then show ?thesis
          using inside False scale q by (auto simp: scroll_in_region_def Let_def simp flip: q_def)
      qed
    qed
  qed (use q p in auto)
qed

section \<open>Every operation keeps the store well-formed\<close>

lemma store_core_keys: "store_core s \<Longrightarrow> distinct (map fst (images s))"
  by (simp add: store_core_def keys_sorted_distinct)

lemma store_core_image:
  "store_core s \<Longrightarrow> get_image s k = Some im \<Longrightarrow> im_refs im = refs_of (placements s) k \<and> k \<le> last_key s"
  by (simp add: store_core_def)

lemma store_core_placement:
  "store_core s \<Longrightarrow> p \<in> set (placements s) \<Longrightarrow>
     get_image s (pl_image p) \<noteq> None \<and> placement_ok p \<and> pl_key p \<le> last_key s"
  by (simp add: store_core_def)

lemma placement_ok_key [simp]: "placement_ok (p\<lparr>pl_key := n\<rparr>) = placement_ok p"
  by (simp add: placement_ok_def)

text \<open>Touching an image: a field of it that the invariant does not read.\<close>

lemma touch_core:
  assumes core: "store_core s"
    and f: "\<And>im. im_id (f im) = im_id im" "\<And>im. im_refs (f im) = im_refs im" "\<And>im. image_bytes (f im) = image_bytes im"
  shows "store_core (s\<lparr>images := bt_modify k f (images s)\<rparr>)"
proof -
  let ?s = "s\<lparr>images := bt_modify k f (images s)\<rparr>"
  have get: "get_image ?s j = map_option (\<lambda>v. if j = k then f v else v) (get_image s j)" for j
    by (simp add: get_image_def)
  have "(\<Sum>(k, im) \<leftarrow> images ?s. image_bytes im) = (\<Sum>(k, im) \<leftarrow> images s. image_bytes im)"
    using sum_bt_modify [of image_bytes f k "images s"] f(3) by simp
  moreover have "key_by_id ?s = key_by_id s" by (rule ext) (simp add: key_by_id_def)
  moreover have "(\<exists>im. get_image ?s j = Some im \<and> im_id im = i) \<longleftrightarrow> (\<exists>im. get_image s j = Some im \<and> im_id im = i)" for i j
    using f(1) by (cases "get_image s j") (auto simp: get)
  moreover have "im_refs im = refs_of (placements ?s) j \<and> j \<le> last_key ?s" if "get_image ?s j = Some im" for j im
    using that core f(2) by (cases "get_image s j") (auto simp: get store_core_def)
  moreover have "get_image ?s (pl_image p) \<noteq> None" if "p \<in> set (placements s)" for p
    using that core by (auto simp: get store_core_def)
  ultimately show ?thesis using core unfolding store_core_def by auto
qed

lemma touch_unmatched:
  "unmatched s \<Longrightarrow> (\<And>im. im_matched (f im) = im_matched im) \<Longrightarrow> unmatched (s\<lparr>images := bt_modify k f (images s)\<rparr>)"
  by (auto simp: unmatched_def get_image_def split: if_splits)

lemma store_core_clock [simp]: "store_core (s\<lparr>clock := n\<rparr>) = store_core s"
  by (simp add: store_core_def get_image_def key_by_id_def)

lemma unmatched_clock [simp]: "unmatched (s\<lparr>clock := n\<rparr>) = unmatched s"
  by (simp add: unmatched_def get_image_def)

lemma store_ok_clock [simp]: "store_ok (s\<lparr>clock := n\<rparr>) = store_ok s"
  by (simp add: store_ok_def)

text \<open>Adding a placement, and moving one that is already there.\<close>

definition add_placement :: "'f placement \<Rightarrow> 'f image_store \<Rightarrow> 'f image_store" where
  "add_placement p s = s\<lparr>last_key := last_key s + 1, virtual_count := virtual_count s + of_bool (is_virtual p),
     placements := placements s @ [p\<lparr>pl_key := last_key s + 1\<rparr>],
     images := bt_modify (pl_image p) (\<lambda>im. im\<lparr>im_refs := im_refs im + 1\<rparr>) (images s)\<rparr>"

lemma add_placement_core:
  assumes core: "store_core s" and p: "placement_ok p" and im: "get_image s (pl_image p) \<noteq> None"
  shows "store_core (add_placement p s)"
proof -
  let ?s = "add_placement p s"
  have get: "get_image ?s j = map_option (\<lambda>im. if j = pl_image p then im\<lparr>im_refs := Suc (im_refs im)\<rparr> else im) (get_image s j)" for j
    by (simp add: add_placement_def get_image_def)
  have sel: "placements ?s = placements s @ [p\<lparr>pl_key := last_key s + 1\<rparr>]" "last_key ?s = last_key s + 1"
    by (simp_all add: add_placement_def)
  have ids: "key_by_id ?s i = key_by_id s i" for i by (simp add: add_placement_def key_by_id_def)
  have addr: "(\<exists>im. get_image ?s j = Some im \<and> im_id im = i) \<longleftrightarrow> (\<exists>im. get_image s j = Some im \<and> im_id im = i)" for i j
    by (cases "get_image s j") (auto simp: get)
  have sum: "(\<Sum>(k, im) \<leftarrow> images ?s. image_bytes im) = (\<Sum>(k, im) \<leftarrow> images s. image_bytes im)"
    unfolding add_placement_def by (simp, rule sum_bt_modify) (simp add: image_bytes_def)
  show ?thesis
    unfolding store_core_def ids addr
  proof (intro conjI ballI allI impI)
    fix j im assume "get_image ?s j = Some im"
    then obtain im0 where im0: "get_image s j = Some im0" "im_refs im = im_refs im0 + of_bool (j = pl_image p)"
      by (cases "get_image s j") (auto simp: get)
    have refs: "refs_of (placements ?s) j = refs_of (placements s) j + of_bool (j = pl_image p)"
      by (simp add: add_placement_def refs_of_def)
    show "im_refs im = refs_of (placements ?s) j" using store_core_image [OF core im0(1)] im0(2) refs by simp
    show "j \<le> last_key ?s" using store_core_image [OF core im0(1)] by (simp add: add_placement_def)
  next
    show "get_image ?s (pl_image q) \<noteq> None" "placement_ok q" "pl_key q \<le> last_key ?s" if "q \<in> set (placements ?s)" for q
      using that store_core_placement [OF core, of q] p im unfolding sel by (auto simp: get)
    have "last_key s + 1 \<notin> set (map pl_key (placements s))" using store_core_placement [OF core] by fastforce
    then show "distinct (map pl_key (placements ?s))"
      using core by (simp add: store_core_def add_placement_def)
  qed (use core sum in \<open>auto simp: store_core_def add_placement_def\<close>)
qed

definition move_placement :: "nat \<Rightarrow> 'f placement \<Rightarrow> 'f image_store \<Rightarrow> 'f image_store" where
  "move_placement i p s = s\<lparr>virtual_count := virtual_count s - of_bool (is_virtual (placements s ! i)) + of_bool (is_virtual p),
     placements := (placements s)[i := p\<lparr>pl_key := pl_key (placements s ! i)\<rparr>]\<rparr>"

lemma count_update:
  "i < length xs \<Longrightarrow> length (filter P (xs[i := y])) + of_bool (P (xs ! i)) = length (filter P xs) + of_bool (P y)"
proof (induction xs arbitrary: i)
  case (Cons a xs)
  show ?case
  proof (cases i)
    case (Suc j)
    then show ?thesis using Cons.IH [of j] Cons.prems by simp
  qed simp
qed simp

lemma move_placement_core:
  assumes core: "store_core s" and p: "placement_ok p" and i: "i < length (placements s)"
    and same: "pl_image (placements s ! i) = pl_image p"
  shows "store_core (move_placement i p s)"
    "of_bool (is_virtual (placements s ! i)) \<le> virtual_count s"
proof -
  let ?s = "move_placement i p s" and ?q = "p\<lparr>pl_key := pl_key (placements s ! i)\<rparr>"
  have get: "get_image ?s j = get_image s j" for j by (simp add: move_placement_def get_image_def)
  have ids: "key_by_id ?s j = key_by_id s j" for j by (simp add: move_placement_def key_by_id_def)
  have virt: "length (filter is_virtual (placements ?s)) + of_bool (is_virtual (placements s ! i)) =
      length (filter is_virtual (placements s)) + of_bool (is_virtual p)"
    using count_update [OF i, of is_virtual ?q] by (simp add: move_placement_def)
  have old: "placements s ! i \<in> set (placements s)" using i by simp
  show le: "of_bool (is_virtual (placements s ! i)) \<le> virtual_count s"
  proof (cases "is_virtual (placements s ! i)")
    case True
    then have "filter is_virtual (placements s) \<noteq> []" using old by (auto simp: filter_empty_conv)
    then show ?thesis using core True by (cases "filter is_virtual (placements s)") (auto simp: store_core_def)
  qed simp
  have refs: "refs_of (placements ?s) j = refs_of (placements s) j" for j
    using count_update [OF i, of "\<lambda>p. pl_image p = j" ?q] same by (simp add: refs_of_def move_placement_def)
  have keys: "map pl_key (placements ?s) = map pl_key (placements s)"
    using i by (simp add: move_placement_def map_update list_update_same_conv)
  show "store_core ?s"
    unfolding store_core_def get ids refs keys
  proof (intro conjI ballI allI impI)
    show "get_image s (pl_image q) \<noteq> None" "placement_ok q" "pl_key q \<le> last_key ?s" if "q \<in> set (placements ?s)" for q
    proof -
      have "q \<in> insert ?q (set (placements s))"
        using that set_update_subset_insert [of "placements s" i ?q] by (auto simp: move_placement_def)
      then show "get_image s (pl_image q) \<noteq> None" "placement_ok q" "pl_key q \<le> last_key ?s"
        using store_core_placement [OF core, of q] store_core_placement [OF core old] p same
        by (auto simp: move_placement_def)
    qed
    show "virtual_count ?s = length (filter is_virtual (placements ?s))"
      using virt le core by (simp add: move_placement_def store_core_def)
  qed (use core in \<open>auto simp: store_core_def move_placement_def\<close>)
qed

lemma find_index_Some: "find_index P xs = Some i \<Longrightarrow> i < length xs \<and> P (xs ! i)"
  by (induction xs arbitrary: i) (auto simp: find_index_def split: if_splits)

lemma new_placement_ok:
  assumes "pixels_ok cell"
  shows "returns (new_placement F k im c pos cell) (\<lambda>p. placement_ok p \<and> pl_image p = k \<and>
    (is_virtual p \<longleftrightarrow> unicode c = 1) \<and> (\<not> is_virtual p \<longrightarrow> (pl_row p, pl_col p) = pos))"
proof -
  have px: "usub (px_width cell) 1 = Some (px_width cell - 1)" "usub (px_height cell) 1 = Some (px_height cell - 1)"
    "px_width cell - 1 < 2 ^ 16" "px_height cell - 1 < 2 ^ 16"
    using assms by (auto simp: pixels_ok_def)
  show ?thesis
    unfolding new_placement_def Let_def px returns_bind returns_Some
    by (rule returns_mono [OF fit_ok [OF assms]]; (use px(3,4) in \<open>auto simp: geometry_ok_def min_def\<close>)?)
qed

text \<open>The store may hold one placement too many until \<open>put\<close> drops the oldest.\<close>

definition nearly_ok :: "'f image_store \<Rightarrow> bool" where
  "nearly_ok s \<longleftrightarrow> store_core s \<and> unmatched s \<and> length (placements s) \<le> MAX_PLACEMENTS + 1"

lemma image_place_ok:
  assumes s: "store_ok s" and p: "placement_ok p" "pl_image p = k" and im: "get_image s k \<noteq> None"
  shows "returns (image_place k p s) (\<lambda>(q, s'). nearly_ok s' \<and> q \<in> set (placements s') \<and>
    (\<exists>n. q = p\<lparr>pl_key := n\<rparr>) \<and> last_key s \<le> last_key s' \<and> image_sub s s' \<and>
    (MAX_PLACEMENTS < length (placements s') \<longrightarrow> last (placements s') = q))"
proof -
  have core: "store_core s" and un: "unmatched s" and len: "length (placements s) \<le> MAX_PLACEMENTS"
    using s by (auto simp: store_ok_def)
  define found where "found = (if pl_id p \<noteq> 0
    then find_index (\<lambda>q. pl_image q = k \<and> pl_id q = pl_id p) (placements s) else None)"
  show ?thesis
  proof (cases found)
    case None
    have "image_place k p s = Some (p\<lparr>pl_key := last_key s + 1\<rparr>, add_placement p s)"
      unfolding image_place_def found_def [symmetric] None
      by (simp add: next_key_def add_placement_def Let_def p(2))
    moreover have "unmatched (add_placement p s)"
      using un by (auto simp: unmatched_def get_image_def add_placement_def split: if_splits)
    moreover have "store_core (add_placement p s)" using add_placement_core [OF core p(1)] im p(2) by simp
    moreover have "image_sub s (add_placement p s)"
      by (rule image_sub_modify [of "\<lambda>im. im\<lparr>im_refs := im_refs im + 1\<rparr>" _ "pl_image p"]) (simp_all add: add_placement_def)
    ultimately show ?thesis using len by (auto simp: nearly_ok_def add_placement_def)
  next
    case (Some i)
    then have i: "i < length (placements s)" "pl_image (placements s ! i) = pl_image p"
      using find_index_Some p(2) by (fastforce simp: found_def split: if_splits)+
    note move = move_placement_core [OF core p(1) i]
    have "image_place k p s = Some (p\<lparr>pl_key := pl_key (placements s ! i)\<rparr>, move_placement i p s)"
      unfolding image_place_def found_def [symmetric] Some
      using i(1) move(2) by (simp add: move_placement_def Let_def)
    moreover have "unmatched (move_placement i p s)"
      using un by (simp add: unmatched_def get_image_def move_placement_def)
    moreover have "p\<lparr>pl_key := pl_key (placements s ! i)\<rparr> \<in> set (placements (move_placement i p s))"
      using i(1) by (simp add: move_placement_def set_update_memI)
    moreover have "image_sub s (move_placement i p s)" by (rule image_sub_images) (simp add: move_placement_def)
    ultimately show ?thesis using move(1) len by (auto simp: nearly_ok_def move_placement_def)
  qed
qed

text \<open>A closure that only selects, and leaves what stays as it is.\<close>

lemma stays_select:
  assumes "store_core s" "\<And>p im. p \<in> set (placements s) \<Longrightarrow> \<exists>b. remove p im = Some (b, p)"
  shows "List.map_filter (stays remove s) (placements s) =
    filter (\<lambda>p. \<not> fst (the (remove p (the (get_image s (pl_image p)))))) (placements s)"
proof (rule map_filter_filter)
  fix p assume p: "p \<in> set (placements s)"
  then obtain im where "get_image s (pl_image p) = Some im" using assms(1) by (auto simp: store_core_def)
  with assms(2) [OF p, of im] show "stays remove s p =
      (if fst (the (remove p (the (get_image s (pl_image p))))) then None else Some p)"
    by (auto simp: stays_def)
qed

lemma remove_select:
  assumes core: "store_core s" and select: "\<And>p im. p \<in> set (placements s) \<Longrightarrow> \<exists>b. remove p im = Some (b, p)"
    and only_id: "\<And>p im im'. im_id im = im_id im' \<Longrightarrow> remove p im = remove p im'"
  shows "returns (remove_where remove r s) (\<lambda>(b, s'). store_core s' \<and> unmatched s' \<and> last_key s' = last_key s \<and>
    image_sub s s' \<and> placements s' = filter (\<lambda>p. \<not> fst (the (remove p (the (get_image s (pl_image p)))))) (placements s))"
proof -
  have "tame remove p im" if p: "p \<in> set (placements s)" for p im
    using select [OF p, of im] store_core_placement [OF core p] by (auto simp: tame_def)
  from remove_where_spec [OF core this only_id, where r = r] stays_select [OF core select]
  show ?thesis by (auto simp: returns_iff image_sub_def)
qed

lemma hidden_ok:
  assumes s: "nearly_ok s" and q: "q \<in> set (placements s)" and cell: "pixels_ok cell"
  shows "returns (remove_where (hidden_by F cell k q) Unaddressable s) (\<lambda>(b, s'). nearly_ok s' \<and>
    last_key s' = last_key s \<and> image_sub s s' \<and> q \<in> set (placements s') \<and> (\<exists>P. P q \<and> placements s' = filter P (placements s)))"
proof -
  have core: "store_core s" using s by (simp add: nearly_ok_def)
  have geo: "p \<in> set (placements s) \<Longrightarrow> geometry_ok p" for p
    using store_core_placement [OF core] geometry_of_placement by blast
  have select: "\<exists>b. hidden_by F cell k q p im = Some (b, p)" if "p \<in> set (placements s)" for p im
    using same_geometry_ok [OF cell geo [OF that] geo [OF q], of F] by (auto simp: hidden_by_def)
  have only_id: "hidden_by F cell k q p im = hidden_by F cell k q p im'" if "im_id im = im_id im'" for p im im'
    using that by (simp add: hidden_by_def)
  obtain b s' where s': "remove_where (hidden_by F cell k q) Unaddressable s = Some (b, s')"
    "store_core s'" "unmatched s'" "last_key s' = last_key s" "image_sub s s'"
    "placements s' = filter (\<lambda>p. \<not> fst (the (hidden_by F cell k q p (the (get_image s (pl_image p)))))) (placements s)"
    using remove_select [where remove = "hidden_by F cell k q" and r = Unaddressable, OF core select only_id] by (auto simp: returns_iff)
  have self: "\<not> fst (the (hidden_by F cell k q q (the (get_image s (pl_image q)))))" by (simp add: hidden_by_def)
  then have "q \<in> set (placements s')" using q s'(6) by simp
  moreover have "length (placements s') \<le> MAX_PLACEMENTS + 1"
    unfolding s'(6) by (rule le_trans [OF length_filter_le]) (use s in \<open>simp add: nearly_ok_def\<close>)
  ultimately have "nearly_ok s' \<and> q \<in> set (placements s')" using s'(2,3) by (simp add: nearly_ok_def)
  then show ?thesis using s'(1,4,5,6) self by auto
qed

lemma drop_oldest_ok:
  assumes s: "nearly_ok s" and q: "q \<in> set (placements s)"
    and last: "MAX_PLACEMENTS < length (placements s) \<Longrightarrow> last (placements s) = q"
  shows "returns (drop_oldest s) (\<lambda>s'. store_ok s' \<and> last_key s' = last_key s \<and> image_sub s s' \<and> q \<in> set (placements s'))"
proof (cases "MAX_PLACEMENTS < length (placements s)")
  case False
  then show ?thesis using s q by (simp add: drop_oldest_def nearly_ok_def store_ok_def image_sub_images)
next
  case True
  obtain old ps where ps: "placements s = old # ps" "ps \<noteq> []"
    using True by (cases "placements s") (auto simp: span_defs, fastforce)
  have core: "store_core s" using s by (simp add: nearly_ok_def)
  have dist: "pl_key old \<notin> pl_key ` set ps" using core ps by (auto simp: store_core_def)
  have q': "q \<in> set ps" using last [OF True] ps by auto
  let ?remove = "\<lambda>p (im :: image). Some (pl_key p = pl_key old, p)"
  have "filter (\<lambda>p. pl_key p \<noteq> pl_key old) (placements s) = ps"
    using dist ps(1) by (auto simp: filter_id_conv image_iff)
  then have "returns (remove_where ?remove Unaddressable s) (\<lambda>(b, s'). store_core s' \<and> unmatched s' \<and>
      last_key s' = last_key s \<and> image_sub s s' \<and> placements s' = ps)"
    using remove_select [OF core, of ?remove Unaddressable] by simp
  then show ?thesis
    using True ps(1) q' s by (auto simp: drop_oldest_def returns_iff store_ok_def nearly_ok_def)
qed

lemma image_put_ok:
  assumes s: "store_ok s" and cell: "pixels_ok cell"
  shows "returns (image_put F k c pos cell s) (\<lambda>(r, s'). store_ok s' \<and> last_key s \<le> last_key s' \<and> image_sub s s' \<and>
    (case get_image s k of None \<Rightarrow> r = None \<and> placements s' = placements s
     | Some im \<Rightarrow> \<exists>q \<in> set (placements s'). pl_image q = k \<and> r = Some (eff_cols q, eff_rows q) \<and>
         (is_virtual q \<longleftrightarrow> unicode c = 1) \<and> (\<not> is_virtual q \<longrightarrow> (pl_row q, pl_col q) = pos)))"
proof (cases "get_image s k")
  case None
  then show ?thesis using s by (simp add: image_put_def tick_def get_image_def image_sub_def)
next
  case (Some im)
  define s1 where "s1 = s\<lparr>clock := Suc (clock s), images := bt_modify k (\<lambda>im. im\<lparr>im_used := Suc (clock s)\<rparr>) (images s)\<rparr>"
  have s1: "store_ok s1"
    using touch_core [of "s\<lparr>clock := Suc (clock s)\<rparr>" "\<lambda>im. im\<lparr>im_used := Suc (clock s)\<rparr>" k]
      touch_unmatched [of "s\<lparr>clock := Suc (clock s)\<rparr>" "\<lambda>im. im\<lparr>im_used := Suc (clock s)\<rparr>" k] s
    by (simp add: store_ok_def s1_def image_bytes_def)
  have im1: "get_image s1 k \<noteq> None" using Some by (simp add: s1_def get_image_def)
  obtain p where p: "new_placement F k im c pos cell = Some p" "placement_ok p" "pl_image p = k"
    "is_virtual p \<longleftrightarrow> unicode c = 1" "\<not> is_virtual p \<longrightarrow> (pl_row p, pl_col p) = pos"
    using new_placement_ok [OF cell, of F k im c pos] by (auto simp: returns_iff)
  obtain q s2 n where q: "image_place k p s1 = Some (q, s2)" "nearly_ok s2" "q \<in> set (placements s2)"
    "q = p\<lparr>pl_key := n\<rparr>" "last_key s1 \<le> last_key s2" "image_sub s1 s2" "MAX_PLACEMENTS < length (placements s2) \<longrightarrow> last (placements s2) = q"
    using image_place_ok [OF s1 p(2,3) im1] by (auto simp: returns_iff)
  define hide where "hide = (if im_opaque im \<and> \<not> is_virtual q
    then map_option snd (remove_where (hidden_by F cell k q) Unaddressable s2) else Some s2)"
  have "returns hide (\<lambda>s3. nearly_ok s3 \<and> last_key s3 = last_key s2 \<and> image_sub s2 s3 \<and> q \<in> set (placements s3) \<and>
      (MAX_PLACEMENTS < length (placements s3) \<longrightarrow> last (placements s3) = q))"
  proof (cases "im_opaque im \<and> \<not> is_virtual q")
    case True
    obtain b s3 P where s3: "remove_where (hidden_by F cell k q) Unaddressable s2 = Some (b, s3)" "nearly_ok s3"
      "last_key s3 = last_key s2" "image_sub s2 s3" "q \<in> set (placements s3)" "P q"
      "placements s3 = filter P (placements s2)"
      using hidden_ok [OF q(2,3) cell, of F k] by (auto simp: returns_iff)
    have "last (placements s3) = q" if "MAX_PLACEMENTS < length (placements s3)"
    proof -
      have "MAX_PLACEMENTS < length (placements s2)"
        using that length_filter_le [of P "placements s2"] unfolding s3(7) by linarith
      then have "last (placements s2) = q" "placements s2 \<noteq> []" using q(3,7) by auto
      then show ?thesis
        using s3(6,7) by (cases "placements s2" rule: rev_cases) auto
    qed
    then show ?thesis using True s3 by (simp add: hide_def)
  next
    case False
    then have "hide = Some s2" by (simp only: hide_def if_False)
    then show ?thesis using q by (simp add: image_sub_images)
  qed
  then obtain s3 where s3: "hide = Some s3" "nearly_ok s3" "last_key s3 = last_key s2" "q \<in> set (placements s3)"
    "image_sub s2 s3"
    "MAX_PLACEMENTS < length (placements s3) \<longrightarrow> last (placements s3) = q"
    by (auto simp: returns_iff)
  obtain s4 where s4: "drop_oldest s3 = Some s4" "store_ok s4" "last_key s4 = last_key s3" "q \<in> set (placements s4)"
    "image_sub s3 s4"
    using drop_oldest_ok [OF s3(2,4)] s3(6) by (auto simp: returns_iff)
  have get: "get_image (s\<lparr>clock := Suc (clock s)\<rparr>) k = Some im" using Some by (simp add: get_image_def)
  have "image_put F k c pos cell s = Some (Some (eff_cols q, eff_rows q), s4)"
    using get p(1) q(1) s3(1) s4(1)
    by (simp add: image_put_def tick_def Let_def flip: s1_def hide_def)
  moreover have "last_key s \<le> last_key s4" using q(5) s3(3) s4(3) by (simp add: s1_def)
  moreover have "pl_image q = k \<and> (is_virtual q \<longleftrightarrow> unicode c = 1) \<and> (\<not> is_virtual q \<longrightarrow> (pl_row q, pl_col q) = pos)"
    using q(4) p(3-5) by simp
  moreover have "image_sub s s1"
    by (rule image_sub_modify [of "\<lambda>im. im\<lparr>im_used := Suc (clock s)\<rparr>" _ k]) (simp_all add: s1_def)
  then have "image_sub s s4" using q(6) s3(5) s4(5) image_sub_trans by blast
  ultimately show ?thesis using Some s4(2,4) by (simp only: returns_Some prod.case option.case) blast
qed

text \<open>Storing an image under an id nothing uses, and taking images away.\<close>

lemma add_image_core:
  assumes core: "store_core s" and fresh: "im_id im \<noteq> 0 \<Longrightarrow> key_by_id s (im_id im) = None" and refs: "im_refs im = 0"
  defines "k \<equiv> last_key s + 1"
  shows "store_core (s\<lparr>last_key := k, stored := stored s + image_bytes im, images := bt_insert k im (images s),
    ids := (if im_id im \<noteq> 0 then bt_insert (im_id im) k (ids s) else ids s)\<rparr>)" (is "store_core ?s")
proof -
  have sorted: "keys_sorted (images s)" "keys_sorted (ids s)" using core by (simp_all add: store_core_def)
  have new: "get_image s k = None"
    using store_core_image [OF core, of k] by (cases "get_image s k") (auto simp: k_def)
  have unused: "refs_of (placements s) k = 0"
    using store_core_placement [OF core] new by (fastforce simp: refs_filter)
  have get: "get_image ?s j = (if j = k then Some im else get_image s j)" for j
    using sorted by (simp add: get_image_def)
  have ids: "key_by_id ?s i = (if im_id im \<noteq> 0 \<and> i = im_id im then Some k else key_by_id s i)" for i
    using sorted by (simp add: key_by_id_def)
  have old: "key_by_id s i = Some j \<longleftrightarrow> i \<noteq> 0 \<and> (\<exists>im. get_image s j = Some im \<and> im_id im = i)" for i j
    using core by (simp add: store_core_def)
  show ?thesis
    unfolding store_core_def
  proof (intro conjI ballI allI impI)
    show "keys_sorted (images ?s)" "keys_sorted (ids ?s)" using sorted by (simp_all add: keys_sorted_bt_insert)
    show "im_refs im' = refs_of (placements ?s) j" "j \<le> last_key ?s" if "get_image ?s j = Some im'" for j im'
      using that store_core_image [OF core, of j im'] refs unused unfolding get
      by (auto simp: k_def split: if_splits)
    show "get_image ?s (pl_image p) \<noteq> None" "placement_ok p" "pl_key p \<le> last_key ?s" if "p \<in> set (placements ?s)" for p
      using that store_core_placement [OF core, of p] unfolding get by (auto simp: k_def)
    show "stored ?s = (\<Sum>(k, im) \<leftarrow> images ?s. image_bytes im)"
      using sum_bt_insert [of "images s" k image_bytes im] new core by (simp add: get_image_def store_core_def)
    show "key_by_id ?s i = Some j \<longleftrightarrow> i \<noteq> 0 \<and> (\<exists>im. get_image ?s j = Some im \<and> im_id im = i)" for i j
      using old [of i j] old [of i k] new fresh unfolding ids get by (auto split: if_splits)
  qed (use core in \<open>simp_all add: store_core_def\<close>)
qed

lemma insert_image_ok:
  assumes s: "store_ok s" and fresh: "i \<noteq> 0 \<Longrightarrow> key_by_id s i = None"
  shows "returns (insert_image uid i num dim px op s) (\<lambda>(k, s'). store_ok s' \<and> k = last_key s + 1 \<and>
    last_key s' = k \<and> placements s' = placements s \<and> key_by_id s' i = (if i = 0 then None else Some k) \<and>
    (\<forall>im. get_image s' k = Some im \<longrightarrow> im_id im = i \<and> (im_width im, im_height im) = dim \<and> im_pixels im = px) \<and>
    get_image s' k \<noteq> None \<and>
    (\<forall>j. j \<noteq> k \<longrightarrow> get_image s' j = (case get_image s j of None \<Rightarrow> None
        | Some im \<Rightarrow> if im_refs im = 0 \<and> im_id im = 0 then None else Some im)))"
proof -
  have core: "store_core s" and un: "unmatched s" and len: "length (placements s) \<le> MAX_PLACEMENTS"
    using s by (auto simp: store_ok_def)
  obtain b s1 where s1: "reap_images Unaddressable s = Some (b, s1)" "store_core s1" "unmatched s1"
    "placements s1 = placements s" "last_key s1 = last_key s"
    "\<forall>k. get_image s1 k = (case get_image s k of None \<Rightarrow> None
        | Some im \<Rightarrow> if reap_free Unaddressable im then None else Some (im\<lparr>im_matched := False\<rparr>))"
    using reap_images_spec [OF core, of Unaddressable] by (auto simp: returns_iff)
  define im where "im = \<lparr>im_uid = uid, im_id = i, im_number = num, im_width = fst dim, im_height = snd dim,
    im_pixels = px, im_opaque = op, im_refs = 0, im_used = clock s1 + 1, im_matched = False\<rparr>"
  let ?k = "last_key s1 + 1"
  define s2 where "s2 = s1\<lparr>last_key := ?k, clock := clock s1 + 1, stored := stored s1 + image_bytes im,
    images := bt_insert ?k im (images s1), ids := (if i \<noteq> 0 then bt_insert i ?k (ids s1) else ids s1)\<rparr>"
  have old: "key_by_id t i = Some j \<longleftrightarrow> i \<noteq> 0 \<and> (\<exists>im. get_image t j = Some im \<and> im_id im = i)"
    if "store_core t" for t :: "'a image_store" and j
    using that by (simp add: store_core_def)
  have fresh1: "key_by_id s1 i = None" if "i \<noteq> 0"
  proof (rule ccontr)
    assume "key_by_id s1 i \<noteq> None"
    then obtain j im where "get_image s1 j = Some im" "im_id im = i" using old [OF s1(2)] by auto
    then have "key_by_id s i = Some j"
      using s1(6) [rule_format, of j] that unfolding old [OF core]
      by (cases "get_image s j") (auto split: if_splits)
    then show False using fresh [OF that] by simp
  qed
  have im: "im_id im = i" "im_refs im = 0" by (simp_all add: im_def)
  let ?t = "s1\<lparr>last_key := ?k, stored := stored s1 + image_bytes im, images := bt_insert ?k im (images s1),
      ids := (if im_id im \<noteq> 0 then bt_insert (im_id im) ?k (ids s1) else ids s1)\<rparr>"
  have "store_core ?t" by (rule add_image_core [OF s1(2)]) (simp_all add: im fresh1)
  moreover have "s2 = ?t\<lparr>clock := clock s1 + 1\<rparr>" by (simp add: s2_def im)
  ultimately have core2: "store_core s2" by (simp only: store_core_clock)
  have sorted: "keys_sorted (images s1)" "keys_sorted (ids s1)" using s1(2) by (simp_all add: store_core_def)
  have get: "get_image s2 j = (if j = ?k then Some im else get_image s1 j)" for j
    using sorted by (simp add: get_image_def s2_def)
  have key: "key_by_id s2 i = (if i = 0 then None else Some ?k)"
    using sorted old [OF s1(2)] by (cases "key_by_id s1 i") (auto simp: key_by_id_def s2_def)
  have un2: "unmatched s2" using s1(3) by (auto simp: unmatched_def get im_def split: if_splits)
  have kept: "get_image s1 j = (case get_image s j of None \<Rightarrow> None
        | Some im \<Rightarrow> if im_refs im = 0 \<and> im_id im = 0 then None else Some im)" for j
    using s1(6) [rule_format, of j] un by (auto simp: reap_free_def unmatched_def split: option.splits)
  have "insert_image uid i num dim px op s = Some (?k, s2)"
    using s1(1) by (simp add: insert_image_def next_key_def tick_def Let_def s2_def im_def)
  moreover have "store_ok s2" using core2 un2 len s1(4) by (simp add: store_ok_def s2_def)
  moreover have "last_key s2 = ?k" "placements s2 = placements s1" by (simp_all add: s2_def)
  moreover have "im_width im = fst dim" "im_height im = snd dim" "im_pixels im = px" by (simp_all add: im_def)
  ultimately show ?thesis using key s1(4,5) kept im by (simp add: get)
qed

lemma set_pixels_ok: "store_ok s \<Longrightarrow> store_ok (snd (set_pixels k px op s))"
  using touch_core [of s "\<lambda>im. im\<lparr>im_pixels := Some px, im_opaque := op\<rparr>" k]
    touch_unmatched [of s "\<lambda>im. im\<lparr>im_pixels := Some px, im_opaque := op\<rparr>" k]
  by (simp add: set_pixels_def store_ok_def image_bytes_def)

lemma unmatched_less: "unmatched s \<Longrightarrow> images s' = filter P (images s) \<Longrightarrow> store_core s \<Longrightarrow> unmatched s'"
  by (auto simp: unmatched_def get_image_def dest!: map_of_SomeD)
    (metis eq_key_imp_eq_value map_of_eq_Some_iff store_core_keys)

lemma remove_image_ok:
  assumes s: "store_ok s"
  shows "returns (remove_image k s) (\<lambda>(b, s'). store_ok s' \<and> last_key s' = last_key s \<and> get_image s' k = None \<and>
    image_sub s s')"
proof (cases "get_image s k")
  case None
  then show ?thesis using s by (simp add: remove_image_def image_sub_images)
next
  case (Some im)
  have core: "store_core s" "unmatched s" and len: "length (placements s) \<le> MAX_PLACEMENTS"
    using s by (auto simp: store_ok_def)
  obtain b s' where s': "remove_image k s = Some (b, s')" "store_core s'" "images s' = bt_remove k (images s)"
    "placements s' = filter (\<lambda>p. pl_image p \<noteq> k) (placements s)" "last_key s' = last_key s"
    using remove_image_spec [OF core(1) Some] by (auto simp: returns_iff)
  moreover have "unmatched s'" using unmatched_less [OF core(2) _ core(1)] s'(3) by (simp add: bt_remove_filter)
  moreover have "length (placements s') \<le> MAX_PLACEMENTS"
    unfolding s'(4) by (rule le_trans [OF length_filter_le len])
  ultimately show ?thesis by (auto simp: store_ok_def get_image_def image_sub_def)
qed

lemma remove_images_ok:
  assumes s: "store_ok s"
  shows "returns (remove_images ks s) (\<lambda>s'. store_ok s' \<and> last_key s' = last_key s \<and>
    images s' = filter (\<lambda>e. fst e \<notin> set ks) (images s) \<and>
    placements s' = filter (\<lambda>p. pl_image p \<notin> set ks) (placements s))"
proof -
  have core: "store_core s" "unmatched s" and len: "length (placements s) \<le> MAX_PLACEMENTS"
    using s by (auto simp: store_ok_def)
  obtain s' where s': "remove_images ks s = Some s'" "store_core s'"
    "images s' = filter (\<lambda>e. fst e \<notin> set ks) (images s)"
    "placements s' = filter (\<lambda>p. pl_image p \<notin> set ks) (placements s)" "last_key s' = last_key s"
    using remove_images_spec [OF core(1), of ks] by (auto simp: returns_iff)
  moreover have "length (placements s') \<le> MAX_PLACEMENTS"
    unfolding s'(4) by (rule le_trans [OF length_filter_le len])
  ultimately show ?thesis using unmatched_less [OF core(2) s'(3) core(1)] by (simp add: store_ok_def)
qed

section \<open>The quota\<close>

lemma min_by_None: "min_by f xs = None \<longleftrightarrow> xs = []"
  by (cases xs) (auto split: option.splits)

lemma min_by_Some: "min_by f xs = Some x \<Longrightarrow> x \<in> set xs \<and> (\<forall>y \<in> set xs. f x \<le> f y)"
proof (induction xs arbitrary: x)
  case (Cons a xs)
  show ?case
  proof (cases "min_by f xs")
    case None
    then show ?thesis using Cons.prems by (simp add: min_by_None)
  next
    case (Some y)
    then show ?thesis using Cons.IH [OF Some] Cons.prems by (auto split: if_splits)
  qed
qed simp

lemma oldest_None: "oldest_image keep s = None \<Longrightarrow> e \<in> set (images s) \<Longrightarrow> Some (fst e) = keep"
  by (fastforce simp: oldest_image_def min_by_None filter_empty_conv)

lemma oldest_Some:
  assumes "oldest_image keep s = Some k"
  shows "\<exists>im. (k, im) \<in> set (images s) \<and> Some k \<noteq> keep \<and>
    (\<forall>e \<in> set (images s). Some (fst e) \<noteq> keep \<longrightarrow> im_used im \<le> im_used (snd e))"
proof -
  obtain im where "min_by (\<lambda>(k, im). im_used im) (filter (\<lambda>(k, im). Some k \<noteq> keep) (images s)) = Some (k, im)"
    using assms by (auto simp: oldest_image_def)
  from min_by_Some [OF this] show ?thesis by fastforce
qed

definition evicted_first :: "nat option \<Rightarrow> (nat \<times> image) list \<Rightarrow> (nat \<times> image) list \<Rightarrow> bool" where
  "evicted_first keep xs ys \<longleftrightarrow> set ys \<subseteq> set xs \<and>
     (\<forall>e \<in> set xs. Some (fst e) = keep \<longrightarrow> e \<in> set ys) \<and>
     (\<forall>e \<in> set xs - set ys. \<forall>e' \<in> set ys. Some (fst e') \<noteq> keep \<longrightarrow> im_used (snd e) \<le> im_used (snd e'))"

lemma evict_loop_spec:
  assumes "store_ok s"
  shows "returns (evict_loop keep s) (\<lambda>s'. store_ok s' \<and> last_key s' = last_key s \<and>
    evicted_first keep (images s) (images s') \<and>
    (over_quota s' \<longrightarrow> (\<forall>e \<in> set (images s'). Some (fst e) = keep)))"
  using assms
proof (induction "length (images s)" arbitrary: s rule: less_induct)
  case less
  have stop: "evicted_first keep xs xs" for xs by (simp add: evicted_first_def)
  show ?case
  proof (cases "over_quota s \<and> oldest_image keep s \<noteq> None")
    case False
    then have "evict_loop keep s = Some s"
      by (subst evict_loop.simps) (simp split: option.split)
    moreover have "\<forall>e \<in> set (images s). Some (fst e) = keep" if "over_quota s"
    proof -
      have "oldest_image keep s = None" using False that by simp
      from oldest_None [OF this] show ?thesis by blast
    qed
    ultimately show ?thesis using less.prems stop [of "images s"] by (simp only: returns_Some) blast
  next
    case True
    then obtain k where k: "oldest_image keep s = Some k" by auto
    from oldest_Some [OF k] obtain im where im: "(k, im) \<in> set (images s)" "Some k \<noteq> keep"
      "\<forall>e \<in> set (images s). Some (fst e) \<noteq> keep \<longrightarrow> im_used im \<le> im_used (snd e)" by auto
    have core: "store_core s" using less.prems by (simp add: store_ok_def)
    have get: "get_image s k = Some im" using im(1) store_core_keys [OF core] by (simp add: get_image_def)
    obtain b s1 where s1: "remove_image k s = Some (b, s1)" "store_ok s1" "last_key s1 = last_key s"
      using remove_image_ok [OF less.prems, of k] by (auto simp: returns_iff)
    have ims: "images s1 = bt_remove k (images s)"
      using remove_image_spec [OF core get] s1(1) by (simp add: returns_iff)
    have less1: "length (images s1) < length (images s)"
      unfolding ims bt_remove_filter using im(1) by (force intro: length_filter_less)
    from less.hyps [OF less1 s1(2)] obtain s' where s': "evict_loop keep s1 = Some s'" "store_ok s'"
      "last_key s' = last_key s1" "evicted_first keep (images s1) (images s')"
      "over_quota s' \<longrightarrow> (\<forall>e \<in> set (images s'). Some (fst e) = keep)"
      by (auto simp: returns_iff)
    have "set (images s) = insert (k, im) (set (images s1))"
    proof -
      have "e = (k, im)" if e: "e \<in> set (images s)" "fst e = k" for e
      proof -
        obtain v where v: "e = (k, v)" using e(2) by (cases e) simp
        then show ?thesis using eq_key_imp_eq_value [OF store_core_keys [OF core], of k v im] e(1) im(1) by simp
      qed
      then show ?thesis using im(1) unfolding ims bt_remove_filter set_filter by blast
    qed
    then have "evicted_first keep (images s) (images s')"
      using s'(4) im by (auto simp: evicted_first_def)
    then show ?thesis using True k s1(1,3) s' by (subst evict_loop.simps) simp
  qed
qed

text \<open>
  Within the quota nothing happens. Over it, images nothing shows go first, then the ones used longest
  ago; the image to keep stays, and at the end the store is within its quota or holds nothing else.
\<close>

lemma enforce_quota_ok:
  assumes s: "store_ok s"
  shows "returns (enforce_quota keep s) (\<lambda>(b, s'). store_ok s' \<and> last_key s' = last_key s \<and> b = over_quota s \<and>
    (\<not> b \<longrightarrow> s' = s) \<and>
    (b \<longrightarrow> evicted_first keep (filter (\<lambda>(k, im). im_refs im \<noteq> 0 \<or> Some k = keep) (images s)) (images s')) \<and>
    (over_quota s' \<longrightarrow> (\<forall>e \<in> set (images s'). Some (fst e) = keep)))"
proof (cases "over_quota s")
  case False
  then show ?thesis using s by (simp add: enforce_quota_def)
next
  case True
  define idle where "idle = map fst (filter (\<lambda>(k, im). im_refs im = 0 \<and> Some k \<noteq> keep) (images s))"
  obtain s1 where s1: "remove_images idle s = Some s1" "store_ok s1" "last_key s1 = last_key s"
    "images s1 = filter (\<lambda>e. fst e \<notin> set idle) (images s)"
    using remove_images_ok [OF s, of idle] by (auto simp: returns_iff)
  obtain s2 where s2: "evict_loop keep s1 = Some s2" "store_ok s2" "last_key s2 = last_key s1"
    "evicted_first keep (images s1) (images s2)"
    "over_quota s2 \<longrightarrow> (\<forall>e \<in> set (images s2). Some (fst e) = keep)"
    using evict_loop_spec [OF s1(2), of keep] by (auto simp: returns_iff)
  have dist: "distinct (map fst (images s))" using s store_core_keys by (auto simp: store_ok_def)
  have "fst e \<notin> set idle \<longleftrightarrow> im_refs (snd e) \<noteq> 0 \<or> Some (fst e) = keep" if e: "e \<in> set (images s)" for e
  proof -
    have "fst e \<in> set idle \<longleftrightarrow> (\<exists>im. (fst e, im) \<in> set (images s) \<and> im_refs im = 0 \<and> Some (fst e) \<noteq> keep)"
      unfolding idle_def by (cases e) (auto simp: image_iff)
    also have "\<dots> \<longleftrightarrow> im_refs (snd e) = 0 \<and> Some (fst e) \<noteq> keep"
      using e eq_key_imp_eq_value [OF dist] by (metis prod.collapse)
    finally show ?thesis by simp
  qed
  then have "images s1 = filter (\<lambda>(k, im). im_refs im \<noteq> 0 \<or> Some k = keep) (images s)"
    unfolding s1(4) by (intro filter_cong) auto
  then show ?thesis
    using True s1(1,3) s2 by (simp add: enforce_quota_def flip: idle_def)
qed

section \<open>Deleting, clearing, moving\<close>

lemma delete_where_ok:
  assumes "store_ok s"
  shows "returns (remove_where (keep_unless (\<lambda>p im. Q p (im_id im))) r s) (\<lambda>(b, s'). store_ok s' \<and> last_key s' = last_key s \<and>
    (\<exists>P. placements s' = filter P (placements s)) \<and> image_sub s s')"
  by (rule returns_mono [OF remove_plain [OF assms]]) (auto simp: image_sub_def)

lemma filter_self: "\<exists>P. xs = filter P xs"
  by (rule exI [of _ "\<lambda>_. True"]) simp

lemma image_delete_ok:
  assumes s: "store_ok s"
  shows "returns (image_delete c pos s) (\<lambda>(b, s'). store_ok s' \<and> last_key s' = last_key s \<and>
    (\<exists>P. placements s' = filter P (placements s)) \<and> image_sub s s')"
proof -
  define Q where "Q = (\<lambda>(b :: bool, s'). store_ok s' \<and> last_key s' = last_key s \<and>
    (\<exists>P. placements s' = filter P (placements s)) \<and> image_sub s s')"
  have del: "returns (remove_where (keep_unless (\<lambda>p im. P p (im_id im))) r s) Q" for P r
    unfolding Q_def by (rule delete_where_ok [OF s])
  have del0: "returns (remove_where (keep_unless (\<lambda>p im. P p)) r s) Q" for P r
    using del [of "\<lambda>p _. P p"] .
  have none: "Q (False, s)" using s filter_self image_sub_images [of s s] by (auto simp: Q_def)
  have one: "returns (remove_image k s) Q" for k
  proof (cases "get_image s k")
    case None
    then show ?thesis using none by (simp add: remove_image_def)
  next
    case (Some im)
    have core: "store_core s" using s by (simp add: store_ok_def)
    show ?thesis
      using remove_image_ok [OF s, of k] remove_image_spec [OF core Some] by (auto simp: Q_def returns_iff)
  qed
  have many: "returns (do { s \<leftarrow> remove_images ks s;
      (removed, s) \<leftarrow> remove_where (keep_unless (\<lambda>p im. P (im_id im))) r s; Some (removed \<or> b, s) }) Q" for ks P r b
  proof -
    obtain s1 where s1: "remove_images ks s = Some s1" "store_ok s1" "last_key s1 = last_key s"
      "placements s1 = filter (\<lambda>p. pl_image p \<notin> set ks) (placements s)"
      "images s1 = filter (\<lambda>e. fst e \<notin> set ks) (images s)"
      using remove_images_ok [OF s, of ks] by (auto simp: returns_iff)
    have dist: "distinct (map fst (images s))" using s store_core_keys by (auto simp: store_ok_def)
    have "image_sub s s1" unfolding image_sub_def get_image_def s1(5)
      using dist by (auto simp: map_of_eq_Some_iff distinct_map_filter dest: map_of_SomeD)
    then show ?thesis
      using delete_where_ok [OF s1(2), of "\<lambda>_. P" r] s1 image_sub_trans [of s s1]
      by (fastforce simp: Q_def returns_iff)
  qed
  have range: "(\<lambda>p im. im_id im \<noteq> 0 \<and> cmd_x c \<le> im_id im \<and> im_id im \<le> cmd_y c) =
      (\<lambda>p im. (\<lambda>i. i \<noteq> 0 \<and> cmd_x c \<le> i \<and> i \<le> cmd_y c) (im_id im))" by simp
  have "returns (image_delete c pos s) Q"
    unfolding image_delete_def Let_def
    by (intro allI impI conjI returns_if [THEN iffD2] del0 del many none one
        | split if_split option.split | simp only: returns_Some option.case simp_thms)+
  then show ?thesis unfolding Q_def .
qed

lemma image_clear_ok:
  assumes s: "store_ok s"
  shows "returns (image_clear history s) (\<lambda>(b, s'). store_ok s' \<and> last_key s' = last_key s \<and>
      placements s' = filter (\<lambda>p. is_virtual p \<or> \<not> history \<and> end_row p \<le> 0) (placements s) \<and> image_sub s s' \<and>
      (\<forall>k im. get_image s' k = Some im \<longrightarrow> im_refs im \<noteq> 0))"
    "returns (image_clear_history s) (\<lambda>(b, s'). store_ok s' \<and> last_key s' = last_key s \<and>
      placements s' = filter (\<lambda>p. is_virtual p \<or> 0 < end_row p) (placements s) \<and> image_sub s s' \<and>
      (\<forall>k im. get_image s' k = Some im \<longrightarrow> im_refs im \<noteq> 0))"
  unfolding image_clear_def image_clear_history_def
  by (rule returns_mono [OF remove_plain [OF s]]; auto simp: not_less not_le image_sub_def intro!: filter_cong)+

lemma scroll_full_tame: "placement_ok p \<Longrightarrow> tame (scroll_full sc delta) p im"
  by (simp add: tame_def scroll_full_def Let_def placement_ok_def)

lemma image_scroll_ok:
  assumes s: "store_ok s" and cell: "pixels_ok cell"
  shows "returns (image_scroll F sc cell s) (\<lambda>(b, s'). store_ok s' \<and> last_key s' = last_key s \<and> image_sub s s')"
proof -
  have ok: "p \<in> set (placements s) \<Longrightarrow> placement_ok p" for p
    using s store_core_placement by (auto simp: store_ok_def)
  let ?region = "\<lambda>p (im :: image). if is_virtual p then Some (False, p) else scroll_in_region F cell sc (- gs_lines sc) p"
  have "returns (remove_where (scroll_full sc (- gs_lines sc)) Unaddressable s) (\<lambda>(b, s'). store_ok s' \<and> last_key s' = last_key s \<and> image_sub s s')"
    by (rule returns_mono [OF remove_where_ok [OF s]]) (auto simp: scroll_full_tame ok image_sub_def, simp add: scroll_full_def)
  moreover have "tame ?region p im" if "p \<in> set (placements s)" for p im
    using scroll_in_region_ok [OF cell ok [OF that], of F sc "- gs_lines sc"] ok [OF that]
    by (auto simp: tame_def returns_iff)
  then have "returns (remove_where ?region Unaddressable s) (\<lambda>(b, s'). store_ok s' \<and> last_key s' = last_key s \<and> image_sub s s')"
    by (intro returns_mono [OF remove_where_ok [OF s]]) (auto simp: image_sub_def)
  ultimately show ?thesis
    using s by (auto simp: image_scroll_def Let_def returns_iff image_sub_images)
qed

lemma image_anchors_ok:
  assumes s: "store_ok s"
  shows "returns (apply_anchors moved s) (\<lambda>(b, s'). store_ok s' \<and> last_key s' = last_key s \<and> image_sub s s' \<and>
    placements s' = List.map_filter (\<lambda>p. if is_virtual p then Some p
      else map_option (\<lambda>(row, col). p\<lparr>pl_row := row, pl_col := col\<rparr>) (moved (pl_key p))) (placements s))"
proof -
  let ?f = "\<lambda>p (im :: image). if is_virtual p then Some (False, p)
    else case moved (pl_key p) of Some (row, col) \<Rightarrow> Some (False, p\<lparr>pl_row := row, pl_col := col\<rparr>) | None \<Rightarrow> Some (True, p)"
  let ?g = "\<lambda>p. if is_virtual p then Some p
    else map_option (\<lambda>(row, col). p\<lparr>pl_row := row, pl_col := col\<rparr>) (moved (pl_key p))"
  have core: "store_core s" using s by (simp add: store_ok_def)
  have "stays ?f s p = ?g p" if "p \<in> set (placements s)" for p
    using store_core_placement [OF core that] by (auto simp: stays_def split: option.split)
  then have eq: "List.map_filter (stays ?f s) (placements s) = List.map_filter ?g (placements s)"
    by (simp add: List.map_filter_def cong: map_cong filter_cong)
  have "tame ?f p im" if "p \<in> set (placements s)" for p im
    using store_core_placement [OF core that] by (auto simp: tame_def placement_ok_def split: option.split)
  from remove_where_ok [where remove = ?f and r = Unaddressable, OF s this] show ?thesis
    unfolding apply_anchors_def eq by (auto simp: returns_iff image_sub_def)
qed

lemma replace_placements_core:
  assumes core: "store_core s"
    and ps: "list_all2 (\<lambda>p q. placement_ok q \<and> pl_key q = pl_key p \<and> pl_image q = pl_image p \<and> is_virtual q = is_virtual p)
      (placements s) ps"
  shows "store_core (s\<lparr>placements := ps\<rparr>)"
proof -
  let ?s = "s\<lparr>placements := ps\<rparr>"
  have maps: "map pl_key ps = map pl_key (placements s)" "map is_virtual ps = map is_virtual (placements s)"
    "map pl_image ps = map pl_image (placements s)"
    using ps by (auto simp: list_all2_conv_all_nth intro!: nth_equalityI)
  have "length (filter is_virtual ps) = length (filter is_virtual (placements s))"
    using arg_cong [OF maps(2), of "\<lambda>xs. length (filter id xs)"] by (simp add: filter_map o_def)
  moreover have "refs_of ps k = refs_of (placements s) k" for k
    using arg_cong [OF maps(3), of "\<lambda>xs. length (filter (\<lambda>x. x = k) xs)"] by (simp add: filter_map o_def refs_of_def)
  moreover have "get_image s (pl_image q) \<noteq> None \<and> placement_ok q \<and> pl_key q \<le> last_key s" if q: "q \<in> set ps" for q
  proof -
    obtain i where i: "i < length ps" "q = ps ! i" using q by (auto simp: in_set_conv_nth)
    then have "placements s ! i \<in> set (placements s)" using ps by (simp add: list_all2_lengthD)
    then show ?thesis using store_core_placement [OF core] list_all2_nthD2 [OF ps i(1)] i(2) by simp
  qed
  moreover have "get_image ?s = get_image s" "key_by_id ?s = key_by_id s"
    by (rule ext, simp add: get_image_def key_by_id_def)+
  ultimately show ?thesis using core maps(1) unfolding store_core_def by simp
qed

lemma image_rescale_ok:
  assumes s: "store_ok s" and cell: "pixels_ok cell"
  shows "returns (image_rescale F cell s) (\<lambda>s'. store_ok s' \<and> last_key s' = last_key s \<and>
    images s' = images s \<and> map pl_key (placements s') = map pl_key (placements s))"
proof -
  let ?R = "\<lambda>p q :: 'a placement. placement_ok q \<and> pl_key q = pl_key p \<and> pl_image q = pl_image p \<and> is_virtual q = is_virtual p"
  have core: "store_core s" using s by (simp add: store_ok_def)
  have one: "returns (rescale_placement F cell p) (?R p)" if p: "placement_ok p" for p
  proof -
    have px: "usub (px_width cell) 1 = Some (px_width cell - 1)" "usub (px_height cell) 1 = Some (px_height cell - 1)"
      using cell by (simp_all add: pixels_ok_def)
    have "geometry_ok (p\<lparr>pl_cell_x := min (pl_cell_x p) (px_width cell - 1), pl_cell_y := min (pl_cell_y p) (px_height cell - 1)\<rparr>)"
      (is "geometry_ok ?q")
      using p by (auto simp: geometry_ok_def placement_ok_def min_def)
    from fit_ok [OF cell this, of F] obtain q where q: "fit F cell ?q = Some q" "?R p q"
      by (auto simp: returns_iff)
    then show ?thesis using p unfolding rescale_placement_def px by simp
  qed
  have "returns (for_each (\<lambda>p ps. map_option (\<lambda>q. ps @ [q]) (rescale_placement F cell p)) ps qs)
      (\<lambda>ps'. \<exists>rs. ps' = qs @ rs \<and> list_all2 ?R ps rs)" if "\<forall>p \<in> set ps. placement_ok p" for ps qs
    using that
  proof (induction ps arbitrary: qs)
    case (Cons p ps)
    obtain q where q: "rescale_placement F cell p = Some q" "?R p q"
      using one [of p] Cons.prems by (auto simp: returns_iff)
    show ?case
      using Cons.IH [of "qs @ [q]"] Cons.prems q by (fastforce simp: returns_iff)
  qed simp
  from this [of "placements s" "[]"] obtain rs where
    "for_each (\<lambda>p ps. map_option (\<lambda>q. ps @ [q]) (rescale_placement F cell p)) (placements s) [] = Some rs"
    "list_all2 ?R (placements s) rs"
    using store_core_placement [OF core] by (auto simp: returns_iff)
  moreover have "map pl_key rs = map pl_key (placements s)" "length rs = length (placements s)"
    using calculation(2) by (auto simp: list_all2_conv_all_nth intro!: nth_equalityI)
  moreover have "unmatched (s\<lparr>placements := rs\<rparr>)" using s by (simp add: store_ok_def unmatched_def get_image_def)
  ultimately show ?thesis
    using replace_placements_core [OF core] s by (simp add: image_rescale_def store_ok_def)
qed

lemma store_ok_key: "store_ok s \<Longrightarrow> key_by_id s i = Some k \<longleftrightarrow> i \<noteq> 0 \<and> (\<exists>im. get_image s k = Some im \<and> im_id im = i)"
  by (simp add: store_ok_def store_core_def)

text \<open>An id nothing has stays free.\<close>

lemma key_stays_free:
  assumes "store_ok s" "store_ok s'" "image_sub s s'" "key_by_id s i = None"
  shows "key_by_id s' i = None"
proof (rule ccontr)
  assume "key_by_id s' i \<noteq> None"
  then obtain k im' where k: "i \<noteq> 0" "get_image s' k = Some im'" "im_id im' = i"
    using store_ok_key [OF assms(2), of i] by auto
  then obtain im where "get_image s k = Some im" "im_id im = i" using assms(3) unfolding image_sub_def by metis
  then have "key_by_id s i = Some k" using store_ok_key [OF assms(1), of i k] k(1) by blast
  then show False using assms(4) by simp
qed

section \<open>Runs of operations\<close>

datatype 'f store_op =
    Insert nat nat nat "nat \<times> nat" "byte list option" bool
  | SetPixels nat "byte list" bool
  | RemoveId nat
  | RemoveKey nat
  | Quota "nat option"
  | Put nat command "int \<times> int" cell_pixels
  | Delete command "int \<times> int"
  | Clear bool
  | ClearHistory
  | Scroll gfx_scroll cell_pixels
  | Rescale cell_pixels
  | Anchors "nat \<Rightarrow> (int \<times> int) option"

fun store_exec :: "'f floats \<Rightarrow> 'f store_op \<Rightarrow> 'f image_store \<Rightarrow> 'f image_store option" where
  "store_exec F (Insert uid i num dim px op) s = map_option snd (insert_image uid i num dim px op s)"
| "store_exec F (SetPixels k px op) s = Some (snd (set_pixels k px op s))"
| "store_exec F (RemoveId i) s = map_option snd (remove_by_id i s)"
| "store_exec F (RemoveKey k) s = map_option snd (remove_image k s)"
| "store_exec F (Quota keep) s = map_option snd (enforce_quota keep s)"
| "store_exec F (Put k c pos cell) s = map_option snd (image_put F k c pos cell s)"
| "store_exec F (Delete c pos) s = map_option snd (image_delete c pos s)"
| "store_exec F (Clear history) s = map_option snd (image_clear history s)"
| "store_exec F ClearHistory s = map_option snd (image_clear_history s)"
| "store_exec F (Scroll sc cell) s = map_option snd (image_scroll F sc cell s)"
| "store_exec F (Rescale cell) s = image_rescale F cell s"
| "store_exec F (Anchors moved) s = map_option snd (apply_anchors moved s)"

text \<open>A caller inserts under an id only when nothing has it; cells are measured in 16 bits.\<close>

fun store_pre :: "'f store_op \<Rightarrow> 'f image_store \<Rightarrow> bool" where
  "store_pre (Insert uid i num dim px op) s \<longleftrightarrow> i = 0 \<or> key_by_id s i = None"
| "store_pre (Put k c pos cell) s \<longleftrightarrow> pixels_ok cell"
| "store_pre (Scroll sc cell) s \<longleftrightarrow> pixels_ok cell"
| "store_pre (Rescale cell) s \<longleftrightarrow> pixels_ok cell"
| "store_pre _ s \<longleftrightarrow> True"

lemma returns_snd: "returns m (\<lambda>(b, s'). Q s' \<and> R b s') \<Longrightarrow> returns (map_option snd m) Q"
  by (auto simp: returns_iff)

lemma returns_snd': "returns m (\<lambda>(b, s'). Q s') \<Longrightarrow> returns (map_option snd m) Q"
  by (auto simp: returns_iff)

lemma store_exec_ok:
  assumes s: "store_ok s" and pre: "store_pre op s"
  shows "returns (store_exec F op s) store_ok"
proof (cases op)
  case (Insert uid i num dim px opq)
  then show ?thesis using insert_image_ok [OF s, of i uid num dim px opq] pre by (auto simp: returns_iff)
next
  case (RemoveId i)
  then show ?thesis
    using remove_image_ok [OF s, of "the (key_by_id s i)"] s
    by (cases "key_by_id s i") (auto simp: remove_by_id_def returns_iff)
next
  case (Put k c pos cell)
  then show ?thesis using image_put_ok [OF s, of cell F k c pos] pre by (auto simp: returns_iff)
next
  case (Delete c pos)
  then show ?thesis using image_delete_ok [OF s, of c pos] by (auto simp: returns_iff)
next
  case (Clear history)
  then show ?thesis using image_clear_ok(1) [OF s, of history] by (auto simp: returns_iff)
next
  case ClearHistory
  then show ?thesis using image_clear_ok(2) [OF s] by (auto simp: returns_iff)
next
  case (Scroll sc cell)
  then show ?thesis using image_scroll_ok [OF s, of cell F sc] pre by (auto simp: returns_iff)
next
  case (Rescale cell)
  then show ?thesis using image_rescale_ok [OF s, of cell F] pre by (auto simp: returns_iff)
next
  case (Anchors moved)
  then show ?thesis using image_anchors_ok [OF s, of moved] by (auto simp: returns_iff)
next
  case (RemoveKey k)
  then show ?thesis using remove_image_ok [OF s, of k] by (auto simp: returns_iff)
next
  case (Quota keep)
  then show ?thesis using enforce_quota_ok [OF s, of keep] by (auto simp: returns_iff)
next
  case (SetPixels k px opq)
  then show ?thesis using set_pixels_ok [OF s] by simp
qed

inductive store_reach :: "'f floats \<Rightarrow> 'f image_store \<Rightarrow> bool" for F where
  reach_empty: "store_reach F empty_store"
| reach_step: "store_reach F s \<Longrightarrow> store_pre op s \<Longrightarrow> store_exec F op s = Some s' \<Longrightarrow> store_reach F s'"

lemma store_reach_ok: "store_reach F s \<Longrightarrow> store_ok s"
proof (induction rule: store_reach.induct)
  case reach_empty
  show ?case by (rule store_ok_empty)
next
  case (reach_step s op s')
  then show ?case using store_exec_ok [of s op F] by simp
qed

section \<open>What the store promises\<close>

text \<open>
  C31. In every state of an image store that any sequence of its operations reaches from the
  empty store, the store is well-formed: its counts of bytes, references and virtual placements
  are exact, ids and images refer to each other, no placement is without its image, and there
  are at most 8192 placements; and no further operation panics.
\<close>

theorem store_safe:
  assumes "store_reach F s"
  shows "store_ok s \<and> (\<forall>op. store_pre op s \<longrightarrow> (\<exists>s'. store_exec F op s = Some s' \<and> store_reach F s'))"
  using store_reach_ok [OF assms] store_exec_ok [of s _ F] reach_step [OF assms]
  by (metis returns_iff)

text \<open>A number format for evaluation: natural numbers, whose quotients round up.\<close>

definition nat_floats :: "nat floats" where
  "nat_floats = \<lparr>fl_of = id, fl_add = (+), fl_sub = (-), fl_mul = (*), fl_div = (\<lambda>a b. (a + b - 1) div b),
     fl_min = min, fl_max = max, fl_ceil = id, fl_le = (\<le>), fl_less = (<), fl_eq = (=), fl_u32 = id\<rparr>"

definition sample_store :: "nat image_store" where
  "sample_store = \<lparr>images = [(1, \<lparr>im_uid = 7, im_id = 5, im_number = 0, im_width = 4, im_height = 2,
     im_pixels = None, im_opaque = True, im_refs = 0, im_used = 1, im_matched = False\<rparr>)],
     ids = [(5, 1)], placements = [], last_key = 1, clock = 1, stored = 32, virtual_count = 0\<rparr>"

lemma sample_store_reached: "store_exec F (Insert 7 5 0 (4, 2) None True) empty_store = Some sample_store"
  by (simp add: insert_image_def reap_images_def empty_store_def remove_images_def next_key_def tick_def
      image_bytes_def sample_store_def)

lemma sample_store_ok: "store_reach F sample_store"
  using reach_step [OF reach_empty _ sample_store_reached] by (simp add: key_by_id_def empty_store_def)

theorem store_safe_witness:
  "store_ok sample_store \<and> (\<exists>s'. store_exec nat_floats ClearHistory sample_store = Some s' \<and> store_reach nat_floats s')"
proof -
  have "store_pre ClearHistory sample_store" by simp
  then show ?thesis using store_safe [OF sample_store_ok [of nat_floats]] by blast
qed

text \<open>
  C32. Placing an image keeps the store well-formed and answers with the cells the new
  placement covers, which is on the store at the cursor's position when it is not virtual;
  placing an image that is gone changes no placement.
\<close>

theorem put_correct:
  assumes "store_ok s" "pixels_ok cell"
  shows "returns (image_put F k c pos cell s) (\<lambda>(r, s'). store_ok s' \<and> last_key s \<le> last_key s' \<and>
    (case get_image s k of None \<Rightarrow> r = None \<and> placements s' = placements s
     | Some im \<Rightarrow> \<exists>q \<in> set (placements s'). pl_image q = k \<and> r = Some (eff_cols q, eff_rows q) \<and>
         (is_virtual q \<longleftrightarrow> unicode c = 1) \<and> (\<not> is_virtual q \<longrightarrow> (pl_row q, pl_col q) = pos)))"
  by (rule returns_mono [OF image_put_ok [OF assms]]) auto

lemma sample_store_ok': "store_ok sample_store"
  using store_reach_ok [OF sample_store_ok [of nat_floats]] .

theorem put_correct_witness:
  "\<exists>q. returns (image_put nat_floats 1 default_command (3, 4) FALLBACK sample_store)
     (\<lambda>(r, s'). store_ok s' \<and> q \<in> set (placements s') \<and> (pl_row q, pl_col q) = (3, 4))"
proof -
  have "pixels_ok FALLBACK" by (simp add: pixels_ok_def FALLBACK_def)
  from put_correct [OF sample_store_ok' this, of nat_floats 1 default_command "(3, 4)"]
  show ?thesis by (fastforce simp: returns_iff sample_store_def get_image_def default_command_def)
qed



theorem clear_correct:
  assumes "store_ok s"
  shows "returns (image_clear history s) (\<lambda>(b, s'). store_ok s' \<and>
    placements s' = filter (\<lambda>p. is_virtual p \<or> \<not> history \<and> end_row p \<le> 0) (placements s) \<and>
    (\<forall>k im. get_image s' k = Some im \<longrightarrow> im_refs im \<noteq> 0))"
  by (rule returns_mono [OF image_clear_ok(1) [OF assms]]) auto

theorem clear_correct_witness: "returns (image_clear True sample_store) (\<lambda>(b, s'). placements s' = [])"
  using clear_correct [OF sample_store_ok', of True] by (auto simp: returns_iff sample_store_def)

lemma free_loop_spec:
  assumes "sorted_wrt (<) is" "\<forall>i \<in> set is. free \<le> i" "free + length is < 2 ^ 32"
  shows "free_loop free is \<notin> set is \<and> free \<le> free_loop free is \<and>
    (\<forall>i. free \<le> i \<and> i < free_loop free is \<longrightarrow> i \<in> set is)"
  using assms
proof (induction free "is" rule: free_loop.induct)
  case (2 free i "is")
  show ?case
  proof (cases "i = free")
    case True
    have "min (free + 1) (2 ^ 32 - 1) = free + 1" using 2(4) by simp
    moreover have "\<forall>j \<in> set is. free + 1 \<le> j" using 2(2) True by auto
    ultimately have "free_loop (free + 1) is \<notin> set is \<and> free + 1 \<le> free_loop (free + 1) is \<and>
        (\<forall>j. free + 1 \<le> j \<and> j < free_loop (free + 1) is \<longrightarrow> j \<in> set is)"
      using 2 True by auto
    then show ?thesis using True \<open>min (free + 1) (2 ^ 32 - 1) = free + 1\<close> by (auto simp: Suc_le_eq) (metis le_neq_implies_less)
  next
    case False
    then have "free \<notin> set (i # is)" using 2(2,3) by auto
    then show ?thesis using False by simp
  qed
qed simp

lemma free_id_free:
  assumes "store_ok s" "length (ids s) < 2 ^ 32 - 1"
  shows "free_id s \<noteq> 0 \<and> key_by_id s (free_id s) = None \<and>
    (\<forall>i. 0 < i \<and> i < free_id s \<longrightarrow> key_by_id s i \<noteq> None)"
proof -
  have core: "store_core s" using assms(1) by (simp add: store_ok_def)
  have none: "key_by_id s i = None \<longleftrightarrow> i \<notin> set (map fst (ids s))" for i
    by (simp add: key_by_id_def map_of_eq_None_iff)
  have "0 \<notin> set (map fst (ids s))" using core none [of 0] by (fastforce simp: store_core_def)
  then have "\<forall>i \<in> set (map fst (ids s)). 1 \<le> i" by (metis less_one not_le)
  moreover have "sorted_wrt (<) (map fst (ids s))" using core by (simp add: store_core_def keys_sorted_def)
  ultimately show ?thesis
    using free_loop_spec [of "map fst (ids s)" 1] assms(2) unfolding none free_id_def by auto
qed

theorem free_id_correct:
  assumes "store_ok s" "length (ids s) < 2 ^ 32 - 1"
  shows "free_id s \<noteq> 0 \<and> key_by_id s (free_id s) = None \<and>
    (\<forall>i. 0 < i \<and> i < free_id s \<longrightarrow> key_by_id s i \<noteq> None)"
  by (rule free_id_free [OF assms])

theorem free_id_correct_witness: "key_by_id sample_store (free_id sample_store) = None"
  using free_id_correct [OF sample_store_ok'] by (simp add: sample_store_def)

end
