(* ===== verification/Load.thy ===== *)
theory Load
  imports Command
begin

text \<open>
  Receiving the pixels of a transmitted image, \<open>src/terminal/graphics/load.rs\<close>.

  Base64, zlib and PNG are crates: \<open>b64\<close> is the decoder of the crate \<open>base64\<close> on a whole input,
  \<open>inflate\<close> and the streaming decompressor are those of \<open>flate2\<close>, \<open>png\<close> is the decoder of \<open>image\<close>,
  and \<open>reserve n k\<close> is the capacity of a vector of length \<open>n\<close> after room for \<open>k\<close> more bytes was
  reserved, if memory allows. Their documented behaviour is stated where a
  theorem needs it. The pending characters of the base64 stream, an array with its fill, are a list.
\<close>

unbundle bit_operations_syntax

section \<open>Failures and results\<close>

datatype failure = Failure (code: string) (message: string)

definition MAX_DIMENSION :: nat where "MAX_DIMENSION = 8192"
definition MAX_ENCODED_BYTES :: nat where "MAX_ENCODED_BYTES = 64 * 1024 * 1024"
definition SLACK :: nat where "SLACK = 12"
definition ZLIB_OVERHEAD :: nat where "ZLIB_OVERHEAD = 1024"
definition PNG_HEADER_BYTES :: nat where "PNG_HEADER_BYTES = 24"

definition TOO_MUCH_DATA :: failure where "TOO_MUCH_DATA = Failure ''EFBIG'' ''Too much data''"
definition NOT_ENOUGH_DATA :: failure where "NOT_ENOUGH_DATA = Failure ''ENODATA'' ''Insufficient image data''"
definition BAD_BASE64 :: failure where "BAD_BASE64 = Failure ''EINVAL'' ''Invalid base64 data''"
definition BAD_ZLIB :: failure where "BAD_ZLIB = Failure ''EINVAL'' ''Failed to inflate image data''"
definition BAD_PNG :: failure where "BAD_PNG = Failure ''EBADPNG'' ''Failed to decode PNG data''"
definition OUT_OF_MEMORY :: failure where "OUT_OF_MEMORY = Failure ''ENOMEM'' ''Out of memory''"
definition TOO_LARGE :: failure where "TOO_LARGE = Failure ''EINVAL'' ''Image too large''"

record pixels =
  pix_width :: nat
  pix_height :: nat
  rgba :: "byte list"
  pix_opaque :: bool

datatype encoding = ZlibRgb | ZlibRgba | Png | ZlibPng

datatype load_target = Rgba | Rgb | Encoded encoding | Rejected failure

record decode_job =
  encoding :: encoding
  job_width :: nat
  job_height :: nat
  job_data :: "byte list"

datatype received = Pixels pixels | Job decode_job

section \<open>Base64 in fragments\<close>

type_synonym base64 = "byte list \<Rightarrow> byte list option"

definition b64_bound :: "byte list \<Rightarrow> nat \<Rightarrow> nat" where
  "b64_bound pending input = (length pending + input) div 4 * 3"

text \<open>The bytes decoded from the whole quads of \<open>input\<close>, and the characters left over.\<close>

definition b64_rest :: "base64 \<Rightarrow> byte list \<Rightarrow> byte list \<Rightarrow> (byte list \<times> byte list) option" where
  "b64_rest b64 out input =
     (let whole = length input div 4 * 4
      in do { o' \<leftarrow> b64 (take whole input); Some (out @ o', drop whole input) })"

definition b64_push :: "base64 \<Rightarrow> byte list \<Rightarrow> byte list \<Rightarrow> (byte list \<times> byte list) option" where
  "b64_push b64 pending input =
     (if pending \<noteq> []
      then (let n = min (4 - length pending) (length input);
                pending = pending @ take n input;
                input = drop n input
            in if length pending < 4 then Some ([], pending)
               else do { out \<leftarrow> b64 pending; b64_rest b64 out input })
      else b64_rest b64 [] input)"

section \<open>A transmission in progress\<close>

record load =
  start :: command
  ld_target :: load_target
  buf :: "byte list"
  expected :: nat
  limit :: nat
  pending :: "byte list"
  rgb :: "byte list"
  scanned :: nat
  opaque :: bool

fun widen_pixels :: "byte list \<Rightarrow> byte list" where
  "widen_pixels (r # g # b # rest) = r # g # b # 255 # widen_pixels rest"
| "widen_pixels _ = []"

fun alphas :: "byte list \<Rightarrow> byte list" where
  "alphas (r # g # b # a # rest) = a # alphas rest"
| "alphas _ = []"

definition all_opaque :: "byte list \<Rightarrow> bool" where
  "all_opaque bytes \<longleftrightarrow> foldl (AND) 0xFF (alphas bytes) = 0xFF"

definition load_plan :: "(nat \<Rightarrow> nat \<Rightarrow> nat option) \<Rightarrow> load \<Rightarrow> (failure + load_target) \<times> load" where
  "load_plan reserve l =
     (let s = start l; compressed = (compression s = ch CHR ''z'');
          pixels = data_width s * data_height s
      in if medium s \<noteq> 0 \<and> medium s \<noteq> ch CHR ''d''
         then (Inl (Failure ''EINVAL'' ''Unsupported transmission medium''), l)
         else if format s = 100
         then (Inr (Encoded (if compressed then ZlibPng else Png)), l\<lparr>limit := MAX_ENCODED_BYTES\<rparr>)
         else if format s \<notin> {0, 24, 32} then (Inl (Failure ''EINVAL'' ''Unknown image format''), l)
         else if MAX_DIMENSION < data_width s \<or> MAX_DIMENSION < data_height s then (Inl TOO_LARGE, l)
         else if pixels = 0 then (Inl (Failure ''EINVAL'' ''Zero width/height not allowed''), l)
         else (let bytes_per_pixel = (if format s = 24 then 3 else 4);
                   l = l\<lparr>expected := pixels * 4\<rparr>
               in if compressed
                  then (Inr (Encoded (if bytes_per_pixel = 3 then ZlibRgb else ZlibRgba)),
                        l\<lparr>limit := min (pixels * bytes_per_pixel + ZLIB_OVERHEAD) MAX_ENCODED_BYTES\<rparr>)
                  else (let l = l\<lparr>limit := expected l + SLACK\<rparr>
                        in if reserve 0 (limit l) = None then (Inl OUT_OF_MEMORY, l)
                           else (Inr (if bytes_per_pixel = 3 then Rgb else Rgba), l))))"

definition load_begin :: "(nat \<Rightarrow> nat \<Rightarrow> nat option) \<Rightarrow> command \<Rightarrow> load" where
  "load_begin reserve s =
     (case load_plan reserve \<lparr>start = s, ld_target = Rgba, buf = [], expected = 0, limit = 0, pending = [], rgb = [],
             scanned = 0, opaque = True\<rparr> of
        (Inr t, l) \<Rightarrow> l\<lparr>ld_target := t\<rparr>
      | (Inl f, l) \<Rightarrow> l\<lparr>ld_target := Rejected f\<rparr>)"

definition rejected :: "load \<Rightarrow> bool" where
  "rejected l \<longleftrightarrow> (case ld_target l of Rejected _ \<Rightarrow> True | _ \<Rightarrow> False)"

definition load_reject :: "failure \<Rightarrow> load \<Rightarrow> load" where
  "load_reject f l = (if rejected l then l else l\<lparr>ld_target := Rejected f, buf := [], rgb := []\<rparr>)"

definition load_widen :: "load \<Rightarrow> load" where
  "load_widen l =
     (let whole = length (rgb l) div 3 * 3
      in l\<lparr>buf := buf l @ widen_pixels (take whole (rgb l)), rgb := drop whole (rgb l)\<rparr>)"

definition load_scan :: "load \<Rightarrow> load" where
  "load_scan l =
     (if ld_target l \<noteq> Rgba then l
      else (let end = min (length (buf l) div 4 * 4) (expected l)
            in l\<lparr>opaque := (if opaque l \<and> scanned l < end
                            then all_opaque (drop (scanned l) (take end (buf l))) else opaque l),
                 scanned := max end (scanned l)\<rparr>))"

text \<open>A failed decoding leaves no pending characters; what it wrote is dropped with the buffers.\<close>

definition load_decode :: "base64 \<Rightarrow> byte list \<Rightarrow> load \<Rightarrow> failure option \<times> load" where
  "load_decode b64 payload l =
     (case ld_target l of
        Rejected _ \<Rightarrow> (None, l)
      | Rgb \<Rightarrow>
          (let stored = length (buf l) div 4 * 3 + length (rgb l)
           in if limit l div 4 * 3 < stored + b64_bound (pending l) (length payload) then (Some TOO_MUCH_DATA, l)
              else (case b64_push b64 (pending l) payload of
                      None \<Rightarrow> (Some BAD_BASE64, l\<lparr>pending := []\<rparr>)
                    | Some (out, p) \<Rightarrow> (None, load_widen (l\<lparr>rgb := rgb l @ out, pending := p\<rparr>))))
      | _ \<Rightarrow>
          (if limit l < length (buf l) + b64_bound (pending l) (length payload) then (Some TOO_MUCH_DATA, l)
           else (case b64_push b64 (pending l) payload of
                   None \<Rightarrow> (Some BAD_BASE64, l\<lparr>pending := []\<rparr>)
                 | Some (out, p) \<Rightarrow> (None, load_scan (l\<lparr>buf := buf l @ out, pending := p\<rparr>)))))"

definition load_tail :: "base64 \<Rightarrow> load \<Rightarrow> failure option \<times> load" where
  "load_tail b64 l =
     (case ld_target l of
        Rejected _ \<Rightarrow> (None, l\<lparr>pending := []\<rparr>)
      | Rgb \<Rightarrow>
          (case b64 (pending l) of
             None \<Rightarrow> (Some BAD_BASE64, l\<lparr>pending := []\<rparr>)
           | Some out \<Rightarrow> (None, load_widen (l\<lparr>rgb := rgb l @ out, pending := []\<rparr>)))
      | _ \<Rightarrow>
          (case b64 (pending l) of
             None \<Rightarrow> (Some BAD_BASE64, l\<lparr>pending := []\<rparr>)
           | Some out \<Rightarrow> (None, load_scan (l\<lparr>buf := buf l @ out, pending := []\<rparr>))))"

definition load_push :: "base64 \<Rightarrow> byte list \<Rightarrow> load \<Rightarrow> load" where
  "load_push b64 payload l =
     (case load_decode b64 payload l of (Some f, l) \<Rightarrow> load_reject f l | (None, l) \<Rightarrow> l)"

definition load_end_chunk :: "base64 \<Rightarrow> load \<Rightarrow> load" where
  "load_end_chunk b64 l = (case load_tail b64 l of (Some f, l) \<Rightarrow> load_reject f l | (None, l) \<Rightarrow> l)"

definition load_finish :: "load \<Rightarrow> failure + received" where
  "load_finish l =
     (case ld_target l of
        Rejected f \<Rightarrow> Inl f
      | Encoded e \<Rightarrow> Inr (Job \<lparr>encoding = e, job_width = data_width (start l), job_height = data_height (start l),
                              job_data = buf l\<rparr>)
      | _ \<Rightarrow>
          (if length (buf l) < expected l then Inl NOT_ENOUGH_DATA
           else Inr (Pixels \<lparr>pix_width = data_width (start l), pix_height = data_height (start l),
                             rgba = take (expected l) (buf l), pix_opaque = opaque l\<rparr>)))"

section \<open>Decode jobs\<close>

datatype status = StatusOk | BufError | StreamEnd

text \<open>The crates that decode: \<open>'z\<close> is the state of a decompressor.\<close>

record 'z codecs =
  reserve :: "nat \<Rightarrow> nat \<Rightarrow> nat option"
  inflate_finish :: "byte list \<Rightarrow> nat \<Rightarrow> (status \<times> byte list) option"
  inflate_head :: "byte list \<Rightarrow> nat \<Rightarrow> (nat \<times> byte list) option"
  inflate_init :: 'z
  total_in :: "'z \<Rightarrow> nat"
  inflate_step :: "'z \<Rightarrow> byte list \<Rightarrow> nat \<Rightarrow> ('z \<times> status \<times> byte list) option"
  png_decode :: "byte list \<Rightarrow> (nat \<times> nat \<times> byte list) option"

definition be32 :: "byte list \<Rightarrow> nat" where
  "be32 bytes = foldl (\<lambda>n b. n * 256 + unat b) 0 bytes"

definition png_dimensions :: "byte list \<Rightarrow> (nat \<times> nat) option" where
  "png_dimensions header =
     (if length header \<noteq> PNG_HEADER_BYTES then None
      else if take 8 header \<noteq> [0x89, 0x50, 0x4E, 0x47, 0x0D, 0x0A, 0x1A, 0x0A] \<or>
              take 4 (drop 12 header) \<noteq> ascii ''IHDR'' then None
      else Some (be32 (take 4 (drop 16 header)), be32 (take 4 (drop 20 header))))"

definition job_dimensions :: "'z codecs \<Rightarrow> decode_job \<Rightarrow> failure + (nat \<times> nat)" where
  "job_dimensions K j =
     (if encoding j = ZlibRgb \<or> encoding j = ZlibRgba then Inr (job_width j, job_height j)
      else (let header =
              (if encoding j = Png
               then if PNG_HEADER_BYTES \<le> length (job_data j) then Some (take PNG_HEADER_BYTES (job_data j)) else None
               else (case inflate_head K (job_data j) PNG_HEADER_BYTES of
                       Some (n, header) \<Rightarrow> if n = PNG_HEADER_BYTES then Some header else None
                     | None \<Rightarrow> None))
            in case Option.bind header png_dimensions of
                 None \<Rightarrow> Inl BAD_PNG
               | Some (w, h) \<Rightarrow>
                   if w = 0 \<or> h = 0 then Inl BAD_PNG
                   else if MAX_DIMENSION < w \<or> MAX_DIMENSION < h then Inl TOO_LARGE
                   else Inr (w, h)))"

definition inflate_exact :: "'z codecs \<Rightarrow> byte list \<Rightarrow> nat \<Rightarrow> failure + byte list" where
  "inflate_exact K data n =
     (case reserve K 0 n of
        None \<Rightarrow> Inl OUT_OF_MEMORY
      | Some cap \<Rightarrow>
          (case inflate_finish K data cap of
             None \<Rightarrow> Inl BAD_ZLIB
           | Some (StreamEnd, out) \<Rightarrow> if length out = n then Inr out else Inl NOT_ENOUGH_DATA
           | Some _ \<Rightarrow> Inl BAD_ZLIB))"

definition STEP :: nat where "STEP = 256 * 1024"

partial_function (option) inflate_loop ::
  "'z codecs \<Rightarrow> byte list \<Rightarrow> nat \<Rightarrow> 'z \<Rightarrow> byte list \<Rightarrow> nat \<Rightarrow> (failure + byte list) option" where
  "inflate_loop K data n z out cap =
     (if length out = cap \<and> n \<le> length out then Some (Inl TOO_MUCH_DATA)
      else case (if length out = cap then reserve K (length out) (min STEP (n - length out)) else Some cap) of
        None \<Rightarrow> Some (Inl OUT_OF_MEMORY)
      | Some cap \<Rightarrow>
          if length data < total_in K z then None
          else (case inflate_step K z (drop (total_in K z) data) (cap - length out) of
                  None \<Rightarrow> Some (Inl BAD_ZLIB)
                | Some (z', st, got) \<Rightarrow>
                    if st = StreamEnd then Some (Inr (out @ got))
                    else if got = [] \<and> length out < cap then Some (Inl BAD_ZLIB)
                    else inflate_loop K data n z' (out @ got) cap))"

declare inflate_loop.simps [code]

definition inflate_bounded :: "'z codecs \<Rightarrow> byte list \<Rightarrow> nat \<Rightarrow> (failure + byte list) option" where
  "inflate_bounded K data n = inflate_loop K data n (inflate_init K) [] 0"

definition decode_png :: "'z codecs \<Rightarrow> byte list \<Rightarrow> failure + pixels" where
  "decode_png K data =
     (case png_decode K data of
        None \<Rightarrow> Inl BAD_PNG
      | Some (w, h, px) \<Rightarrow> Inr \<lparr>pix_width = w, pix_height = h, rgba = px, pix_opaque = all_opaque px\<rparr>)"

definition run_job :: "'z codecs \<Rightarrow> decode_job \<Rightarrow> (failure + pixels) option" where
  "run_job K j =
     (let w = job_width j; h = job_height j; pixels = w * h in
      case encoding j of
        ZlibRgba \<Rightarrow> Some
          (case inflate_exact K (job_data j) (pixels * 4) of
             Inl f \<Rightarrow> Inl f
           | Inr px \<Rightarrow> Inr \<lparr>pix_width = w, pix_height = h, rgba = px, pix_opaque = all_opaque px\<rparr>)
      | ZlibRgb \<Rightarrow> Some
          (case inflate_exact K (job_data j) (pixels * 3) of
             Inl f \<Rightarrow> Inl f
           | Inr px \<Rightarrow> if reserve K 0 (pixels * 4) = None then Inl OUT_OF_MEMORY
                      else Inr \<lparr>pix_width = w, pix_height = h, rgba = widen_pixels px, pix_opaque = True\<rparr>)
      | Png \<Rightarrow> Some (decode_png K (job_data j))
      | ZlibPng \<Rightarrow>
          do { r \<leftarrow> inflate_bounded K (job_data j) MAX_ENCODED_BYTES;
               Some (case r of Inl f \<Rightarrow> Inl f | Inr data \<Rightarrow> decode_png K data) })"

section \<open>The base64 crate\<close>

text \<open>
  What the decoder promises: nothing decodes to nothing, whole quads without padding decode one after
  the other to three bytes each, and an input never decodes to more than three quarters of its length.
\<close>

definition PAD :: byte where "PAD = 0x3D"

locale base64_crate =
  fixes b64 :: base64
  assumes empty: "b64 [] = Some []"
    and quads: "4 dvd length xs \<Longrightarrow> PAD \<notin> set xs \<Longrightarrow> b64 (xs @ ys) = do { a \<leftarrow> b64 xs; b \<leftarrow> b64 ys; Some (a @ b) }"
    and quads_length: "4 dvd length xs \<Longrightarrow> PAD \<notin> set xs \<Longrightarrow> b64 xs = Some a \<Longrightarrow> length a = length xs div 4 * 3"
    and length_bound: "b64 xs = Some a \<Longrightarrow> length a \<le> length xs * 3 div 4"
    and length_least: "b64 xs = Some a \<Longrightarrow> length xs div 4 * 3 \<le> length a + 2"

text \<open>The documented decoder, written out: standard alphabet, padding optional, trailing bits ignored.\<close>

definition b64_value :: "byte \<Rightarrow> nat option" where
  "b64_value b =
     (let n = unat b in
      if 65 \<le> n \<and> n \<le> 90 then Some (n - 65) else if 97 \<le> n \<and> n \<le> 122 then Some (n - 71)
      else if 48 \<le> n \<and> n \<le> 57 then Some (n + 4) else if n = 43 then Some 62 else if n = 47 then Some 63 else None)"

fun b64_reference :: base64 where
  "b64_reference [] = Some []"
| "b64_reference [a] = None"
| "b64_reference [a, b] =
     do { a \<leftarrow> b64_value a; b \<leftarrow> b64_value b; Some [of_nat (a * 4 + b div 16)] }"
| "b64_reference [a, b, c] =
     (if c = PAD then b64_reference [a, b]
      else do { a \<leftarrow> b64_value a; b \<leftarrow> b64_value b; c \<leftarrow> b64_value c;
                Some [of_nat (a * 4 + b div 16), of_nat (b * 16 + c div 4)] })"
| "b64_reference (a # b # c # d # rest) =
     (if rest = [] \<and> d = PAD then b64_reference [a, b, c]
      else do { a \<leftarrow> b64_value a; b \<leftarrow> b64_value b; c \<leftarrow> b64_value c; d \<leftarrow> b64_value d;
                rest \<leftarrow> b64_reference rest;
                Some (of_nat (a * 4 + b div 16) # of_nat (b * 16 + c div 4) # of_nat (c * 64 + d) # rest) })"

fun quad_list :: "'a list \<Rightarrow> bool" where
  "quad_list [] \<longleftrightarrow> True"
| "quad_list (a # b # c # d # rest) \<longleftrightarrow> quad_list rest"
| "quad_list _ \<longleftrightarrow> False"

lemma quad_list_iff: "quad_list xs \<longleftrightarrow> 4 dvd length xs"
  by (induction xs rule: quad_list.induct) (auto simp: dvd_def, presburger+)

lemma b64_reference_quads:
  "quad_list xs \<Longrightarrow> PAD \<notin> set xs \<Longrightarrow>
     b64_reference (xs @ ys) = do { a \<leftarrow> b64_reference xs; b \<leftarrow> b64_reference ys; Some (a @ b) }"
proof (induction xs rule: quad_list.induct)
  case (2 a b c d rest)
  then show ?case
    by (cases "b64_value a"; cases "b64_value b"; cases "b64_value c"; cases "b64_value d"; simp;
        cases "b64_reference rest"; cases "b64_reference ys"; auto)
qed (auto split: bind_split)

lemma b64_reference_length:
  "quad_list xs \<Longrightarrow> PAD \<notin> set xs \<Longrightarrow> b64_reference xs = Some a \<Longrightarrow> length a = length xs div 4 * 3"
proof (induction xs arbitrary: a rule: quad_list.induct)
  case (2 a b c d rest)
  then show ?case by (auto simp: bind_eq_Some_conv div_add_self1)
qed auto

lemma b64_reference_bound: "b64_reference xs = Some a \<Longrightarrow> length a \<le> length xs * 3 div 4"
proof (induction xs arbitrary: a rule: b64_reference.induct)
  case (5 a b c d rest)
  then show ?case by (fastforce simp: bind_eq_Some_conv split: if_splits)
qed (auto simp: bind_eq_Some_conv split: if_splits)

lemma b64_reference_least: "b64_reference xs = Some a \<Longrightarrow> length xs div 4 * 3 \<le> Suc (Suc (length a))"
proof (induction xs arbitrary: a rule: b64_reference.induct)
  case (5 a b c d rest r)
  show ?case
  proof (cases "rest = [] \<and> d = PAD")
    case True
    have "r \<noteq> []" using 5(3) True by (auto simp: bind_eq_Some_conv split: if_splits)
    then show ?thesis using True by (cases r) simp_all
  next
    case False
    obtain va vb vc vd r' where v: "b64_value a = Some va" "b64_value b = Some vb" "b64_value c = Some vc"
      "b64_value d = Some vd" "b64_reference rest = Some r'" "length r = 3 + length r'"
      using 5(3) False by (auto simp: bind_eq_Some_conv split: if_splits)
    then show ?thesis using 5(2) [OF False v(1-5)] by (simp add: div_add_self1)
  qed
qed simp_all

interpretation reference: base64_crate b64_reference
  by unfold_locales
    (simp_all add: b64_reference_quads b64_reference_length b64_reference_bound b64_reference_least flip: quad_list_iff)

section \<open>Fragments\<close>

text \<open>Padding ends a chunk: it stands in the last quad only.\<close>

definition late_pad :: "byte list \<Rightarrow> bool" where
  "late_pad xs \<longleftrightarrow> PAD \<notin> set (take ((length xs - 1) div 4 * 4) xs)"

definition quads_of :: "byte list \<Rightarrow> nat" where
  "quads_of xs = length xs div 4 * 4"

lemma quads_of_le: "quads_of xs \<le> length xs" by (simp add: quads_of_def)

lemma quads_of_take: "length (take (quads_of xs) xs) = quads_of xs" "4 dvd quads_of xs"
  using quads_of_le [of xs] by (simp_all add: min_absorb2, simp add: quads_of_def)

lemma late_pad_quads: "late_pad (xs @ ys) \<Longrightarrow> ys \<noteq> [] \<Longrightarrow> PAD \<notin> set (take (quads_of xs) xs)"
proof -
  assume late: "late_pad (xs @ ys)" and ys: "ys \<noteq> []"
  have "quads_of xs \<le> (length (xs @ ys) - 1) div 4 * 4"
    using ys by (cases ys) (auto simp: quads_of_def intro!: div_le_mono)
  then have "set (take (quads_of xs) xs) \<subseteq> set (take ((length (xs @ ys) - 1) div 4 * 4) (xs @ ys))"
    using set_take_subset_set_take [of "quads_of xs" "(length (xs @ ys) - 1) div 4 * 4" "xs @ ys"] quads_of_le [of xs]
    by (simp add: quads_of_def)
  then show ?thesis using late by (auto simp: late_pad_def)
qed

lemma late_pad_prefix: "late_pad (xs @ ys) \<Longrightarrow> late_pad xs"
proof -
  assume "late_pad (xs @ ys)"
  moreover have "(length xs - 1) div 4 * 4 \<le> (length (xs @ ys) - 1) div 4 * 4" by (simp add: div_le_mono)
  moreover have "(length xs - 1) div 4 * 4 \<le> length xs" using div_times_less_eq_dividend [of "length xs - 1" 4] by linarith
  ultimately show ?thesis
    using set_take_subset_set_take [of "(length xs - 1) div 4 * 4" "(length (xs @ ys) - 1) div 4 * 4" "xs @ ys"]
    by (auto simp: late_pad_def)
qed

lemma late_pad_drop: "late_pad xs \<Longrightarrow> n \<le> length xs \<Longrightarrow> 4 dvd n \<Longrightarrow> late_pad (drop n xs)"
proof -
  assume late: "late_pad xs" and n: "n \<le> length xs" "4 dvd n"
  have "set (take ((length xs - n - 1) div 4 * 4) (drop n xs)) \<subseteq> set (take ((length xs - 1) div 4 * 4) xs)"
  proof (cases "length xs = n")
    case False
    obtain k where k: "n = 4 * k" using n(2) by auto
    have "(length xs - n - 1) div 4 * 4 + n = (length xs - 1) div 4 * 4"
    proof -
      have "length xs - 1 = (length xs - n - 1) + k * 4" using n(1) False k by simp
      moreover have "((length xs - n - 1) + k * 4) div 4 = k + (length xs - n - 1) div 4"
        by (rule div_mult_self1) simp
      ultimately show ?thesis unfolding k by simp
    qed
    then show ?thesis by (simp add: take_drop add.commute set_drop_subset)
  qed simp
  then show ?thesis using late by (auto simp: late_pad_def)
qed

context base64_crate begin

text \<open>A push decodes the whole quads of what is pending and the new input, and keeps the rest.\<close>

lemma push_eq:
  assumes p: "length p < 4" and late: "late_pad (p @ a)"
  shows "b64_push b64 p a =
    map_option (\<lambda>out. (out, drop (quads_of (p @ a)) (p @ a))) (b64 (take (quads_of (p @ a)) (p @ a)))"
proof (cases "p = []")
  case True
  then show ?thesis
    by (cases "b64 (take (quads_of a) a)") (simp_all add: b64_push_def b64_rest_def Let_def flip: quads_of_def)
next
  case ne: False
  let ?n = "min (4 - length p) (length a)" and ?xs = "p @ a"
  show ?thesis
  proof (cases "length ?xs < 4")
    case True
    then have "quads_of ?xs = 0" "take ?n a = a" by (simp_all add: quads_of_def)
    then show ?thesis using True ne by (simp add: b64_push_def Let_def empty)
  next
    case False
    then have n: "?n = 4 - length p" using p by simp
    have quad: "p @ take ?n a = take 4 ?xs" and rest: "drop ?n a = drop 4 ?xs" using n p by simp_all
    let ?ys = "drop 4 ?xs"
    have whole: "take (quads_of ?xs) ?xs = take 4 ?xs @ take (quads_of ?ys) ?ys"
      and left: "drop (quads_of ?xs) ?xs = drop (quads_of ?ys) ?ys"
    proof -
      have "quads_of ?xs = 4 + quads_of ?ys"
        using False le_div_geq [of 4 "length ?xs"] by (simp add: quads_of_def)
      then show "take (quads_of ?xs) ?xs = take 4 ?xs @ take (quads_of ?ys) ?ys"
        "drop (quads_of ?xs) ?xs = drop (quads_of ?ys) ?ys"
        by (simp_all add: take_add drop_drop add.commute del: take_append drop_append)
    qed
    have split: "b64 (take 4 ?xs @ take (quads_of ?ys) ?ys) =
        do { o1 \<leftarrow> b64 (take 4 ?xs); o2 \<leftarrow> b64 (take (quads_of ?ys) ?ys); Some (o1 @ o2) }"
    proof (cases "take (quads_of ?ys) ?ys = []")
      case True
      show ?thesis unfolding True by (cases "b64 (take 4 ?xs)") (simp_all add: empty)
    next
      case rest_ne: False
      then have "4 < length ?xs" "?ys \<noteq> []" by auto
      then have "PAD \<notin> set (take (quads_of (take 4 ?xs)) (take 4 ?xs))"
        using late_pad_quads [of "take 4 ?xs" ?ys] late by (simp only: append_take_drop_id) simp
      moreover have "quads_of (take 4 ?xs) = 4" using False by (simp add: quads_of_def)
      ultimately have "PAD \<notin> set (take 4 ?xs)" by (simp del: take_append)
      moreover have "length (take 4 ?xs) = 4" using False by simp
      ultimately show ?thesis by (intro quads) (simp_all del: take_append length_take)
    qed
    show ?thesis
      unfolding whole left b64_push_def Let_def quad rest b64_rest_def quads_of_def [symmetric] split
      using ne False by (cases "b64 (take 4 ?xs)"; cases "b64 (take (quads_of ?ys) ?ys)") simp_all
  qed
qed

lemma push_sizes:
  assumes p: "length p < 4" and push: "b64_push b64 p a = Some (out, q)"
  shows "length q < 4" "length out \<le> b64_bound p (length a)"
proof -
  have rest: "length q < 4 \<and> length out \<le> length o0 + length xs div 4 * 3"
    if r: "b64_rest b64 o0 xs = Some (out, q)" for o0 xs
  proof -
    from r obtain o1 where o1: "b64 (take (length xs div 4 * 4) xs) = Some o1" "out = o0 @ o1" "q = drop (length xs div 4 * 4) xs"
      by (auto simp: b64_rest_def Let_def bind_eq_Some_conv)
    have "length (take (length xs div 4 * 4) xs) = length xs div 4 * 4" by (simp add: min_absorb2)
    then show ?thesis using length_bound [OF o1(1)] o1(2,3) by (simp add: minus_div_mult_eq_mod)
  qed
  have "length q < 4 \<and> length out \<le> b64_bound p (length a)"
  proof (cases "p \<noteq> [] \<and> 4 \<le> length p + length a")
    case True
    let ?n = "min (4 - length p) (length a)"
    have "?n = 4 - length p" using True by linarith
    then have n: "length (p @ take ?n a) = 4" using p by simp
    obtain o0 where o0: "b64 (p @ take ?n a) = Some o0" "b64_rest b64 o0 (drop ?n a) = Some (out, q)"
      using push True n p by (auto simp: b64_push_def Let_def bind_eq_Some_conv split: if_splits)
    have "length o0 \<le> 3" using length_bound [OF o0(1)] unfolding n by simp
    moreover have "(length p + length a) div 4 = Suc ((length p + length a - 4) div 4)"
      using True le_div_geq [of 4 "length p + length a"] by simp
    moreover have "length (drop ?n a) = length p + length a - 4" using True p by simp
    ultimately show ?thesis
      using rest [OF o0(2)] by (simp_all add: b64_bound_def)
  next
    case False
    then show ?thesis
      using push rest [of "[]" a] p by (auto simp: b64_push_def Let_def b64_bound_def split: if_splits)
  qed
  then show "length q < 4" "length out \<le> b64_bound p (length a)" by simp_all
qed

lemma push_pending: "length p < 4 \<Longrightarrow> b64_push b64 p a = Some (out, q) \<Longrightarrow> length q < 4"
  by (rule push_sizes)

lemma push_length: "length p < 4 \<Longrightarrow> b64_push b64 p a = Some (out, q) \<Longrightarrow> length out \<le> b64_bound p (length a)"
  by (rule push_sizes)

lemma decoded_length:
  assumes "late_pad (xs @ ys)" "ys \<noteq> []" "b64 (take (quads_of xs) xs) = Some out"
  shows "length out = length xs div 4 * 3"
  using quads_length [OF _ late_pad_quads [OF assms(1,2)] assms(3)] by (simp add: quads_of_def)

text \<open>Two pushes in a row decode what one push of both decodes.\<close>

lemma push_append:
  assumes p: "length p < 4" and late: "late_pad (p @ a @ b)"
  shows "b64_push b64 p (a @ b) =
    do { (o1, q) \<leftarrow> b64_push b64 p a; (o2, q') \<leftarrow> b64_push b64 q b; Some (o1 @ o2, q') }"
proof (cases "b = []")
  case True
  have "b64_push b64 q [] = Some ([], q)" if "length q < 4" for q
    using that by (cases "q = []") (simp_all add: b64_push_def b64_rest_def empty)
  then show ?thesis
    using True push_pending [OF p]
    by (cases "b64_push b64 p a") (auto simp: True)
next
  case False
  let ?xs = "p @ a" and ?all = "p @ a @ b"
  let ?q = "drop (quads_of ?xs) ?xs"
  have late_a: "late_pad ?xs" using late_pad_prefix [of ?xs b] late by simp
  have q: "length ?q < 4" by (simp add: quads_of_def minus_div_mult_eq_mod)
  have qb: "?q @ b = drop (quads_of ?xs) ?all" using quads_of_le [of ?xs] by simp
  have late_q: "late_pad (?q @ b)"
    unfolding qb by (rule late_pad_drop [OF late]) (use quads_of_le [of ?xs] in \<open>simp_all add: quads_of_def\<close>)
  have n: "quads_of ?all = quads_of ?xs + quads_of (?q @ b)"
  proof -
    have "length ?all = length ?xs div 4 * 4 + length (?q @ b)"
      unfolding qb length_drop quads_of_def using quads_of_le [of ?xs] by (simp add: quads_of_def)
    then show ?thesis unfolding quads_of_def by (metis add_mult_distrib div_mult_self3 numeral_neq_zero zero_neq_numeral)
  qed
  have whole: "take (quads_of ?all) ?all = take (quads_of ?xs) ?xs @ take (quads_of (?q @ b)) (?q @ b)"
    unfolding n take_add qb using quads_of_le [of ?xs] by simp
  have left: "drop (quads_of ?all) ?all = drop (quads_of (?q @ b)) (?q @ b)"
    by (simp only: n qb drop_drop add.commute)
  have "b64 (take (quads_of ?all) ?all) =
      do { o1 \<leftarrow> b64 (take (quads_of ?xs) ?xs); o2 \<leftarrow> b64 (take (quads_of (?q @ b)) (?q @ b)); Some (o1 @ o2) }"
    unfolding whole
  proof (rule quads)
    show "4 dvd length (take (quads_of ?xs) ?xs)" unfolding quads_of_take(1) by (rule quads_of_take(2))
    show "PAD \<notin> set (take (quads_of ?xs) ?xs)" using late_pad_quads [of ?xs b] late False by simp
  qed
  then show ?thesis
    unfolding push_eq [OF p late] push_eq [OF p late_a] left
    by (cases "b64 (take (quads_of ?xs) ?xs)"; cases "b64 (take (quads_of (?q @ b)) (?q @ b))")
      (simp_all add: push_eq [OF q late_q] del: drop_append take_append append_assoc)
qed

end

section \<open>What a transmission has received\<close>

lemma length_widen: "length (widen_pixels xs) = length xs div 3 * 4"
  by (induction xs rule: widen_pixels.induct) (auto simp: div_add_self1)

lemma dvd_steps:
  "(4 :: nat) dvd Suc (Suc (Suc (Suc n))) \<longleftrightarrow> 4 dvd n" "(3 :: nat) dvd Suc (Suc (Suc n)) \<longleftrightarrow> 3 dvd n"
  "\<not> (4 :: nat) dvd Suc 0" "\<not> (4 :: nat) dvd Suc (Suc 0)" "\<not> (4 :: nat) dvd Suc (Suc (Suc 0))"
  "\<not> (3 :: nat) dvd Suc 0" "\<not> (3 :: nat) dvd Suc (Suc 0)"
  by presburger+

lemma widen_append: "3 dvd length xs \<Longrightarrow> widen_pixels (xs @ ys) = widen_pixels xs @ widen_pixels ys"
  by (induction xs rule: widen_pixels.induct) (simp_all add: dvd_steps)

lemma alphas_append: "4 dvd length xs \<Longrightarrow> alphas (xs @ ys) = alphas xs @ alphas ys"
  by (induction xs rule: alphas.induct) (simp_all add: dvd_steps)

lemma foldl_and: "foldl (AND) (a :: byte) xs = 0xFF \<longleftrightarrow> a = 0xFF \<and> (\<forall>x \<in> set xs. x = 0xFF)"
proof (induction xs arbitrary: a)
  case (Cons x xs)
  have "a AND x = 0xFF \<longleftrightarrow> a = 0xFF \<and> x = 0xFF"
  proof
    assume *: "a AND x = 0xFF"
    have "bit a n \<and> bit x n" if "n < 8" for n
    proof -
      have "bit (0xFF :: byte) n" using that by (auto simp: less_Suc_eq numeral_eq_Suc bit_simps)
      then show ?thesis using * by (metis bit_and_iff)
    qed
    moreover have "bit (0xFF :: byte) n" if "n < 8" for n
      using that by (auto simp: less_Suc_eq numeral_eq_Suc bit_simps)
    ultimately show "a = 0xFF \<and> x = 0xFF" by (auto intro!: bit_word_eqI)
  qed simp
  then show ?case using Cons by auto
qed simp

lemma all_opaque_iff: "all_opaque xs \<longleftrightarrow> (\<forall>a \<in> set (alphas xs). a = 0xFF)"
  by (simp add: all_opaque_def foldl_and)

lemma all_opaque_append: "4 dvd length xs \<Longrightarrow> all_opaque (xs @ ys) \<longleftrightarrow> all_opaque xs \<and> all_opaque ys"
  by (auto simp: all_opaque_iff alphas_append)

definition load_ok :: "load \<Rightarrow> bool" where
  "load_ok l \<longleftrightarrow> length (pending l) < 4 \<and>
     (case ld_target l of
        Rejected _ \<Rightarrow> buf l = [] \<and> rgb l = []
      | Rgb \<Rightarrow> 4 dvd length (buf l) \<and> length (rgb l) < 3 \<and> opaque l
      | Rgba \<Rightarrow> rgb l = [] \<and> 4 dvd expected l \<and> scanned l = min (quads_of (buf l)) (expected l) \<and>
          opaque l = all_opaque (take (scanned l) (buf l))
      | Encoded _ \<Rightarrow> rgb l = [])"

definition amount :: "load \<Rightarrow> nat" where
  "amount l = (if ld_target l = Rgb then length (buf l) div 4 * 3 + length (rgb l) else length (buf l))"

definition room :: "load \<Rightarrow> nat" where
  "room l = (if ld_target l = Rgb then limit l div 4 * 3 else limit l)"

definition store_bytes :: "byte list \<Rightarrow> byte list \<Rightarrow> load \<Rightarrow> load" where
  "store_bytes out p l =
     (case ld_target l of
        Rgb \<Rightarrow> l\<lparr>buf := buf l @ widen_pixels (rgb l @ out), pending := p,
               rgb := drop (length (rgb l @ out) div 3 * 3) (rgb l @ out)\<rparr>
      | Rgba \<Rightarrow>
          (let bytes = buf l @ out; n = min (quads_of bytes) (expected l)
           in l\<lparr>buf := bytes, pending := p, scanned := n, opaque := all_opaque (take n bytes)\<rparr>)
      | _ \<Rightarrow> l\<lparr>buf := buf l @ out, pending := p\<rparr>)"

lemma widen_take: "widen_pixels (take (length xs div 3 * 3) xs) = widen_pixels xs"
proof -
  have "length xs div 3 * 3 \<le> length xs" by simp
  then have "3 dvd length (take (length xs div 3 * 3) xs)" by (simp add: min_absorb2)
  from widen_append [OF this, of "drop (length xs div 3 * 3) xs"]
  have "widen_pixels xs = widen_pixels (take (length xs div 3 * 3) xs) @ widen_pixels (drop (length xs div 3 * 3) xs)"
    by simp
  moreover have "length (drop (length xs div 3 * 3) xs) div 3 = 0" by (simp add: minus_div_mult_eq_mod)
  then have "widen_pixels (drop (length xs div 3 * 3) xs) = []"
    using length_widen [of "drop (length xs div 3 * 3) xs"] by simp
  ultimately show ?thesis by simp
qed

lemma load_widen_eq: "ld_target l = Rgb \<Longrightarrow> load_widen (l\<lparr>rgb := rgb l @ out, pending := p\<rparr>) = store_bytes out p l"
  using widen_take [of "rgb l @ out"] by (simp add: load_widen_def store_bytes_def Let_def)

lemma load_scan_eq:
  assumes ok: "load_ok l" and t: "ld_target l \<noteq> Rgb" "\<not> rejected l"
  shows "load_scan (l\<lparr>buf := buf l @ out, pending := p\<rparr>) = store_bytes out p l"
proof (cases "ld_target l = Rgba")
  case False
  then show ?thesis using t by (auto simp: load_scan_def store_bytes_def rejected_def split: load_target.splits)
next
  case True
  let ?bytes = "buf l @ out"
  let ?stop = "min (quads_of ?bytes) (expected l)"
  have sc: "scanned l = min (quads_of (buf l)) (expected l)" "opaque l = all_opaque (take (scanned l) (buf l))"
    "4 dvd expected l"
    using ok True by (auto simp: load_ok_def)
  have "quads_of (buf l) \<le> quads_of ?bytes" by (simp add: quads_of_def div_le_mono)
  then have mono: "scanned l \<le> ?stop" using sc(1) by (auto simp: min_le_iff_disj)
  have le: "?stop \<le> length ?bytes" using quads_of_le [of ?bytes] by linarith
  have dvd: "4 dvd scanned l" using sc(1,3) quads_of_take(2) [of "buf l"] by (simp add: min_def)
  have small: "scanned l \<le> length (buf l)" using sc(1) quads_of_le [of "buf l"] by simp
  have "take ?stop ?bytes = take (scanned l) (buf l) @ drop (scanned l) (take ?stop ?bytes)"
    using mono small append_take_drop_id [of "scanned l" "take ?stop ?bytes"] by (simp add: min_absorb1)
  moreover have "4 dvd length (take (scanned l) (buf l))" using dvd small by (simp add: min_absorb2)
  ultimately have op: "all_opaque (take ?stop ?bytes) \<longleftrightarrow> opaque l \<and> all_opaque (drop (scanned l) (take ?stop ?bytes))"
    using all_opaque_append sc(2) by metis
  have none: "drop (scanned l) (take ?stop ?bytes) = []" if "\<not> scanned l < ?stop"
  proof -
    have "?stop \<le> scanned l" using that by (simp only: not_less)
    then have "?stop - scanned l = 0" by (simp only: diff_is_0_eq)
    then show ?thesis by (simp only: drop_take take_0)
  qed
  have "all_opaque []" by (simp add: all_opaque_iff)
  then have op': "(if opaque l \<and> scanned l < ?stop then all_opaque (drop (scanned l) (take ?stop ?bytes)) else opaque l) =
      all_opaque (take ?stop ?bytes)"
    using op none by (cases "scanned l < ?stop"; cases "opaque l") (simp_all only: if_True if_False simp_thms)
  have sc': "max ?stop (scanned l) = ?stop" using mono by simp
  have "load_scan (l\<lparr>buf := ?bytes, pending := p\<rparr>) = l\<lparr>buf := ?bytes, pending := p,
      opaque := (if opaque l \<and> scanned l < ?stop then all_opaque (drop (scanned l) (take ?stop ?bytes)) else opaque l),
      scanned := max ?stop (scanned l)\<rparr>"
    using True by (simp add: load_scan_def Let_def quads_of_def)
  then show ?thesis unfolding op' sc' using True by (simp add: store_bytes_def Let_def)
qed

lemma target_cases:
  assumes "\<not> rejected l"
  obtains "ld_target l = Rgb" | "ld_target l = Rgba" | e where "ld_target l = Encoded e"
  using assms by (cases "ld_target l") (auto simp: rejected_def)

lemma store_bytes_sel [simp]:
  "ld_target (store_bytes out p l) = ld_target l" "pending (store_bytes out p l) = (if rejected l then p else p)"
  "limit (store_bytes out p l) = limit l" "expected (store_bytes out p l) = expected l" "start (store_bytes out p l) = start l"
  by (simp_all add: store_bytes_def Let_def split: load_target.splits)

lemma rejected_store [simp]: "rejected (store_bytes out p l) = rejected l"
  by (simp add: rejected_def)

lemma store_bytes_ok:
  assumes ok: "load_ok l" and "\<not> rejected l" and p: "length p < 4"
  shows "load_ok (store_bytes out p l)"
  using \<open>\<not> rejected l\<close>
proof (cases rule: target_cases)
  case 1
  have "length (drop (length (rgb l @ out) div 3 * 3) (rgb l @ out)) < 3" by (simp add: minus_div_mult_eq_mod del: drop_append)
  moreover have "4 dvd length (buf l @ widen_pixels (rgb l @ out))"
    using ok 1 by (auto simp: load_ok_def length_widen)
  ultimately show ?thesis using ok 1 p by (simp add: load_ok_def store_bytes_def)
next
  case 2
  then show ?thesis using ok p by (simp add: load_ok_def store_bytes_def Let_def)
next
  case (3 e)
  then show ?thesis using ok p by (simp add: load_ok_def store_bytes_def)
qed

lemma store_bytes_append:
  assumes ok: "load_ok l" and "\<not> rejected l"
  shows "store_bytes o2 q (store_bytes o1 p l) = store_bytes (o1 @ o2) q l"
  using \<open>\<not> rejected l\<close>
proof (cases rule: target_cases)
  case 1
  let ?xs = "rgb l @ o1"
  let ?n = "length ?xs div 3 * 3"
  have n: "?n \<le> length ?xs" "3 dvd length (take ?n ?xs)" by (simp, simp add: min_absorb2 del: take_append)
  have "widen_pixels (?xs @ o2) = widen_pixels (take ?n ?xs) @ widen_pixels (drop ?n ?xs @ o2)"
    using widen_append [OF n(2), of "drop ?n ?xs @ o2"] by (simp only: append_assoc [symmetric] append_take_drop_id)
  moreover have "drop (length (drop ?n ?xs @ o2) div 3 * 3) (drop ?n ?xs @ o2) = drop (length (?xs @ o2) div 3 * 3) (?xs @ o2)"
  proof -
    have split: "drop ?n ?xs @ o2 = drop ?n (?xs @ o2)" using n(1) by (simp only: drop_append) simp
    have "length (?xs @ o2) = length ?xs div 3 * 3 + length (drop ?n (?xs @ o2))"
      using n(1) by (simp only: length_drop length_append)
    then have "length (?xs @ o2) div 3 * 3 = ?n + length (drop ?n (?xs @ o2)) div 3 * 3"
      by (metis add_mult_distrib div_mult_self3 numeral_neq_zero zero_neq_numeral)
    then show ?thesis unfolding split by (simp only: drop_drop add.commute)
  qed
  ultimately show ?thesis using 1 widen_take [of ?xs] by (simp add: store_bytes_def del: drop_append take_append)
next
  case 2
  then show ?thesis by (simp add: store_bytes_def Let_def)
next
  case (3 e)
  then show ?thesis by (simp add: store_bytes_def)
qed

lemma amount_store:
  assumes ok: "load_ok l" and "\<not> rejected l"
  shows "amount (store_bytes out p l) = amount l + length out" "room (store_bytes out p l) = room l"
proof -
  show "amount (store_bytes out p l) = amount l + length out"
    using \<open>\<not> rejected l\<close>
  proof (cases rule: target_cases)
    case 1
    let ?n = "length (rgb l @ out)"
    have "(length (buf l) + ?n div 3 * 4) div 4 = length (buf l) div 4 + ?n div 3"
      by (metis div_mult_self3 mult.commute numeral_neq_zero add.commute zero_neq_numeral)
    moreover have "?n div 3 * 3 + (?n - ?n div 3 * 3) = ?n" by simp
    ultimately show ?thesis
      using 1 by (simp add: amount_def store_bytes_def length_widen add_mult_distrib del: drop_append)
  qed (simp_all add: amount_def store_bytes_def Let_def)
  show "room (store_bytes out p l) = room l" by (simp add: room_def)
qed

lemma load_push_eq:
  assumes "load_ok l" "\<not> rejected l"
  shows "load_push b64 a l =
    (if room l < amount l + b64_bound (pending l) (length a) then load_reject TOO_MUCH_DATA l
     else case b64_push b64 (pending l) a of
            None \<Rightarrow> load_reject BAD_BASE64 (l\<lparr>pending := []\<rparr>)
          | Some (out, p) \<Rightarrow> store_bytes out p l)"
  using assms(2)
proof (cases rule: target_cases)
  case 1
  then show ?thesis
    by (simp add: load_push_def load_decode_def Let_def room_def amount_def load_widen_eq split: option.split prod.split)
next
  case 2
  then show ?thesis using load_scan_eq [OF assms(1)] assms(2)
    by (simp add: load_push_def load_decode_def Let_def room_def amount_def split: option.split prod.split)
next
  case (3 e)
  then show ?thesis using load_scan_eq [OF assms(1)] assms(2)
    by (simp add: load_push_def load_decode_def Let_def room_def amount_def split: option.split prod.split)
qed

lemma load_end_eq:
  assumes "load_ok l" "\<not> rejected l"
  shows "load_end_chunk b64 l =
    (case b64 (pending l) of
       None \<Rightarrow> load_reject BAD_BASE64 (l\<lparr>pending := []\<rparr>)
     | Some out \<Rightarrow> store_bytes out [] l)"
  using assms(2)
proof (cases rule: target_cases)
  case 1
  then show ?thesis
    by (simp add: load_end_chunk_def load_tail_def load_widen_eq split: option.split)
next
  case 2
  then show ?thesis using load_scan_eq [OF assms(1)] assms(2)
    by (simp add: load_end_chunk_def load_tail_def split: option.split)
next
  case (3 e)
  then show ?thesis using load_scan_eq [OF assms(1)] assms(2)
    by (simp add: load_end_chunk_def load_tail_def split: option.split)
qed

lemma load_reject_ok: "length (pending l) < 4 \<Longrightarrow> load_ok l \<Longrightarrow> load_ok (load_reject f (l\<lparr>pending := p\<rparr>))"
  if "length p < 4"
  using that by (auto simp: load_reject_def load_ok_def rejected_def split: load_target.splits)

lemma rejected_reject [simp]: "rejected (load_reject f l)"
  by (simp add: load_reject_def rejected_def)

lemma push_rejected: "rejected l \<Longrightarrow> load_push b64 a l = l"
  by (auto simp: load_push_def load_decode_def rejected_def split: load_target.splits)

lemma end_rejected: "rejected l \<Longrightarrow> load_end_chunk b64 l = l\<lparr>pending := []\<rparr>"
  by (auto simp: load_end_chunk_def load_tail_def rejected_def split: load_target.splits)

text \<open>A buffer is at most two bytes over its limit, and not while characters are pending.\<close>

definition load_bounded :: "load \<Rightarrow> bool" where
  "load_bounded l \<longleftrightarrow> amount l \<le> room l + 2 \<and> (pending l \<noteq> [] \<and> \<not> rejected l \<longrightarrow> amount l \<le> room l)"

lemma bounded_reject: "load_bounded l \<Longrightarrow> load_bounded (load_reject f (l\<lparr>pending := p\<rparr>))"
  by (auto simp: load_bounded_def load_reject_def amount_def rejected_def room_def split: load_target.splits if_splits)

text \<open>A chunk in pieces, and its end.\<close>

definition load_pieces :: "base64 \<Rightarrow> byte list list \<Rightarrow> load \<Rightarrow> load" where
  "load_pieces b64 ps l = foldl (\<lambda>l p. load_push b64 p l) l ps"

lemma pieces_rejected: "rejected l \<Longrightarrow> load_pieces b64 ps l = l"
  by (induction ps) (simp_all add: load_pieces_def push_rejected)

context base64_crate begin

lemma load_push_ok:
  assumes ok: "load_ok l"
  shows "load_ok (load_push b64 a l)"
proof (cases "rejected l")
  case True
  then show ?thesis using ok by (simp add: push_rejected)
next
  case False
  have p: "length (pending l) < 4" using ok by (simp add: load_ok_def)
  have "load_ok (load_reject f l)" "load_ok (load_reject f (l\<lparr>pending := []\<rparr>))" for f
    using load_reject_ok [of "pending l" l f] load_reject_ok [of "[]" l f] ok p by simp_all
  moreover have "load_ok (store_bytes out q l)" if "b64_push b64 (pending l) a = Some (out, q)" for out q
    using store_bytes_ok [OF ok False push_pending [OF p that]] .
  ultimately show ?thesis unfolding load_push_eq [OF ok False] by (auto split: option.split)
qed

text \<open>Fragments: two pushes are one push of both, up to the reason of a refusal.\<close>

lemma load_push_append:
  assumes ok: "load_ok l" and late: "late_pad (pending l @ a @ b)"
  shows "rejected (load_push b64 b (load_push b64 a l)) = rejected (load_push b64 (a @ b) l) \<and>
    (\<not> rejected (load_push b64 (a @ b) l) \<longrightarrow> load_push b64 b (load_push b64 a l) = load_push b64 (a @ b) l)"
proof (cases "rejected l")
  case True
  then show ?thesis by (simp add: push_rejected)
next
  case False
  let ?p = "pending l"
  have p: "length ?p < 4" using ok by (simp add: load_ok_def)
  have late_a: "late_pad (?p @ a)" using late_pad_prefix [of "?p @ a" b] late by simp
  have mono: "b64_bound ?p (length a) \<le> b64_bound ?p (length (a @ b))"
    by (simp add: b64_bound_def div_le_mono)
  note eq = load_push_eq [OF ok False]
  show ?thesis
  proof (cases "room l < amount l + b64_bound ?p (length a)")
    case True
    then have "room l < amount l + b64_bound ?p (length (a @ b))" using mono by linarith
    then show ?thesis using True by (simp add: eq push_rejected)
  next
    case room: False
    show ?thesis
    proof (cases "b64_push b64 ?p a")
      case None
      then show ?thesis using room push_append [OF p late] by (simp add: eq push_rejected)
    next
      case (Some r)
      then obtain o1 q where push: "b64_push b64 ?p a = Some (o1, q)" by (cases r) auto
      let ?l = "store_bytes o1 q l"
      have l: "load_push b64 a l = ?l" using room push by (simp add: eq)
      have q: "length q < 4" by (rule push_pending [OF p push])
      have ok1: "load_ok ?l" by (rule store_bytes_ok [OF ok False q])
      have not1: "\<not> rejected ?l" using False by simp
      have bound: "amount ?l + b64_bound q (length b) = amount l + b64_bound ?p (length (a @ b))" if "b \<noteq> []"
      proof -
        have dec: "b64 (take (quads_of (?p @ a)) (?p @ a)) = Some o1" "q = drop (quads_of (?p @ a)) (?p @ a)"
          using push unfolding push_eq [OF p late_a] by auto
        have "late_pad ((?p @ a) @ b)" using late by simp
        from decoded_length [OF this that dec(1)] have o1: "length o1 = length (?p @ a) div 4 * 3" .
        have "length q = length (?p @ a) - length (?p @ a) div 4 * 4" using dec(2) by (simp add: quads_of_def)
        moreover have "length (?p @ a) div 4 * 4 \<le> length (?p @ a)" by simp
        ultimately have "length (?p @ a @ b) = length q + length b + length (?p @ a) div 4 * 4"
          by (simp only: length_append)
        moreover have "(length q + length b + length (?p @ a) div 4 * 4) div 4 = length (?p @ a) div 4 + (length q + length b) div 4"
          by (rule div_mult_self1) simp
        ultimately have "length (?p @ a @ b) div 4 = (length q + length b) div 4 + length (?p @ a) div 4"
          by (simp only: add.commute)
        then show ?thesis
          using o1 amount_store [OF ok False, of o1 q] by (simp add: b64_bound_def add_mult_distrib)
      qed
      show ?thesis
      proof (cases "b = []")
        case True
        have "b64_push b64 q [] = Some ([], q)"
          using q by (cases "q = []") (simp_all add: b64_push_def b64_rest_def empty)
        moreover have "b64_bound q 0 = 0" using q by (simp add: b64_bound_def)
        moreover have "length o1 \<le> b64_bound ?p (length a)" by (rule push_length [OF p push])
        then have "\<not> room ?l < amount ?l" using room amount_store [OF ok False] by simp
        ultimately show ?thesis
          using True store_bytes_append [OF ok False, of "[]" q o1 q] by (simp add: l load_push_eq [OF ok1 not1])
      next
        case ne: False
        have whole: "b64_push b64 ?p (a @ b) = map_option (\<lambda>(o2, q'). (o1 @ o2, q')) (b64_push b64 q b)"
          unfolding push_append [OF p late] push by (cases "b64_push b64 q b") auto
        have same: "room ?l < amount ?l + b64_bound q (length b) \<longleftrightarrow> room l < amount l + b64_bound ?p (length (a @ b))"
          using bound [OF ne] amount_store(2) [OF ok False] by simp
        have second: "load_push b64 b ?l = (if room l < amount l + b64_bound ?p (length (a @ b)) then load_reject TOO_MUCH_DATA ?l
            else case b64_push b64 q b of None \<Rightarrow> load_reject BAD_BASE64 (?l\<lparr>pending := []\<rparr>)
              | Some (out, p) \<Rightarrow> store_bytes out p ?l)"
          using load_push_eq [OF ok1 not1, of b64 b] same by simp
        show ?thesis
          unfolding l unfolding second eq [of b64 "a @ b"] whole
          by (cases "b64_push b64 q b") (simp_all add: store_bytes_append [OF ok False] split: prod.split)
      qed
    qed
  qed
qed

lemma load_end_ok: "load_ok l \<Longrightarrow> load_ok (load_end_chunk b64 l)"
proof (cases "rejected l")
  case True
  assume "load_ok l"
  then show ?thesis using True by (auto simp: end_rejected load_ok_def rejected_def split: load_target.splits)
next
  case False
  assume ok: "load_ok l"
  have "load_ok (load_reject f (l\<lparr>pending := []\<rparr>))" for f
    using load_reject_ok [of "[]" l f] ok by (simp add: load_ok_def)
  then show ?thesis
    using store_bytes_ok [OF ok False, of "[]"] by (auto simp: load_end_eq [OF ok False] split: option.split)
qed

lemma load_push_bounded:
  assumes ok: "load_ok l" and b: "load_bounded l"
  shows "load_bounded (load_push b64 a l)"
proof (cases "rejected l")
  case True
  then show ?thesis using b by (simp add: push_rejected)
next
  case False
  have p: "length (pending l) < 4" using ok by (simp add: load_ok_def)
  have "load_bounded (store_bytes out q l)"
    if "b64_push b64 (pending l) a = Some (out, q)" "\<not> room l < amount l + b64_bound (pending l) (length a)" for out q
    using push_length [OF p that(1)] that(2) amount_store [OF ok False] by (simp add: load_bounded_def)
  moreover have "load_bounded (load_reject f l)" for f
    using bounded_reject [OF b, of f "pending l"] by simp
  ultimately show ?thesis
    using bounded_reject [OF b] by (auto simp: load_push_eq [OF ok False] split: option.split)
qed

lemma load_end_bounded:
  assumes ok: "load_ok l" and b: "load_bounded l"
  shows "load_bounded (load_end_chunk b64 l)"
proof (cases "rejected l")
  case True
  then show ?thesis using b
    by (auto simp: end_rejected load_bounded_def amount_def room_def rejected_def split: load_target.splits)
next
  case False
  have "load_bounded (store_bytes out [] l)" if out: "b64 (pending l) = Some out" for out
  proof (cases "pending l = []")
    case True
    then have "out = []" using out empty by simp
    then show ?thesis using b amount_store [OF ok False] by (simp add: load_bounded_def)
  next
    case ne: False
    have "length (pending l) < 4" using ok by (simp add: load_ok_def)
    then have "length (pending l) * 3 div 4 \<le> 2" by linarith
    then have "length out \<le> 2" using length_bound [OF out] by linarith
    then show ?thesis using b amount_store [OF ok False] ne False by (simp add: load_bounded_def)
  qed
  then show ?thesis
    using bounded_reject [OF b] by (auto simp: load_end_eq [OF ok False] split: option.split)
qed

lemma load_pieces_eq:
  assumes "ps \<noteq> []" "load_ok l" "late_pad (pending l @ concat ps)"
  shows "rejected (load_pieces b64 ps l) = rejected (load_push b64 (concat ps) l) \<and>
    (\<not> rejected (load_push b64 (concat ps) l) \<longrightarrow> load_pieces b64 ps l = load_push b64 (concat ps) l)"
  using assms
proof (induction ps arbitrary: l rule: list_nonempty_induct)
  case (single p)
  then show ?case by (simp add: load_pieces_def)
next
  case (cons p ps)
  let ?l = "load_push b64 p l"
  have late: "late_pad (pending l @ p @ concat ps)" using cons.prems by simp
  note whole = load_push_append [OF cons.prems(1) late]
  have unfold: "load_pieces b64 (p # ps) l = load_pieces b64 ps ?l" by (simp add: load_pieces_def)
  show ?case
  proof (cases "rejected ?l")
    case True
    then show ?thesis using whole pieces_rejected [OF True] by (simp add: unfold push_rejected)
  next
    case False
    then have not: "\<not> rejected l" using push_rejected by metis
    have p: "length (pending l) < 4" using cons.prems(1) by (simp add: load_ok_def)
    have late_p: "late_pad (pending l @ p)" using late_pad_prefix [of "pending l @ p" "concat ps"] late by simp
    have "pending ?l = drop (quads_of (pending l @ p)) (pending l @ p)"
      using False unfolding load_push_eq [OF cons.prems(1) not] push_eq [OF p late_p]
      by (auto split: if_splits option.splits)
    then have "pending ?l @ concat ps = drop (quads_of (pending l @ p)) (pending l @ p @ concat ps)"
      using quads_of_le [of "pending l @ p"] by simp
    moreover have "late_pad (drop (quads_of (pending l @ p)) (pending l @ p @ concat ps))"
      by (rule late_pad_drop [OF late]) (use quads_of_le [of "pending l @ p"] quads_of_take(2) in simp_all)
    ultimately have late1: "late_pad (pending ?l @ concat ps)" by (simp only:)
    show ?thesis
      using cons.IH [OF load_push_ok [OF cons.prems(1)] late1] whole by (simp add: unfold)
  qed
qed

lemma load_chunk_eq:
  assumes ok: "load_ok l" and l: "\<not> rejected l" "pending l = []" and ps: "ps \<noteq> []"
    and late: "late_pad (concat ps)" and d: "b64 (concat ps) = Some d" and space: "amount l + length d + 2 \<le> room l"
  shows "load_end_chunk b64 (load_pieces b64 ps l) = store_bytes d [] l"
proof -
  let ?xs = "concat ps"
  let ?n = "quads_of ?xs"
  have "length ?xs div 4 * 3 \<le> length d + 2" by (rule length_least [OF d])
  then have fits: "\<not> room l < amount l + b64_bound [] (length ?xs)" using space by (simp add: b64_bound_def)
  obtain o1 o2 where o: "b64 (take ?n ?xs) = Some o1" "b64 (drop ?n ?xs) = Some o2" "d = o1 @ o2"
  proof (cases "drop ?n ?xs = []")
    case True
    then have "take ?n ?xs = ?xs" by simp
    then show ?thesis using that [of d "[]"] d True empty by simp
  next
    case False
    have "PAD \<notin> set (take (quads_of ?xs) ?xs)"
    proof -
      have "quads_of (take ?n ?xs) = ?n" by (simp add: quads_of_def min_absorb2)
      moreover have "late_pad (take ?n ?xs @ drop ?n ?xs)" using late by simp
      from late_pad_quads [OF this False] have "PAD \<notin> set (take (quads_of (take ?n ?xs)) (take ?n ?xs))" .
      ultimately show ?thesis by simp
    qed
    then have "b64 (take ?n ?xs @ drop ?n ?xs) = do { a \<leftarrow> b64 (take ?n ?xs); b \<leftarrow> b64 (drop ?n ?xs); Some (a @ b) }"
      using quads_of_take [of ?xs] by (intro quads) simp_all
    then have "do { a \<leftarrow> b64 (take ?n ?xs); b \<leftarrow> b64 (drop ?n ?xs); Some (a @ b) } = Some d" using d by simp
    then show ?thesis using that by (auto simp: bind_eq_Some_conv)
  qed
  have "b64_push b64 [] ?xs = Some (o1, drop ?n ?xs)"
    using push_eq [of "[]" ?xs] late o(1) by simp
  then have push: "load_push b64 ?xs l = store_bytes o1 (drop ?n ?xs) l"
    using fits l(2) by (simp add: load_push_eq [OF ok l(1)])
  have short: "length (drop ?n ?xs) < 4" by (simp add: quads_of_def minus_div_mult_eq_mod)
  have "load_pieces b64 ps l = store_bytes o1 (drop ?n ?xs) l"
    using load_pieces_eq [OF ps ok] late l push by simp
  then show ?thesis
    using load_end_eq [OF store_bytes_ok [OF ok l(1) short], of o1] l(1) o(2,3) store_bytes_append [OF ok l(1)]
    by simp
qed

end

section \<open>What a transmission promises\<close>

lemma rejected_simps [simp]:
  "rejected (l\<lparr>ld_target := Rejected f\<rparr>)" "\<not> rejected (l\<lparr>ld_target := Rgb\<rparr>)" "\<not> rejected (l\<lparr>ld_target := Rgba\<rparr>)"
  "\<not> rejected (l\<lparr>ld_target := Encoded e\<rparr>)"
  by (simp_all add: rejected_def)

lemma load_begin_ok: "load_ok (load_begin rs s) \<and> load_bounded (load_begin rs s)"
  by (auto simp: load_begin_def load_plan_def Let_def load_ok_def load_bounded_def amount_def room_def quads_of_def
      all_opaque_iff split: prod.split sum.split if_splits)

datatype load_event = Fragment "byte list" | EndChunk

definition load_run :: "base64 \<Rightarrow> load_event list \<Rightarrow> load \<Rightarrow> load" where
  "load_run b64 = fold (\<lambda>e. case e of Fragment p \<Rightarrow> load_push b64 p | EndChunk \<Rightarrow> load_end_chunk b64)"

text \<open>
  C26. Whatever fragments and chunks arrive, a transmission keeps its invariant: at most three
  characters of base64 are pending, refused data is released, 24-bit pixels are widened whole,
  the opacity is that of the pixels scanned, and the data held exceeds the declared room by at
  most two bytes.
\<close>

theorem load_invariant:
  assumes "base64_crate b64"
  shows "load_ok (load_run b64 es (load_begin rs s)) \<and>
    amount (load_run b64 es (load_begin rs s)) \<le> room (load_run b64 es (load_begin rs s)) + 2"
proof -
  have "load_ok l \<Longrightarrow> load_bounded l \<Longrightarrow> load_ok (load_run b64 es l) \<and> load_bounded (load_run b64 es l)" for l
  proof (induction es arbitrary: l)
    case (Cons e es)
    then show ?case
      using base64_crate.load_push_ok [OF assms, of l] base64_crate.load_push_bounded [OF assms, of l]
        base64_crate.load_end_ok [OF assms, of l] base64_crate.load_end_bounded [OF assms, of l]
      by (cases e) (simp_all add: load_run_def)
  qed (simp add: load_run_def)
  then show ?thesis using load_begin_ok by (simp add: load_bounded_def)
qed

theorem load_invariant_witness:
  "load_ok (load_run b64_reference [Fragment (ascii ''AAAA''), EndChunk] (load_begin (\<lambda>n k. Some (n + k)) default_command))"
  using load_invariant [OF reference.base64_crate_axioms] by blast

text \<open>
  C28. How the payload is cut into fragments does not matter: a transmission that receives the
  pieces one by one is refused exactly when it is refused for the whole, and otherwise is in
  the same state, as long as padding only comes at the end.
\<close>

theorem fragments_do_not_matter:
  assumes "base64_crate b64" "load_ok l" "ps \<noteq> []" "late_pad (pending l @ concat ps)"
  shows "rejected (load_pieces b64 ps l) = rejected (load_push b64 (concat ps) l) \<and>
    (\<not> rejected (load_push b64 (concat ps) l) \<longrightarrow> load_pieces b64 ps l = load_push b64 (concat ps) l)"
  by (rule base64_crate.load_pieces_eq [OF assms(1,3,2,4)])

definition pixel_command :: command where
  "pixel_command = default_command\<lparr>data_width := 1, data_height := 1\<rparr>"

definition grow :: "nat \<Rightarrow> nat \<Rightarrow> nat option" where "grow n k = Some (n + k)"

lemma pixel_begin:
  "load_begin grow pixel_command = \<lparr>start = pixel_command, ld_target = Rgba, buf = [], expected = 4, limit = 16,
     pending = [], rgb = [], scanned = 0, opaque = True\<rparr>"
  by (simp add: load_begin_def load_plan_def Let_def default_command_def pixel_command_def MAX_DIMENSION_def SLACK_def
      ch_def grow_def)

text \<open>The declared limit is not one: the tail of a chunk is stored without looking at it.\<close>

text \<open>
  C29. The data of a transmission can grow past its limit: the tail of a chunk is decoded
  without the limit being checked, so the buffer ends up larger than the limit without the
  transmission being refused.
\<close>

theorem limit_exceeded:
  "\<exists>payload. let l = load_end_chunk b64_reference (load_push b64_reference payload (load_begin grow pixel_command))
     in \<not> rejected l \<and> limit l < length (buf l)"
proof -
  let ?l = "load_begin grow pixel_command"
  let ?payload = "replicate 23 (0x41 :: byte)"
  have l: "load_ok ?l" "\<not> rejected ?l" "room ?l = 16" "amount ?l = 0" "pending ?l = []" "limit ?l = 16"
    using load_begin_ok [of grow pixel_command] by (simp_all add: pixel_begin room_def amount_def rejected_def)
  have zero: "b64_value 0x41 = Some 0" by (simp add: b64_value_def)
  have pad: "(0x41 :: byte) \<noteq> PAD" by (simp add: PAD_def)
  have few: "replicate 4 x = [x, x, x, x]" "replicate 3 x = [x, x, x]" for x :: byte
    by (simp_all add: eval_nat_numeral)
  have "b64_reference (replicate (4 * n) 0x41) = Some (replicate (3 * n) 0)" for n
    by (induction n) (simp_all add: zero pad replicate_add few)
  from this [of 5] have "b64_reference (replicate 20 0x41) = Some (replicate 15 0)" by simp
  then have "b64_push b64_reference [] ?payload = Some (replicate 15 0, replicate 3 0x41)"
    by (simp add: b64_push_def b64_rest_def)
  then have push: "load_push b64_reference ?payload ?l = store_bytes (replicate 15 0) (replicate 3 0x41) ?l"
    using l by (simp add: load_push_eq [OF l(1,2)] b64_bound_def)
  have ok: "load_ok (store_bytes (replicate 15 0) (replicate 3 0x41) ?l)" by (rule store_bytes_ok [OF l(1,2)]) simp
  have "b64_reference (replicate 3 0x41) = Some (replicate 2 0)"
    by (simp add: numeral_3_eq_3 numeral_2_eq_2 zero pad)
  then have "load_end_chunk b64_reference (load_push b64_reference ?payload ?l) = store_bytes (replicate 17 0) [] ?l"
    using load_end_eq [OF ok] l(2) store_bytes_append [OF l(1,2)] by (simp add: push flip: replicate_add)
  moreover have "length (buf (store_bytes (replicate 17 0) [] ?l)) = 17"
    by (simp add: store_bytes_def Let_def pixel_begin)
  ultimately show ?thesis using l(2,6) by (intro exI [of _ ?payload]) (simp add: Let_def)
qed

theorem fragments_do_not_matter_witness:
  "load_pieces b64_reference [ascii ''AA'', ascii ''A''] (load_begin grow pixel_command) =
     load_push b64_reference (ascii ''AAA'') (load_begin grow pixel_command)"
proof -
  have late: "late_pad (pending (load_begin grow pixel_command) @ concat [ascii ''AA'', ascii ''A''])"
    by (simp add: late_pad_def pixel_begin ascii_def PAD_def)
  have "\<not> rejected (load_push b64_reference (ascii ''AAA'') (load_begin grow pixel_command))"
    by (simp add: load_push_def load_decode_def b64_push_def b64_rest_def b64_bound_def ascii_def pixel_begin load_scan_def
        rejected_def)
  then show ?thesis
    using fragments_do_not_matter [OF reference.base64_crate_axioms _ _ late] load_begin_ok [of grow pixel_command]
    by (simp add: ascii_def)
qed

text \<open>A direct transmission, in any chunks and fragments, gives the pixels that were sent.\<close>

definition send_chunks :: "base64 \<Rightarrow> byte list list list \<Rightarrow> load \<Rightarrow> load" where
  "send_chunks b64 chunks l = foldl (\<lambda>l ps. load_end_chunk b64 (load_pieces b64 ps l)) l chunks"

lemma send_chunks_store:
  assumes crate: "base64_crate b64" and l0: "load_ok l0" "\<not> rejected l0" "amount l0 = 0"
    and chunks: "list_all2 (\<lambda>ps d. ps \<noteq> [] \<and> late_pad (concat ps) \<and> b64 (concat ps) = Some d) chunks ds"
    and space: "length acc + length (concat ds) + 2 \<le> room l0"
  shows "send_chunks b64 chunks (store_bytes acc [] l0) = store_bytes (acc @ concat ds) [] l0"
  using chunks space
proof (induction arbitrary: acc rule: list_all2_induct)
  case Nil
  then show ?case by (simp add: send_chunks_def)
next
  case (Cons ps chunks d ds)
  let ?l = "store_bytes acc [] l0"
  have l: "load_ok ?l" "\<not> rejected ?l" "pending ?l = []" using store_bytes_ok [OF l0(1,2)] l0(2) by simp_all
  have "amount ?l + length d + 2 \<le> room ?l"
    using amount_store [OF l0(1,2)] l0(3) Cons.prems by simp
  then have "load_end_chunk b64 (load_pieces b64 ps ?l) = store_bytes d [] ?l"
    using base64_crate.load_chunk_eq [OF crate l, of ps d] Cons.hyps(1) by simp
  also have "\<dots> = store_bytes (acc @ d) [] l0" by (rule store_bytes_append [OF l0(1,2)])
  finally show ?case using Cons.IH [of "acc @ d"] Cons.prems by (simp add: send_chunks_def)
qed

text \<open>
  C27. Sending exactly the declared pixels, in any chunks of base64 and any fragments, yields
  these pixels: 32-bit data unchanged, 24-bit data widened with opaque alpha, and the opacity
  that the alpha bytes have.
\<close>

theorem direct_transmission:
  assumes crate: "base64_crate b64"
    and direct: "medium s = 0 \<or> medium s = ch CHR ''d''" "format s \<in> {0, 24, 32}" "compression s \<noteq> ch CHR ''z''"
    and size: "0 < data_width s" "data_width s \<le> MAX_DIMENSION" "0 < data_height s" "data_height s \<le> MAX_DIMENSION"
    and memory: "rs 0 (data_width s * data_height s * 4 + SLACK) \<noteq> None"
    and chunks: "list_all2 (\<lambda>ps d. ps \<noteq> [] \<and> late_pad (concat ps) \<and> b64 (concat ps) = Some d) chunks ds"
    and exact: "length (concat ds) = data_width s * data_height s * (if format s = 24 then 3 else 4)"
  shows "load_finish (send_chunks b64 chunks (load_begin rs s)) =
    Inr (Pixels \<lparr>pix_width = data_width s, pix_height = data_height s,
      rgba = (if format s = 24 then widen_pixels (concat ds) else concat ds),
      pix_opaque = (format s = 24 \<or> (\<forall>a \<in> set (alphas (concat ds)). a = 0xFF))\<rparr>)"
proof -
  let ?px = "data_width s * data_height s" and ?data = "concat ds"
  define l0 where "l0 = \<lparr>start = s, ld_target = (if format s = 24 then Rgb else Rgba), buf = [], expected = ?px * 4,
    limit = ?px * 4 + SLACK, pending = [], rgb = [], scanned = 0, opaque = True\<rparr>"
  have init: "load_begin rs s = l0"
    using direct size memory by (auto simp: load_begin_def load_plan_def Let_def l0_def)
  have ok: "load_ok l0" using load_begin_ok [of rs s] by (simp add: init)
  have not: "\<not> rejected l0" "amount l0 = 0" by (auto simp: l0_def rejected_def amount_def)
  have room: "length ([] :: byte list) + length ?data + 2 \<le> room l0"
  proof (cases "format s = 24")
    case True
    have "(?px * 4 + 12) div 4 = ?px + 3" by simp
    then have "room l0 = (?px + 3) * 3" using True by (simp add: room_def l0_def SLACK_def)
    then show ?thesis using exact True by simp
  next
    case False
    then show ?thesis using exact by (simp add: room_def l0_def SLACK_def)
  qed
  have "store_bytes [] [] l0 = l0"
    by (simp add: store_bytes_def l0_def quads_of_def all_opaque_iff)
  then have final: "send_chunks b64 chunks (load_begin rs s) = store_bytes ?data [] l0"
    using send_chunks_store [OF crate ok not chunks room] by (simp add: init)
  show ?thesis
  proof (cases "format s = 24")
    case True
    then have "length ?data div 3 * 4 = ?px * 4" using exact by simp
    then show ?thesis using True by (simp add: final load_finish_def store_bytes_def l0_def length_widen)
  next
    case False
    then have "quads_of ?data = ?px * 4" "length ?data = ?px * 4" using exact by (simp_all add: quads_of_def)
    then show ?thesis using False by (simp add: final load_finish_def store_bytes_def Let_def l0_def all_opaque_iff)
  qed
qed

theorem direct_transmission_witness:
  "load_finish (send_chunks b64_reference [[ascii ''AAA'', ascii ''A/w==''] ] (load_begin grow pixel_command)) =
     Inr (Pixels \<lparr>pix_width = 1, pix_height = 1, rgba = [0, 0, 0, 255], pix_opaque = True\<rparr>)"
proof -
  have chunks: "list_all2 (\<lambda>ps d. ps \<noteq> [] \<and> late_pad (concat ps) \<and> b64_reference (concat ps) = Some d)
      [[ascii ''AAA'', ascii ''A/w=='']] [[0, 0, 0, 255]]"
    by (simp add: late_pad_def ascii_def PAD_def b64_value_def)
  show ?thesis
    using direct_transmission [OF reference.base64_crate_axioms _ _ _ _ _ _ _ _ chunks, of pixel_command grow]
    by (simp add: pixel_command_def default_command_def ch_def MAX_DIMENSION_def grow_def)
qed

text \<open>Decoding what was received ends, and gives four bytes for every pixel.\<close>

definition codecs_ok :: "'z codecs \<Rightarrow> bool" where
  "codecs_ok K \<longleftrightarrow>
     (\<forall>n k cap. reserve K n k = Some cap \<longrightarrow> n + k \<le> cap) \<and>
     total_in K (inflate_init K) = 0 \<and>
     (\<forall>z input room z' st out. inflate_step K z input room = Some (z', st, out) \<longrightarrow>
        length out \<le> room \<and> total_in K z' \<le> total_in K z + length input) \<and>
     (\<forall>data w h px. png_decode K data = Some (w, h, px) \<longrightarrow> length px = w * h * 4)"

lemma inflate_loop_ends:
  assumes K: "codecs_ok K" and "length out \<le> cap" "total_in K z \<le> length data"
  shows "\<exists>r. inflate_loop K data n z out cap = Some r"
  using assms(2,3)
proof (induction "(out, cap)" arbitrary: out cap z
    rule: wf_induct [OF wf_measures [of "[\<lambda>(out, cap). n - length out, \<lambda>(out, cap). cap - length out]"]])
  case 1
  show ?case
  proof (cases "length out = cap \<and> n \<le> length out")
    case True
    then show ?thesis by (subst inflate_loop.simps) simp
  next
    case False
    define grown where "grown = (if length out = cap then reserve K (length out) (min STEP (n - length out)) else Some cap)"
    show ?thesis
    proof (cases grown)
      case None
      then show ?thesis using False by (subst inflate_loop.simps) (simp add: grown_def [symmetric] del: grown_def)
    next
      case (Some cap')
      have room: "length out < cap'" "n \<le> length out \<longrightarrow> cap' = cap"
      proof -
        have "0 < STEP" by (simp add: STEP_def)
        then show "length out < cap'" "n \<le> length out \<longrightarrow> cap' = cap"
          using Some False 1(2) K by (fastforce simp: grown_def codecs_ok_def split: if_splits)+
      qed
      let ?rest = "drop (total_in K z) data"
      show ?thesis
      proof (cases "inflate_step K z ?rest (cap' - length out)")
        case None
        then show ?thesis using False Some 1(3) by (subst inflate_loop.simps) (simp flip: grown_def)
      next
        case (Some r)
        then obtain z' st got where step: "inflate_step K z ?rest (cap' - length out) = Some (z', st, got)" by (cases r) auto
        have got: "length got \<le> cap' - length out" "total_in K z' \<le> total_in K z + length ?rest"
          using K step unfolding codecs_ok_def by blast+
        show ?thesis
        proof (cases "st = StreamEnd \<or> got = []")
          case True
          then show ?thesis using False \<open>grown = Some cap'\<close> 1(3) step room(1)
            by (subst inflate_loop.simps) (auto simp flip: grown_def)
        next
          case cont: False
          have "((out @ got, cap'), (out, cap)) \<in> measures [\<lambda>(out, cap). n - length out, \<lambda>(out, cap). cap - length out]"
            using cont room got(1) by (cases "n \<le> length out") (auto simp: length_greater_0_conv [symmetric] simp del: length_greater_0_conv)
          then have "\<exists>r. inflate_loop K data n z' (out @ got) cap' = Some r"
            using 1(1) got 1(3) room(1) by auto
          then show ?thesis using False \<open>grown = Some cap'\<close> 1(3) step cont
            by (subst inflate_loop.simps) (simp flip: grown_def)
        qed
      qed
    qed
  qed
qed

lemma decode_returns:
  assumes "codecs_ok K"
  shows "returns (run_job K j) (\<lambda>r. \<forall>px. r = Inr px \<longrightarrow> length (rgba px) = pix_width px * pix_height px * 4)"
proof -
  have exact: "inflate_exact K data n = Inr px \<Longrightarrow> length px = n" for data n px
    by (auto simp: inflate_exact_def split: option.splits prod.splits status.splits if_splits)
  have png: "decode_png K data = Inr px \<Longrightarrow> length (rgba px) = pix_width px * pix_height px * 4" for data px
    using assms by (auto simp: decode_png_def codecs_ok_def split: option.splits)
  obtain r where r: "inflate_bounded K (job_data j) MAX_ENCODED_BYTES = Some r"
    using inflate_loop_ends [OF assms, where n = MAX_ENCODED_BYTES and out = "[]" and cap = 0 and z = "inflate_init K"
        and data = "job_data j"] assms
    by (auto simp: inflate_bounded_def codecs_ok_def)
  show ?thesis
  proof (cases "encoding j")
    case ZlibRgb
    then show ?thesis
      by (auto simp: run_job_def Let_def length_widen dest: exact split: sum.split)
  next
    case ZlibRgba
    then show ?thesis by (auto simp: run_job_def Let_def dest: exact split: sum.split)
  next
    case Png
    then show ?thesis by (auto simp: run_job_def Let_def dest: png)
  next
    case ZlibPng
    then show ?thesis using r by (auto simp: run_job_def Let_def dest: png split: sum.split)
  qed
qed

text \<open>
  C30. Decoding a compressed image terminates, also for streams of unknown size, and gives four
  bytes for every pixel of the size it reports.
\<close>

theorem decode_ends:
  assumes "codecs_ok K"
  shows "returns (run_job K j) (\<lambda>r. \<forall>px. r = Inr px \<longrightarrow> length (rgba px) = pix_width px * pix_height px * 4)"
  by (rule decode_returns [OF assms])

text \<open>Codecs that store: nothing is compressed, and a PNG file is its pixels, one below the other.\<close>

definition stored_codecs :: "nat codecs" where
  "stored_codecs = \<lparr>reserve = grow, inflate_finish = (\<lambda>data cap. Some (StreamEnd, take cap data)),
     inflate_head = (\<lambda>data n. Some (min n (length data), take n data)), inflate_init = 0, total_in = id,
     inflate_step = (\<lambda>z input cap. Some (z + length input, if cap < length input then BufError else StreamEnd, take cap input)),
     png_decode = (\<lambda>data. Some (1, length data div 4, take (length data div 4 * 4) data))\<rparr>"

theorem decode_ends_witness:
  "returns (run_job stored_codecs \<lparr>encoding = ZlibRgba, job_width = 1, job_height = 1, job_data = [1, 2, 3, 4]\<rparr>)
     (\<lambda>r. \<exists>px. r = Inr px \<and> length (rgba px) = 4)"
proof -
  let ?j = "\<lparr>encoding = ZlibRgba, job_width = 1, job_height = 1, job_data = [1, 2, 3, 4]\<rparr>"
  have "codecs_ok stored_codecs" by (auto simp: codecs_ok_def stored_codecs_def grow_def min_absorb2)
  from decode_ends [OF this, of ?j] show ?thesis
    by (simp add: run_job_def inflate_exact_def stored_codecs_def grow_def)
qed

end
