(* ===== verification/Kitty.thy ===== *)
theory Kitty
  imports Images Load Dcs
begin

text \<open>
  The graphics protocol of one terminal, \<open>src/terminal/graphics/mod.rs\<close>: commands arrive between
  \<open>apc_start\<close> and \<open>apc_end\<close> in fragments; the two screens have an image store each; replies keep the
  order of the commands even when decoding is left to a later call.

  The crates are the record \<open>crates\<close>; a counter of the process gives every stored image an identity,
  here an argument. Wrapping counters of 64 bits wrap; counts of bytes are natural numbers.
\<close>

section \<open>State\<close>

record ('f, 'z) crates =
  fl :: "'f floats"
  codecs :: "'z codecs"
  base64 :: base64
  find_byte :: "byte \<Rightarrow> byte list \<Rightarrow> nat option"

definition MAX_REPLIES :: nat where "MAX_REPLIES = 256"
definition MAX_JOBS :: nat where "MAX_JOBS = 16"
definition ALTERNATE :: nat where "ALTERNATE = 1"

datatype sink = Idle | Start | Control | Payload bool | Ignore

datatype reply_slot = Ready "byte list" | Pending nat

record target =
  tg_screen :: nat
  tg_key :: nat
  tg_uid :: nat

record queued_job =
  qj_seq :: nat
  qj_job :: decode_job
  qj_target :: "target option"
  qj_command :: command

record finished_job =
  fj_seq :: nat
  fj_target :: "target option"
  fj_command :: command
  fj_result :: "failure + pixels"

record 'f kitty =
  screens :: "'f image_store list"
  active :: nat
  sink :: sink
  control :: "byte list"
  current :: "command option"
  loader :: "load option"
  k_cell :: cell_pixels
  revision :: nat
  screen_epoch :: nat
  dirty :: bool
  quiet_bytes :: nat
  defer_decode :: bool
  jobs :: "queued_job list"
  last_job :: nat
  replies :: "reply_slot list"

definition new_kitty :: "'f kitty" where
  "new_kitty = \<lparr>screens = [empty_store, empty_store], active = 0, sink = Idle, control = [], current = None,
     loader = None, k_cell = FALLBACK, revision = 0, screen_epoch = 0, dirty = False, quiet_bytes = 0,
     defer_decode = False, jobs = [], last_job = 0, replies = []\<rparr>"

definition wrapping_inc :: "nat \<Rightarrow> nat" where
  "wrapping_inc n = (n + 1) mod 2 ^ 64"

definition touch :: "'f kitty \<Rightarrow> 'f kitty" where
  "touch g = g\<lparr>revision := wrapping_inc (revision g), dirty := True\<rparr>"

definition take_dirty :: "'f kitty \<Rightarrow> bool \<times> 'f kitty" where
  "take_dirty g = (dirty g, g\<lparr>dirty := False\<rparr>)"

definition take_quiet_bytes :: "'f kitty \<Rightarrow> nat \<times> 'f kitty" where
  "take_quiet_bytes g = (quiet_bytes g, g\<lparr>quiet_bytes := 0\<rparr>)"

definition store_of :: "'f kitty \<Rightarrow> 'f image_store option" where
  "store_of g = idx (screens g) (active g)"

text \<open>An operation on one store, or on the store of the displayed screen.\<close>

definition on_store ::
  "nat \<Rightarrow> ('f image_store \<Rightarrow> ('a \<times> 'f image_store) option) \<Rightarrow> 'f kitty \<Rightarrow> ('a \<times> 'f kitty) option" where
  "on_store n f g = do { s \<leftarrow> idx (screens g) n; (a, s) \<leftarrow> f s; Some (a, g\<lparr>screens := (screens g)[n := s]\<rparr>) }"

definition touching :: "(bool \<times> 'f kitty) option \<Rightarrow> 'f kitty option" where
  "touching m = do { (changed, g) \<leftarrow> m; Some (if changed then touch g else g) }"

definition set_cell :: "('f, 'z) crates \<Rightarrow> cell_pixels \<Rightarrow> 'f kitty \<Rightarrow> 'f kitty option" where
  "set_cell C cell g =
     (if cell = k_cell g then Some g
      else do { ss \<leftarrow> for_each (\<lambda>s ss. map_option (\<lambda>s. ss @ [s]) (image_rescale (fl C) cell s)) (screens g) [];
                Some (touch (g\<lparr>k_cell := cell, screens := ss\<rparr>)) })"

section \<open>Replies\<close>

definition reply_wanted :: "command \<Rightarrow> bool" where
  "reply_wanted c \<longleftrightarrow> quiet c < 2 \<and> (cmd_id c \<noteq> 0 \<or> number c \<noteq> 0)"

definition reply_text :: "command \<Rightarrow> failure option \<Rightarrow> byte list option" where
  "reply_text c result =
     (if \<not> reply_wanted c \<or> result = None \<and> quiet c = 1 then None
      else Some ([ESC] @ ascii ''_G'' @
        join (ascii '','') (map (\<lambda>(name, n). ascii name @ ascii ''='' @ dec n)
          (filter (\<lambda>(name, n). n \<noteq> 0) [(''i'', cmd_id c), (''I'', number c), (''p'', command.placement c)])) @
        (case result of None \<Rightarrow> ascii '';OK'' | Some f \<Rightarrow> ascii '';'' @ ascii (code f) @ ascii '':'' @ ascii (message f)) @
        [ESC, 0x5C]))"

definition reply :: "command \<Rightarrow> failure option \<Rightarrow> 'f kitty \<Rightarrow> 'f kitty" where
  "reply c result g =
     (case reply_text c result of
        Some text \<Rightarrow> if length (replies g) < MAX_REPLIES then g\<lparr>replies := replies g @ [Ready text]\<rparr> else g
      | None \<Rightarrow> g)"

definition queue :: "decode_job \<Rightarrow> target option \<Rightarrow> command \<Rightarrow> 'f kitty \<Rightarrow> 'f kitty" where
  "queue j target c g =
     (let n = last_job g + 1; g = g\<lparr>last_job := n\<rparr>;
          g = (if reply_wanted c \<and> length (replies g) < MAX_REPLIES then g\<lparr>replies := replies g @ [Pending n]\<rparr> else g)
      in g\<lparr>jobs := jobs g @ [\<lparr>qj_seq = n, qj_job = j, qj_target = target, qj_command = c\<rparr>]\<rparr>)"

definition take_jobs :: "'f kitty \<Rightarrow> queued_job list \<times> 'f kitty" where
  "take_jobs g = (jobs g, g\<lparr>jobs := []\<rparr>)"

definition has_jobs :: "'f kitty \<Rightarrow> bool" where
  "has_jobs g \<longleftrightarrow> jobs g \<noteq> []"

definition run_queued :: "('f, 'z) crates \<Rightarrow> queued_job \<Rightarrow> finished_job option" where
  "run_queued C j =
     do { r \<leftarrow> run_job (codecs C) (qj_job j);
          Some \<lparr>fj_seq = qj_seq j, fj_target = qj_target j, fj_command = qj_command j, fj_result = r\<rparr> }"

definition pop_reply :: "'f kitty \<Rightarrow> byte list option \<times> 'f kitty" where
  "pop_reply g =
     (case replies g of
        Ready text # rest \<Rightarrow> (Some text, g\<lparr>replies := rest\<rparr>)
      | _ \<Rightarrow> (None, g))"

section \<open>Receiving a command\<close>

definition apc_start :: "'f kitty \<Rightarrow> 'f kitty" where
  "apc_start g = g\<lparr>sink := Start, control := [], current := None, quiet_bytes := quiet_bytes g + 2\<rparr>"

definition begin_load :: "('f, 'z) crates \<Rightarrow> command \<Rightarrow> 'f kitty \<Rightarrow> 'f kitty option" where
  "begin_load C c0 g =
     (let both = (cmd_id c0 \<noteq> 0 \<and> number c0 \<noteq> 0)
      in do { (c1, g) \<leftarrow>
                (if \<not> both \<and> action c0 \<noteq> ch CHR ''q''
                 then if cmd_id c0 \<noteq> 0
                      then do { g \<leftarrow> touching (on_store (active g) (remove_by_id (cmd_id c0)) g); Some (c0, g) }
                      else if number c0 \<noteq> 0
                      then do { s \<leftarrow> store_of g; Some (c0\<lparr>cmd_id := free_id s\<rparr>, g) }
                      else Some (c0, g)
                 else Some (c0, g));
              let load = load_begin (reserve (codecs C)) c1;
              let load = (if both
                 then load_reject (Failure ''EINVAL'' ''Must not specify both image id and image number'') load else load);
              Some (g\<lparr>loader := Some load\<rparr>) })"

definition animation :: failure where
  "animation = Failure ''EINVAL'' ''Animation is not supported''"

definition control_complete :: "('f, 'z) crates \<Rightarrow> 'f kitty \<Rightarrow> (sink \<times> 'f kitty) option" where
  "control_complete C g =
     (case parse_command (control g) of
        None \<Rightarrow> Some (Ignore, g)
      | Some c \<Rightarrow>
          (let g = g\<lparr>current := Some c\<rparr>;
               continues = (case loader g of
                   Some load \<Rightarrow>
                     if action (start load) = ch CHR ''f'' then action c = 0 \<or> action c = ch CHR ''f''
                     else action c \<in> {0, ch CHR ''t'', ch CHR ''T'', ch CHR ''q''}
                 | None \<Rightarrow> False)
           in if continues then Some (Payload True, g)
              else if action c \<in> {0, ch CHR ''t'', ch CHR ''T'', ch CHR ''q''}
              then do { g \<leftarrow> begin_load C c g; Some (Payload True, g) }
              else if action c = ch CHR ''f''
              then Some (Payload True, g\<lparr>loader := Some (load_reject animation (load_begin (reserve (codecs C)) c))\<rparr>)
              else Some (Payload False, g)))"

partial_function (option) apc_loop :: "('f, 'z) crates \<Rightarrow> byte list \<Rightarrow> 'f kitty \<Rightarrow> 'f kitty option" where
  "apc_loop C bytes g =
     (case sink g of
        Start \<Rightarrow>
          (case bytes of
             [] \<Rightarrow> Some g
           | b # rest \<Rightarrow> if b = ch CHR ''G'' then apc_loop C rest (g\<lparr>sink := Control\<rparr>)
                        else apc_loop C bytes (g\<lparr>sink := Ignore\<rparr>))
      | Control \<Rightarrow>
          (let found = find_byte C (ch CHR '';'') bytes;
               chunk = (case found of Some n \<Rightarrow> take n bytes | None \<Rightarrow> bytes)
           in if MAX_CONTROL_BYTES < length (control g) + length chunk then Some (g\<lparr>sink := Ignore\<rparr>)
              else (let g = g\<lparr>control := control g @ chunk\<rparr>
                    in case found of
                         None \<Rightarrow> Some g
                       | Some n \<Rightarrow>
                           if length bytes < n + 1 then None
                           else do { (snk, g) \<leftarrow> control_complete C g;
                                     apc_loop C (drop (n + 1) bytes) (g\<lparr>sink := snk\<rparr>) }))
      | Payload True \<Rightarrow> Some (g\<lparr>loader := map_option (load_push (base64 C) bytes) (loader g)\<rparr>)
      | _ \<Rightarrow> Some g)"

declare apc_loop.simps [code]

definition apc_put :: "('f, 'z) crates \<Rightarrow> byte list \<Rightarrow> 'f kitty \<Rightarrow> 'f kitty option" where
  "apc_put C bytes g = apc_loop C bytes (g\<lparr>quiet_bytes := quiet_bytes g + length bytes\<rparr>)"

section \<open>Carrying out a command\<close>

type_synonym outcome = "(nat \<times> nat) option"

definition kitty_put ::
  "('f, 'z) crates \<Rightarrow> nat \<Rightarrow> command \<Rightarrow> int \<times> int \<Rightarrow> 'f kitty \<Rightarrow> (outcome \<times> 'f kitty) option" where
  "kitty_put C k c pos g =
     do { (extent, g) \<leftarrow> on_store (active g) (image_put (fl C) k c pos (k_cell g)) g;
          Some (if cmd_cursor c \<noteq> 1 \<and> unicode c \<noteq> 1 then extent else None, touch g) }"

definition kitty_place ::
  "('f, 'z) crates \<Rightarrow> command \<Rightarrow> int \<times> int \<Rightarrow> 'f kitty \<Rightarrow> (outcome \<times> 'f kitty) option" where
  "kitty_place C c pos g =
     (if cmd_id c = 0 \<and> number c = 0 then Some (None, g)
      else if cmd_id c \<noteq> 0 \<and> number c \<noteq> 0
      then Some (None, reply c (Some (Failure ''EINVAL'' ''Must not specify both image id and image number'')) g)
      else if parent c \<noteq> 0
      then Some (None, reply c (Some (Failure ''EINVAL'' ''Relative placements are not supported'')) g)
      else do { s \<leftarrow> store_of g;
                case (if cmd_id c \<noteq> 0 then key_by_id s (cmd_id c) else key_by_number s (number c)) of
                  None \<Rightarrow> Some (None, reply c (Some (Failure ''ENOENT'' ''Put command refers to non-existent image'')) g)
                | Some k \<Rightarrow>
                    (case get_image s k of
                       None \<Rightarrow> Some (None, reply c (Some (Failure ''ENOENT'' ''Put command refers to non-existent image'')) g)
                     | Some im \<Rightarrow>
                         do { (out, g) \<leftarrow> kitty_put C k c pos g;
                              Some (out, reply (c\<lparr>cmd_id := im_id im\<rparr>) None g) }) })"

text \<open>What became of the received data: its size, its pixels if decoded, its job if not, or a failure.\<close>

definition load_outcome ::
  "('f, 'z) crates \<Rightarrow> received \<Rightarrow> 'f kitty \<Rightarrow> (failure + (nat \<times> nat) \<times> pixels option \<times> decode_job option) option" where
  "load_outcome C received g =
     (case received of
        Pixels px \<Rightarrow> Some (Inr ((pix_width px, pix_height px), Some px, None))
      | Job job \<Rightarrow>
          (case job_dimensions (codecs C) job of
             Inl f \<Rightarrow> Some (Inl f)
           | Inr dim \<Rightarrow>
               if defer_decode g \<and> length (jobs g) < MAX_JOBS then Some (Inr (dim, None, Some job))
               else do { r \<leftarrow> run_job (codecs C) job;
                         Some (case r of Inl f \<Rightarrow> Inl f
                               | Inr px \<Rightarrow> Inr ((pix_width px, pix_height px), Some px, None)) }))"

definition load_store ::
  "('f, 'z) crates \<Rightarrow> nat \<Rightarrow> command \<Rightarrow> nat \<times> nat \<Rightarrow> pixels option \<Rightarrow> decode_job option \<Rightarrow> int \<times> int \<Rightarrow>
   'f kitty \<Rightarrow> (outcome \<times> 'f kitty) option" where
  "load_store C uid c dim px job pos g =
     do { (k, g) \<leftarrow> on_store (active g) (insert_image uid (cmd_id c) (number c) dim (map_option rgba px)
                        (case px of Some px \<Rightarrow> pix_opaque px | None \<Rightarrow> False)) g;
          g \<leftarrow> (case job of
                 Some job \<Rightarrow>
                   do { s \<leftarrow> store_of g;
                        let uid = (case get_image s k of Some im \<Rightarrow> im_uid im | None \<Rightarrow> 0);
                        Some (queue job (Some \<lparr>tg_screen = active g, tg_key = k, tg_uid = uid\<rparr>) c g) }
               | None \<Rightarrow> Some (reply c None g));
          (out, g) \<leftarrow> (if action c = ch CHR ''T'' then kitty_put C k c pos g else Some (None, g));
          (_, g) \<leftarrow> on_store (active g) (enforce_quota (Some k)) g;
          Some (out, touch g) }"

definition load_complete ::
  "('f, 'z) crates \<Rightarrow> nat \<Rightarrow> load \<Rightarrow> int \<times> int \<Rightarrow> 'f kitty \<Rightarrow> (outcome \<times> 'f kitty) option" where
  "load_complete C uid load pos g =
     (let c = start load; query = (action c = ch CHR ''q'') in
      if query \<and> cmd_id c = 0 then Some (None, g)
      else case load_finish load of
        Inl f \<Rightarrow> Some (None, reply c (Some f) g)
      | Inr received \<Rightarrow>
          do { r \<leftarrow> load_outcome C received g;
               case r of
                 Inl f \<Rightarrow> Some (None, reply c (Some f) g)
               | Inr (dim, px, job) \<Rightarrow>
                   if query
                   then Some (None, case job of Some job \<Rightarrow> queue job None c g | None \<Rightarrow> reply c None g)
                   else load_store C uid c dim px job pos g })"

definition chunk_complete ::
  "('f, 'z) crates \<Rightarrow> nat \<Rightarrow> command \<Rightarrow> int \<times> int \<Rightarrow> 'f kitty \<Rightarrow> (outcome \<times> 'f kitty) option" where
  "chunk_complete C uid c pos g =
     (case loader g of
        None \<Rightarrow> Some (None, g)
      | Some load \<Rightarrow>
          (let load = load_end_chunk (base64 C) load;
               load = (if quiet c \<noteq> 0 then load\<lparr>start := (start load)\<lparr>quiet := quiet c\<rparr>\<rparr> else load)
           in if cmd_more c \<noteq> 0 then Some (None, g\<lparr>loader := Some load\<rparr>)
              else load_complete C uid load pos (g\<lparr>loader := None\<rparr>)))"

definition apc_end ::
  "('f, 'z) crates \<Rightarrow> nat \<Rightarrow> bool \<Rightarrow> int \<times> int \<Rightarrow> 'f kitty \<Rightarrow> (outcome \<times> 'f kitty) option" where
  "apc_end C uid cancelled pos g =
     (let g = (if cancelled then g else g\<lparr>quiet_bytes := quiet_bytes g + 2\<rparr>);
          was = sink g; g = g\<lparr>sink := Idle\<rparr>
      in do { (snk, g) \<leftarrow> (if was = Control then control_complete C g else Some (was, g));
              let c = current g;
              let g = g\<lparr>current := None\<rparr>;
              (case snk of
                 Payload feeding \<Rightarrow>
                   if cancelled then Some (None, if feeding then g\<lparr>loader := None\<rparr> else g)
                   else (case c of
                     None \<Rightarrow> Some (None, g)
                   | Some c \<Rightarrow>
                       if feeding then chunk_complete C uid c pos g
                       else if action c = ch CHR ''p'' then kitty_place C c pos g
                       else if action c = ch CHR ''d''
                       then do { g \<leftarrow> touching (on_store (active g) (image_delete c pos) (g\<lparr>loader := None\<rparr>)); Some (None, g) }
                       else if action c = ch CHR ''a'' \<or> action c = ch CHR ''c''
                       then Some (None, reply c (Some animation) g)
                       else Some (None, g))
               | _ \<Rightarrow> Some (None, g)) })"

section \<open>Decoded images\<close>

text \<open>The image a job is for, if it is still the one the job was started for.\<close>

definition live_target :: "'f kitty \<Rightarrow> finished_job \<Rightarrow> target option option" where
  "live_target g j =
     (case fj_target j of
        None \<Rightarrow> Some None
      | Some t \<Rightarrow>
          do { s \<leftarrow> idx (screens g) (tg_screen t);
               Some (case get_image s (tg_key t) of
                       Some im \<Rightarrow> if im_uid im = tg_uid t then Some t else None
                     | None \<Rightarrow> None) })"

definition install :: "target \<Rightarrow> pixels \<Rightarrow> 'f image_store \<Rightarrow> (failure option \<times> 'f image_store) option" where
  "install t px s =
     (if map_option (\<lambda>im. (im_width im, im_height im)) (get_image s (tg_key t)) = Some (pix_width px, pix_height px)
      then Some (None, snd (set_pixels (tg_key t) (rgba px) (pix_opaque px) s))
      else do { (_, s) \<leftarrow> remove_image (tg_key t) s; Some (Some BAD_PNG, s) })"

definition settle_reply :: "nat \<Rightarrow> byte list option \<Rightarrow> reply_slot list \<Rightarrow> reply_slot list" where
  "settle_reply seq text rs =
     (case find_index (\<lambda>r. r = Pending seq) rs of
        None \<Rightarrow> rs
      | Some i \<Rightarrow> (case text of Some text \<Rightarrow> rs[i := Ready text] | None \<Rightarrow> take i rs @ drop (i + 1) rs))"

definition finish_job :: "finished_job \<Rightarrow> 'f kitty \<Rightarrow> 'f kitty option" where
  "finish_job j g =
     do { live \<leftarrow> live_target g j;
          (result, g) \<leftarrow>
            (case (fj_result j, live) of
               (Inr px, Some t) \<Rightarrow> on_store (tg_screen t) (install t px) g
             | (Inr px, None) \<Rightarrow> Some (None, g)
             | (Inl f, Some t) \<Rightarrow>
                 do { (_, g) \<leftarrow> on_store (tg_screen t) (remove_image (tg_key t)) g; Some (Some f, g) }
             | (Inl f, None) \<Rightarrow> Some (Some f, g));
          let g = (if live \<noteq> None then touch g else g);
          Some (g\<lparr>replies := settle_reply (fj_seq j) (reply_text (fj_command j) result) (replies g)\<rparr>) }"

definition finish_jobs :: "finished_job list \<Rightarrow> 'f kitty \<Rightarrow> 'f kitty option" where
  "finish_jobs = for_each finish_job"

section \<open>Following the grid\<close>

definition kitty_scroll :: "('f, 'z) crates \<Rightarrow> gfx_scroll \<Rightarrow> 'f kitty \<Rightarrow> 'f kitty option" where
  "kitty_scroll C sc g = touching (on_store (active g) (image_scroll (fl C) sc (k_cell g)) g)"

definition kitty_clear_screen :: "bool \<Rightarrow> 'f kitty \<Rightarrow> 'f kitty option" where
  "kitty_clear_screen history g = touching (on_store (active g) (image_clear history) g)"

definition kitty_clear_history :: "'f kitty \<Rightarrow> 'f kitty option" where
  "kitty_clear_history g = touching (on_store (active g) image_clear_history g)"

definition set_alternate :: "bool \<Rightarrow> 'f kitty \<Rightarrow> 'f kitty option" where
  "set_alternate alternate g =
     (let n = of_bool alternate in
      if n = active g then Some g
      else do { (_, g) \<leftarrow> on_store ALTERNATE (image_clear True) (g\<lparr>loader := None\<rparr>);
                Some (touch (g\<lparr>active := n, screen_epoch := wrapping_inc (screen_epoch g)\<rparr>)) })"

definition store_is_empty :: "'f image_store \<Rightarrow> bool" where
  "store_is_empty s \<longleftrightarrow> images s = []"

definition kitty_reset :: "'f kitty \<Rightarrow> 'f kitty" where
  "kitty_reset g =
     (let empty = list_all store_is_empty (screens g);
          g = g\<lparr>screens := [empty_store, empty_store], active := 0, screen_epoch := wrapping_inc (screen_epoch g),
                sink := Idle, current := None, loader := None, jobs := [], replies := []\<rparr>
      in if empty then g else touch g)"

definition kitty_anchors :: "'f kitty \<Rightarrow> (bool \<times> nat \<times> int \<times> int) list" where
  "kitty_anchors g =
     concat (map (\<lambda>(n, s). map (\<lambda>(k, row, col). (n = ALTERNATE, k, row, col)) (image_anchors s))
       (enumerate 0 (screens g)))"

definition kitty_apply_anchors :: "(bool \<Rightarrow> nat \<Rightarrow> (int \<times> int) option) \<Rightarrow> 'f kitty \<Rightarrow> 'f kitty option" where
  "kitty_apply_anchors moved g =
     do { ss \<leftarrow> for_each (\<lambda>(n, s) ss. map_option (\<lambda>(_, s). ss @ [s]) (apply_anchors (moved (n = ALTERNATE)) s))
                 (enumerate 0 (screens g)) [];
          Some (touch (g\<lparr>screens := ss\<rparr>)) }"

section \<open>The invariant\<close>

text \<open>A transmission that will be stored holds an id that nothing on its screen has.\<close>

definition loader_ok :: "load option \<Rightarrow> 'f image_store \<Rightarrow> bool" where
  "loader_ok l s \<longleftrightarrow>
     (case l of
        None \<Rightarrow> True
      | Some l \<Rightarrow> load_ok l \<and>
          (\<not> rejected l \<and> action (start l) \<noteq> ch CHR ''q'' \<and> cmd_id (start l) \<noteq> 0 \<longrightarrow>
             key_by_id s (cmd_id (start l)) = None))"

definition pending_seqs :: "reply_slot list \<Rightarrow> nat list" where
  "pending_seqs rs = List.map_filter (\<lambda>r. case r of Pending n \<Rightarrow> Some n | Ready _ \<Rightarrow> None) rs"

definition kitty_base :: "nat set \<Rightarrow> 'f kitty \<Rightarrow> bool" where
  "kitty_base W g \<longleftrightarrow> length (screens g) = 2 \<and> active g < 2 \<and> (\<forall>s \<in> set (screens g). store_ok s) \<and>
     pixels_ok (k_cell g) \<and> length (control g) \<le> MAX_CONTROL_BYTES \<and>
     length (replies g) \<le> MAX_REPLIES \<and> length (jobs g) \<le> MAX_JOBS \<and>
     (\<forall>j \<in> set (jobs g). \<forall>t. qj_target j = Some t \<longrightarrow> tg_screen t < 2) \<and>
     distinct (pending_seqs (replies g)) \<and> (\<forall>n \<in> set (pending_seqs (replies g)). n \<le> last_job g \<and> n \<in> qj_seq ` set (jobs g) \<union> W)"

definition kitty_ok :: "nat set \<Rightarrow> 'f kitty \<Rightarrow> bool" where
  "kitty_ok W g \<longleftrightarrow> kitty_base W g \<and> loader_ok (loader g) (screens g ! active g) \<and>
     (\<forall>s \<in> set (screens g). length (images s) \<le> MAX_IMAGES)"

definition crates_ok :: "('f, 'z) crates \<Rightarrow> bool" where
  "crates_ok C \<longleftrightarrow> base64_crate (base64 C) \<and> codecs_ok (codecs C) \<and> (\<forall>b xs. find_byte C b xs = first_byte b xs)"

section \<open>Counting images\<close>

lemma image_sub_refl [simp]: "image_sub s s"
  by (simp add: image_sub_images)

lemma image_sub_fewer:
  assumes "store_ok s" "store_ok s'" "image_sub s s'"
  shows "length (images s') \<le> length (images s)"
proof -
  have d: "distinct (map fst (images s))" "distinct (map fst (images s'))"
    using assms(1,2) store_core_keys by (auto simp: store_ok_def)
  have "set (map fst (images s')) \<subseteq> set (map fst (images s))"
  proof
    fix k assume "k \<in> set (map fst (images s'))"
    then obtain im' where "get_image s' k = Some im'"
      by (metis get_image_def map_of_eq_None_iff not_None_eq set_map)
    then obtain im where "get_image s k = Some im" using assms(3) unfolding image_sub_def by metis
    then show "k \<in> set (map fst (images s))"
      by (metis get_image_def map_of_eq_None_iff option.distinct(1) set_map)
  qed
  then have "card (set (map fst (images s'))) \<le> card (set (map fst (images s)))" by (intro card_mono) simp_all
  then show ?thesis unfolding distinct_card [OF d(1)] distinct_card [OF d(2)] by simp
qed

lemma ids_fewer:
  assumes "store_ok s"
  shows "length (ids s) \<le> length (images s)"
proof -
  have d: "distinct (map fst (ids s))" "distinct (map fst (images s))"
    using assms by (auto simp: store_ok_def store_core_def keys_sorted_distinct)
  have "set (map fst (ids s)) \<subseteq> (\<lambda>(k, im). im_id im) ` set (images s)"
  proof
    fix i assume "i \<in> set (map fst (ids s))"
    then obtain k where "key_by_id s i = Some k"
      by (metis key_by_id_def map_of_eq_None_iff not_None_eq set_map)
    then obtain im where "get_image s k = Some im" "im_id im = i" using store_ok_key [OF assms, of i k] by auto
    then show "i \<in> (\<lambda>(k, im). im_id im) ` set (images s)"
      by (force simp: get_image_def dest: map_of_SomeD)
  qed
  then have "card (set (map fst (ids s))) \<le> card (set (images s))"
    using card_image_le [of "set (images s)" "\<lambda>(k, im). im_id im"] by (meson List.finite_set card_mono finite_imageI le_trans)
  then show ?thesis unfolding distinct_card [OF d(1)] using card_length [of "images s"] by simp
qed

lemma remove_by_id_ok:
  assumes "store_ok s"
  shows "returns (remove_by_id i s) (\<lambda>(b, s'). store_ok s' \<and> image_sub s s' \<and> key_by_id s' i = None)"
proof (cases "key_by_id s i")
  case None
  then show ?thesis using assms by (simp add: remove_by_id_def)
next
  case (Some k)
  obtain b s' where s': "remove_image k s = Some (b, s')" "store_ok s'" "get_image s' k = None" "image_sub s s'"
    using remove_image_ok [OF assms, of k] by (auto simp: returns_iff)
  have "key_by_id s' i = None"
  proof (rule ccontr)
    assume "key_by_id s' i \<noteq> None"
    then obtain j im' where j: "i \<noteq> 0" "get_image s' j = Some im'" "im_id im' = i"
      using store_ok_key [OF s'(2), of i] by auto
    then obtain im where "get_image s j = Some im" "im_id im = i" using s'(4) unfolding image_sub_def by metis
    then have "key_by_id s i = Some j" using store_ok_key [OF assms, of i j] j(1) by blast
    then show False using Some j(2) s'(3) by simp
  qed
  then show ?thesis using Some s' by (simp add: remove_by_id_def)
qed

section \<open>Every operation keeps the invariant\<close>

lemma on_store_base:
  assumes g: "kitty_base W g" "n < 2" and f: "returns (f (screens g ! n)) (\<lambda>(a, s'). store_ok s' \<and> Q a s')"
  shows "returns (on_store n f g) (\<lambda>(a, g'). kitty_base W g' \<and> (\<exists>s'. Q a s' \<and> g' = g\<lparr>screens := (screens g)[n := s']\<rparr>))"
proof -
  obtain a s' where s': "f (screens g ! n) = Some (a, s')" "store_ok s'" "Q a s'" using f by (auto simp: returns_iff)
  have n: "n < length (screens g)" using g by (simp add: kitty_base_def)
  have "kitty_base W (g\<lparr>screens := (screens g)[n := s']\<rparr>)"
    using g s'(2) set_update_subset_insert [of "screens g" n s'] by (auto simp: kitty_base_def)
  then show ?thesis using n s' by (auto simp: on_store_def)
qed

text \<open>An operation that adds no image keeps the whole invariant.\<close>

lemma on_store_ok:
  assumes g: "kitty_ok W g" "n < 2"
    and f: "\<And>s. store_ok s \<Longrightarrow> returns (f s) (\<lambda>(a, s'). store_ok s' \<and> image_sub s s')"
  shows "returns (on_store n f g) (\<lambda>(a, g'). kitty_ok W g' \<and> (\<exists>ss. g' = g\<lparr>screens := ss\<rparr>))"
proof -
  have base: "kitty_base W g" and n: "n < length (screens g)" using g by (auto simp: kitty_ok_def kitty_base_def)
  have s: "store_ok (screens g ! n)" using base n by (simp add: kitty_base_def)
  obtain a g' s' where g': "on_store n f g = Some (a, g')" "kitty_base W g'" "store_ok s'" "image_sub (screens g ! n) s'"
    "g' = g\<lparr>screens := (screens g)[n := s']\<rparr>"
    using on_store_base [OF base g(2), of f "\<lambda>a s'. store_ok s' \<and> image_sub (screens g ! n) s'"] f [OF s]
    by (auto simp: returns_iff)
  have "length (images s') \<le> MAX_IMAGES"
  proof -
    have "length (images (screens g ! n)) \<le> MAX_IMAGES" using g(1) n by (simp add: kitty_ok_def)
    then show ?thesis using image_sub_fewer [OF s g'(3,4)] by linarith
  qed
  then have "\<forall>s \<in> set (screens g'). length (images s) \<le> MAX_IMAGES"
    using g'(5) g(1) set_update_subset_insert [of "screens g" n s'] by (auto simp: kitty_ok_def)
  moreover have "loader_ok (loader g) s'" if "loader_ok (loader g) (screens g ! n)"
    using that key_stays_free [OF s g'(3,4)] by (auto simp: loader_ok_def split: option.splits)
  then have "loader_ok (loader g') (screens g' ! active g')"
    using g(1) n g'(5) by (cases "n = active g") (simp_all add: kitty_ok_def)
  ultimately show ?thesis using g'(1,2,5) by (auto simp: kitty_ok_def)
qed

lemma touch_ok [simp]: "kitty_ok W (touch g) = kitty_ok W g" "kitty_base W (touch g) = kitty_base W g"
  by (simp_all add: touch_def kitty_ok_def kitty_base_def)

lemma touch_sel [simp]:
  "screens (touch g) = screens g" "active (touch g) = active g" "loader (touch g) = loader g" "jobs (touch g) = jobs g"
  "replies (touch g) = replies g" "k_cell (touch g) = k_cell g" "last_job (touch g) = last_job g"
  "sink (touch g) = sink g" "current (touch g) = current g" "control (touch g) = control g"
  by (simp_all add: touch_def)

lemma touching_ok:
  assumes "returns m (\<lambda>(b, g'). kitty_ok W g' \<and> (\<exists>ss. g' = g\<lparr>screens := ss\<rparr>))"
  shows "returns (touching m) (\<lambda>g'. kitty_ok W g' \<and> loader g' = loader g \<and> active g' = active g \<and> sink g' = sink g \<and>
    current g' = current g \<and> control g' = control g)"
proof -
  obtain b ss where m: "m = Some (b, g\<lparr>screens := ss\<rparr>)" "kitty_ok W (g\<lparr>screens := ss\<rparr>)"
    using assms by (auto simp: returns_iff)
  then show ?thesis by (cases b) (simp_all add: touching_def)
qed

lemma pending_append: "pending_seqs (rs @ qs) = pending_seqs rs @ pending_seqs qs"
  by (simp add: pending_seqs_def map_filter_def)

lemma pending_simps [simp]: "pending_seqs [] = []" "pending_seqs (Ready t # rs) = pending_seqs rs"
  "pending_seqs (Pending n # rs) = n # pending_seqs rs"
  by (simp_all add: pending_seqs_def map_filter_simps)

lemma reply_ok: "kitty_base W g \<Longrightarrow> kitty_base W (reply c r g)" "kitty_ok W g \<Longrightarrow> kitty_ok W (reply c r g)"
  by (auto simp: reply_def kitty_base_def kitty_ok_def pending_append split: option.split)

lemma reply_sel [simp]: "screens (reply c r g) = screens g" "active (reply c r g) = active g" "jobs (reply c r g) = jobs g"
  "loader (reply c r g) = loader g" "k_cell (reply c r g) = k_cell g"
  by (simp_all add: reply_def split: option.split)

lemma queue_ok:
  assumes "kitty_base W g" "length (jobs g) < MAX_JOBS" "\<And>t. target = Some t \<Longrightarrow> tg_screen t < 2"
  shows "kitty_base W (queue j target c g)"
  using assms by (fastforce simp: queue_def kitty_base_def Let_def pending_append)

lemma queue_sel [simp]: "screens (queue j t c g) = screens g" "active (queue j t c g) = active g"
  "loader (queue j t c g) = loader g" "k_cell (queue j t c g) = k_cell g"
  by (simp_all add: queue_def Let_def)

section \<open>Receiving\<close>

lemma start_begin [simp]: "start (load_begin rs c) = c"
  by (auto simp: load_begin_def load_plan_def Let_def split: prod.split sum.split if_splits)

lemma start_reject [simp]: "start (load_reject f l) = start l"
  by (simp add: load_reject_def)

lemma start_widen [simp]: "start (load_widen l) = start l" "start (load_scan l) = start l"
  by (simp_all add: load_widen_def load_scan_def Let_def)

lemma start_push [simp]: "start (load_push b a l) = start l"
  by (auto simp: load_push_def load_decode_def Let_def split: load_target.splits prod.split option.splits)

lemma start_end [simp]: "start (load_end_chunk b l) = start l"
  by (auto simp: load_end_chunk_def load_tail_def split: load_target.splits prod.split option.splits)

lemma rejected_end: "rejected l \<Longrightarrow> rejected (load_end_chunk b l)"
  by (simp add: end_rejected) (simp add: rejected_def)

lemma loader_push:
  assumes "crates_ok C" "loader_ok l s"
  shows "loader_ok (map_option (load_push (base64 C) bytes) l) s"
proof (cases l)
  case (Some l')
  have "load_ok (load_push (base64 C) bytes l')"
    using assms Some base64_crate.load_push_ok [of "base64 C" l' bytes] by (simp add: crates_ok_def loader_ok_def)
  then show ?thesis using assms(2) Some push_rejected [of l' "base64 C" bytes] by (auto simp: loader_ok_def)
qed (simp add: loader_ok_def)

lemma load_reject_begin: "load_ok (load_reject f (load_begin rs c))"
proof -
  have ok: "load_ok (load_begin rs c)" using load_begin_ok by blast
  show ?thesis
    using load_reject_ok [of "pending (load_begin rs c)" "load_begin rs c" f] ok by (simp add: load_ok_def)
qed

lemma begin_load_ok:
  assumes g: "kitty_ok W g"
  shows "returns (begin_load C c g) (\<lambda>g'. kitty_ok W g' \<and> sink g' = sink g \<and> control g' = control g)"
proof -
  have base: "kitty_base W g" and act: "active g < 2" "active g < length (screens g)"
    using g by (auto simp: kitty_ok_def kitty_base_def)
  let ?s = "screens g ! active g" and ?start = "load_begin (reserve (codecs C))"
  have s: "store_ok ?s" using base act by (simp add: kitty_base_def)
  have lb: "load_ok (?start c')" for c' using load_begin_ok by blast
  show ?thesis
  proof (cases "cmd_id c \<noteq> 0 \<and> number c \<noteq> 0")
    case True
    then show ?thesis
      using g load_reject_begin by (simp add: begin_load_def Let_def kitty_ok_def loader_ok_def kitty_base_def)
  next
    case single: False
    have set: "kitty_ok W (g'\<lparr>loader := Some (?start c')\<rparr>)"
      if "kitty_ok W g'" "action c' \<noteq> ch CHR ''q'' \<longrightarrow> cmd_id c' = 0 \<or> key_by_id (screens g' ! active g') (cmd_id c') = None"
      for g' :: "'a kitty" and c'
      using that lb by (auto simp: kitty_ok_def kitty_base_def loader_ok_def)
    show ?thesis
    proof (cases "action c \<noteq> ch CHR ''q'' \<and> cmd_id c \<noteq> 0")
      case True
      obtain a g' s' where g': "on_store (active g) (remove_by_id (cmd_id c)) g = Some (a, g')" "kitty_base W g'"
        "key_by_id s' (cmd_id c) = None" "g' = g\<lparr>screens := (screens g)[active g := s']\<rparr>"
        using on_store_base [OF base act(1), of "remove_by_id (cmd_id c)" "\<lambda>a s'. key_by_id s' (cmd_id c) = None"]
          remove_by_id_ok [OF s, of "cmd_id c"] by (auto simp: returns_iff)
      have "returns (on_store (active g) (remove_by_id (cmd_id c)) g) (\<lambda>(a, g'). kitty_ok W g' \<and> (\<exists>ss. g' = g\<lparr>screens := ss\<rparr>))"
        by (rule on_store_ok [OF g act(1)]) (rule returns_mono [OF remove_by_id_ok], auto)
      then have ok: "kitty_ok W g'" using g'(1) by simp
      have "key_by_id (screens g' ! active g') (cmd_id c) = None" using g'(3,4) act by simp
      then have "kitty_ok W (g'\<lparr>loader := Some (?start c)\<rparr>)" "kitty_ok W ((touch g')\<lparr>loader := Some (?start c)\<rparr>)"
        using set [of g' c] set [of "touch g'" c] ok by simp_all
      then show ?thesis
        using single True g'(1,4) by (cases a) (simp_all add: begin_load_def Let_def touching_def)
    next
      case no_id: False
      show ?thesis
      proof (cases "action c \<noteq> ch CHR ''q'' \<and> number c \<noteq> 0")
        case True
        have "length (images ?s) \<le> MAX_IMAGES" using g act by (simp add: kitty_ok_def)
        then have "length (ids ?s) < 2 ^ 32 - 1" using ids_fewer [OF s] by (simp add: MAX_IMAGES_def)
        then have "key_by_id ?s (free_id ?s) = None" using free_id_free [OF s] by blast
        then show ?thesis
          using True single no_id act set [OF g, of "c\<lparr>cmd_id := free_id ?s\<rparr>"]
          by (auto simp: begin_load_def Let_def store_of_def)
      next
        case False
        then show ?thesis using single no_id set [OF g, of c] by (auto simp: begin_load_def Let_def)
      qed
    qed
  qed
qed

lemma control_complete_ok:
  assumes g: "kitty_ok W g"
  shows "returns (control_complete C g) (\<lambda>(snk, g'). kitty_ok W g' \<and> snk \<noteq> Start \<and> snk \<noteq> Control)"
proof (cases "parse_command (control g)")
  case None
  then show ?thesis using g by (simp add: control_complete_def)
next
  case (Some c)
  let ?g = "g\<lparr>current := Some c\<rparr>"
  have ok: "kitty_ok W ?g" using g by (simp add: kitty_ok_def kitty_base_def)
  obtain g' where "begin_load C c ?g = Some g'" "kitty_ok W g'" using begin_load_ok [OF ok, of C c] by (auto simp: returns_iff)
  moreover have "kitty_ok W (?g\<lparr>loader := Some (load_reject animation (load_begin (reserve (codecs C)) c))\<rparr>)"
    using g load_reject_begin by (simp add: kitty_ok_def kitty_base_def loader_ok_def)
  ultimately show ?thesis using Some ok by (simp add: control_complete_def Let_def)
qed

lemma kitty_ok_sink [simp]: "kitty_ok W (g\<lparr>sink := x\<rparr>) = kitty_ok W g" "kitty_ok W (g\<lparr>quiet_bytes := n\<rparr>) = kitty_ok W g"
  "kitty_ok W (g\<lparr>current := c\<rparr>) = kitty_ok W g"
  by (simp_all add: kitty_ok_def kitty_base_def)

lemma apc_put_ok:
  assumes C: "crates_ok C" and g: "kitty_ok W g"
  shows "returns (apc_put C bytes g) (kitty_ok W)"
proof -
  have payload: "returns (apc_loop C bytes g) (kitty_ok W)" if "kitty_ok W g" "sink g \<noteq> Start" "sink g \<noteq> Control" for g bytes
  proof (cases "sink g = Payload True")
    case True
    have "loader_ok (map_option (load_push (base64 C) bytes) (loader g)) (screens g ! active g)"
      by (rule loader_push [OF C]) (use that(1) in \<open>simp add: kitty_ok_def\<close>)
    then show ?thesis using True that(1) by (subst apc_loop.simps) (simp add: kitty_ok_def kitty_base_def)
  next
    case False
    then show ?thesis using that by (subst apc_loop.simps) (auto split: sink.splits bool.splits)
  qed
  have control: "returns (apc_loop C bytes g) (kitty_ok W)" if g: "kitty_ok W g" "sink g = Control" for g bytes
  proof -
    define found where "found = find_byte C (ch CHR '';'') bytes"
    define chunk where "chunk = (case found of Some n \<Rightarrow> take n bytes | None \<Rightarrow> bytes)"
    show ?thesis
    proof (cases "MAX_CONTROL_BYTES < length (control g) + length chunk")
      case True
      then show ?thesis using g by (subst apc_loop.simps) (simp add: chunk_def flip: found_def)
    next
      case False
      let ?g = "g\<lparr>control := control g @ chunk\<rparr>"
      have ok: "kitty_ok W ?g" using g False by (simp add: kitty_ok_def kitty_base_def)
      show ?thesis
      proof (cases found)
        case None
        then show ?thesis using g False ok by (subst apc_loop.simps) (simp add: chunk_def flip: found_def)
      next
        case (Some n)
        have "n < length bytes"
          using Some C reference.memchr [of "ch CHR '';''" bytes n] by (simp add: found_def crates_ok_def)
        moreover obtain snk g' where g': "control_complete C ?g = Some (snk, g')" "kitty_ok W g'"
          "snk \<noteq> Start" "snk \<noteq> Control"
          using control_complete_ok [OF ok, of C] by (auto simp: returns_iff)
        moreover have "returns (apc_loop C (drop (n + 1) bytes) (g'\<lparr>sink := snk\<rparr>)) (kitty_ok W)"
          by (rule payload) (use g' in auto)
        ultimately show ?thesis using g(2) False Some by (subst apc_loop.simps) (simp add: chunk_def flip: found_def)
      qed
    qed
  qed
  have start: "returns (apc_loop C bytes g) (kitty_ok W)" if g: "kitty_ok W g" "sink g = Start" for g
  proof (cases bytes)
    case Nil
    then show ?thesis using g by (subst apc_loop.simps) simp
  next
    case (Cons b rest)
    have "returns (apc_loop C rest (g\<lparr>sink := Control\<rparr>)) (kitty_ok W)" by (rule control) (use g in auto)
    moreover have "returns (apc_loop C bytes (g\<lparr>sink := Ignore\<rparr>)) (kitty_ok W)" by (rule payload) (use g in auto)
    ultimately show ?thesis using g(2) Cons by (subst apc_loop.simps) simp
  qed
  show ?thesis
    using payload [of "g\<lparr>quiet_bytes := _\<rparr>"] control [of "g\<lparr>quiet_bytes := _\<rparr>"] start [of "g\<lparr>quiet_bytes := _\<rparr>"] g
    unfolding apc_put_def by (cases "sink g = Start"; cases "sink g = Control") simp_all
qed

section \<open>Carrying out\<close>

lemma kitty_put_base:
  assumes g: "kitty_base W g"
  shows "returns (kitty_put C k c pos g) (\<lambda>(r, g'). kitty_base W g' \<and> active g' = active g \<and> loader g' = loader g \<and>
    jobs g' = jobs g \<and> length (screens g') = length (screens g) \<and>
    (\<forall>n. n \<noteq> active g \<longrightarrow> screens g' ! n = screens g ! n) \<and> image_sub (screens g ! active g) (screens g' ! active g))"
proof -
  have act: "active g < 2" "active g < length (screens g)" and cell: "pixels_ok (k_cell g)"
    and s: "store_ok (screens g ! active g)"
    using g by (auto simp: kitty_base_def)
  obtain a g' s' where g': "on_store (active g) (image_put (fl C) k c pos (k_cell g)) g = Some (a, g')" "kitty_base W g'"
    "image_sub (screens g ! active g) s'" "g' = g\<lparr>screens := (screens g)[active g := s']\<rparr>"
    using on_store_base [OF g act(1), of "image_put (fl C) k c pos (k_cell g)" "\<lambda>a s'. image_sub (screens g ! active g) s'"]
      image_put_ok [OF s cell, of "fl C" k c pos] by (auto simp: returns_iff)
  then show ?thesis using act by (simp add: kitty_put_def)
qed

lemma kitty_put_ok:
  assumes g: "kitty_ok W g"
  shows "returns (kitty_put C k c pos g) (\<lambda>(r, g'). kitty_ok W g')"
proof -
  have act: "active g < 2" and cell: "pixels_ok (k_cell g)" using g by (auto simp: kitty_ok_def kitty_base_def)
  obtain a g' where "on_store (active g) (image_put (fl C) k c pos (k_cell g)) g = Some (a, g')" "kitty_ok W g'"
    using on_store_ok [OF g act, of "image_put (fl C) k c pos (k_cell g)"] image_put_ok [OF _ cell, of _ "fl C" k c pos]
    by (fastforce simp: returns_iff)
  then show ?thesis by (simp add: kitty_put_def)
qed

lemma kitty_place_ok:
  assumes g: "kitty_ok W g"
  shows "returns (kitty_place C c pos g) (\<lambda>(r, g'). kitty_ok W g')"
proof -
  have act: "active g < length (screens g)" using g by (auto simp: kitty_ok_def kitty_base_def)
  have put: "returns (kitty_put C k c pos g) (\<lambda>(r, g'). kitty_ok W g')" for k by (rule kitty_put_ok [OF g])
  show ?thesis
  proof -
    let ?s = "screens g ! active g"
    let ?k = "if cmd_id c \<noteq> 0 then key_by_id ?s (cmd_id c) else key_by_number ?s (number c)"
    have plain: "returns (Some (None :: outcome, reply c r g)) (\<lambda>(r, g'). kitty_ok W g')" for r
      using reply_ok(2) [OF g] by simp
    have found: "returns (do { (out, g) \<leftarrow> kitty_put C k c pos g; Some (out, reply c' None g) }) (\<lambda>(r, g'). kitty_ok W g')"
      for k c'
      using put [of k] reply_ok(2) by (auto simp: returns_iff)
    show ?thesis
      using act g plain found by (cases ?k) (simp_all add: kitty_place_def store_of_def split: option.split)
  qed
qed

lemma load_outcome_ok:
  assumes C: "crates_ok C"
  shows "\<exists>r. load_outcome C received g = Some r \<and> (\<forall>dim px j. r = Inr (dim, px, Some j) \<longrightarrow> length (jobs g) < MAX_JOBS)"
proof (cases received)
  case (Job job)
  obtain r where "run_job (codecs C) job = Some r"
    using decode_returns [of "codecs C" job] C by (auto simp: crates_ok_def returns_iff)
  then show ?thesis using Job by (auto simp: load_outcome_def split: sum.split)
qed (simp add: load_outcome_def)

lemma load_store_ok:
  assumes g: "kitty_ok W g" "loader g = None" and fresh: "cmd_id c = 0 \<or> key_by_id (screens g ! active g) (cmd_id c) = None"
    and job: "job \<noteq> None \<longrightarrow> length (jobs g) < MAX_JOBS"
  shows "returns (load_store C uid c dim px job pos g) (\<lambda>(r, g'). kitty_ok W g')"
proof -
  have base: "kitty_base W g" and act: "active g < 2" "active g < length (screens g)" and s: "store_ok (screens g ! active g)"
    using g by (auto simp: kitty_ok_def kitty_base_def)
  let ?insert = "insert_image uid (cmd_id c) (number c) dim (map_option rgba px)
    (case px of Some px \<Rightarrow> pix_opaque px | None \<Rightarrow> False)"
  obtain k g1 s1 where g1: "on_store (active g) ?insert g = Some (k, g1)" "kitty_base W g1"
    "g1 = g\<lparr>screens := (screens g)[active g := s1]\<rparr>"
    using on_store_base [OF base act(1), of ?insert "\<lambda>_ _. True"]
      insert_image_ok [OF s, of "cmd_id c" uid "number c" dim] fresh by (fastforce simp: returns_iff)
  define g2 where "g2 = (case job of
      Some job \<Rightarrow> queue job (Some \<lparr>tg_screen = active g1, tg_key = k,
        tg_uid = (case get_image (screens g1 ! active g1) k of Some im \<Rightarrow> im_uid im | None \<Rightarrow> 0)\<rparr>) c g1
    | None \<Rightarrow> reply c None g1)"
  have frame1: "active g1 = active g" "loader g1 = None" "length (screens g1) = length (screens g)" "jobs g1 = jobs g"
    "\<forall>n. n \<noteq> active g \<longrightarrow> screens g1 ! n = screens g ! n"
    using g1(3) g(2) by simp_all
  have base2: "kitty_base W g2"
    using g1(2) job act frame1 by (auto simp: g2_def reply_ok(1) intro!: queue_ok split: option.split)
  have frame2: "active g2 = active g" "loader g2 = None" "screens g2 = screens g1"
    using frame1 by (simp_all add: g2_def split: option.split)
  define put where "put = (if action c = ch CHR ''T'' then kitty_put C k c pos g2 else Some (None, g2))"
  obtain r g3 where g3: "put = Some (r, g3)" "kitty_base W g3" "active g3 = active g" "loader g3 = None"
    "length (screens g3) = length (screens g)" "\<forall>n. n \<noteq> active g \<longrightarrow> screens g3 ! n = screens g ! n"
    using kitty_put_base [OF base2, of C k c pos] frame2 frame1 base2 by (fastforce simp: put_def returns_iff split: if_splits)
  have s3: "store_ok (screens g3 ! active g3)" using g3 act by (simp add: kitty_base_def)
  have few: "length (images s') \<le> MAX_IMAGES" if "store_ok s'" "over_quota s' \<longrightarrow> (\<forall>e \<in> set (images s'). Some (fst e) = keep)"
    for s' :: "'a image_store" and keep
  proof (cases "over_quota s'")
    case True
    have "distinct (map fst (images s'))" using that(1) store_core_keys [of s'] by (simp add: store_ok_def)
    moreover have "set (map fst (images s')) \<subseteq> {the keep}" using True that(2) by force
    ultimately have "length (images s') \<le> 1"
      by (metis card.empty card_insert_disjoint card_mono distinct_card empty_iff finite.emptyI finite.insertI length_map One_nat_def)
    then show ?thesis by (simp add: MAX_IMAGES_def)
  qed (simp add: over_quota_def)
  obtain a g4 s4 where g4: "on_store (active g3) (enforce_quota (Some k)) g3 = Some (a, g4)" "kitty_base W g4"
    "over_quota s4 \<longrightarrow> (\<forall>e \<in> set (images s4). Some (fst e) = Some k)" "store_ok s4"
    "g4 = g3\<lparr>screens := (screens g3)[active g3 := s4]\<rparr>"
    using on_store_base [OF g3(2), of "active g3" "enforce_quota (Some k)"
        "\<lambda>a s'. store_ok s' \<and> (over_quota s' \<longrightarrow> (\<forall>e \<in> set (images s'). Some (fst e) = Some k))"]
      enforce_quota_ok [OF s3, of "Some k"] g3(3) act(1) by (auto simp: returns_iff)
  have "length (images (screens g4 ! n)) \<le> MAX_IMAGES" if "n < length (screens g4)" for n
  proof (cases "n = active g")
    case True
    then show ?thesis using few [OF g4(4,3)] g4(5) g3 act by simp
  next
    case False
    then show ?thesis using that g4(5) g3 g(1) by (simp add: kitty_ok_def)
  qed
  then have "\<forall>s \<in> set (screens g4). length (images s) \<le> MAX_IMAGES" by (auto simp: in_set_conv_nth)
  moreover have "loader g4 = None" using g4(5) g3(4) by simp
  ultimately have "kitty_ok W g4" using g4(2) by (simp add: kitty_ok_def loader_ok_def)
  moreover have "load_store C uid c dim px job pos g = Some (r, touch g4)"
    using g1(1) g3(1) g4(1) act frame1
    by (auto simp: load_store_def store_of_def g2_def put_def Let_def split: option.splits)
  ultimately show ?thesis by simp
qed

lemma finish_not_rejected: "load_finish l = Inr r \<Longrightarrow> \<not> rejected l"
  by (auto simp: load_finish_def rejected_def split: load_target.splits)

lemma load_complete_ok:
  assumes C: "crates_ok C" and g: "kitty_ok W g" "loader g = None" and l: "loader_ok (Some l) (screens g ! active g)"
  shows "returns (load_complete C uid l pos g) (\<lambda>(r, g'). kitty_ok W g')"
proof (cases "(action (start l) = ch CHR ''q'' \<and> cmd_id (start l) = 0) \<or> (\<exists>f. load_finish l = Inl f)")
  case True
  then show ?thesis using reply_ok(2) [OF g(1)] g(1) by (auto simp: load_complete_def Let_def split: sum.split)
next
  case False
  then obtain received where received: "load_finish l = Inr received" by (cases "load_finish l") auto
  obtain r where r: "load_outcome C received g = Some r"
    "\<forall>dim px j. r = Inr (dim, px, Some j) \<longrightarrow> length (jobs g) < MAX_JOBS"
    using load_outcome_ok [OF C] by blast
  show ?thesis
  proof (cases r)
    case (Inl f)
    then show ?thesis using False received r(1) g(1) reply_ok(2) [OF g(1)] by (auto simp: load_complete_def Let_def)
  next
    case (Inr x)
    obtain dim px job where x: "x = (dim, px, job)" by (cases x) auto
    have room: "job \<noteq> None \<longrightarrow> length (jobs g) < MAX_JOBS" using r(2) Inr x by auto
    show ?thesis
    proof (cases "action (start l) = ch CHR ''q''")
      case True
      have "kitty_ok W (queue j None (start l) g)" if "job = Some j" for j
        using queue_ok [of W g None j "start l"] room that g by (auto simp: kitty_ok_def)
      then show ?thesis
        using True False received r(1) Inr x reply_ok(2) [OF g(1)]
        by (auto simp: load_complete_def Let_def split: option.split)
    next
      case store: False
      have "cmd_id (start l) = 0 \<or> key_by_id (screens g ! active g) (cmd_id (start l)) = None"
        using l finish_not_rejected [OF received] store by (auto simp: loader_ok_def)
      then show ?thesis
        using load_store_ok [OF g, of "start l" job C uid dim px pos] room False store received r(1) Inr x
        by (simp add: load_complete_def Let_def)
    qed
  qed
qed

lemma loader_quiet: "loader_ok (Some (l\<lparr>start := (start l)\<lparr>quiet := n\<rparr>\<rparr>)) s = loader_ok (Some l) s"
  by (cases "ld_target l") (simp_all add: loader_ok_def load_ok_def rejected_def)

lemma loader_end:
  assumes "crates_ok C" "loader_ok (Some l) s"
  shows "loader_ok (Some (load_end_chunk (base64 C) l)) s"
  using assms base64_crate.load_end_ok [of "base64 C" l] rejected_end [of l "base64 C"]
  by (auto simp: crates_ok_def loader_ok_def)

lemma chunk_complete_ok:
  assumes C: "crates_ok C" and g: "kitty_ok W g"
  shows "returns (chunk_complete C uid c pos g) (\<lambda>(r, g'). kitty_ok W g')"
proof (cases "loader g")
  case None
  then show ?thesis using g by (simp add: chunk_complete_def)
next
  case (Some l)
  let ?l = "load_end_chunk (base64 C) l" and ?s = "screens g ! active g"
  define l' where "l' = (if quiet c \<noteq> 0 then ?l\<lparr>start := (start ?l)\<lparr>quiet := quiet c\<rparr>\<rparr> else ?l)"
  have ended: "loader_ok (Some ?l) ?s" using loader_end [OF C, of l ?s] g Some by (simp add: kitty_ok_def)
  then have "loader_ok (Some (?l\<lparr>start := (start ?l)\<lparr>quiet := quiet c\<rparr>\<rparr>)) ?s" by (simp only: loader_quiet)
  then have l': "loader_ok (Some l') ?s" using ended unfolding l'_def by presburger
  have "kitty_ok W (g\<lparr>loader := Some l'\<rparr>)" and none: "kitty_ok W (g\<lparr>loader := None\<rparr>)"
    using g l' by (simp_all add: kitty_ok_def kitty_base_def loader_ok_def)
  moreover have "returns (load_complete C uid l' pos (g\<lparr>loader := None\<rparr>)) (\<lambda>(r, g'). kitty_ok W g')"
    by (rule load_complete_ok [OF C none]) (use l' in auto)
  ultimately show ?thesis unfolding chunk_complete_def Let_def Some option.case l'_def [symmetric] by simp
qed

lemma kitty_ok_no_loader: "kitty_ok W g \<Longrightarrow> kitty_ok W (g\<lparr>loader := None\<rparr>)"
  by (simp add: kitty_ok_def kitty_base_def loader_ok_def)

lemma image_delete_sub: "store_ok s \<Longrightarrow> returns (image_delete c pos s) (\<lambda>(b, s'). store_ok s' \<and> image_sub s s')"
  using image_delete_ok [of s c pos] by (auto simp: returns_iff)

lemma apc_end_ok:
  assumes C: "crates_ok C" and g: "kitty_ok W g"
  shows "returns (apc_end C uid cancelled pos g) (\<lambda>(r, g'). kitty_ok W g')"
proof -
  define g1 where "g1 = (if cancelled then g else g\<lparr>quiet_bytes := quiet_bytes g + 2\<rparr>)\<lparr>sink := Idle\<rparr>"
  have g1: "kitty_ok W g1" using g by (simp add: g1_def)
  define was where "was = sink g"
  have was: "sink (if cancelled then g else g\<lparr>quiet_bytes := quiet_bytes g + 2\<rparr>) = was" by (simp add: was_def)
  obtain snk g2 where g2: "(if was = Control then control_complete C g1 else Some (was, g1)) = Some (snk, g2)" "kitty_ok W g2"
    using control_complete_ok [OF g1, of C] g1 by (cases "was = Control") (auto simp: returns_iff)
  let ?g = "g2\<lparr>current := None\<rparr>"
  have ok: "kitty_ok W ?g" using g2(2) by simp
  have act: "active (?g\<lparr>loader := None\<rparr>) < 2" using ok by (simp add: kitty_ok_def kitty_base_def)
  have del: "returns (touching (on_store (active ?g) (image_delete c pos) (?g\<lparr>loader := None\<rparr>))) (kitty_ok W)" for c
    by (rule returns_mono [OF touching_ok [OF on_store_ok [OF kitty_ok_no_loader [OF ok] _ image_delete_sub]]])
      (use act in auto)
  have eq: "apc_end C uid cancelled pos g = (case snk of
      Payload feeding \<Rightarrow>
        if cancelled then Some (None, if feeding then ?g\<lparr>loader := None\<rparr> else ?g)
        else (case current g2 of
          None \<Rightarrow> Some (None, ?g)
        | Some c \<Rightarrow>
            if feeding then chunk_complete C uid c pos ?g
            else if action c = ch CHR ''p'' then kitty_place C c pos ?g
            else if action c = ch CHR ''d''
            then do { g \<leftarrow> touching (on_store (active ?g) (image_delete c pos) (?g\<lparr>loader := None\<rparr>)); Some (None, g) }
            else if action c = ch CHR ''a'' \<or> action c = ch CHR ''c'' then Some (None, reply c (Some animation) ?g)
            else Some (None, ?g))
      | _ \<Rightarrow> Some (None, ?g))"
    unfolding apc_end_def Let_def g1_def [symmetric] was g2(1) by simp
  have del': "returns (do { g \<leftarrow> touching (on_store (active ?g) (image_delete c pos) (?g\<lparr>loader := None\<rparr>)); Some (None, g) })
      (\<lambda>(r :: outcome, g'). kitty_ok W g')" for c
    using del [of c] by (auto simp: returns_iff)
  show ?thesis
    unfolding eq
    using ok kitty_ok_no_loader [OF ok] chunk_complete_ok [OF C ok] kitty_place_ok [OF ok, of C] del' reply_ok(2) [OF ok]
    by (cases snk; cases "current g2"; simp add: returns_if)
qed

section \<open>Settling and following the grid\<close>

lemma set_cell_ok:
  assumes g: "kitty_ok W g" and cell: "pixels_ok cell"
  shows "returns (set_cell C cell g) (kitty_ok W)"
proof -
  let ?f = "\<lambda>s ss. map_option (\<lambda>s. ss @ [s]) (image_rescale (fl C) cell s)"
  let ?R = "\<lambda>s s'. store_ok s' \<and> image_sub s s' \<and> length (images s') = length (images s)"
  have one: "returns (image_rescale (fl C) cell s) (?R s)" if "store_ok s" for s
    by (rule returns_mono [OF image_rescale_ok [OF that cell]]) (auto simp: image_sub_images)
  obtain s t where st: "screens g = [s, t]" "store_ok s" "store_ok t"
    using g by (auto simp: kitty_ok_def kitty_base_def numeral_2_eq_2 length_Suc_conv)
  obtain s' t' where st': "image_rescale (fl C) cell s = Some s'" "image_rescale (fl C) cell t = Some t'" "?R s s'" "?R t t'"
    using one [OF st(2)] one [OF st(3)] by (auto simp: returns_iff)
  have "loader_ok l s \<longrightarrow> loader_ok l s'" "loader_ok l t \<longrightarrow> loader_ok l t'" for l
    using key_stays_free [of s s'] key_stays_free [of t t'] st st' by (auto simp: loader_ok_def split: option.splits)
  then have "kitty_ok W (g\<lparr>k_cell := cell, screens := [s', t']\<rparr>)"
    using g st st' cell by (cases "active g") (auto simp: kitty_ok_def kitty_base_def less_2_cases_iff)
  then show ?thesis using g st st' by (auto simp: set_cell_def)
qed

lemma kitty_scroll_ok:
  assumes g: "kitty_ok W g"
  shows "returns (kitty_scroll C sc g) (kitty_ok W)" "returns (kitty_clear_screen history g) (kitty_ok W)"
    "returns (kitty_clear_history g) (kitty_ok W)"
proof -
  have act: "active g < 2" and cell: "pixels_ok (k_cell g)" using g by (auto simp: kitty_ok_def kitty_base_def)
  have by_store: "returns (touching (on_store (active g) f g)) (kitty_ok W)"
    if "\<And>s. store_ok s \<Longrightarrow> returns (f s) (\<lambda>(b, s'). store_ok s' \<and> image_sub s s')" for f
    by (rule returns_mono [OF touching_ok [OF on_store_ok [OF g act that]]]) auto
  show "returns (kitty_scroll C sc g) (kitty_ok W)" unfolding kitty_scroll_def
    by (rule by_store, rule returns_mono [OF image_scroll_ok [OF _ cell]]) auto
  show "returns (kitty_clear_screen history g) (kitty_ok W)" unfolding kitty_clear_screen_def
    by (rule by_store, rule returns_mono [OF image_clear_ok(1)]) auto
  show "returns (kitty_clear_history g) (kitty_ok W)" unfolding kitty_clear_history_def
    by (rule by_store, rule returns_mono [OF image_clear_ok(2)]) auto
qed

lemma set_alternate_ok:
  assumes g: "kitty_ok W g"
  shows "returns (set_alternate alternate g) (\<lambda>g'. kitty_ok W g' \<and> active g' = of_bool alternate)"
proof (cases "of_bool alternate = active g")
  case True
  then show ?thesis using g by (simp add: set_alternate_def)
next
  case False
  have "returns (on_store ALTERNATE (image_clear True) (g\<lparr>loader := None\<rparr>)) (\<lambda>(b, g'). kitty_ok W g' \<and> (\<exists>ss. g' = g\<lparr>loader := None, screens := ss\<rparr>))"
    by (rule on_store_ok [OF kitty_ok_no_loader [OF g]], simp add: ALTERNATE_def)
      (rule returns_mono [OF image_clear_ok(1)], auto)
  then obtain b ss where g': "on_store ALTERNATE (image_clear True) (g\<lparr>loader := None\<rparr>) = Some (b, g\<lparr>loader := None, screens := ss\<rparr>)"
    "kitty_ok W (g\<lparr>loader := None, screens := ss\<rparr>)" by (auto simp: returns_iff)
  then have "kitty_ok W (g\<lparr>loader := None, screens := ss, active := of_bool alternate, screen_epoch := n\<rparr>)" for n
    by (simp add: kitty_ok_def kitty_base_def loader_ok_def)
  then show ?thesis using False g'(1) by (simp add: set_alternate_def Let_def)
qed

lemma kitty_reset_ok:
  assumes "kitty_ok W g"
  shows "kitty_ok W (kitty_reset g)"
proof -
  have "kitty_ok W (g\<lparr>screens := [empty_store, empty_store], active := 0, screen_epoch := n,
      sink := Idle, current := None, loader := None, jobs := [], replies := []\<rparr>)" for n
    using assms store_ok_empty by (auto simp: kitty_ok_def kitty_base_def loader_ok_def empty_store_def)
  then show ?thesis by (simp add: kitty_reset_def Let_def)
qed

lemma kitty_anchors_ok:
  assumes g: "kitty_ok W g"
  shows "returns (kitty_apply_anchors moved g) (kitty_ok W)"
proof -
  let ?R = "\<lambda>s s'. store_ok s' \<and> image_sub s s'"
  obtain s t where st: "screens g = [s, t]" "store_ok s" "store_ok t"
    using g by (auto simp: kitty_ok_def kitty_base_def numeral_2_eq_2 length_Suc_conv)
  obtain a s' b t' where st': "apply_anchors (moved (0 = ALTERNATE)) s = Some (a, s')"
    "apply_anchors (moved (1 = ALTERNATE)) t = Some (b, t')" "?R s s'" "?R t t'"
    using image_anchors_ok [OF st(2), of "moved (0 = ALTERNATE)"] image_anchors_ok [OF st(3), of "moved (1 = ALTERNATE)"]
    by (auto simp: returns_iff)
  have "loader_ok l s \<longrightarrow> loader_ok l s'" "loader_ok l t \<longrightarrow> loader_ok l t'" for l
    using key_stays_free [of s s'] key_stays_free [of t t'] st st' by (auto simp: loader_ok_def split: option.splits)
  moreover have "length (images s') \<le> length (images s)" "length (images t') \<le> length (images t)"
    using image_sub_fewer st st' by blast+
  ultimately have "kitty_ok W (g\<lparr>screens := [s', t']\<rparr>)"
    using g st st' by (cases "active g") (auto simp: kitty_ok_def kitty_base_def less_2_cases_iff)
  then show ?thesis using g st st' by (auto simp: kitty_apply_anchors_def)
qed

lemma settle_reply_simps [simp]:
  "settle_reply n text [] = []"
  "settle_reply n text (r # rs) =
     (if r = Pending n then (case text of Some t \<Rightarrow> Ready t # rs | None \<Rightarrow> rs) else r # settle_reply n text rs)"
  by (auto simp: settle_reply_def find_index_def split: option.split)

lemma settle_reply_pending: "pending_seqs (settle_reply n text rs) = remove1 n (pending_seqs rs)"
proof (induction rs)
  case (Cons r rs)
  then show ?case by (cases r) (auto split: option.split)
qed simp

lemma settle_reply_length: "length (settle_reply n text rs) \<le> length rs"
  by (induction rs) (auto split: option.split)

lemma settled_ok:
  assumes "kitty_ok W g"
  shows "kitty_ok (W - {n}) (g\<lparr>replies := settle_reply n text (replies g)\<rparr>)"
  using assms settle_reply_length [of n "text" "replies g"]
  by (auto simp: kitty_ok_def kitty_base_def settle_reply_pending)

lemma install_ok:
  assumes "store_ok s"
  shows "returns (install t px s) (\<lambda>(r, s'). store_ok s' \<and> image_sub s s')"
proof -
  have "image_sub s (snd (set_pixels k data op s))" for k data op
    by (auto simp: set_pixels_def image_sub_def get_image_def split: if_splits)
  then show ?thesis
    using remove_image_ok [OF assms, of "tg_key t"] set_pixels_ok [OF assms] by (auto simp: install_def returns_iff)
qed

lemma finish_job_ok:
  assumes g: "kitty_ok W g" and target: "\<And>t. fj_target j = Some t \<Longrightarrow> tg_screen t < 2"
  shows "returns (finish_job j g) (\<lambda>g'. kitty_ok (W - {fj_seq j}) g' \<and> jobs g' = jobs g \<and>
    (\<exists>r. replies g' = settle_reply (fj_seq j) (reply_text (fj_command j) r) (replies g)))"
proof -
  have len: "length (screens g) = 2" using g by (simp add: kitty_ok_def kitty_base_def)
  obtain live where live: "live_target g j = Some live" "live \<noteq> None \<longrightarrow> live = fj_target j"
    using target len by (cases "fj_target j") (auto simp: live_target_def split: option.splits)
  have screen: "tg_screen t < 2" if "live = Some t" for t using target live that by simp
  have inst: "returns (on_store (tg_screen t) (install t px) g) (\<lambda>(a, g'). kitty_ok W g' \<and> (\<exists>ss. g' = g\<lparr>screens := ss\<rparr>))"
    if "live = Some t" for t px
    by (rule on_store_ok [OF g screen [OF that]]) (rule install_ok)
  have rem: "returns (on_store (tg_screen t) (remove_image (tg_key t)) g) (\<lambda>(a, g'). kitty_ok W g' \<and> (\<exists>ss. g' = g\<lparr>screens := ss\<rparr>))"
    if "live = Some t" for t
    by (rule on_store_ok [OF g screen [OF that]]) (rule returns_mono [OF remove_image_ok], auto)
  define m where "m = (case (fj_result j, live) of
      (Inr px, Some t) \<Rightarrow> on_store (tg_screen t) (install t px) g
    | (Inr px, None) \<Rightarrow> Some (None, g)
    | (Inl f, Some t) \<Rightarrow> do { (_, g) \<leftarrow> on_store (tg_screen t) (remove_image (tg_key t)) g; Some (Some f, g) }
    | (Inl f, None) \<Rightarrow> Some (Some f, g))"
  have same: "\<exists>ss. g = g\<lparr>screens := ss\<rparr>" by (rule exI [of _ "screens g"]) simp
  have "returns m (\<lambda>(_, g1). kitty_ok W g1 \<and> (\<exists>ss. g1 = g\<lparr>screens := ss\<rparr>))"
  proof (cases live)
    case None
    then show ?thesis using g same by (auto simp: m_def split: sum.split)
  next
    case (Some t)
    then show ?thesis using inst [OF Some] rem [OF Some] by (auto simp: m_def returns_iff split: sum.split)
  qed
  then obtain result g1 where m: "m = Some (result, g1)" "kitty_ok W g1" "\<exists>ss. g1 = g\<lparr>screens := ss\<rparr>"
    by (auto simp: returns_iff)
  define g2 where "g2 = (if live \<noteq> None then touch g1 else g1)"
  have g2: "kitty_ok W g2" "jobs g2 = jobs g" "replies g2 = replies g" using m(2,3) by (auto simp: g2_def)
  have "finish_job j g =
      Some (g2\<lparr>replies := settle_reply (fj_seq j) (reply_text (fj_command j) result) (replies g2)\<rparr>)"
    using live(1) m(1) unfolding finish_job_def m_def [symmetric] by (simp add: g2_def m_def)
  then show ?thesis using settled_ok [OF g2(1)] g2(2,3) by auto
qed

section \<open>Runs of the protocol\<close>

text \<open>
  Decodes that \<open>take_jobs\<close> handed out are kept beside the protocol until they are handed back,
  in any order, with anything in between: the terminal's lock is not held while they run.
\<close>

datatype kitty_event =
    SetCell cell_pixels
  | Defer bool
  | ApcStart
  | ApcPut "byte list"
  | ApcEnd nat bool "int \<times> int"
  | TakeJobs
  | HandBack nat
  | PopReply
  | ScrollGrid gfx_scroll
  | ClearScreen bool
  | ClearScrollback
  | Alternate bool
  | ResetAll
  | Reanchor "bool \<Rightarrow> nat \<Rightarrow> (int \<times> int) option"
  | TakeDirty
  | TakeQuiet

fun kitty_exec ::
  "('f, 'z) crates \<Rightarrow> kitty_event \<Rightarrow> 'f kitty \<times> queued_job list \<Rightarrow> ('f kitty \<times> queued_job list) option" where
  "kitty_exec C (SetCell cell) (g, out) = map_option (\<lambda>g. (g, out)) (set_cell C cell g)"
| "kitty_exec C (Defer b) (g, out) = Some (g\<lparr>defer_decode := b\<rparr>, out)"
| "kitty_exec C ApcStart (g, out) = Some (apc_start g, out)"
| "kitty_exec C (ApcPut bytes) (g, out) = map_option (\<lambda>g. (g, out)) (apc_put C bytes g)"
| "kitty_exec C (ApcEnd uid cancelled pos) (g, out) = map_option (\<lambda>(_, g). (g, out)) (apc_end C uid cancelled pos g)"
| "kitty_exec C TakeJobs (g, out) = (let (js, g) = take_jobs g in Some (g, out @ js))"
| "kitty_exec C (HandBack n) (g, out) =
     (if n < length out
      then do { j \<leftarrow> run_queued C (out ! n); g \<leftarrow> finish_jobs [j] g; Some (g, take n out @ drop (n + 1) out) }
      else Some (g, out))"
| "kitty_exec C PopReply (g, out) = Some (snd (pop_reply g), out)"
| "kitty_exec C (ScrollGrid sc) (g, out) = map_option (\<lambda>g. (g, out)) (kitty_scroll C sc g)"
| "kitty_exec C (ClearScreen history) (g, out) = map_option (\<lambda>g. (g, out)) (kitty_clear_screen history g)"
| "kitty_exec C ClearScrollback (g, out) = map_option (\<lambda>g. (g, out)) (kitty_clear_history g)"
| "kitty_exec C (Alternate b) (g, out) = map_option (\<lambda>g. (g, out)) (set_alternate b g)"
| "kitty_exec C ResetAll (g, out) = Some (kitty_reset g, out)"
| "kitty_exec C (Reanchor moved) (g, out) = map_option (\<lambda>g. (g, out)) (kitty_apply_anchors moved g)"
| "kitty_exec C TakeDirty (g, out) = Some (snd (take_dirty g), out)"
| "kitty_exec C TakeQuiet (g, out) = Some (snd (take_quiet_bytes g), out)"

fun event_pre :: "kitty_event \<Rightarrow> bool" where
  "event_pre (SetCell cell) \<longleftrightarrow> pixels_ok cell"
| "event_pre _ \<longleftrightarrow> True"

inductive kitty_reach :: "('f, 'z) crates \<Rightarrow> 'f kitty \<times> queued_job list \<Rightarrow> bool" for C where
  fresh: "kitty_reach C (new_kitty, [])"
| step: "kitty_reach C s \<Longrightarrow> event_pre e \<Longrightarrow> kitty_exec C e s = Some s' \<Longrightarrow> kitty_reach C s'"

definition system_ok :: "'f kitty \<times> queued_job list \<Rightarrow> bool" where
  "system_ok s \<longleftrightarrow> kitty_ok (qj_seq ` set (snd s)) (fst s) \<and> (\<forall>j \<in> set (snd s). \<forall>t. qj_target j = Some t \<longrightarrow> tg_screen t < 2)"

lemma kitty_ok_mono: "kitty_ok V g \<Longrightarrow> V \<subseteq> W \<Longrightarrow> kitty_ok W g"
  by (auto simp: kitty_ok_def kitty_base_def)

lemma returns_pair: "returns m (kitty_ok W) \<Longrightarrow> returns (map_option (\<lambda>g. (g, out)) m) (\<lambda>(g, o'). o' = out \<and> kitty_ok W g)"
  by (auto simp: returns_iff)

lemma new_kitty_ok: "kitty_ok {} new_kitty"
  using store_ok_empty
  by (simp add: new_kitty_def kitty_ok_def kitty_base_def loader_ok_def empty_store_def FALLBACK_def pixels_ok_def)

lemma run_queued_ok:
  assumes "crates_ok C"
  shows "\<exists>f. run_queued C j = Some f \<and> fj_seq f = qj_seq j \<and> fj_target f = qj_target j"
  using decode_returns [of "codecs C" "qj_job j"] assms by (auto simp: crates_ok_def returns_iff run_queued_def)

lemma pop_reply_ok: "kitty_ok W g \<Longrightarrow> kitty_ok W (snd (pop_reply g))"
  by (auto simp: pop_reply_def kitty_ok_def kitty_base_def split: list.split reply_slot.split)

lemma without_nth: "n < length xs \<Longrightarrow> f ` set xs - {f (xs ! n)} \<subseteq> f ` set (take n xs @ drop (n + 1) xs)"
proof -
  assume "n < length xs"
  then have "xs = take n xs @ xs ! n # drop (n + 1) xs" by (simp add: id_take_nth_drop)
  then have "set xs = insert (xs ! n) (set (take n xs @ drop (n + 1) xs))" by (metis list.set(2) set_append Un_insert_right)
  then have "f ` set xs = insert (f (xs ! n)) (f ` set (take n xs @ drop (n + 1) xs))" by (simp only: image_insert)
  then show ?thesis by (simp only: Diff_subset_conv insert_is_Un [symmetric] order_refl)
qed

lemma hand_back_ok:
  assumes C: "crates_ok C" and s: "system_ok (g, out)"
  shows "returns (kitty_exec C (HandBack n) (g, out)) system_ok"
proof (cases "n < length out")
  case True
  obtain f where f: "run_queued C (out ! n) = Some f" "fj_seq f = qj_seq (out ! n)" "fj_target f = qj_target (out ! n)"
    using run_queued_ok [OF C] by blast
  have "tg_screen t < 2" if "fj_target f = Some t" for t
    using s f(3) that True by (force simp: system_ok_def)
  then obtain g' where g': "finish_job f g = Some g'" "kitty_ok (qj_seq ` set out - {fj_seq f}) g'"
    using finish_job_ok [of "qj_seq ` set out" g f] s by (auto simp: system_ok_def returns_iff)
  let ?out = "take n out @ drop (n + 1) out"
  have "kitty_ok (qj_seq ` set ?out) g'"
    using kitty_ok_mono [OF g'(2)] without_nth [OF True, of qj_seq] f(2) by simp
  moreover have "set ?out \<subseteq> set out" using set_take_subset [of n out] set_drop_subset [of "n + 1" out] by auto
  ultimately show ?thesis using True s f(1) g'(1) by (auto simp: system_ok_def finish_jobs_def)
qed (use s in simp)

lemma kitty_exec_ok:
  assumes C: "crates_ok C" and s: "system_ok s" and pre: "event_pre e"
  shows "returns (kitty_exec C e s) system_ok"
proof -
  obtain g out where so: "s = (g, out)" by (cases s)
  let ?W = "qj_seq ` set out"
  have g: "kitty_ok ?W g" using s so by (simp add: system_ok_def)
  have ok: "returns (map_option (\<lambda>g. (g, out)) m) system_ok" if "returns m (kitty_ok ?W)" for m
    using returns_pair [OF that, of out] s so by (auto simp: returns_iff system_ok_def)
  have plain: "system_ok (g', out)" if "kitty_ok ?W g'" for g'
    using that s so by (simp add: system_ok_def)
  show ?thesis
  proof (cases e)
    case (ApcEnd uid cancelled pos)
    then show ?thesis using apc_end_ok [OF C g, of uid cancelled pos] s so by (auto simp: returns_iff system_ok_def)
  next
    case TakeJobs
    have "kitty_ok (qj_seq ` set (out @ jobs g)) (g\<lparr>jobs := []\<rparr>)"
      using g by (auto simp: kitty_ok_def kitty_base_def image_Un)
    moreover have "\<forall>j \<in> set (jobs g). \<forall>t. qj_target j = Some t \<longrightarrow> tg_screen t < 2"
      using g by (simp add: kitty_ok_def kitty_base_def)
    ultimately show ?thesis using TakeJobs s so by (auto simp: take_jobs_def system_ok_def)
  next
    case (HandBack n)
    then show ?thesis using hand_back_ok [OF C, of g out n] s so by simp
  next
    case ApcStart
    have "kitty_ok ?W (apc_start g)" using g by (simp add: apc_start_def kitty_ok_def kitty_base_def)
    then show ?thesis using ApcStart plain so by simp
  next
    case (Defer b)
    have "kitty_ok ?W (g\<lparr>defer_decode := b\<rparr>)" using g by (simp add: kitty_ok_def kitty_base_def)
    then show ?thesis using Defer plain so by simp
  next
    case TakeDirty
    have "kitty_ok ?W (g\<lparr>dirty := False\<rparr>)" using g by (simp add: kitty_ok_def kitty_base_def)
    then show ?thesis using TakeDirty plain so by (simp add: take_dirty_def)
  qed (use pre so in \<open>simp_all only: kitty_exec.simps event_pre.simps\<close>,
      auto intro!: ok plain set_cell_ok apc_put_ok kitty_scroll_ok set_alternate_ok [THEN returns_mono]
        kitty_reset_ok kitty_anchors_ok pop_reply_ok simp: take_quiet_bytes_def C g)
qed

lemma kitty_reach_ok: "kitty_reach C s \<Longrightarrow> crates_ok C \<Longrightarrow> system_ok s"
proof (induction rule: kitty_reach.induct)
  case fresh
  show ?case using new_kitty_ok by (simp add: system_ok_def)
next
  case (step s e s')
  then show ?case using kitty_exec_ok [of C s e] by simp
qed

section \<open>No panic, and no reply is lost or overtaken\<close>

text \<open>The reader's turn: run every decode there is, hand the results back, write the replies.\<close>

definition run_all :: "('f, 'z) crates \<Rightarrow> queued_job list \<Rightarrow> finished_job list option" where
  "run_all C js = for_each (\<lambda>j fs. map_option (\<lambda>f. fs @ [f]) (run_queued C j)) js []"

definition settle_all :: "('f, 'z) crates \<Rightarrow> 'f kitty \<times> queued_job list \<Rightarrow> 'f kitty option" where
  "settle_all C s = (let (js, g) = take_jobs (fst s) in do { fs \<leftarrow> run_all C (snd s @ js); finish_jobs fs g })"

fun pop_replies :: "nat \<Rightarrow> 'f kitty \<Rightarrow> byte list list \<times> 'f kitty" where
  "pop_replies 0 g = ([], g)"
| "pop_replies (Suc n) g =
     (case pop_reply g of
        (Some t, g) \<Rightarrow> (let (ts, g) = pop_replies n g in (t # ts, g))
      | (None, g) \<Rightarrow> ([], g))"

text \<open>Replies with the decodes \<open>A\<close> answered, each in its place or not at all.\<close>

definition answered :: "nat set \<Rightarrow> (nat \<Rightarrow> byte list option) \<Rightarrow> reply_slot list \<Rightarrow> reply_slot list" where
  "answered A ans rs = List.map_filter (\<lambda>r. case r of
     Ready t \<Rightarrow> Some (Ready t)
   | Pending n \<Rightarrow> if n \<in> A then map_option Ready (ans n) else Some (Pending n)) rs"

lemma answered_simps [simp]:
  "answered A ans [] = []"
  "answered A ans (Ready t # rs) = Ready t # answered A ans rs"
  "answered A ans (Pending n # rs) =
     (if n \<in> A then (case ans n of Some t \<Rightarrow> Ready t # answered A ans rs | None \<Rightarrow> answered A ans rs)
      else Pending n # answered A ans rs)"
  by (simp_all add: answered_def map_filter_simps split: option.split)

lemma answered_none [simp]: "answered {} ans rs = rs"
proof (induction rs)
  case (Cons r rs)
  then show ?case by (cases r) auto
qed simp

lemma answered_twice: "answered B ans' (answered A ans rs) = answered (A \<union> B) (\<lambda>n. if n \<in> A then ans n else ans' n) rs"
proof (induction rs)
  case (Cons r rs)
  then show ?case by (cases r) (auto split: option.split)
qed simp

lemma answered_fresh: "n \<notin> set (pending_seqs rs) \<Longrightarrow> answered {n} ans rs = rs"
proof (induction rs)
  case (Cons r rs)
  then show ?case by (cases r) auto
qed simp

lemma settle_answered: "distinct (pending_seqs rs) \<Longrightarrow> settle_reply n t rs = answered {n} (\<lambda>_. t) rs"
proof (induction rs)
  case (Cons r rs)
  then show ?case by (cases r) (auto simp: answered_fresh split: option.split)
qed simp

definition ready_texts :: "(nat \<Rightarrow> byte list option) \<Rightarrow> reply_slot list \<Rightarrow> byte list list" where
  "ready_texts ans rs = List.map_filter (\<lambda>r. case r of Ready t \<Rightarrow> Some t | Pending n \<Rightarrow> ans n) rs"

lemma answered_all: "set (pending_seqs rs) \<subseteq> A \<Longrightarrow> answered A ans rs = map Ready (ready_texts ans rs)"
proof (induction rs)
  case (Cons r rs)
  then show ?case by (cases r) (auto simp: ready_texts_def map_filter_simps split: option.split)
qed (simp add: ready_texts_def map_filter_simps)

lemma pop_ready: "replies g = map Ready ts \<Longrightarrow> length ts \<le> n \<Longrightarrow> pop_replies n g = (ts, g\<lparr>replies := []\<rparr>)"
proof (induction ts arbitrary: g n)
  case Nil
  then have "g = g\<lparr>replies := []\<rparr>" by simp
  then show ?case using Nil by (cases n) (simp_all add: pop_reply_def)
next
  case (Cons t ts)
  then obtain m where "n = Suc m" by (cases n) auto
  then show ?case using Cons.IH [of "g\<lparr>replies := map Ready ts\<rparr>" m] Cons.prems by (simp add: pop_reply_def)
qed

lemma run_all_ok:
  assumes C: "crates_ok C"
  shows "\<exists>fs. run_all C js = Some fs \<and>
    list_all2 (\<lambda>j f. fj_seq f = qj_seq j \<and> fj_target f = qj_target j \<and> fj_command f = qj_command j) js fs"
proof -
  let ?R = "\<lambda>j f. fj_seq f = qj_seq j \<and> fj_target f = qj_target j \<and> fj_command f = qj_command j"
  have "\<exists>fs. for_each (\<lambda>j fs. map_option (\<lambda>f. fs @ [f]) (run_queued C j)) js gs = Some (gs @ fs) \<and> list_all2 ?R js fs" for gs
  proof (induction js arbitrary: gs)
    case (Cons j js)
    obtain f where f: "run_queued C j = Some f" "?R j f"
      using decode_returns [of "codecs C" "qj_job j"] C by (auto simp: crates_ok_def returns_iff run_queued_def)
    show ?case using Cons.IH [of "gs @ [f]"] f by fastforce
  qed simp
  from this [of "[]"] show ?thesis by (auto simp: run_all_def)
qed

lemma finish_jobs_ok:
  assumes "kitty_ok W g" "\<forall>f \<in> set fs. \<forall>t. fj_target f = Some t \<longrightarrow> tg_screen t < 2"
  shows "returns (finish_jobs fs g) (\<lambda>g'. kitty_ok (W - fj_seq ` set fs) g' \<and> jobs g' = jobs g \<and>
    (\<exists>ans. replies g' = answered (fj_seq ` set fs) ans (replies g) \<and>
      (\<forall>n \<in> fj_seq ` set fs. \<exists>f \<in> set fs. fj_seq f = n \<and> (\<exists>r. ans n = reply_text (fj_command f) r))))"
  using assms
proof (induction fs arbitrary: g W)
  case Nil
  then show ?case by (simp add: finish_jobs_def)
next
  case (Cons f fs)
  obtain g1 r where g1: "finish_job f g = Some g1" "kitty_ok (W - {fj_seq f}) g1" "jobs g1 = jobs g"
    "replies g1 = settle_reply (fj_seq f) (reply_text (fj_command f) r) (replies g)"
    using finish_job_ok [OF Cons.prems(1), of f] Cons.prems(2) by (auto simp: returns_iff)
  obtain g2 ans where g2: "finish_jobs fs g1 = Some g2" "kitty_ok (W - {fj_seq f} - fj_seq ` set fs) g2" "jobs g2 = jobs g"
    "replies g2 = answered (fj_seq ` set fs) ans (replies g1)"
    "\<forall>n \<in> fj_seq ` set fs. \<exists>f \<in> set fs. fj_seq f = n \<and> (\<exists>r. ans n = reply_text (fj_command f) r)"
    using Cons.IH [OF g1(2)] Cons.prems(2) g1(3) by (auto simp: returns_iff)
  have "distinct (pending_seqs (replies g))" using Cons.prems(1) by (simp add: kitty_ok_def kitty_base_def)
  then have "replies g2 = answered (fj_seq ` set (f # fs)) (\<lambda>n. if n = fj_seq f then reply_text (fj_command f) r else ans n) (replies g)"
    unfolding g2(4) g1(4) settle_answered answered_twice by (simp add: settle_answered answered_twice)
  moreover have "W - {fj_seq f} - fj_seq ` set fs = W - fj_seq ` set (f # fs)" by auto
  moreover have "finish_jobs (f # fs) g = Some g2" using g1(1) g2(1) by (simp add: finish_jobs_def)
  ultimately show ?case using g2(2,3,5) by fastforce
qed

text \<open>
  C24. In every state of the graphics protocol that any commands, in any fragments and with
  decodes handed back in any order, reach from a new terminal, no further operation panics or
  fails to return; both image stores stay well-formed, the reply and job queues stay within
  their limits, and a transmission in progress holds an id no image has.
\<close>

theorem kitty_safe:
  assumes "crates_ok C" "kitty_reach C s" "event_pre e"
  shows "system_ok s \<and> (\<exists>s'. kitty_exec C e s = Some s' \<and> system_ok s')"
  using kitty_reach_ok [OF assms(2,1)] kitty_exec_ok [OF assms(1) _ assms(3)] by (auto simp: returns_iff)


definition sample_crates :: "(nat, nat) crates" where
  "sample_crates = \<lparr>fl = nat_floats, codecs = stored_codecs, base64 = b64_reference, find_byte = first_byte\<rparr>"

lemma sample_crates_ok: "crates_ok sample_crates"
  using reference.base64_crate_axioms
  by (auto simp: crates_ok_def sample_crates_def codecs_ok_def stored_codecs_def grow_def min_absorb2)

definition put_command :: command where "put_command = default_command\<lparr>action := 0x70, cmd_id := 1\<rparr>"

lemma parse_put: "parse_command [0x61, 0x3D, 0x70, 0x2C, 0x69, 0x3D, 0x31] = Some put_command"
  by (simp add: parse_command_def parse_pair_def put_command_def ascii_def ch_def parse_u32_def set_field_def flag_def is_digit_def checked_u32_def)

definition put_received :: "nat kitty" where
  "put_received = new_kitty\<lparr>control := [0x61, 0x3D, 0x70, 0x2C, 0x69, 0x3D, 0x31], current := Some put_command,
     quiet_bytes := 11, sink := Payload False\<rparr>"

lemma put_steps:
  "kitty_exec sample_crates (ApcPut (ascii ''Ga=p,i=1;'')) (apc_start new_kitty, []) = Some (put_received, [])"
  using parse_put
  apply (simp add: put_received_def apc_put_def apc_start_def ascii_def ch_def new_kitty_def sample_crates_def)
  apply (subst apc_loop.simps; simp add: first_byte_def ch_def)+
  apply (simp add: control_complete_def Let_def MAX_CONTROL_BYTES_def put_command_def default_command_def ch_def)
  done

lemma put_received_reach: "kitty_reach sample_crates (put_received, [])"
proof -
  have "kitty_reach sample_crates (apc_start new_kitty, [])"
    by (rule kitty_reach.step [OF kitty_reach.fresh, of ApcStart]) simp_all
  then show ?thesis by (rule kitty_reach.step [OF _ _ put_steps]) simp
qed

theorem kitty_safe_witness:
  "\<exists>s'. kitty_exec sample_crates (ApcEnd 1 False (0, 0)) (put_received, []) = Some s' \<and> system_ok s'"
  using kitty_safe [OF sample_crates_ok put_received_reach, of "ApcEnd 1 False (0, 0)"] by simp

text \<open>Placing an image that does not exist is answered; the answer is what the application gets.\<close>

definition put_refused :: "nat kitty" where
  "put_refused = (case kitty_exec sample_crates (ApcEnd 1 False (0, 0)) (put_received, []) of
     Some (g, _) \<Rightarrow> g | None \<Rightarrow> new_kitty)"

lemma put_refused:
  "kitty_exec sample_crates (ApcEnd 1 False (0, 0)) (put_received, []) = Some (put_refused, [])"
  "\<exists>t. replies put_refused = [Ready t]"
  by (simp_all add: put_refused_def put_received_def apc_end_def new_kitty_def put_command_def default_command_def ch_def
     kitty_place_def store_of_def empty_store_def key_by_id_def reply_def reply_text_def reply_wanted_def MAX_REPLIES_def)


end
