(* ===== verification/Select.thy ===== *)
theory Select
  imports Index Style
begin

text \<open>
  Selections of cells, \<open>src/terminal/selection.rs\<close>: anchors at cells and their sides, what
  becomes of them when lines scroll, and the ranges of cells they stand for. The expansion to words
  and logical lines, which reads the screen, is in the theory on searching.
\<close>

section \<open>Ranges\<close>

text \<open>\<open>Side\<close> is another name for \<open>Direction\<close>.\<close>

record anchor =
  a_point :: point
  a_side :: direction

record selection_range =
  r_start :: point
  r_end :: point
  is_block :: bool

definition range_new :: "point \<Rightarrow> point \<Rightarrow> bool \<Rightarrow> selection_range option" where
  "range_new s e block = (if s \<le> e then Some \<lparr>r_start = s, r_end = e, is_block = block\<rparr> else None)"

definition range_contains :: "selection_range \<Rightarrow> point \<Rightarrow> bool" where
  "range_contains r p \<longleftrightarrow>
     line (r_start r) \<le> line p \<and> line p \<le> line (r_end r) \<and>
     (column (r_start r) \<le> column p \<or> line (r_start r) \<noteq> line p \<and> \<not> is_block r) \<and>
     (column p \<le> column (r_end r) \<or> line (r_end r) \<noteq> line p \<and> \<not> is_block r)"

text \<open>The cell at \<open>at\<close>, with its layout, and the cursor at \<open>p\<close>; only whether its shape is a block matters.\<close>

definition contains_cell :: "selection_range \<Rightarrow> point \<Rightarrow> flags \<Rightarrow> point \<Rightarrow> bool \<Rightarrow> bool" where
  "contains_cell r at layout p block_cursor =
     (if block_cursor \<and> p = at \<and>
        (r_start r = at \<or> r_end r = at \<or>
         is_block r \<and>
         (line (r_start r) = line at \<and> column (r_end r) = column at \<or>
          line (r_end r) = line at \<and> column (r_start r) = column at))
      then False
      else if range_contains r at then True
      else contains layout WIDE_CHAR \<and> range_contains r (Point (line at) (column at + 1)))"

section \<open>Selections\<close>

datatype selection_type = Simple | Block | Semantic | Lines

record selection =
  ty :: selection_type
  s_from :: anchor
  s_to :: anchor

definition selection_new :: "selection_type \<Rightarrow> point \<Rightarrow> direction \<Rightarrow> selection" where
  "selection_new t p side =
     \<lparr>ty = t, s_from = \<lparr>a_point = p, a_side = side\<rparr>, s_to = \<lparr>a_point = p, a_side = side\<rparr>\<rparr>"

definition selection_update :: "point \<Rightarrow> direction \<Rightarrow> selection \<Rightarrow> selection" where
  "selection_update p side s = s\<lparr>s_to := \<lparr>a_point = p, a_side = side\<rparr>\<rparr>"

text \<open>The two anchors, the upper one first, and the selection with its anchors put back.\<close>

definition ordered :: "selection \<Rightarrow> anchor \<times> anchor" where
  "ordered s = (if a_point (s_to s) < a_point (s_from s) then (s_to s, s_from s) else (s_from s, s_to s))"

definition reordered :: "selection \<Rightarrow> anchor \<Rightarrow> anchor \<Rightarrow> selection" where
  "reordered s upper lower =
     (if a_point (s_to s) < a_point (s_from s) then s\<lparr>s_from := lower, s_to := upper\<rparr>
      else s\<lparr>s_from := upper, s_to := lower\<rparr>)"

definition rotate_start :: "selection_type \<Rightarrow> int \<times> int \<Rightarrow> int \<Rightarrow> dims \<Rightarrow> anchor \<Rightarrow> anchor \<Rightarrow> anchor option" where
  "rotate_start t = (\<lambda>(tp, bt) delta d upper lower.
     if (tp \<le> line (a_point upper) \<or> tp = 0) \<and> line (a_point upper) < bt
     then (let l = min (line (a_point upper) - delta) (bottommost_line d) in
           if bt \<le> l \<and> line (a_point lower) < bt then None
           else if l < tp \<and> tp \<noteq> 0
           then Some (if t \<noteq> Block then \<lparr>a_point = Point tp 0, a_side = DLeft\<rparr>
                      else upper\<lparr>a_point := Point tp (column (a_point upper))\<rparr>)
           else Some (upper\<lparr>a_point := Point l (column (a_point upper))\<rparr>))
     else Some upper)"

definition rotate_end :: "selection_type \<Rightarrow> int \<times> int \<Rightarrow> int \<Rightarrow> dims \<Rightarrow> anchor \<Rightarrow> anchor \<Rightarrow> anchor option" where
  "rotate_end t = (\<lambda>(tp, bt) delta d upper lower.
     if (tp \<le> line (a_point lower) \<or> tp = 0) \<and> line (a_point lower) < bt
     then (let l = min (line (a_point lower) - delta) (bottommost_line d) in
           if l < line (a_point upper) then None
           else if bt \<le> l
           then Some (if t \<noteq> Block then \<lparr>a_point = Point (bt - 1) (last_column d), a_side = DRight\<rparr>
                      else lower\<lparr>a_point := Point (bt - 1) (column (a_point lower))\<rparr>)
           else Some (lower\<lparr>a_point := Point l (column (a_point lower))\<rparr>))
     else Some lower)"

text \<open>Here \<open>None\<close> is the deleted selection, as in the code.\<close>

definition rotate_selection :: "dims \<Rightarrow> int \<times> int \<Rightarrow> int \<Rightarrow> selection \<Rightarrow> selection option" where
  "rotate_selection d region delta s =
     (let (upper, lower) = ordered s in
      do { upper \<leftarrow> rotate_start (ty s) region delta d upper lower;
           lower \<leftarrow> rotate_end (ty s) region delta d upper lower;
           Some (reordered s upper lower) })"

definition selection_is_empty :: "selection \<Rightarrow> bool" where
  "selection_is_empty s =
     (let next_to = (\<lambda>a b. column (a_point a) + 1 = column (a_point b) \<and> a_side a = DRight \<and> a_side b = DLeft)
      in case ty s of
           Simple \<Rightarrow> (let (upper, lower) = ordered s in
             upper = lower \<or> line (a_point upper) = line (a_point lower) \<and> next_to upper lower)
         | Block \<Rightarrow>
             column (a_point (s_from s)) = column (a_point (s_to s)) \<and> a_side (s_from s) = a_side (s_to s) \<or>
             next_to (s_from s) (s_to s) \<or> next_to (s_to s) (s_from s)
         | _ \<Rightarrow> False)"

text \<open>The lines of a range, none for no bound; the extreme values of \<open>i32\<close> stand for no bound in the code.\<close>

definition intersects_range :: "int option \<Rightarrow> int option \<Rightarrow> selection \<Rightarrow> bool" where
  "intersects_range tp bt s =
     (let a = line (a_point (s_from s)); b = line (a_point (s_to s)); upper = min a b; lower = max a b
      in (case bt of None \<Rightarrow> True | Some l \<Rightarrow> upper \<le> l) \<and> (case tp of None \<Rightarrow> True | Some l \<Rightarrow> l \<le> lower))"

definition include_all :: "selection \<Rightarrow> selection" where
  "include_all s =
     (let p = a_point (s_from s); q = a_point (s_to s);
          swapped = (if ty s = Block then column q < column p \<or> column p = column q \<and> line q < line p else q < p)
      in s\<lparr>s_from := (s_from s)\<lparr>a_side := if swapped then DRight else DLeft\<rparr>,
           s_to := (s_to s)\<lparr>a_side := if swapped then DLeft else DRight\<rparr>\<rparr>)"

definition range_simple :: "selection \<Rightarrow> anchor \<Rightarrow> anchor \<Rightarrow> nat \<Rightarrow> selection_range option" where
  "range_simple s upper lower cols =
     (if selection_is_empty s then None
      else let p = a_point upper; q = a_point lower;
               q' = (if a_side lower = DLeft \<and> p \<noteq> q
                     then if column q = 0 then Point (line q - 1) (cols - 1) else Point (line q) (column q - 1)
                     else q);
               p' = (if a_side upper = DRight \<and> p \<noteq> q'
                     then if column p + 1 = cols then Point (line p + 1) 0 else Point (line p) (column p + 1)
                     else p)
           in Some \<lparr>r_start = p', r_end = q', is_block = False\<rparr>)"

definition range_block :: "selection \<Rightarrow> anchor \<Rightarrow> anchor \<Rightarrow> selection_range option" where
  "range_block s upper lower =
     (if selection_is_empty s then None
      else let swap = column (a_point lower) < column (a_point upper);
               p = Point (line (a_point upper)) (column (a_point (if swap then lower else upper)));
               q = Point (line (a_point lower)) (column (a_point (if swap then upper else lower)));
               p_side = a_side (if swap then lower else upper); q_side = a_side (if swap then upper else lower);
               q' = (if q_side = DLeft \<and> p \<noteq> q \<and> 0 < column q then Point (line q) (column q - 1) else q);
               p' = (if p_side = DRight \<and> p \<noteq> q' then Point (line p) (column p + 1) else p)
           in Some \<lparr>r_start = p', r_end = q', is_block = True\<rparr>)"

section \<open>A selection follows the lines it is on\<close>

text \<open>The cells between the anchors in reading order.\<close>

definition covers :: "selection \<Rightarrow> point \<Rightarrow> bool" where
  "covers s p \<longleftrightarrow> a_point (fst (ordered s)) \<le> p \<and> p \<le> a_point (snd (ordered s))"

lemma ordered_le: "a_point (fst (ordered s)) \<le> a_point (snd (ordered s))"
  by (auto simp: ordered_def)

lemma covers_reordered:
  "covers (reordered s a b) p \<longleftrightarrow> min (a_point a) (a_point b) \<le> p \<and> p \<le> max (a_point a) (a_point b)"
  by (auto simp: covers_def ordered_def reordered_def min_def max_def)

lemma range_contains_reading: "range_contains \<lparr>r_start = p, r_end = q, is_block = False\<rparr> x \<longleftrightarrow> p \<le> x \<and> x \<le> q"
  by (auto simp: range_contains_def less_eq_point_def)

text \<open>The rows of the region are compared with the anchors as before, shifted.\<close>

lemma rotate_start_None:
  assumes "rotate_start t (tp, bt) delta d (a :: anchor) b = None"
  shows "line (a_point b) < bt \<and> bt \<le> line (a_point a) - delta \<and> line (a_point a) < bt"
  using assms by (auto simp: rotate_start_def Let_def split: if_splits)

lemma rotate_start_Some:
  assumes "rotate_start t (tp, bt) delta d a b = Some a'" "t \<noteq> Block" "0 \<le> delta \<or> bt \<le> bottommost_line d"
    and "bt \<le> bottommost_line d + 1" "tp \<le> lp" "lp < bt" "tp \<le> lp - delta" "lp - delta < bt"
  shows "a_point a' \<le> Point (lp - delta) cp \<longleftrightarrow> a_point a \<le> Point lp cp"
    and "a' = a \<and> \<not> ((tp \<le> line (a_point a) \<or> tp = 0) \<and> line (a_point a) < bt) \<or>
      (tp \<le> line (a_point a) \<or> tp = 0) \<and> line (a_point a) < bt \<and>
      (bt \<le> line (a_point a') \<and> bt \<le> line (a_point b) \<or>
       line (a_point a') < bt \<and> (a_point a' = Point (line (a_point a) - delta) (column (a_point a)) \<or>
         a_point a' = Point tp 0 \<and> line (a_point a) - delta < tp))"
proof -
  consider (out) "\<not> ((tp \<le> line (a_point a) \<or> tp = 0) \<and> line (a_point a) < bt)" "a' = a"
    | (over) "bottommost_line d < line (a_point a) - delta" "(tp \<le> line (a_point a) \<or> tp = 0) \<and> line (a_point a) < bt"
    | (exact) "line (a_point a) - delta \<le> bottommost_line d" "(tp \<le> line (a_point a) \<or> tp = 0) \<and> line (a_point a) < bt"
    using assms(1) by (fastforce simp: rotate_start_def split: if_splits)
  then have "(a_point a' \<le> Point (lp - delta) cp \<longleftrightarrow> a_point a \<le> Point lp cp) \<and>
    (a' = a \<and> \<not> ((tp \<le> line (a_point a) \<or> tp = 0) \<and> line (a_point a) < bt) \<or>
      (tp \<le> line (a_point a) \<or> tp = 0) \<and> line (a_point a) < bt \<and>
      (bt \<le> line (a_point a') \<and> bt \<le> line (a_point b) \<or>
       line (a_point a') < bt \<and> (a_point a' = Point (line (a_point a) - delta) (column (a_point a)) \<or>
         a_point a' = Point tp 0 \<and> line (a_point a) - delta < tp)))"
  proof cases
    case out
    then show ?thesis using assms(5-8) by (auto simp: less_eq_point_def)
  next
    case over
    then have l: "min (line (a_point a) - delta) (bottommost_line d) = bottommost_line d" by simp
    show ?thesis
      using assms over l by (auto simp: rotate_start_def Let_def less_eq_point_def split: if_splits)
  next
    case exact
    then have l: "min (line (a_point a) - delta) (bottommost_line d) = line (a_point a) - delta" by simp
    show ?thesis
      using assms exact l by (auto simp: rotate_start_def Let_def less_eq_point_def split: if_splits)
  qed
  then show "a_point a' \<le> Point (lp - delta) cp \<longleftrightarrow> a_point a \<le> Point lp cp"
    and "a' = a \<and> \<not> ((tp \<le> line (a_point a) \<or> tp = 0) \<and> line (a_point a) < bt) \<or>
      (tp \<le> line (a_point a) \<or> tp = 0) \<and> line (a_point a) < bt \<and>
      (bt \<le> line (a_point a') \<and> bt \<le> line (a_point b) \<or>
       line (a_point a') < bt \<and> (a_point a' = Point (line (a_point a) - delta) (column (a_point a)) \<or>
         a_point a' = Point tp 0 \<and> line (a_point a) - delta < tp))"
    by blast+
qed

lemma rotate_end_None:
  assumes "rotate_end t (tp, bt) delta d a b = None" "bt \<le> bottommost_line d + 1"
    "lp - delta < bt" "line (a_point a) \<le> lp - delta"
  shows "line (a_point b) < lp"
  using assms by (auto simp: rotate_end_def Let_def split: if_splits)

lemma rotate_end_Some:
  assumes "rotate_end t (tp, bt) delta d a b = Some b'" "t \<noteq> Block" "0 \<le> delta \<or> bt \<le> bottommost_line d"
    and "bt \<le> bottommost_line d + 1" "tp \<le> lp" "lp < bt" "tp \<le> lp - delta" "lp - delta < bt" "cp \<le> last_column d"
  shows "Point (lp - delta) cp \<le> a_point b' \<longleftrightarrow> Point lp cp \<le> a_point b"
    and "b' = b \<and> \<not> ((tp \<le> line (a_point b) \<or> tp = 0) \<and> line (a_point b) < bt) \<or>
      (tp \<le> line (a_point b) \<or> tp = 0) \<and> line (a_point b) < bt \<and> line (a_point a) \<le> line (a_point b) - delta \<and>
      (a_point b' = Point (line (a_point b) - delta) (column (a_point b)) \<or>
       a_point b' = Point (bt - 1) (last_column d) \<and> bt \<le> line (a_point b) - delta)"
proof -
  consider (out) "\<not> ((tp \<le> line (a_point b) \<or> tp = 0) \<and> line (a_point b) < bt)" "b' = b"
    | (over) "bottommost_line d < line (a_point b) - delta" "(tp \<le> line (a_point b) \<or> tp = 0) \<and> line (a_point b) < bt"
    | (exact) "line (a_point b) - delta \<le> bottommost_line d" "(tp \<le> line (a_point b) \<or> tp = 0) \<and> line (a_point b) < bt"
    using assms(1) by (fastforce simp: rotate_end_def split: if_splits)
  then have "(Point (lp - delta) cp \<le> a_point b' \<longleftrightarrow> Point lp cp \<le> a_point b) \<and>
    (b' = b \<and> \<not> ((tp \<le> line (a_point b) \<or> tp = 0) \<and> line (a_point b) < bt) \<or>
      (tp \<le> line (a_point b) \<or> tp = 0) \<and> line (a_point b) < bt \<and> line (a_point a) \<le> line (a_point b) - delta \<and>
      (a_point b' = Point (line (a_point b) - delta) (column (a_point b)) \<or>
       a_point b' = Point (bt - 1) (last_column d) \<and> bt \<le> line (a_point b) - delta))"
  proof cases
    case out
    then show ?thesis using assms(5-8) by (auto simp: less_eq_point_def)
  next
    case over
    then have l: "min (line (a_point b) - delta) (bottommost_line d) = bottommost_line d" by simp
    show ?thesis
      using assms over l by (auto simp: rotate_end_def Let_def less_eq_point_def split: if_splits)
  next
    case exact
    then have l: "min (line (a_point b) - delta) (bottommost_line d) = line (a_point b) - delta" by simp
    show ?thesis
      using assms exact l by (auto simp: rotate_end_def Let_def less_eq_point_def split: if_splits)
  qed
  then show "Point (lp - delta) cp \<le> a_point b' \<longleftrightarrow> Point lp cp \<le> a_point b"
    and "b' = b \<and> \<not> ((tp \<le> line (a_point b) \<or> tp = 0) \<and> line (a_point b) < bt) \<or>
      (tp \<le> line (a_point b) \<or> tp = 0) \<and> line (a_point b) < bt \<and> line (a_point a) \<le> line (a_point b) - delta \<and>
      (a_point b' = Point (line (a_point b) - delta) (column (a_point b)) \<or>
       a_point b' = Point (bt - 1) (last_column d) \<and> bt \<le> line (a_point b) - delta)"
    by blast+
qed

lemma rotate_covers:
  assumes t: "ty s \<noteq> Block" and region: "0 \<le> tp" "bt \<le> bottommost_line d + 1"
    and room: "0 \<le> delta \<or> bt \<le> bottommost_line d"
    and p: "tp \<le> lp" "lp < bt" "tp \<le> lp - delta" "lp - delta < bt" "cp \<le> last_column d"
    and cols: "column (a_point (fst (ordered s))) \<le> last_column d"
  shows "covers s (Point lp cp) \<longleftrightarrow>
    (case rotate_selection d (tp, bt) delta s of
       None \<Rightarrow> False | Some s' \<Rightarrow> covers s' (Point (lp - delta) cp))"
proof -
  obtain a b where ab: "ordered s = (a, b)" by fastforce
  have le: "a_point a \<le> a_point b" using ordered_le [of s] ab by simp
  let ?p = "Point lp cp" and ?q = "Point (lp - delta) cp"
  have cov: "covers s ?p \<longleftrightarrow> a_point a \<le> ?p \<and> ?p \<le> a_point b" using ab by (simp add: covers_def)
  show ?thesis
  proof (cases "rotate_start (ty s) (tp, bt) delta d a b")
    case None
    then show ?thesis
      using rotate_start_None [OF None] p ab by (auto simp: rotate_selection_def cov less_eq_point_def)
  next
    case (Some a')
    note A = rotate_start_Some [OF Some t room region(2) p(1-4)]
    show ?thesis
    proof (cases "rotate_end (ty s) (tp, bt) delta d a' b")
      case None
      have "\<not> covers s ?p"
        using A(1) [of cp] rotate_end_None [OF None region(2) p(4)] by (auto simp: cov less_eq_point_def)
      then show ?thesis using None Some ab by (simp add: rotate_selection_def)
    next
      case end': (Some b')
      note B = rotate_end_Some [OF end' t room region(2) p(1-4)]
      have "a_point a' \<le> ?q \<and> ?q \<le> a_point b' \<longleftrightarrow>
          min (a_point a') (a_point b') \<le> ?q \<and> ?q \<le> max (a_point a') (a_point b')"
      proof (cases "a_point a' \<le> a_point b'")
        case False
        then have inv: "a_point b' < a_point a'" by simp
        have "\<not> (a_point b' \<le> ?q \<and> ?q \<le> a_point a')"
        proof
          assume q: "a_point b' \<le> ?q \<and> ?q \<le> a_point a'"
          have lines: "line (a_point a) \<le> line (a_point b)" using le by (auto simp: less_eq_point_def)
          have qb: "line (a_point b') \<le> lp - delta" "lp - delta \<le> line (a_point a')"
            using q by (auto simp: less_eq_point_def)
          consider (end_out) "b' = b" "\<not> ((tp \<le> line (a_point b) \<or> tp = 0) \<and> line (a_point b) < bt)"
            | (end_shifted) "line (a_point a') \<le> line (a_point b) - delta"
                "a_point b' = Point (line (a_point b) - delta) (column (a_point b))"
            | (end_clamped) "a_point b' = Point (bt - 1) (last_column d)"
            using B(2) [OF p(5)] by metis
          note B' = this
          consider (outside) "a' = a" "\<not> ((tp \<le> line (a_point a) \<or> tp = 0) \<and> line (a_point a) < bt)"
            | (beyond) "bt \<le> line (a_point b)"
            | (shifted) "(tp \<le> line (a_point a) \<or> tp = 0)" "line (a_point a') < bt"
                "a_point a' = Point (line (a_point a) - delta) (column (a_point a))"
            | (clamped) "(tp \<le> line (a_point a) \<or> tp = 0)" "a_point a' = Point tp 0"
            using A(2) by (elim disjE conjE) metis+
          then show False
          proof cases
            case outside
            then have "bt \<le> line (a_point a)" using qb(2) p(3) by (simp add: not_less not_le)
            then have "b' = b" using B(2) [OF p(5)] lines by linarith
            then show ?thesis using inv le outside(1) by simp
          next
            case beyond
            then have "b' = b" using B(2) [OF p(5)] by linarith
            then show ?thesis using beyond qb(1) p(4) by simp
          next
            case shifted
            from B' show ?thesis
            proof cases
              case end_out
              then show ?thesis using shifted(1) lines qb(1) p(4) by auto
            next
              case end_shifted
              show ?thesis using inv le unfolding shifted(3) end_shifted(2) less_point_def less_eq_point_def point.sel by linarith
            next
              case end_clamped
              have "line (a_point a) - delta < bt" "column (a_point a) \<le> last_column d"
                using shifted(2,3) cols ab by simp_all
              then show ?thesis using inv unfolding shifted(3) end_clamped less_point_def point.sel by linarith
            qed
          next
            case clamped
            from B' show ?thesis
            proof cases
              case end_out
              then show ?thesis using clamped(1) lines qb(1) p(4) by auto
            next
              case end_shifted
              then show ?thesis using inv unfolding clamped(2) less_point_def by simp
            next
              case end_clamped
              then show ?thesis using inv p(1,2) unfolding clamped(2) less_point_def by simp
            qed
          qed
        qed
        then show ?thesis using False by (auto simp: min_def max_def)
      qed (simp add: min_def max_def)
      then show ?thesis
        using A(1) [of cp] B(1) [OF p(5)] end' Some ab by (simp add: rotate_selection_def cov covers_reordered)
    qed
  qed
qed

section \<open>The cells a selection stands for\<close>

text \<open>The edge of a cell an anchor is at, counted in cells in reading order.\<close>

definition edge :: "dims \<Rightarrow> anchor \<Rightarrow> int" where
  "edge d a = pos d (a_point a) + (if a_side a = DRight then 1 else 0)"

text \<open>From the right half of the last cell of a line to the left half of the first cell of the next.\<close>

definition across_lines :: "dims \<Rightarrow> anchor \<Rightarrow> anchor \<Rightarrow> bool" where
  "across_lines d a b \<longleftrightarrow> a_side a = DRight \<and> a_side b = DLeft \<and> column (a_point a) = last_column d \<and>
     column (a_point b) = 0 \<and> line (a_point b) = line (a_point a) + 1"

definition fully_between :: "dims \<Rightarrow> anchor \<Rightarrow> anchor \<Rightarrow> point \<Rightarrow> bool" where
  "fully_between d a b p \<longleftrightarrow> min (edge d a) (edge d b) \<le> pos d p \<and> pos d p + 1 \<le> max (edge d a) (edge d b)"

lemma pos_prev:
  assumes "column p < columns d"
  shows "pos d (if column p = 0 then Point (line p - 1) (columns d - 1) else Point (line p) (column p - 1)) = pos d p - 1"
  using assms by (auto simp: pos_def algebra_simps of_nat_diff)

lemma pos_next:
  assumes "column p < columns d"
  shows "pos d (if column p + 1 = columns d then Point (line p + 1) 0 else Point (line p) (column p + 1)) = pos d p + 1"
  using assms by (auto simp: pos_def algebra_simps)

lemma range_of_edges:
  fixes p q x :: int
  assumes "p \<le> q" "\<not> (u = v \<and> p = q)" "\<not> (u = DRight \<and> v = DLeft \<and> q = p + 1)"
  shows "(let q' = (if v = DLeft \<and> p \<noteq> q then q - 1 else q); p' = (if u = DRight \<and> p \<noteq> q' then p + 1 else p)
      in p' \<le> x \<and> x \<le> q') \<longleftrightarrow>
    min (p + (if u = DRight then 1 else 0)) (q + (if v = DRight then 1 else 0)) \<le> x \<and>
    x + 1 \<le> max (p + (if u = DRight then 1 else 0)) (q + (if v = DRight then 1 else 0))"
  using assms by (cases u; cases v; cases "p = q") (auto simp: min_def max_def)

lemma range_simple_covered:
  assumes s: "ty s = Simple" "ordered s = (a, b)"
    and cols: "column (a_point a) < columns d" "column (a_point b) < columns d" "column p < columns d"
    and line_end: "\<not> across_lines d a b"
  shows "(case range_simple s a b (columns d) of None \<Rightarrow> False | Some r \<Rightarrow> range_contains r p) \<longleftrightarrow> fully_between d a b p"
proof -
  have le: "a_point a \<le> a_point b" using ordered_le [of s] s by simp
  then have pos_ab: "pos d (a_point a) \<le> pos d (a_point b)" using pos_le_iff cols by blast
  show ?thesis
  proof (cases "selection_is_empty s")
    case True
    then have "edge d a = edge d b"
      using s by (auto simp: selection_is_empty_def edge_def pos_def split: if_splits)
    then show ?thesis using True by (simp add: range_simple_def fully_between_def)
  next
    case False
    define q where "q = (if a_side b = DLeft \<and> a_point a \<noteq> a_point b
      then if column (a_point b) = 0 then Point (line (a_point b) - 1) (columns d - 1)
           else Point (line (a_point b)) (column (a_point b) - 1)
      else a_point b)"
    define p' where "p' = (if a_side a = DRight \<and> a_point a \<noteq> q
      then if column (a_point a) + 1 = columns d then Point (line (a_point a) + 1) 0
           else Point (line (a_point a)) (column (a_point a) + 1)
      else a_point a)"
    have r: "range_simple s a b (columns d) = Some \<lparr>r_start = p', r_end = q, is_block = False\<rparr>"
      using False by (simp add: range_simple_def Let_def q_def p'_def)
    have qc: "column q < columns d" and pc: "column p' < columns d" using cols by (auto simp: q_def p'_def)
    have pq: "pos d q = (if a_side b = DLeft \<and> a_point a \<noteq> a_point b then pos d (a_point b) - 1 else pos d (a_point b))"
      using pos_prev [OF cols(2)] by (auto simp: q_def)
    have pp: "pos d p' = (if a_side a = DRight \<and> a_point a \<noteq> q then pos d (a_point a) + 1 else pos d (a_point a))"
      using pos_next [OF cols(1)] by (auto simp: p'_def)
    have same: "a_point a = q \<longleftrightarrow> pos d (a_point a) = pos d q"
      using pos_inj [OF cols(1) qc] by auto
    have eq: "a_point a = a_point b \<longleftrightarrow> pos d (a_point a) = pos d (a_point b)"
      using pos_inj [OF cols(1,2)] by auto
    have contains: "range_contains \<lparr>r_start = p', r_end = q, is_block = False\<rparr> p \<longleftrightarrow> pos d p' \<le> pos d p \<and> pos d p \<le> pos d q"
      unfolding range_contains_reading using pos_le_iff [OF pc cols(3)] pos_le_iff [OF cols(3) qc] by simp
    have nonempty: "\<not> (a_side a = a_side b \<and> a_point a = a_point b)"
      using False s by (auto simp: selection_is_empty_def)
    have adjacent: "\<not> (a_side a = DRight \<and> a_side b = DLeft \<and> pos d (a_point b) = pos d (a_point a) + 1)"
    proof
      assume adj: "a_side a = DRight \<and> a_side b = DLeft \<and> pos d (a_point b) = pos d (a_point a) + 1"
      then have "a_point b = (if column (a_point a) + 1 = columns d then Point (line (a_point a) + 1) 0
          else Point (line (a_point a)) (column (a_point a) + 1))"
        using pos_next [OF cols(1)] cols by (intro pos_inj [of _ d]) auto
      then show False
        using adj line_end False s by (auto simp: across_lines_def last_column_def selection_is_empty_def split: if_splits)
    qed
    show ?thesis
      unfolding r option.case contains fully_between_def edge_def pp pq
      unfolding eq same pq
      by (rule range_of_edges [OF pos_ab nonempty [unfolded eq] adjacent, unfolded Let_def])
  qed
qed

section \<open>Properties of selections\<close>


definition screen_24 :: dims where
  "screen_24 = \<lparr>total_lines = 24, screen_lines = 24, columns = 80\<rparr>"

definition words_on_line :: "int \<Rightarrow> selection" where
  "words_on_line l = \<lparr>ty = Simple, s_from = \<lparr>a_point = Point l 2, a_side = DLeft\<rparr>,
     s_to = \<lparr>a_point = Point l 5, a_side = DRight\<rparr>\<rparr>"


text \<open>Scrolling a region down that ends at the last line does not drop what is scrolled off it.\<close>


theorem simple_range_covered:
  assumes "ty s = Simple" "ordered s = (a, b)" "column (a_point a) < columns d" "column (a_point b) < columns d"
    "column p < columns d" "\<not> across_lines d a b"
  shows "(case range_simple s a b (columns d) of None \<Rightarrow> False | Some r \<Rightarrow> range_contains r p) \<longleftrightarrow> fully_between d a b p"
  by (rule range_simple_covered [OF assms])

theorem simple_range_covered_witness:
  "\<exists>r. range_simple (words_on_line 7) (s_from (words_on_line 7)) (s_to (words_on_line 7)) 80 = Some r \<and>
     range_contains r (Point 7 5) \<and> \<not> range_contains r (Point 7 6)"
proof -
  let ?s = "words_on_line 7"
  have o: "ordered ?s = (s_from ?s, s_to ?s)" by (simp add: ordered_def words_on_line_def less_point_def)
  show ?thesis
    using simple_range_covered [of ?s _ _ screen_24 "Point 7 5", OF _ o] simple_range_covered [of ?s _ _ screen_24 "Point 7 6", OF _ o]
    by (auto simp: words_on_line_def screen_24_def across_lines_def fully_between_def edge_def pos_def last_column_def
        split: option.splits)
qed

theorem across_lines_selects_a_cell:
  "let a = \<lparr>a_point = Point 0 79, a_side = DRight\<rparr>; b = \<lparr>a_point = Point 1 0, a_side = DLeft\<rparr>;
       s = \<lparr>ty = Simple, s_from = a, s_to = b\<rparr>
   in range_simple s a b 80 = Some \<lparr>r_start = Point 0 79, r_end = Point 0 79, is_block = False\<rparr> \<and>
      \<not> fully_between screen_24 a b (Point 0 79)"
  by (simp add: range_simple_def selection_is_empty_def ordered_def less_point_def fully_between_def edge_def pos_def
      screen_24_def Let_def)

end
