(* ===== verification/Utf.thy ===== *)
theory Utf
  imports Fill Text
begin

text \<open>
  Text and bytes: \<open>String::from_utf8\<close>, and the numbers that \<open>str::parse\<close> reads.
\<close>

lemma utf8_ne [simp]: "utf8 c \<noteq> []"
  by (simp add: utf8_def)

lemma is_scalar_byte: "is_scalar (ucast (b :: 8 word))"
proof -
  have "unat b < 2 ^ LENGTH(8)" by (rule unsigned_less)
  then have "unat (ucast b :: uchar) < 2 ^ LENGTH(8)"
    by (simp add: unsigned_ucast_eq take_bit_nat_eq_self)
  then show ?thesis by (simp add: is_scalar_def word_less_nat_alt)
qed

lemma utf8_byte: "b < 0x80 \<Longrightarrow> utf8 (ucast (b :: byte)) = [b]"
proof -
  assume b: "b < 0x80"
  then have "(ucast b :: uchar) < 0x80" by (simp add: word_less_nat_alt unsigned_ucast_eq take_bit_nat_eq_self)
  moreover have "ucast (ucast b :: uchar) = b" by (simp add: ucast_up_ucast_id is_up)
  ultimately show ?thesis by (simp add: utf8_def)
qed

text \<open>
  The characters whose encoding the bytes are. A character has a byte at least, so the number of bytes
  bounds the number of characters.
\<close>

primrec utf8_prefix :: "nat \<Rightarrow> byte list \<Rightarrow> uchar list option" where
  "utf8_prefix 0 bytes = (if bytes = [] then Some [] else None)"
| "utf8_prefix (Suc n) bytes =
     (if bytes = [] then Some []
      else case next_char bytes of None \<Rightarrow> None
      | Some (c, rest) \<Rightarrow>
          if is_scalar c \<and> utf8 c @ rest = bytes then map_option ((#) c) (utf8_prefix n rest) else None)"

definition from_utf8 :: "byte list \<Rightarrow> uchar list option" where
  "from_utf8 bytes = utf8_prefix (length bytes) bytes"

lemma from_utf8_text: "list_all is_scalar cs \<Longrightarrow> from_utf8 (text_of cs) = Some cs"
proof -
  have "utf8_prefix n (text_of cs) = Some cs" if "list_all is_scalar cs" "length cs \<le> n" for n
    using that
  proof (induction cs arbitrary: n)
    case Nil
    then show ?case by (cases n) simp_all
  next
    case (Cons c cs)
    have "text_of (c # cs) \<noteq> []" by (simp add: utf8_def)
    then show ?case using Cons by (cases n) (simp_all add: next_char_utf8)
  qed
  moreover have "length cs \<le> length (text_of cs)" by (induction cs) (simp_all add: utf8_def)
  ultimately show "list_all is_scalar cs \<Longrightarrow> ?thesis" by (simp add: from_utf8_def)
qed

lemma utf8_prefix_sound: "utf8_prefix n bytes = Some cs \<Longrightarrow> list_all is_scalar cs \<and> text_of cs = bytes"
  by (induction n arbitrary: bytes cs) (auto split: if_splits option.splits)

lemma from_utf8_iff: "from_utf8 bytes = Some cs \<longleftrightarrow> list_all is_scalar cs \<and> text_of cs = bytes"
  using utf8_prefix_sound from_utf8_text by (fastforce simp: from_utf8_def)

text \<open>
  \<open>str::parse\<close> of an integer type with the given bounds: a sign, digits, at least one of them. A minus is
  only taken for signed types.
\<close>

definition parse_int :: "int \<Rightarrow> int \<Rightarrow> byte list \<Rightarrow> int option" where
  "parse_int lo hi bytes =
     (let (neg, ds) = (case bytes of [] \<Rightarrow> (False, [])
        | b # bs \<Rightarrow> if b = 0x2B then (False, bs) else if b = 0x2D \<and> lo < 0 then (True, bs) else (False, bytes))
      in if ds = [] then None
         else do { n \<leftarrow> digits 0 ds;
                   let v = (if neg then - int n else int n);
                   if lo \<le> v \<and> v \<le> hi then Some v else None })"

lemma parse_int_range: "parse_int lo hi bytes = Some v \<Longrightarrow> lo \<le> v \<and> v \<le> hi"
  by (auto simp: parse_int_def Let_def bind_eq_Some_conv split: prod.splits if_splits)

end
