(* ===== verification/Screen.thy ===== *)
theory Screen
  imports Grid Utf
begin

text \<open>
  The two grids of a terminal as its handlers use them, \<open>src/terminal/term/mod.rs\<close>: grids of packed
  cells whose style ids are in the table of styles, with a cursor on the screen. Every operation of
  the grid the handlers call is shown to keep this, in the hidden rows of the ring buffer too, which
  a sweep of the style table visits.
\<close>

section \<open>Where cells come from\<close>

definition all_cells :: "('c \<Rightarrow> bool) \<Rightarrow> 'c storage \<Rightarrow> bool" where
  "all_cells P s \<longleftrightarrow> (\<forall>r \<in> set (rows s). \<forall>c \<in> set (inner r). P c)"

text \<open>The cells of a grid and the blank cells it is cleared with.\<close>

definition cells_from :: "'c cell_ops \<Rightarrow> ('c \<Rightarrow> bool) \<Rightarrow> 'c grid \<Rightarrow> bool" where
  "cells_from G P g \<longleftrightarrow> all_cells P (raw g) \<and> P (gc_default G) \<and> (\<forall>c. P (gc_reset G c (c_erase (cursor g))))"

lemma all_cells_subset: "all_cells P s \<Longrightarrow> set (rows s') \<subseteq> set (rows s) \<Longrightarrow> all_cells P s'"
  by (auto simp: all_cells_def)

lemma swap_cells: "storage_swap a b s = Some s' \<Longrightarrow> all_cells P s \<Longrightarrow> all_cells P s'"
  by (auto simp: storage_swap_def swap_at_def bind_eq_Some_conv all_cells_def in_set_conv_nth nth_list_update
      split: if_splits)

lemma modify_cells:
  assumes "storage_modify f l s = Some s'" "all_cells P s"
    and "\<And>r r'. f r = Some r' \<Longrightarrow> \<forall>c \<in> set (inner r). P c \<Longrightarrow> \<forall>c \<in> set (inner r'). P c"
  shows "all_cells P s'"
proof -
  obtain i r' where i: "i < length (rows s)" "f (rows s ! i) = Some r'" "s' = s\<lparr>rows := (rows s)[i := r']\<rparr>"
    using assms(1) by (auto simp: storage_modify_def idx_def upd_def bind_eq_Some_conv split: if_splits)
  have "\<forall>c \<in> set (inner r'). P c"
    using assms(3) [OF i(2)] assms(2) i(1) nth_mem unfolding all_cells_def by blast
  then show ?thesis
    using assms(2) i(3) set_update_subset_insert [of "rows s" i r'] by (auto simp: all_cells_def)
qed

lemma row_reset_cells:
  "row_reset G t r = Some r' \<Longrightarrow> \<forall>c \<in> set (inner r). P c \<Longrightarrow> \<forall>c. P (gc_reset G c t) \<Longrightarrow> \<forall>c \<in> set (inner r'). P c"
  by (auto simp: row_reset_def Let_def bind_eq_Some_conv split: if_splits dest!: in_set_dropD)

lemma on_raw_cells:
  assumes "on_raw f g = Some g'" "cells_from G P g"
    and "\<And>s. f (raw g) = Some s \<Longrightarrow> all_cells P (raw g) \<Longrightarrow> all_cells P s"
  shows "cells_from G P g'"
  using assms by (auto simp: on_raw_def cells_from_def bind_eq_Some_conv)

lemma swaps_cells:
  "on_raw (for_each (\<lambda>i. storage_swap (a i) (b i)) ls) g = Some g' \<Longrightarrow> cells_from G P g \<Longrightarrow> cells_from G P g'"
  by (erule (1) on_raw_cells) (erule (1) for_each_keeps, erule (1) swap_cells)

lemma reset_lines_cells:
  "reset_lines G ls g = Some g' \<Longrightarrow> cells_from G P g \<Longrightarrow> cells_from G P g'"
  unfolding reset_lines_def
  by (erule (1) on_raw_cells)
    (erule (1) for_each_keeps, erule (1) modify_cells, erule (1) row_reset_cells, simp add: cells_from_def)

lemma rotate_cells:
  "storage_rotate n s = Some s' \<Longrightarrow> all_cells P s \<Longrightarrow> all_cells P s'"
  "rotate_down k s = Some s' \<Longrightarrow> all_cells P s \<Longrightarrow> all_cells P s'"
  by (auto simp: storage_rotate_def rotate_down_def all_cells_def Let_def bind_eq_Some_conv split: if_splits)

lemma set_rows_truncate: "set (rows (storage_truncate s)) \<subseteq> set (rows s)"
  by (auto simp: storage_truncate_def rezero_def Let_def dest: in_set_takeD)

lemma shrink_cells: "shrink_lines n s = Some s' \<Longrightarrow> all_cells P s \<Longrightarrow> all_cells P s'"
  using set_rows_truncate [of "s\<lparr>len := m\<rparr>" for m]
  by (fastforce simp: shrink_lines_def Let_def bind_eq_Some_conv all_cells_def split: if_splits)

lemma initialize_cells:
  "storage_initialize G n cols s = Some s' \<Longrightarrow> all_cells P s \<Longrightarrow> P (gc_default G) \<Longrightarrow> all_cells P s'"
  by (auto simp: storage_initialize_def row_new_def rezero_def Let_def bind_eq_Some_conv all_cells_def split: if_splits)

lemma scroll_up_cells:
  assumes "scroll_up_resetting G (start, stop) p n g = Some g'" "cells_from G P g"
  shows "cells_from G P g'"
proof -
  have init: "cells_from G P h'" if "increase_scroll_limit G p h = Some h'" "cells_from G P h" for h h'
    using that by (auto simp: increase_scroll_limit_def Let_def bind_eq_Some_conv cells_from_def split: if_splits
        elim!: on_raw_cells dest!: on_raw_cells [where G = G and P = P]
        intro: initialize_cells simp: cells_from_def)
  have rot: "cells_from G P h'" if "on_raw (storage_rotate k) h = Some h'" "cells_from G P h" for h h' k
    using that by (rule on_raw_cells) (rule rotate_cells(1))
  have off: "cells_from G P (h\<lparr>display_offset := d\<rparr>) \<longleftrightarrow> cells_from G P h" for h d by (simp add: cells_from_def)
  show ?thesis
    using assms
    by (auto simp: scroll_up_resetting_def Let_def bind_eq_Some_conv off split: if_splits
        elim!: reset_lines_cells swaps_cells rot init)
qed

lemma scroll_down_cells:
  assumes "scroll_down G (start, stop) p g = Some g'" "cells_from G P g"
  shows "cells_from G P g'"
proof -
  have rot: "cells_from G P h'" if "on_raw (rotate_down k) h = Some h'" "cells_from G P h" for h h' k
    using that by (rule on_raw_cells) (rule rotate_cells(2))
  show ?thesis
    using assms
    by (auto simp: scroll_down_def bind_eq_Some_conv split: if_splits elim!: reset_lines_cells swaps_cells rot)
qed

lemma reset_region_cells: "reset_region G a b g = Some g' \<Longrightarrow> cells_from G P g \<Longrightarrow> cells_from G P g'"
  by (auto simp: reset_region_def Let_def split: if_splits elim: reset_lines_cells)

lemma clear_viewport_cells: "clear_viewport G g = Some (n, g') \<Longrightarrow> cells_from G P g \<Longrightarrow> cells_from G P g'"
  by (auto simp: clear_viewport_def scroll_up_def Let_def bind_eq_Some_conv split: if_splits
      elim!: reset_lines_cells scroll_up_cells)

lemma clear_history_cells: "clear_history g = Some g' \<Longrightarrow> cells_from G P g \<Longrightarrow> cells_from G P g'"
  using set_rows_truncate
  by (fastforce simp: clear_history_def bind_eq_Some_conv cells_from_def all_cells_def
      dest: shrink_cells [where P = P, unfolded all_cells_def])

lemma grid_reset_cells:
  assumes "grid_reset G g = Some g'" "cells_from G P g" "\<forall>c. P (gc_reset G c (gc_default G))"
  shows "cells_from G P g'"
proof -
  obtain g1 where g1: "clear_history g = Some g1" "reset_lines G (irange (topmost_line
      (grid_dims (g1\<lparr>saved_cursor := default_cursor G, cursor := default_cursor G, display_offset := 0\<rparr>)))
      (int (g_lines g1))) (g1\<lparr>saved_cursor := default_cursor G, cursor := default_cursor G, display_offset := 0\<rparr>) = Some g'"
    using assms(1) by (auto simp: grid_reset_def bind_eq_Some_conv Let_def)
  have "cells_from G P (g1\<lparr>saved_cursor := default_cursor G, cursor := default_cursor G, display_offset := 0\<rparr>)"
    using clear_history_cells [OF g1(1) assms(2)] assms(3) by (simp add: cells_from_def default_cursor_def)
  then show ?thesis by (rule reset_lines_cells [OF g1(2)])
qed

section \<open>Cells that keep to the table and to their row\<close>

lemma parts_write:
  "is_scalar c \<Longrightarrow> style_id_ok i \<Longrightarrow> layout_ok f \<Longrightarrow>
    cell_c (cell_write c i f) = c \<and> cell_style (cell_write c i f) = i \<and> extra_of (cell_write c i f) = extra_none \<and>
    cell_layout (cell_write c i f) = f"
  by (simp add: unpack_sel unpack_write)

lemma parts_reset [simp]:
  "cell_style (cell_reset c t) = cell_style t" "extra_of (cell_reset c t) = extra_none"
  by (simp_all add: unpack_sel unpack_reset)

lemma parts_default [simp]: "cell_style default_cell = 0" "extra_of default_cell = extra_none"
  by (simp_all add: unpack_sel unpack_default)

definition valid_cell :: "nat \<Rightarrow> cell \<Rightarrow> bool" where
  "valid_cell n c \<longleftrightarrow> style_index (cell_style c) < n"

definition plain_cell :: "nat \<Rightarrow> cell \<Rightarrow> bool" where
  "plain_cell n c \<longleftrightarrow> valid_cell n c \<and> extra_of c = extra_none"

text \<open>An edit that keeps a style in the table and does not invent extra content.\<close>

definition tame_edit :: "nat \<Rightarrow> (cell \<Rightarrow> cell) \<Rightarrow> bool" where
  "tame_edit n f \<longleftrightarrow> (\<forall>c. valid_cell n c \<longrightarrow>
     valid_cell n (f c) \<and> (extra_of (f c) = extra_of c \<or> extra_of (f c) = extra_none))"

named_theorems tame \<open>edits of a cell that keep to the table of styles and to the row's extra content\<close>

lemma tame_edits [tame]:
  "is_scalar c \<Longrightarrow> tame_edit n (\<lambda>w. set_c w c)"
  "layout_ok f \<Longrightarrow> tame_edit n (\<lambda>w. insert_layout w f)"
  "tame_edit n (\<lambda>w. remove_layout w g)"
  "tame_edit n clear_wide"
  "plain_cell n b \<Longrightarrow> tame_edit n (\<lambda>_. b)"
  by (simp_all add: tame_edit_def valid_cell_def plain_cell_def unpack_sel unpack_set_c unpack_insert_layout
      unpack_remove_layout unpack_clear_wide uc_insert_layout_def uc_remove_layout_def)

lemma plain_write: "valid_cell n t \<Longrightarrow> is_scalar c \<Longrightarrow> layout_ok f \<Longrightarrow> plain_cell n (cell_write c (cell_style t) f)"
  using parts_write [OF _ style_id_ok_cell_style, of c f t] by (simp add: plain_cell_def valid_cell_def)

lemma plain_default: "0 < n \<Longrightarrow> plain_cell n default_cell"
  by (simp add: plain_cell_def valid_cell_def style_index_def)

lemma tame_write [tame]:
  "valid_cell n t \<Longrightarrow> is_scalar c \<Longrightarrow> layout_ok f \<Longrightarrow> tame_edit n (\<lambda>_. cell_write c (cell_style t) f)"
  by (simp add: tame_edits plain_write)

text \<open>The slice of a whole row, as \<open>IndexMut<RangeFull>\<close> gives it out.\<close>

definition row_modify_slice :: "('c list \<Rightarrow> 'c list option) \<Rightarrow> 'c row \<Rightarrow> 'c row option" where
  "row_modify_slice f r = do { cs \<leftarrow> f (inner r); Some (r\<lparr>occ := length (inner r), inner := cs\<rparr>) }"

definition row_fine :: "nat \<Rightarrow> nat \<Rightarrow> cell row \<Rightarrow> bool" where
  "row_fine n cols r \<longleftrightarrow> row_ok packed_cell_ops r \<and> length (inner r) = cols \<and> (\<forall>c \<in> set (inner r). valid_cell n c)"

lemma row_fine_modify:
  assumes r: "row_fine n cols r" and col: "col < cols" and f: "tame_edit n f"
  shows "returns (row_modify col f r) (row_fine n cols)"
proof -
  let ?c = "inner r ! col"
  have c: "?c \<in> set (inner r)" using r col by (simp add: row_fine_def)
  then have v: "valid_cell n (f ?c)" "extra_of (f ?c) = extra_of ?c \<or> extra_of (f ?c) = extra_none"
    using f r by (auto simp: tame_edit_def row_fine_def)
  have ok: "row_ok packed_cell_ops r" "col < length (inner r)" using r col by (simp_all add: row_fine_def)
  have "extra_id_ok (extras r) (extra_of ?c)" using ok(1) c by (simp add: row_ok_def)
  then have "extra_id_ok (extras r) (gc_extra packed_cell_ops (f ?c))" using v(2) by auto
  from row_ok_modify [OF ok, of f, OF this] show ?thesis
    by (rule returns_mono)
      (use r v(1) in \<open>auto simp: row_fine_def dest!: set_update_subset_insert [THEN subsetD]\<close>)
qed

text \<open>Replacing the cells of a row by cells it had and plain ones, as if all of it was written to.\<close>

lemma row_fine_replace:
  assumes r: "row_fine n cols r" and cs: "length cs = cols" "\<forall>c \<in> set cs. c \<in> set (inner r) \<or> plain_cell n c"
    and k: "k \<le> cols" "occ r \<le> k" "drop k cs = drop k (inner r)"
  shows "row_fine n cols (r\<lparr>occ := k, inner := cs\<rparr>)"
proof -
  have ok: "row_ok packed_cell_ops r" and len: "length (inner r) = cols" using r by (simp_all add: row_fine_def)
  obtain t where t: "drop (occ r) (inner r) = replicate (cols - occ r) (gc_reset packed_cell_ops t t)"
    using ok len by (auto simp: row_ok_def)
  have "drop k (inner r) = drop (k - occ r) (drop (occ r) (inner r))" using k(2) by simp
  also have "\<dots> = replicate (cols - k) (gc_reset packed_cell_ops t t)" using k(1,2) by (simp add: t)
  finally have "drop k cs = replicate (cols - k) (gc_reset packed_cell_ops t t)" using k(3) by simp
  moreover have "\<forall>c \<in> set cs. extra_id_ok (extras r) (extra_of c)"
    using ok cs(2) by (auto simp: row_ok_def plain_cell_def)
  moreover have "cs \<noteq> []" using cs(1) len ok by (auto simp: row_ok_def)
  ultimately show ?thesis
    using ok cs k(1) r by (auto simp: row_fine_def row_ok_def plain_cell_def)
qed

lemma row_fine_slice:
  assumes r: "row_fine n cols r"
    and f: "returns (f (inner r)) (\<lambda>cs. length cs = cols \<and> (\<forall>c \<in> set cs. c \<in> set (inner r) \<or> plain_cell n c))"
  shows "returns (row_modify_slice f r) (row_fine n cols)"
proof -
  have len: "length (inner r) = cols" "occ r \<le> cols" using r by (auto simp: row_fine_def row_ok_def)
  show ?thesis
    unfolding row_modify_slice_def returns_bind
    by (rule returns_mono [OF f]) (use row_fine_replace [OF r, of _ cols] len in simp)
qed

lemma row_fine_range:
  assumes r: "row_fine n cols r" and range: "start \<le> stop" "stop \<le> cols" and b: "plain_cell n b"
  shows "returns (row_modify_range start stop (map (\<lambda>_. b)) r) (row_fine n cols)"
proof -
  have len: "length (inner r) = cols" "occ r \<le> cols" using r by (auto simp: row_fine_def row_ok_def)
  let ?cs = "take start (inner r) @ map (\<lambda>_. b) (take (stop - start) (drop start (inner r))) @ drop stop (inner r)"
  have "row_fine n cols (r\<lparr>occ := max (occ r) stop, inner := ?cs\<rparr>)"
  proof (rule row_fine_replace [OF r])
    show "length ?cs = cols" using len range by simp
    show "\<forall>c \<in> set ?cs. c \<in> set (inner r) \<or> plain_cell n c" using b by (auto dest: in_set_takeD in_set_dropD)
    have "drop m ?cs = drop m (inner r)" if "stop \<le> m" for m
      using that range len by simp
    then show "drop (max (occ r) stop) ?cs = drop (max (occ r) stop) (inner r)" by simp
  qed (use len range in auto)
  then show ?thesis using len range by (simp add: row_modify_range_def)
qed

lemma row_fine_extra:
  assumes r: "row_fine n cols r" and col: "col < cols" "cols < PACKED_CAPACITY"
  shows "returns (row_update_extra packed_cell_ops col update r) (row_fine n cols)"
proof -
  have ok: "row_ok packed_cell_ops r" and len: "length (inner r) = cols" using r by (simp_all add: row_fine_def)
  have style: "cell_style (set_extra_id w e) = cell_style w" for w e
    by (simp add: unpack_sel unpack_set_extra uc_set_extra_def)
  show ?thesis
  proof (rule returns_mono [OF packed.row_update_extra_spec [OF ok]])
    fix r' assume r': "row_ok packed_cell_ops r' \<and> length (extras r') \<le> extra_limit r' \<and>
      length (inner r') = length (inner r) \<and> (\<forall>i < length (inner r).
        (\<exists>e. inner r' ! i = gc_set_extra packed_cell_ops (inner r ! i) e) \<and>
        extras_get (extras r') (gc_extra packed_cell_ops (inner r' ! i)) =
          (if i = col then let old = the (extras_get (extras r) (gc_extra packed_cell_ops (inner r ! i)));
                  new = update (case old of None \<Rightarrow> empty_extra | Some e \<Rightarrow> e)
              in Some (if extra_is_empty new then None else Some new)
           else extras_get (extras r) (gc_extra packed_cell_ops (inner r ! i))))"
    then have len': "length (inner r') = cols" and ok': "row_ok packed_cell_ops r'" using len by simp_all
    have "valid_cell n c" if mem: "c \<in> set (inner r')" for c
    proof -
      obtain i where i: "i < cols" "c = inner r' ! i" using mem [unfolded in_set_conv_nth len'] by blast
      have all: "\<forall>i < length (inner r). \<exists>e. inner r' ! i = gc_set_extra packed_cell_ops (inner r ! i) e"
        using r' by (elim conjE) (intro allI impI, elim allE impE, assumption, elim conjE)
      then obtain e where "c = set_extra_id (inner r ! i) e" using i len by auto
      then show ?thesis using r i(1) len by (simp add: valid_cell_def style row_fine_def)
    qed
    then show "row_fine n cols r'" using ok' len' by (simp add: row_fine_def)
  qed (use col len in simp_all)
qed

lemma row_fine_blank:
  assumes "1 \<le> cols" "valid_cell n t"
  shows "row_fine n cols (blank_row packed_cell_ops cols t)"
  using packed.row_ok_blank [OF assms(1)] assms(2) by (auto simp: row_fine_def blank_row_def valid_cell_def)

text \<open>What the bulk writers leave: new cells in front, the others as they were.\<close>

definition char_cell :: "uchar list \<Rightarrow> style_id \<Rightarrow> cell \<Rightarrow> bool" where
  "char_cell cs style w \<longleftrightarrow> (\<exists>c f. (c \<in> set cs \<or> c = SPACE) \<and> layout_ok f \<and> w = cell_write c style f)"

lemma char_cell_intros:
  "char_cell (c # cs) style (cell_write c style 0)" "char_cell (c # cs) style (cell_write c style WIDE_CHAR)"
  "char_cell cs style (cell_write SPACE style WIDE_CHAR_SPACER)"
  "char_cell cs style w \<Longrightarrow> char_cell (c # cs) style w"
  unfolding char_cell_def by (metis layout_ok_0 layout_ok_wide list.set_intros)+

lemma char_run_shape:
  assumes "char_run uw fresh width style cells cs = (cells', cs', k)" "width = 1 \<or> width = 2"
  shows "\<exists>new pre. cells' = new @ drop k cells \<and> length new = k \<and> k \<le> length cells \<and> cs = pre @ cs' \<and>
    (k = 0 \<longleftrightarrow> pre = []) \<and>
    (\<forall>w \<in> set new. char_cell cs style w)"
  using assms
proof (induction cs arbitrary: cells cells' k)
  case (Cons c cs)
  show ?case
  proof (cases "width \<le> length cells \<and> char_width uw c = Some width \<and> (fresh \<or> list_all is_simple (take width cells))")
    case True
    obtain rest m where m: "char_run uw fresh width style (drop width cells) cs = (rest, cs', m)" "k = width + m"
      "cells' = (if width = 1 then [cell_write c style 0]
          else [cell_write c style WIDE_CHAR, cell_write SPACE style WIDE_CHAR_SPACER]) @ rest"
      using True Cons.prems(1) by (auto split: prod.splits)
    obtain new pre where IH: "rest = new @ drop m (drop width cells)" "length new = m" "m \<le> length (drop width cells)"
      "cs = pre @ cs'" "\<forall>w \<in> set new. char_cell cs style w"
      using Cons.IH [OF m(1) Cons.prems(2)] by blast
    let ?new = "if width = 1 then [cell_write c style 0]
      else [cell_write c style WIDE_CHAR, cell_write SPACE style WIDE_CHAR_SPACER]"
    have "\<forall>w \<in> set (?new @ new). char_cell (c # cs) style w"
      using IH(5) by (auto intro: char_cell_intros)
    moreover have "cells' = (?new @ new) @ drop k cells" using m(2,3) IH(1) by (simp add: add.commute)
    moreover have "length (?new @ new) = k" "k \<le> length cells" "k \<noteq> 0"
      using IH(2,3) m(2) True Cons.prems(2) by auto
    moreover have "c # cs = (c # pre) @ cs'" using IH(4) by simp
    ultimately show ?thesis by blast
  next
    case False
    then show ?thesis using Cons.prems by (intro exI [of _ "[]"]) auto
  qed
qed simp

lemma row_fine_write:
  assumes r: "row_fine n cols r" and avail: "start + avail \<le> cols"
    and w: "write (take avail (drop start (inner r))) = Some (new @ drop k (take avail (drop start (inner r))), res, k)"
    and new: "length new = k" "k \<le> avail" "\<forall>c \<in> set new. plain_cell n c"
  shows "returns (row_write_prefix start avail write r) (\<lambda>(res', k', r'). res' = res \<and> k' = k \<and> row_fine n cols r')"
proof -
  have ok: "row_ok packed_cell_ops r" and c: "length (inner r) = cols" using r by (simp_all add: row_fine_def)
  have "returns (row_write_prefix start avail write r) (\<lambda>(res', n', r'). res' = res \<and> n' = k \<and>
    row_ok packed_cell_ops r' \<and> extras r' = extras r \<and>
    inner r' = take start (inner r) @ take k (new @ drop k (take avail (drop start (inner r)))) @ drop (start + k) (inner r))"
    by (rule row_ok_write_prefix [of packed_cell_ops r start avail "write", OF ok _ w])
      (use c avail new in \<open>auto simp: plain_cell_def\<close>)
  then show ?thesis
    by (rule returns_mono)
      (use r c avail new in \<open>auto simp: row_fine_def plain_cell_def dest!: in_set_takeD in_set_dropD\<close>)
qed

lemma row_fine_ascii:
  assumes r: "row_fine n cols r" and avail: "start + avail \<le> cols" and t: "valid_cell n t"
  shows "returns (row_write_prefix start avail (ascii_writer False bytes (cell_style t)) r)
    (\<lambda>(_, k, r'). k \<le> avail \<and> k \<le> length bytes \<and> row_fine n cols r')"
proof -
  let ?cells = "take avail (drop start (inner r))"
  let ?k = "ascii_run False ?cells bytes"
  have c: "length (inner r) = cols" using r by (simp add: row_fine_def)
  have le: "?k \<le> avail" "?k \<le> length bytes" using ascii_run_le [of False ?cells bytes] by simp_all
  have plain: "\<forall>c \<in> set (map (\<lambda>b. cell_write (ucast b) (cell_style t) 0) (take ?k bytes)). plain_cell n c"
    using plain_write [OF t is_scalar_byte] by auto
  have w: "ascii_writer False bytes (cell_style t) ?cells =
      Some (map (\<lambda>b. cell_write (ucast b) (cell_style t) 0) (take ?k bytes) @ drop ?k ?cells, (), ?k)"
    by (simp add: ascii_writer_def fill_ascii_run Let_def)
  show ?thesis
    by (rule returns_mono [OF row_fine_write [of n cols r start avail "ascii_writer False bytes (cell_style t)", OF r avail w _ le(1) plain]]) (use le in auto)
qed

lemma row_fine_chars:
  assumes r: "row_fine n cols r" and avail: "start + avail \<le> cols" and t: "valid_cell n t"
    and cs: "list_all is_scalar cs" "width = 1 \<or> width = 2"
  shows "returns (row_write_prefix start avail (chars_writer uw False width (cell_style t) (text_of cs)) r)
    (\<lambda>(rest, k, r'). k \<le> avail \<and> row_fine n cols r' \<and> (\<exists>pre cs'. rest = text_of cs' \<and> cs = pre @ cs' \<and> (k = 0 \<longleftrightarrow> pre = [])))"
proof -
  let ?cells = "take avail (drop start (inner r))"
  have c: "length (inner r) = cols" using r by (simp add: row_fine_def)
  obtain cells' cs' k where run: "char_run uw False width (cell_style t) ?cells cs = (cells', cs', k)"
    by (cases "char_run uw False width (cell_style t) ?cells cs")
  obtain new pre where shape: "cells' = new @ drop k ?cells" "length new = k" "k \<le> length ?cells" "cs = pre @ cs'"
    "k = 0 \<longleftrightarrow> pre = []"
    "\<forall>w \<in> set new. char_cell cs (cell_style t) w"
    using char_run_shape [OF run cs(2)] by blast
  have plain: "\<forall>c \<in> set new. plain_cell n c"
    using shape(6) plain_write [OF t] cs(1) is_scalar_SPACE by (fastforce simp: list_all_iff char_cell_def)
  have w: "chars_writer uw False width (cell_style t) (text_of cs) ?cells = Some (new @ drop k ?cells, text_of cs', k)"
    by (simp add: chars_writer_def fill_chars_run [OF cs(2,1)] run shape(1))
  show ?thesis
    by (rule returns_mono [OF row_fine_write [of n cols r start avail "chars_writer uw False width (cell_style t) (text_of cs)", OF r avail w shape(2) _ plain]]) (use shape c avail in auto)
qed

text \<open>Writing while resetting is resetting first.\<close>

lemma row_fine_recycled:
  assumes r: "row_fine n cols r" and avail: "avail \<le> cols" and cols: "1 \<le> cols" and e: "valid_cell n e" and t: "valid_cell n t"
  shows "returns (row_reset_with_prefix packed_cell_ops e avail (ascii_writer True bytes (cell_style t)) r)
      (\<lambda>(_, k, r'). k \<le> avail \<and> k \<le> length bytes \<and> row_fine n cols r')"
    and "list_all is_scalar cs \<Longrightarrow> width = 1 \<or> width = 2 \<Longrightarrow>
      returns (row_reset_with_prefix packed_cell_ops e avail (chars_writer uw True width (cell_style t) (text_of cs)) r)
        (\<lambda>(rest, k, r'). k \<le> avail \<and> row_fine n cols r' \<and>
          (\<exists>pre cs'. rest = text_of cs' \<and> cs = pre @ cs' \<and> (k = 0 \<longleftrightarrow> pre = [])))"
proof -
  have ok: "row_ok packed_cell_ops r" and c: "length (inner r) = cols" using r by (simp_all add: row_fine_def)
  have l: "avail \<le> length (inner r)" using c avail by simp
  note blank = packed.row_reset_blank [OF ok, of e, unfolded c]
  note fine = row_fine_blank [OF cols e]
  have len0: "0 + avail \<le> cols" using avail by simp
  show "returns (row_reset_with_prefix packed_cell_ops e avail (ascii_writer True bytes (cell_style t)) r)
      (\<lambda>(_, k, r'). k \<le> avail \<and> k \<le> length bytes \<and> row_fine n cols r')"
    unfolding reset_prefix_ascii [OF ok l] blank Option.bind.simps by (rule row_fine_ascii [OF fine len0 t])
  show "returns (row_reset_with_prefix packed_cell_ops e avail (chars_writer uw True width (cell_style t) (text_of cs)) r)
        (\<lambda>(rest, k, r'). k \<le> avail \<and> row_fine n cols r' \<and>
          (\<exists>pre cs'. rest = text_of cs' \<and> cs = pre @ cs' \<and> (k = 0 \<longleftrightarrow> pre = [])))"
    if cs: "list_all is_scalar cs" and w: "width = 1 \<or> width = 2"
    unfolding reset_prefix_chars [OF ok l w cs] blank Option.bind.simps by (rule row_fine_chars [OF fine len0 t cs w])
qed

section \<open>Screens\<close>

definition cursor_ok :: "nat \<Rightarrow> nat \<Rightarrow> nat \<Rightarrow> cell cursor \<Rightarrow> bool" where
  "cursor_ok n cols lines c \<longleftrightarrow> 0 \<le> line (c_point c) \<and> line (c_point c) < int lines \<and> column (c_point c) < cols \<and>
     plain_cell n (c_template c) \<and> plain_cell n (c_erase c) \<and> length (c_charsets c) = 4"

definition screen_ok :: "nat \<Rightarrow> nat \<Rightarrow> nat \<Rightarrow> cell grid \<Rightarrow> bool" where
  "screen_ok n cols lines g \<longleftrightarrow> grid_shape packed_cell_ops g \<and> g_columns g = cols \<and> g_lines g = lines \<and>
     cols < PACKED_CAPACITY \<and> 0 < n \<and> all_cells (valid_cell n) (raw g) \<and>
     cursor_ok n cols lines (cursor g) \<and> cursor_ok n cols lines (saved_cursor g)"

lemma returns_with: "returns m Q \<Longrightarrow> (\<And>x. m = Some x \<Longrightarrow> R x) \<Longrightarrow> returns m (\<lambda>x. Q x \<and> R x)"
  by (auto simp: returns_iff)

lemma cells_from_screen: "screen_ok n cols lines g \<Longrightarrow> cells_from packed_cell_ops (valid_cell n) g"
  by (simp add: screen_ok_def cells_from_def cursor_ok_def plain_cell_def valid_cell_def style_index_def)

lemma screen_shape: "screen_ok n cols lines g \<Longrightarrow> grid_shape packed_cell_ops g"
  by (simp add: screen_ok_def)

text \<open>An operation that keeps the shape and the cursors, and takes no cells from elsewhere.\<close>

lemma screen_step:
  assumes g: "screen_ok n cols lines g"
    and op: "returns m (\<lambda>g'. grid_shape packed_cell_ops g' \<and> cursor g' = cursor g \<and> saved_cursor g' = saved_cursor g \<and>
      g_columns g' = g_columns g \<and> g_lines g' = g_lines g)"
    and cells: "\<And>g'. m = Some g' \<Longrightarrow> cells_from packed_cell_ops (valid_cell n) g \<Longrightarrow>
      cells_from packed_cell_ops (valid_cell n) g'"
  shows "returns m (\<lambda>g'. screen_ok n cols lines g' \<and> cursor g' = cursor g \<and> saved_cursor g' = saved_cursor g)"
  by (rule returns_mono [OF returns_with [OF op cells [OF _ cells_from_screen [OF g]]]])
    (use g in \<open>auto simp: screen_ok_def cells_from_def\<close>)

lemma raw_same:
  assumes "g' = g\<lparr>raw := a, display_offset := b\<rparr>"
  shows "cursor g' = cursor g \<and> saved_cursor g' = saved_cursor g \<and> g_columns g' = g_columns g \<and> g_lines g' = g_lines g"
  by (intro conjI; subst assms, simp)

lemma raw_only:
  assumes "g' = g\<lparr>raw := a\<rparr>"
  shows "cursor g' = cursor g \<and> saved_cursor g' = saved_cursor g \<and> g_columns g' = g_columns g \<and> g_lines g' = g_lines g"
  by (intro conjI; subst assms, simp)

lemma screen_scroll_up:
  assumes g: "screen_ok n cols lines g" and region: "0 \<le> start" "start \<le> stop" "stop \<le> int lines"
    and k: "k \<le> p" "start = 0 \<Longrightarrow> int p \<le> stop"
  shows "returns (scroll_up_resetting packed_cell_ops (start, stop) p k g) (\<lambda>g'. screen_ok n cols lines g' \<and>
    cursor g' = cursor g \<and> saved_cursor g' = saved_cursor g)"
proof (rule screen_step [OF g])
  have "stop \<le> int (g_lines g)" using g region by (simp add: screen_ok_def)
  note spec = packed.scroll_up_resetting_spec [OF screen_shape [OF g] region(1,2) this k(1)]
  show "returns (scroll_up_resetting packed_cell_ops (start, stop) p k g) (\<lambda>g'. grid_shape packed_cell_ops g' \<and>
      cursor g' = cursor g \<and> saved_cursor g' = saved_cursor g \<and> g_columns g' = g_columns g \<and> g_lines g' = g_lines g)"
    by (rule returns_mono [OF spec], erule k(2), elim conjE, rule conjI [OF _ raw_same])
qed (rule scroll_up_cells)

lemma screen_scroll_down:
  assumes g: "screen_ok n cols lines g" and region: "0 \<le> start" "start \<le> stop" "stop \<le> int lines"
  shows "returns (scroll_down packed_cell_ops (start, stop) p g) (\<lambda>g'. screen_ok n cols lines g' \<and>
    cursor g' = cursor g \<and> saved_cursor g' = saved_cursor g)"
proof (rule screen_step [OF g])
  have "stop \<le> int (g_lines g)" using g region by (simp add: screen_ok_def)
  from packed.scroll_down_spec [OF screen_shape [OF g] region(1,2) this]
  show "returns (scroll_down packed_cell_ops (start, stop) p g) (\<lambda>g'. grid_shape packed_cell_ops g' \<and>
      cursor g' = cursor g \<and> saved_cursor g' = saved_cursor g \<and> g_columns g' = g_columns g \<and> g_lines g' = g_lines g)"
    by (rule returns_mono) (elim conjE, rule conjI [OF _ raw_only])
qed (rule scroll_down_cells)

lemma screen_reset_region:
  assumes g: "screen_ok n cols lines g"
    and "0 \<le> (case a of Included l \<Rightarrow> l | Excluded l \<Rightarrow> l + 1 | Unbounded \<Rightarrow> 0)"
      "(case a of Included l \<Rightarrow> l | Excluded l \<Rightarrow> l + 1 | Unbounded \<Rightarrow> 0) < int lines"
      "(case b of Included l \<Rightarrow> l + 1 | Excluded l \<Rightarrow> l | Unbounded \<Rightarrow> int lines) \<le> int lines"
  shows "returns (reset_region packed_cell_ops a b g) (\<lambda>g'. screen_ok n cols lines g' \<and>
    cursor g' = cursor g \<and> saved_cursor g' = saved_cursor g)"
proof (rule screen_step [OF g])
  have l: "g_lines g = lines" using g by (simp add: screen_ok_def)
  have low: "- int (grid_history g) \<le> (case a of Included l \<Rightarrow> l | Excluded l \<Rightarrow> l + 1 | Unbounded \<Rightarrow> 0)"
    using assms(2) by linarith
  note spec = packed.reset_region_spec [OF screen_shape [OF g] refl refl low, OF assms(3,4) [folded l]]
  show "returns (reset_region packed_cell_ops a b g) (\<lambda>g'. grid_shape packed_cell_ops g' \<and>
      cursor g' = cursor g \<and> saved_cursor g' = saved_cursor g \<and> g_columns g' = g_columns g \<and> g_lines g' = g_lines g)"
    by (rule returns_mono [OF spec]) (elim conjE, rule conjI [OF _ raw_only])
qed (rule reset_region_cells)

lemma screen_clear_viewport:
  assumes g: "screen_ok n cols lines g"
  shows "returns (clear_viewport packed_cell_ops g) (\<lambda>(k, g'). screen_ok n cols lines g' \<and>
    cursor g' = cursor g \<and> saved_cursor g' = saved_cursor g)"
proof -
  have "returns (map_option snd (clear_viewport packed_cell_ops g)) (\<lambda>g'. screen_ok n cols lines g' \<and>
    cursor g' = cursor g \<and> saved_cursor g' = saved_cursor g)"
  proof (rule screen_step [OF g])
    show "returns (map_option snd (clear_viewport packed_cell_ops g)) (\<lambda>g'. grid_shape packed_cell_ops g' \<and>
        cursor g' = cursor g \<and> saved_cursor g' = saved_cursor g \<and> g_columns g' = g_columns g \<and> g_lines g' = g_lines g)"
    proof -
      obtain k g' where kg: "clear_viewport packed_cell_ops g = Some (k, g')" "grid_shape packed_cell_ops g'"
        "g' = g\<lparr>raw := raw g', display_offset := display_offset g'\<rparr>"
        using packed.clear_viewport_spec [OF screen_shape [OF g]] unfolding returns_iff by blast
      then show ?thesis using raw_same [OF kg(3)] by simp
    qed
  qed (auto elim: clear_viewport_cells)
  then show ?thesis by (auto simp: returns_iff)
qed

lemma screen_clear_history:
  assumes g: "screen_ok n cols lines g"
  shows "returns (clear_history g) (\<lambda>g'. screen_ok n cols lines g' \<and> cursor g' = cursor g \<and> saved_cursor g' = saved_cursor g)"
proof (rule screen_step [OF g])
  show "returns (clear_history g) (\<lambda>g'. grid_shape packed_cell_ops g' \<and>
      cursor g' = cursor g \<and> saved_cursor g' = saved_cursor g \<and> g_columns g' = g_columns g \<and> g_lines g' = g_lines g)"
    by (rule returns_mono [OF clear_history_spec [OF screen_shape [OF g]]])
      (elim conjE, rule conjI [OF _ raw_same], simp only: grid_ok_def)
qed (rule clear_history_cells)

lemma screen_update_history:
  assumes g: "screen_ok n cols lines g"
  shows "returns (update_history k g) (\<lambda>g'. screen_ok n cols lines g' \<and> cursor g' = cursor g \<and> saved_cursor g' = saved_cursor g)"
  by (rule returns_mono [OF update_history_spec [OF screen_shape [OF g]]])
    (use g all_cells_subset in \<open>auto simp: screen_ok_def\<close>)

lemma screen_scroll_display:
  "screen_ok n cols lines g \<Longrightarrow> screen_ok n cols lines (scroll_display sc g)"
  using scroll_display_shape [of packed_cell_ops g sc] by (simp add: screen_ok_def)

lemma cursor_ok_default: "0 < n \<Longrightarrow> 1 \<le> cols \<Longrightarrow> 1 \<le> lines \<Longrightarrow> cursor_ok n cols lines (default_cursor packed_cell_ops)"
  by (simp add: cursor_ok_def default_cursor_def plain_default)

lemma screen_grid_reset:
  assumes g: "screen_ok n cols lines g"
  shows "returns (grid_reset packed_cell_ops g) (\<lambda>g'. screen_ok n cols lines g' \<and>
    cursor g' = default_cursor packed_cell_ops \<and> saved_cursor g' = default_cursor packed_cell_ops)"
proof -
  have n: "0 < n" "1 \<le> cols" "1 \<le> lines" using g by (auto simp: screen_ok_def grid_shape_def storage_ok_def)
  have cells: "cells_from packed_cell_ops (valid_cell n) g'" if "grid_reset packed_cell_ops g = Some g'" for g'
    using that cells_from_screen [OF g]
    by (rule grid_reset_cells) (use n in \<open>simp add: valid_cell_def style_index_def\<close>)
  show ?thesis
    by (rule returns_mono [OF returns_with [OF packed.grid_reset_spec [OF screen_shape [OF g]] cells]])
      (use g cursor_ok_default [OF n] in \<open>auto simp: screen_ok_def grid_ok_def cells_from_def\<close>)
qed

lemma screen_grid_new:
  assumes "1 \<le> lines" "1 \<le> cols" "cols < PACKED_CAPACITY" "0 < n"
  shows "returns (grid_new packed_cell_ops lines cols limit) (\<lambda>g. screen_ok n cols lines g \<and>
    cursor g = default_cursor packed_cell_ops \<and> saved_cursor g = default_cursor packed_cell_ops)"
proof -
  have v: "valid_cell n default_cell" using assms(4) by (simp add: valid_cell_def style_index_def)
  have new: "cursor g = default_cursor packed_cell_ops \<and> saved_cursor g = default_cursor packed_cell_ops \<and>
      all_cells (valid_cell n) (raw g)" if "grid_new packed_cell_ops lines cols limit = Some g" for g
    using that assms(1,2) v by (auto simp: grid_new_def with_capacity_def row_new_def all_cells_def)
  show ?thesis
    by (rule returns_mono [OF returns_with [OF packed.grid_new_spec [OF assms(1,2)] new]])
      (use assms cursor_ok_default [of n cols lines] in \<open>auto simp: screen_ok_def grid_ok_def\<close>)
qed

lemma screen_set_cursor:
  "screen_ok n cols lines g \<Longrightarrow> cursor_ok n cols lines c \<Longrightarrow> screen_ok n cols lines (g\<lparr>cursor := c\<rparr>)"
  "screen_ok n cols lines g \<Longrightarrow> cursor_ok n cols lines c \<Longrightarrow> screen_ok n cols lines (g\<lparr>saved_cursor := c\<rparr>)"
  by (auto simp: screen_ok_def grid_shape_def history_size_def grid_dims_def)

section \<open>Editing one line\<close>

text \<open>\<open>&mut self.grid[line]\<close> given to an operation on the row, without and with a result.\<close>

definition modify_row :: "('c row \<Rightarrow> 'c row option) \<Rightarrow> int \<Rightarrow> 'c grid \<Rightarrow> 'c grid option" where
  "modify_row f l g = on_raw (storage_modify f l) g"

definition edit_row :: "('c row \<Rightarrow> ('a \<times> 'b \<times> 'c row) option) \<Rightarrow> int \<Rightarrow> 'c grid \<Rightarrow> ('a \<times> 'b \<times> 'c grid) option" where
  "edit_row f l g =
     do { r \<leftarrow> storage_get (raw g) l;
          (a, b, r') \<leftarrow> f r;
          s \<leftarrow> storage_modify (\<lambda>_. Some r') l (raw g);
          Some (a, b, g\<lparr>raw := s\<rparr>) }"

lemma screen_row_at:
  assumes g: "screen_ok n cols lines g" and l: "- int (grid_history g) \<le> l" "l < int lines"
  obtains r where "storage_get (raw g) l = Some r" "row_fine n cols r"
proof -
  have shape: "grid_shape packed_cell_ops g" and same: "g_columns g = cols" "g_lines g = lines"
    using g by (simp_all add: screen_ok_def)
  obtain r where r: "storage_get (raw g) l = Some r"
    using view_iff [OF shape, of l] l same by (auto simp: view_def)
  have "row_ok packed_cell_ops r \<and> length (inner r) = cols"
    using view_row [OF shape, of l r] r same by (simp add: view_def)
  moreover have "r \<in> set (rows (raw g))"
    using shape set_rows [of "raw g"] r by (auto simp: grid_shape_def)
  ultimately have "row_fine n cols r"
    using g by (simp add: row_fine_def screen_ok_def all_cells_def)
  with r show thesis by (rule that)
qed

lemma screen_put_row:
  assumes g: "screen_ok n cols lines g" and r: "storage_get (raw g) l = Some r" "f r = Some r'" "row_fine n cols r'"
  shows "\<exists>s. storage_modify f l (raw g) = Some s \<and> screen_ok n cols lines (g\<lparr>raw := s\<rparr>) \<and>
    view (g\<lparr>raw := s\<rparr>) = (view g)(l \<mapsto> r') \<and> len s = len (raw g)"
proof -
  have shape: "grid_shape packed_cell_ops g" using g by (simp add: screen_ok_def)
  then have ok: "storage_ok (raw g)" by (simp add: grid_shape_def)
  obtain s where s: "storage_modify f l (raw g) = Some s" "storage_ok s"
    "storage_get s = (storage_get (raw g))(l \<mapsto> r')" "storage_frame s = storage_frame (raw g)"
    using lines.modify_law [of _ _ _ f, OF ok r(1,2)] by (auto simp: returns_iff)
  have "row_ok packed_cell_ops x \<and> length (inner x) = g_columns g" if "storage_get s k = Some x" for k x
    using that s(3) r(3) view_row [OF shape, of k x] g by (auto simp: row_fine_def view_def screen_ok_def split: if_splits)
  note shape' = grid_shape_frame(1) [OF shape s(2,4) this]
  have "all_cells (valid_cell n) s"
  proof -
    obtain i r0 where i: "s = (raw g)\<lparr>rows := (rows (raw g))[i := r0]\<rparr>" "i < length (rows (raw g))" "f (rows (raw g) ! i) = Some r0"
      "compute_index (raw g) l = Some i"
      using s(1) by (auto simp: storage_modify_def idx_def upd_def bind_eq_Some_conv split: if_splits)
    then have "rows (raw g) ! i = r" using r(1) by (simp add: storage_get_def)
    then have "r0 = r'" using i(3) r(2) by simp
    then show ?thesis
      using i(1) g r(3) set_update_subset_insert [of "rows (raw g)" i r']
      by (auto simp: all_cells_def screen_ok_def row_fine_def)
  qed
  then show ?thesis
    using s shape' g frame_simps(3) [OF s(4)] by (auto simp: screen_ok_def view_def)
qed

lemma screen_modify_row:
  assumes g: "screen_ok n cols lines g" and l: "- int (grid_history g) \<le> l" "l < int lines"
    and f: "\<And>r. row_fine n cols r \<Longrightarrow> returns (f r) (row_fine n cols)"
  shows "returns (modify_row f l g) (\<lambda>g'. screen_ok n cols lines g' \<and> cursor g' = cursor g \<and>
    saved_cursor g' = saved_cursor g \<and> grid_history g' = grid_history g)"
proof -
  obtain r where r: "storage_get (raw g) l = Some r" "row_fine n cols r" using screen_row_at [OF g l] .
  obtain r' where r': "f r = Some r'" "row_fine n cols r'" using f [OF r(2)] by (auto simp: returns_iff)
  show ?thesis
    using screen_put_row [of _ _ _ _ _ _ f, OF g r(1) r'] by (auto simp: modify_row_def on_raw_def history_size_def grid_dims_def)
qed

lemma screen_edit_row:
  assumes g: "screen_ok n cols lines g" and l: "- int (grid_history g) \<le> l" "l < int lines"
    and f: "\<And>r. row_fine n cols r \<Longrightarrow> returns (f r) (\<lambda>(a, b, r'). Q a b \<and> row_fine n cols r')"
  shows "returns (edit_row f l g) (\<lambda>(a, b, g'). Q a b \<and> screen_ok n cols lines g' \<and> cursor g' = cursor g \<and>
    saved_cursor g' = saved_cursor g \<and> grid_history g' = grid_history g)"
proof -
  obtain r where r: "storage_get (raw g) l = Some r" "row_fine n cols r" using screen_row_at [OF g l] .
  obtain a b r' where r': "f r = Some (a, b, r')" "Q a b" "row_fine n cols r'" using f [OF r(2)] by (auto simp: returns_iff)
  show ?thesis
    using screen_put_row [OF g r(1), of "\<lambda>_. Some r'", OF refl r'(3)] r' r(1)
    by (auto simp: edit_row_def history_size_def grid_dims_def)
qed

end
