(* ===== verification/Term.thy ===== *)
theory Term
  imports Screen Damage Select Reports Kitty
begin

text \<open>
  The state of a terminal and what its handlers share, \<open>src/terminal/term/mod.rs\<close>: \<open>Term\<close>, its modes,
  tab stops, damage, scrolling of a region, and the events it sends (\<open>src/terminal/event.rs\<close>).

  The event proxy is the list of the events sent to it. What other crates provide is the record \<open>env\<close>:
  the crates of the graphics protocol, the display width of a character, the mapping of a character
  set, the version of the build, and whether two hyperlinks are the same allocation. A pointer shape,
  an enumeration of a crate, is a number; strings are their bytes.
\<close>

section \<open>Modes\<close>

type_synonym term_mode = "32 word"

definition SHOW_CURSOR :: term_mode where "SHOW_CURSOR = 1"
definition APP_CURSOR :: term_mode where "APP_CURSOR = push_bit 1 1"
definition APP_KEYPAD :: term_mode where "APP_KEYPAD = push_bit 2 1"
definition MOUSE_REPORT_CLICK :: term_mode where "MOUSE_REPORT_CLICK = push_bit 3 1"
definition BRACKETED_PASTE :: term_mode where "BRACKETED_PASTE = push_bit 4 1"
definition SGR_MOUSE :: term_mode where "SGR_MOUSE = push_bit 5 1"
definition MOUSE_MOTION :: term_mode where "MOUSE_MOTION = push_bit 6 1"
definition LINE_WRAP :: term_mode where "LINE_WRAP = push_bit 7 1"
definition LINE_FEED_NEW_LINE :: term_mode where "LINE_FEED_NEW_LINE = push_bit 8 1"
definition ORIGIN :: term_mode where "ORIGIN = push_bit 9 1"
definition INSERT :: term_mode where "INSERT = push_bit 10 1"
definition FOCUS_IN_OUT :: term_mode where "FOCUS_IN_OUT = push_bit 11 1"
definition ALT_SCREEN :: term_mode where "ALT_SCREEN = push_bit 12 1"
definition MOUSE_DRAG :: term_mode where "MOUSE_DRAG = push_bit 13 1"
definition UTF8_MOUSE :: term_mode where "UTF8_MOUSE = push_bit 14 1"
definition ALTERNATE_SCROLL :: term_mode where "ALTERNATE_SCROLL = push_bit 15 1"
definition SGR_PIXEL_MOUSE :: term_mode where "SGR_PIXEL_MOUSE = push_bit 16 1"
definition URGENCY_HINTS :: term_mode where "URGENCY_HINTS = push_bit 17 1"
definition DISAMBIGUATE_ESC_CODES :: term_mode where "DISAMBIGUATE_ESC_CODES = push_bit 18 1"
definition REPORT_EVENT_TYPES :: term_mode where "REPORT_EVENT_TYPES = push_bit 19 1"
definition REPORT_ALTERNATE_KEYS :: term_mode where "REPORT_ALTERNATE_KEYS = push_bit 20 1"
definition REPORT_ALL_KEYS_AS_ESC :: term_mode where "REPORT_ALL_KEYS_AS_ESC = push_bit 21 1"
definition REPORT_ASSOCIATED_TEXT :: term_mode where "REPORT_ASSOCIATED_TEXT = push_bit 22 1"
definition SYNC_UPDATE :: term_mode where "SYNC_UPDATE = push_bit 23 1"
definition MOUSE_MODE :: term_mode where "MOUSE_MODE = MOUSE_REPORT_CLICK OR MOUSE_MOTION OR MOUSE_DRAG"
definition KITTY_KEYBOARD_PROTOCOL :: term_mode where
  "KITTY_KEYBOARD_PROTOCOL = DISAMBIGUATE_ESC_CODES OR REPORT_EVENT_TYPES OR REPORT_ALTERNATE_KEYS OR
     REPORT_ALL_KEYS_AS_ESC OR REPORT_ASSOCIATED_TEXT"

definition default_mode :: term_mode where
  "default_mode = SHOW_CURSOR OR LINE_WRAP OR ALTERNATE_SCROLL OR URGENCY_HINTS"

definition has_mode :: "term_mode \<Rightarrow> term_mode \<Rightarrow> bool" where
  "has_mode m f \<longleftrightarrow> m AND f = f"

text \<open>The flags of the keyboard protocol, as the crate \<open>vvte\<close> numbers them.\<close>

type_synonym keyboard_modes = "8 word"

definition keyboard_flags :: "(nat \<times> term_mode) list" where
  "keyboard_flags = [(0, DISAMBIGUATE_ESC_CODES), (1, REPORT_EVENT_TYPES), (2, REPORT_ALTERNATE_KEYS),
     (3, REPORT_ALL_KEYS_AS_ESC), (4, REPORT_ASSOCIATED_TEXT)]"

definition mode_of_keyboard :: "keyboard_modes \<Rightarrow> term_mode" where
  "mode_of_keyboard k = fold (\<lambda>(n, f) m. if bit k n then m OR f else m AND NOT f) keyboard_flags 0"

text \<open>The modes of the control sequences, as the parser names them; a mode it has no name for is its number.\<close>

datatype named_private_mode =
    UrgencyHints | SwapScreenAndSetRestoreCursor | ShowCursor | CursorKeys | ReportMouseClicks
  | ReportCellMouseMotion | ReportAllMouseMotion | ReportFocusInOut | BracketedPaste | SgrMouse | Utf8Mouse
  | AlternateScroll | LineWrap | Origin | ColumnMode | BlinkingCursor | SyncUpdate

datatype private_mode = NamedPrivate named_private_mode | UnknownPrivate nat

datatype named_mode = InsertMode | LineFeedNewLine

datatype ansi_mode = NamedMode named_mode | UnknownMode nat

datatype apply_behavior = Replace | Union | Difference

section \<open>State\<close>

datatype clipboard_access = Deny | Ask | Allow

record config =
  scrolling_history :: nat
  default_cursor_style :: cursor_style
  kitty_keyboard :: bool
  osc52_read :: clipboard_access
  osc52_write :: clipboard_access
  semantic_escape_chars :: "uchar list"

type_synonym rgb = "8 word \<times> 8 word \<times> 8 word"

datatype clipboard_type = Clipboard | PrimarySelection

record window_size =
  num_lines :: nat
  num_cols :: nat
  cell_width :: nat
  cell_height :: nat

datatype event =
    MouseCursorDirty
  | Title "byte list"
  | ResetTitle
  | WorkingDirectory "byte list"
  | ClipboardStore clipboard_type "uchar list"
  | ClipboardLoad clipboard_type "byte list \<Rightarrow> byte list"
  | ColorRequest nat "rgb \<Rightarrow> byte list"
  | PtyWrite "byte list"
  | TextAreaSizeRequest "window_size \<Rightarrow> byte list"
  | CursorBlinkingChange
  | Bell
  | VividMarker "byte list" int nat bool
  | VividGridScroll int int int nat
  | VividClear
  | VividScreenSwap bool
  | Exit

record pending_scroll =
  ps_origin :: int
  ps_end :: int
  ps_lines :: int
  ps_history :: nat

record 'f terminal =
  t_selection :: "selection option"
  t_grid :: "cell grid"
  t_inactive_grid :: "cell grid"
  t_styles :: style_table
  active_charset :: nat
  t_tabs :: "bool list"
  t_mode :: term_mode
  scroll_region :: region
  t_colors :: "rgb option list"
  t_cursor_style :: "cursor_style option"
  mouse_cursor_icon :: "nat option"
  sent :: "event list"
  t_title :: "byte list option"
  title_stack :: "byte list option list"
  working_directory :: "byte list option"
  keyboard_mode_stack :: "keyboard_modes list"
  inactive_keyboard_mode_stack :: "keyboard_modes list"
  t_damage :: damage_state
  t_config :: config
  dcs_scanner :: dcs_scanner
  pending_grid_scroll :: "pending_scroll option"
  pending_style :: "style option"
  t_graphics :: "'f kitty"

record ('f, 'z) env =
  gfx :: "('f, 'z) crates"
  unicode_width :: "uchar \<Rightarrow> nat option"
  charset_map :: "nat \<Rightarrow> uchar \<Rightarrow> uchar"
  ptr_eq :: "hyperlink \<Rightarrow> hyperlink \<Rightarrow> bool"
  b64_encode :: "byte list \<Rightarrow> byte list"
  b64_decode :: "byte list \<Rightarrow> byte list option"
  private_mode_raw :: "private_mode \<Rightarrow> nat"
  mode_raw :: "ansi_mode \<Rightarrow> nat"
  is_local_host :: "byte list \<Rightarrow> bool"
  pkg_version :: "byte list"
  search_byte :: "byte \<Rightarrow> byte list \<Rightarrow> nat option"
  search_slice :: "byte list \<Rightarrow> byte list \<Rightarrow> nat option"

definition INITIAL_TABSTOPS :: nat where "INITIAL_TABSTOPS = 8"
definition COLOR_COUNT :: nat where "COLOR_COUNT = 269"
definition CURSOR_COLOR :: nat where "CURSOR_COLOR = 258"
definition TITLE_STACK_MAX_DEPTH :: nat where "TITLE_STACK_MAX_DEPTH = 4096"
definition KEYBOARD_MODE_STACK_MAX_DEPTH :: nat where "KEYBOARD_MODE_STACK_MAX_DEPTH = TITLE_STACK_MAX_DEPTH"
definition MIN_COLUMNS :: nat where "MIN_COLUMNS = 2"
definition MIN_SCREEN_LINES :: nat where "MIN_SCREEN_LINES = 1"

definition tabs_new :: "nat \<Rightarrow> bool list" where
  "tabs_new cols = map (\<lambda>i. i mod INITIAL_TABSTOPS = 0) [0..<cols]"

definition tabs_clear_all :: "bool list \<Rightarrow> bool list" where
  "tabs_clear_all tabs = map (\<lambda>_. False) tabs"

definition tabs_resize :: "nat \<Rightarrow> bool list \<Rightarrow> bool list" where
  "tabs_resize cols tabs =
     take cols tabs @ map (\<lambda>i. i mod INITIAL_TABSTOPS = 0) [length tabs..<cols]"

text \<open>\<open>cell\<close> is the size of a cell in pixels, if the window knows it.\<close>

definition term_new :: "('f, 'z) env \<Rightarrow> config \<Rightarrow> nat \<Rightarrow> nat \<Rightarrow> cell_pixels option \<Rightarrow> 'f terminal option" where
  "term_new E cfg lines cols cell =
     do { g \<leftarrow> grid_new packed_cell_ops lines cols (scrolling_history cfg);
          h \<leftarrow> grid_new packed_cell_ops lines cols 0;
          k \<leftarrow> (case cell of None \<Rightarrow> Some new_kitty | Some c \<Rightarrow> set_cell (gfx E) c new_kitty);
          Some \<lparr>t_selection = None, t_grid = g, t_inactive_grid = h, t_styles = default_table,
            active_charset = 0, t_tabs = tabs_new cols, t_mode = default_mode, scroll_region = (0, int lines),
            t_colors = replicate COLOR_COUNT None, t_cursor_style = None, mouse_cursor_icon = None, sent = [],
            t_title = None, title_stack = [], working_directory = None, keyboard_mode_stack = [],
            inactive_keyboard_mode_stack = [], t_damage = damage_new cols lines, t_config = cfg,
            dcs_scanner = dcs_default, pending_grid_scroll = None, pending_style = None, t_graphics = k\<rparr> }"

text \<open>Operations on a part of the state.\<close>

definition on_grid :: "(cell grid \<Rightarrow> cell grid option) \<Rightarrow> 'f terminal \<Rightarrow> 'f terminal option" where
  "on_grid f t = do { g \<leftarrow> f (t_grid t); Some (t\<lparr>t_grid := g\<rparr>) }"

definition on_damage :: "(damage_state \<Rightarrow> damage_state option) \<Rightarrow> 'f terminal \<Rightarrow> 'f terminal option" where
  "on_damage f t = do { d \<leftarrow> f (t_damage t); Some (t\<lparr>t_damage := d\<rparr>) }"

definition on_graphics :: "('f kitty \<Rightarrow> 'f kitty option) \<Rightarrow> 'f terminal \<Rightarrow> 'f terminal option" where
  "on_graphics f t = do { k \<leftarrow> f (t_graphics t); Some (t\<lparr>t_graphics := k\<rparr>) }"

definition at_cursor :: "(cell cursor \<Rightarrow> cell cursor) \<Rightarrow> 'f terminal \<Rightarrow> 'f terminal" where
  "at_cursor f t = t\<lparr>t_grid := (t_grid t)\<lparr>cursor := f (cursor (t_grid t))\<rparr>\<rparr>"

abbreviation t_cursor :: "'f terminal \<Rightarrow> cell cursor" where
  "t_cursor t \<equiv> cursor (t_grid t)"

abbreviation cursor_point :: "'f terminal \<Rightarrow> point" where
  "cursor_point t \<equiv> c_point (t_cursor t)"

abbreviation t_columns :: "'f terminal \<Rightarrow> nat" where
  "t_columns t \<equiv> g_columns (t_grid t)"

abbreviation t_lines :: "'f terminal \<Rightarrow> nat" where
  "t_lines t \<equiv> g_lines (t_grid t)"

definition set_point :: "point \<Rightarrow> 'f terminal \<Rightarrow> 'f terminal" where
  "set_point p = at_cursor (\<lambda>c. c\<lparr>c_point := p\<rparr>)"

definition set_wrap :: "bool \<Rightarrow> 'f terminal \<Rightarrow> 'f terminal" where
  "set_wrap b = at_cursor (\<lambda>c. c\<lparr>c_wrap := b\<rparr>)"

definition send :: "event \<Rightarrow> 'f terminal \<Rightarrow> 'f terminal" where
  "send e t = t\<lparr>sent := sent t @ [e]\<rparr>"

definition mark_fully_damaged :: "'f terminal \<Rightarrow> 'f terminal" where
  "mark_fully_damaged t = t\<lparr>t_damage := (t_damage t)\<lparr>dmg_full := True\<rparr>\<rparr>"

definition damage_cursor :: "'f terminal \<Rightarrow> 'f terminal option" where
  "damage_cursor t = on_damage (damage_point (nat (line (cursor_point t)), column (cursor_point t))) t"

definition damage_columns :: "nat \<Rightarrow> nat \<Rightarrow> 'f terminal \<Rightarrow> 'f terminal option" where
  "damage_columns left right t = on_damage (damage_line (nat (line (cursor_point t))) left right) t"

definition effective_cursor_style :: "'f terminal \<Rightarrow> cursor_style" where
  "effective_cursor_style t =
     (case t_cursor_style t of Some s \<Rightarrow> s | None \<Rightarrow> default_cursor_style (t_config t))"

section \<open>Scrolling\<close>

definition flush_grid_scroll :: "'f terminal \<Rightarrow> 'f terminal" where
  "flush_grid_scroll t =
     (case pending_grid_scroll t of
        None \<Rightarrow> t
      | Some p \<Rightarrow> send (VividGridScroll (ps_origin p) (ps_end p) (ps_lines p) (ps_history p))
                   (t\<lparr>pending_grid_scroll := None\<rparr>))"

definition I32_MAX :: int where "I32_MAX = 2 ^ 31 - 1"

definition to_i32 :: "nat \<Rightarrow> int" where
  "to_i32 n = min (int n) I32_MAX"

definition history_top :: "nat \<Rightarrow> int" where
  "history_top n = (if int n \<le> I32_MAX then - int n else - (2 ^ 31))"

definition graphics_placed :: "'f terminal \<Rightarrow> bool option" where
  "graphics_placed t = map_option has_placements (store_of (t_graphics t))"

definition queue_grid_scroll :: "('f, 'z) env \<Rightarrow> int \<Rightarrow> int \<Rightarrow> int \<Rightarrow> nat \<Rightarrow> 'f terminal \<Rightarrow> 'f terminal option" where
  "queue_grid_scroll E origin stop lines history t =
     do { placed \<leftarrow> graphics_placed t;
          t \<leftarrow> (if placed
               then on_graphics (kitty_scroll (gfx E) \<lparr>gs_top = origin, gs_end = stop, gs_lines = lines,
                      gs_screen_lines = to_i32 (t_lines t), gs_history_top = history_top history\<rparr>) t
               else Some t);
          let fresh = \<lparr>ps_origin = origin, ps_end = stop, ps_lines = lines, ps_history = history\<rparr>;
          Some (case pending_grid_scroll t of
              Some p \<Rightarrow> if ps_origin p = origin \<and> ps_end p = stop \<and> sgn (ps_lines p) = sgn lines
                then t\<lparr>pending_grid_scroll := Some (p\<lparr>ps_lines := sat_i32 (ps_lines p + lines), ps_history := history\<rparr>)\<rparr>
                else (flush_grid_scroll t)\<lparr>pending_grid_scroll := Some fresh\<rparr>
            | None \<Rightarrow> t\<lparr>pending_grid_scroll := Some fresh\<rparr>) }"

definition rotate_t_selection :: "region \<Rightarrow> int \<Rightarrow> 'f terminal \<Rightarrow> 'f terminal" where
  "rotate_t_selection region delta t =
     t\<lparr>t_selection := Option.bind (t_selection t) (rotate_selection (grid_dims (t_grid t)) region delta)\<rparr>"

text \<open>The end of both directions: the grid is scrolled, the scroll queued, everything damaged.\<close>

definition scroll_grid ::
  "('f, 'z) env \<Rightarrow> (cell grid \<Rightarrow> cell grid option) \<Rightarrow> region \<Rightarrow> int \<Rightarrow> 'f terminal \<Rightarrow> 'f terminal option" where
  "scroll_grid E f region lines t =
     do { t \<leftarrow> on_grid f t;
          t \<leftarrow> (if lines \<noteq> 0 then queue_grid_scroll E (fst region) (snd region) lines (grid_history (t_grid t)) t
                else Some t);
          Some (mark_fully_damaged t) }"

definition scroll_down_relative :: "('f, 'z) env \<Rightarrow> int \<Rightarrow> nat \<Rightarrow> 'f terminal \<Rightarrow> 'f terminal option" where
  "scroll_down_relative E origin lines t =
     (let (start, stop) = scroll_region t;
          lines = min (min lines (nat (stop - start))) (nat (stop - origin));
          region = (origin, stop);
          t = rotate_t_selection region (- int lines) t
      in scroll_grid E (Grid.scroll_down packed_cell_ops region lines) region (- int lines) t)"

text \<open>The answer is whether the line that came free was left uncleared.\<close>

definition scroll_up_relative_resetting ::
  "('f, 'z) env \<Rightarrow> int \<Rightarrow> nat \<Rightarrow> bool \<Rightarrow> 'f terminal \<Rightarrow> (bool \<times> 'f terminal) option" where
  "scroll_up_relative_resetting E origin lines reset t =
     (let (start, stop) = scroll_region t;
          lines = min lines (nat (stop - start));
          region = (origin, stop);
          t = rotate_t_selection region (int lines) t;
          unreset = (\<not> reset \<and> lines = 1)
      in map_option (Pair unreset)
           (scroll_grid E (if unreset then scroll_up_unreset packed_cell_ops region
                           else Grid.scroll_up packed_cell_ops region lines) region (int lines) t))"

definition scroll_up_relative :: "('f, 'z) env \<Rightarrow> int \<Rightarrow> nat \<Rightarrow> 'f terminal \<Rightarrow> 'f terminal option" where
  "scroll_up_relative E origin lines t = map_option snd (scroll_up_relative_resetting E origin lines True t)"

definition term_scroll_up :: "('f, 'z) env \<Rightarrow> nat \<Rightarrow> 'f terminal \<Rightarrow> 'f terminal option" where
  "term_scroll_up E lines t = scroll_up_relative E (fst (scroll_region t)) lines t"

definition term_scroll_down :: "('f, 'z) env \<Rightarrow> nat \<Rightarrow> 'f terminal \<Rightarrow> 'f terminal option" where
  "term_scroll_down E lines t = scroll_down_relative E (fst (scroll_region t)) lines t"

definition linefeed :: "('f, 'z) env \<Rightarrow> 'f terminal \<Rightarrow> 'f terminal option" where
  "linefeed E t =
     (let next = line (cursor_point t) + 1 in
      if next = snd (scroll_region t) then term_scroll_up E 1 t
      else if next < int (t_lines t)
      then do { t \<leftarrow> damage_cursor t;
                damage_cursor (set_point (Point (line (cursor_point t) + 1) (column (cursor_point t))) t) }
      else Some t)"

section \<open>Wrapping\<close>

definition wrapline_recycling :: "('f, 'z) env \<Rightarrow> bool \<Rightarrow> 'f terminal \<Rightarrow> (bool \<times> 'f terminal) option" where
  "wrapline_recycling E recycle t =
     (if \<not> has_mode (t_mode t) LINE_WRAP then Some (False, t)
      else do {
        t \<leftarrow> on_grid (modify_cursor_cell (\<lambda>c. insert_layout c WRAPLINE)) t;
        let l = line (cursor_point t);
        (recycled, t) \<leftarrow>
          (if recycle \<and> l + 1 = snd (scroll_region t)
           then scroll_up_relative_resetting E (fst (scroll_region t)) 1 False t
           else if snd (scroll_region t) \<le> l + 1 then map_option (Pair False) (linefeed E t)
           else do { t \<leftarrow> damage_cursor t; Some (False, set_point (Point (l + 1) (column (cursor_point t))) t) });
        t \<leftarrow> damage_cursor (set_wrap False (set_point (Point (line (cursor_point t)) 0) t));
        Some (recycled, t) })"

definition wrapline :: "('f, 'z) env \<Rightarrow> 'f terminal \<Rightarrow> 'f terminal option" where
  "wrapline E t = map_option snd (wrapline_recycling E False t)"

section \<open>The invariant\<close>

text \<open>What the table of styles needs for no lookup to go out of bounds, whatever its keys and links are.\<close>

definition table_safe :: "style_table \<Rightarrow> bool" where
  "table_safe T \<longleftrightarrow> styles T \<noteq> [] \<and> length (styles T) \<le> CAPACITY \<and> length (cache T) = 2 ^ CACHE_BITS \<and>
     (\<forall>(k, i) \<in> set (cache T) \<union> set (style_table.ids T). style_index i < length (styles T)) \<and>
     (\<forall>s \<in> set (styles T). \<not> intersects (attrs s) LAYOUT)"

text \<open>
  A terminal of \<open>cols\<close> columns and \<open>lines\<close> lines; \<open>W\<close> are the numbers of the image decodes that were
  taken from its queue and are not handed back yet.
\<close>

definition term_ok :: "nat set \<Rightarrow> nat \<Rightarrow> nat \<Rightarrow> 'f terminal \<Rightarrow> bool" where
  "term_ok W cols lines t \<longleftrightarrow>
     screen_ok (length (styles (t_styles t))) cols lines (t_grid t) \<and>
     screen_ok (length (styles (t_styles t))) cols lines (t_inactive_grid t) \<and>
     MIN_COLUMNS \<le> cols \<and> table_safe (t_styles t) \<and> active_charset t < 4 \<and> length (t_tabs t) = cols \<and>
     0 \<le> fst (scroll_region t) \<and> fst (scroll_region t) \<le> snd (scroll_region t) \<and>
     snd (scroll_region t) \<le> int lines \<and> length (t_colors t) = COLOR_COUNT \<and>
     damage_ok cols lines (t_damage t) \<and> 0 \<le> line (last_cursor (t_damage t)) \<and>
     line (last_cursor (t_damage t)) < int lines \<and> dcs_ok (dcs_scanner t) \<and> kitty_ok W (t_graphics t) \<and>
     (\<forall>s. pending_style t = Some s \<longrightarrow> \<not> intersects (attrs s) LAYOUT) \<and>
     length (title_stack t) \<le> TITLE_STACK_MAX_DEPTH \<and>
     length (keyboard_mode_stack t) \<le> KEYBOARD_MODE_STACK_MAX_DEPTH \<and>
     length (inactive_keyboard_mode_stack t) \<le> KEYBOARD_MODE_STACK_MAX_DEPTH"

text \<open>Fields the invariant does not speak of.\<close>

lemma term_ok_free [simp]:
  "term_ok W cols lines (t\<lparr>sent := a\<rparr>) = term_ok W cols lines t"
  "term_ok W cols lines (t\<lparr>t_selection := b\<rparr>) = term_ok W cols lines t"
  "term_ok W cols lines (t\<lparr>t_mode := c\<rparr>) = term_ok W cols lines t"
  "term_ok W cols lines (t\<lparr>t_cursor_style := d\<rparr>) = term_ok W cols lines t"
  "term_ok W cols lines (t\<lparr>mouse_cursor_icon := e\<rparr>) = term_ok W cols lines t"
  "term_ok W cols lines (t\<lparr>t_title := f\<rparr>) = term_ok W cols lines t"
  "term_ok W cols lines (t\<lparr>working_directory := f\<rparr>) = term_ok W cols lines t"
  "term_ok W cols lines (t\<lparr>t_config := g\<rparr>) = term_ok W cols lines t"
  "term_ok W cols lines (t\<lparr>pending_grid_scroll := i\<rparr>) = term_ok W cols lines t"
  by (simp_all add: term_ok_def)

lemma term_ok_send [simp]:
  "term_ok W cols lines (send e t) = term_ok W cols lines t"
  "term_ok W cols lines (mark_fully_damaged t) = term_ok W cols lines t"
  "term_ok W cols lines (rotate_t_selection region delta t) = term_ok W cols lines t"
  "term_ok W cols lines (flush_grid_scroll t) = term_ok W cols lines t"
  by (simp_all add: send_def mark_fully_damaged_def rotate_t_selection_def flush_grid_scroll_def term_ok_def
      damage_ok_def split: option.split)

lemma term_dims:
  assumes "term_ok W cols lines t"
  shows "t_columns t = cols" "t_lines t = lines" "2 \<le> cols" "1 \<le> lines" "cols < PACKED_CAPACITY"
    "grid_shape packed_cell_ops (t_grid t)"
  using assms by (auto simp: term_ok_def screen_ok_def MIN_COLUMNS_def grid_shape_def storage_ok_def)

lemma term_cursor:
  assumes "term_ok W cols lines t"
  shows "cursor_ok (length (styles (t_styles t))) cols lines (t_cursor t)"
    "0 \<le> line (cursor_point t)" "line (cursor_point t) < int lines" "column (cursor_point t) < cols"
  using assms by (auto simp: term_ok_def screen_ok_def cursor_ok_def)

lemma term_region:
  assumes "term_ok W cols lines t"
  shows "0 \<le> fst (scroll_region t)" "fst (scroll_region t) \<le> snd (scroll_region t)" "snd (scroll_region t) \<le> int lines"
  using assms by (auto simp: term_ok_def)

text \<open>Parts of the state.\<close>

lemma on_grid_ok:
  assumes t: "term_ok W cols lines t"
    and f: "screen_ok (length (styles (t_styles t))) cols lines (t_grid t) \<Longrightarrow>
      returns (f (t_grid t)) (\<lambda>g. screen_ok (length (styles (t_styles t))) cols lines g \<and> Q g)"
  shows "returns (on_grid f t) (\<lambda>t'. term_ok W cols lines t' \<and> (\<exists>g. t' = t\<lparr>t_grid := g\<rparr> \<and> Q g))"
proof -
  have "screen_ok (length (styles (t_styles t))) cols lines (t_grid t)" using t by (simp add: term_ok_def)
  from f [OF this] show ?thesis
    using t by (auto simp: on_grid_def returns_iff term_ok_def)
qed

lemma on_graphics_ok:
  assumes t: "term_ok W cols lines t" and f: "kitty_ok W (t_graphics t) \<Longrightarrow> returns (f (t_graphics t)) (kitty_ok W)"
  shows "returns (on_graphics f t) (\<lambda>t'. term_ok W cols lines t' \<and> (\<exists>k. t' = t\<lparr>t_graphics := k\<rparr>))"
proof -
  have "kitty_ok W (t_graphics t)" using t by (simp add: term_ok_def)
  from f [OF this] show ?thesis
    using t by (auto simp: on_graphics_def returns_iff term_ok_def)
qed

lemma damage_at_ok:
  assumes t: "term_ok W cols lines t"
  shows "returns (damage_columns left right t) (\<lambda>t'. term_ok W cols lines t' \<and> (\<exists>d. t' = t\<lparr>t_damage := d\<rparr>))"
    and "returns (damage_cursor t) (\<lambda>t'. term_ok W cols lines t' \<and> (\<exists>d. t' = t\<lparr>t_damage := d\<rparr>))"
proof -
  have d: "damage_ok cols lines (t_damage t)" using t by (simp add: term_ok_def)
  have l: "nat (line (cursor_point t)) < lines" using term_cursor(2,3) [OF t] by simp
  have "returns (on_damage (damage_line (nat (line (cursor_point t))) a b) t)
      (\<lambda>t'. term_ok W cols lines t' \<and> (\<exists>d. t' = t\<lparr>t_damage := d\<rparr>))" for a b
    using damage_line_spec [OF d l, of a b] t by (auto simp: on_damage_def returns_iff term_ok_def)
  then show "returns (damage_columns left right t) (\<lambda>t'. term_ok W cols lines t' \<and> (\<exists>d. t' = t\<lparr>t_damage := d\<rparr>))"
    and "returns (damage_cursor t) (\<lambda>t'. term_ok W cols lines t' \<and> (\<exists>d. t' = t\<lparr>t_damage := d\<rparr>))"
    by (simp_all add: damage_columns_def damage_cursor_def damage_point_def [abs_def])
qed

lemma at_cursor_ok:
  assumes t: "term_ok W cols lines t"
    and "cursor_ok (length (styles (t_styles t))) cols lines (f (t_cursor t))"
  shows "term_ok W cols lines (at_cursor f t)"
  using assms screen_set_cursor(1) by (auto simp: term_ok_def at_cursor_def)

lemma set_point_ok:
  assumes t: "term_ok W cols lines t" and p: "0 \<le> line p" "line p < int lines" "column p < cols"
  shows "term_ok W cols lines (set_point p t)"
  unfolding set_point_def by (rule at_cursor_ok [OF t]) (use term_cursor(1) [OF t] p in \<open>simp add: cursor_ok_def\<close>)

lemma set_wrap_ok [simp]: "term_ok W cols lines t \<Longrightarrow> term_ok W cols lines (set_wrap b t)"
  unfolding set_wrap_def by (rule at_cursor_ok) (use term_cursor(1) [of W cols lines t] in \<open>simp_all add: cursor_ok_def\<close>)

lemma set_point_sel [simp]:
  "cursor_point (set_point p t) = p" "cursor_point (set_wrap b t) = cursor_point t"
  "t_columns (set_point p t) = t_columns t" "t_lines (set_point p t) = t_lines t"
  "scroll_region (set_point p t) = scroll_region t" "scroll_region (set_wrap b t) = scroll_region t"
  "t_mode (set_point p t) = t_mode t" "t_mode (set_wrap b t) = t_mode t"
  by (simp_all add: set_point_def set_wrap_def at_cursor_def)

section \<open>Scrolling keeps the invariant\<close>

text \<open>What a helper that scrolls leaves alone.\<close>

definition same_view :: "'f terminal \<Rightarrow> 'f terminal \<Rightarrow> bool" where
  "same_view t t' \<longleftrightarrow> cursor (t_grid t') = cursor (t_grid t) \<and> scroll_region t' = scroll_region t \<and>
     t_mode t' = t_mode t \<and> active_charset t' = active_charset t \<and> t_styles t' = t_styles t \<and>
     pending_style t' = pending_style t"

lemma same_view_refl [simp]: "same_view t t"
  by (simp add: same_view_def)

lemma same_view_trans: "same_view t t' \<Longrightarrow> same_view t' t'' \<Longrightarrow> same_view t t''"
  by (simp add: same_view_def)

lemma same_view_simps [simp]:
  "same_view t (mark_fully_damaged t') = same_view t t'" "same_view t (rotate_t_selection r d t') = same_view t t'"
  "same_view t (t'\<lparr>pending_grid_scroll := p\<rparr>) = same_view t t'" "same_view t (t'\<lparr>t_graphics := k\<rparr>) = same_view t t'"
  "same_view t (t'\<lparr>sent := a\<rparr>) = same_view t t'" "same_view t (flush_grid_scroll t') = same_view t t'" "same_view t (t'\<lparr>t_damage := dm\<rparr>) = same_view t t'"
  by (simp_all add: same_view_def mark_fully_damaged_def rotate_t_selection_def flush_grid_scroll_def send_def
      split: option.split)

lemma queue_grid_scroll_ok:
  assumes t: "term_ok W cols lines t"
  shows "returns (queue_grid_scroll E origin stop k history t) (\<lambda>t'. term_ok W cols lines t' \<and> same_view t t' \<and>
    t_grid t' = t_grid t)"
proof -
  have k: "kitty_ok W (t_graphics t)" using t by (simp add: term_ok_def)
  then obtain s where s: "store_of (t_graphics t) = Some s" by (auto simp: store_of_def kitty_ok_def kitty_base_def)
  have g: "returns (if has_placements s then on_graphics (kitty_scroll (gfx E) sc) t else Some t)
      (\<lambda>t'. term_ok W cols lines t' \<and> (\<exists>k. t' = t\<lparr>t_graphics := k\<rparr>))" for sc
  proof (cases "has_placements s")
    case True
    then show ?thesis using on_graphics_ok [OF t kitty_scroll_ok(1)] by simp
  next
    case False
    then show ?thesis using t by (simp add: exI [of _ "t_graphics t"])
  qed
  show ?thesis
    unfolding queue_grid_scroll_def graphics_placed_def s option.map Option.bind.simps returns_bind
    by (rule returns_mono [OF g]) (auto split: option.split simp: flush_grid_scroll_def send_def Let_def)
qed

lemma scroll_grid_ok:
  assumes t: "term_ok W cols lines t"
    and f: "screen_ok (length (styles (t_styles t))) cols lines (t_grid t) \<Longrightarrow>
      returns (f (t_grid t)) (\<lambda>g. screen_ok (length (styles (t_styles t))) cols lines g \<and>
        cursor g = cursor (t_grid t) \<and> saved_cursor g = saved_cursor (t_grid t))"
  shows "returns (scroll_grid E f region m t) (\<lambda>t'. term_ok W cols lines t' \<and> same_view t t')"
proof -
  have step: "returns (if m \<noteq> 0 then queue_grid_scroll E (fst region) (snd region) m (grid_history (t_grid t')) t' else Some t')
      (\<lambda>t''. returns (Some (mark_fully_damaged t'')) (\<lambda>t'. term_ok W cols lines t' \<and> same_view t t'))"
    if "term_ok W cols lines t'" "same_view t t'" for t'
  proof (cases "m \<noteq> 0")
    case True
    then show ?thesis
      using that same_view_trans by (auto intro: returns_mono [OF queue_grid_scroll_ok [OF that(1)]])
  qed (use that in simp)
  show ?thesis
    unfolding scroll_grid_def returns_bind
    by (rule returns_mono [OF on_grid_ok [of _ _ _ _ f
          "\<lambda>g. cursor g = cursor (t_grid t) \<and> saved_cursor g = saved_cursor (t_grid t)", OF t f]],
      assumption, elim conjE exE, rule step, assumption, simp add: same_view_def)
qed

lemma scroll_down_relative_ok:
  assumes t: "term_ok W cols lines t" and o: "fst (scroll_region t) \<le> origin" "origin \<le> snd (scroll_region t)"
  shows "returns (scroll_down_relative E origin k t) (\<lambda>t'. term_ok W cols lines t' \<and> same_view t t')"
proof -
  obtain start stop where r: "scroll_region t = (start, stop)" by fastforce
  let ?t = "\<lambda>m. rotate_t_selection (origin, stop) m t"
  have ok: "term_ok W cols lines (?t m)" for m using t by simp
  have region: "0 \<le> origin" "origin \<le> stop" "stop \<le> int lines" using term_region [OF t] o r by simp_all
  have "returns (scroll_grid E (Grid.scroll_down packed_cell_ops (origin, stop) p) (origin, stop) m (?t m))
      (\<lambda>t'. term_ok W cols lines t' \<and> same_view (?t m) t')" for p m
    by (rule scroll_grid_ok [OF ok], rule screen_scroll_down [OF _ region]) assumption
  then show ?thesis
    unfolding scroll_down_relative_def r prod.case Let_def
    by (rule returns_mono) (simp add: same_view_def rotate_t_selection_def)
qed

lemma scroll_up_relative_resetting_ok:
  assumes t: "term_ok W cols lines t" and o: "fst (scroll_region t) \<le> origin" "origin \<le> snd (scroll_region t)"
  shows "returns (scroll_up_relative_resetting E origin k reset t)
    (\<lambda>(b, t'). term_ok W cols lines t' \<and> same_view t t')"
proof -
  obtain start stop where r: "scroll_region t = (start, stop)" by fastforce
  define p where "p = min k (nat (stop - start))"
  define u where "u = (\<not> reset \<and> p = 1)"
  let ?t = "rotate_t_selection (origin, stop) (int p) t"
  let ?f = "if u then scroll_up_unreset packed_cell_ops (origin, stop) else Grid.scroll_up packed_cell_ops (origin, stop) p"
  have ok: "term_ok W cols lines ?t" using t by simp
  have region: "0 \<le> origin" "origin \<le> stop" "stop \<le> int lines" using term_region [OF t] o r by simp_all
  have small: "origin = 0 \<Longrightarrow> int p \<le> stop" using o r term_region [OF t] by (simp add: p_def)
  have f: "returns (?f g) (\<lambda>g'. screen_ok n cols lines g' \<and> cursor g' = cursor g \<and> saved_cursor g' = saved_cursor g)"
    if "screen_ok n cols lines g" for g n
  proof (cases u)
    case True
    then have "origin = 0 \<Longrightarrow> int 1 \<le> stop" using small by (simp add: u_def)
    from screen_scroll_up [OF that region _ this, of 0] show ?thesis using True by (simp add: scroll_up_unreset_def)
  next
    case False
    then show ?thesis using screen_scroll_up [OF that region order.refl small] by (simp add: scroll_up_def)
  qed
  have "returns (scroll_grid E ?f (origin, stop) (int p) ?t) (\<lambda>t'. term_ok W cols lines t' \<and> same_view ?t t')"
    by (rule scroll_grid_ok [OF ok], rule f)
  then show ?thesis
    unfolding scroll_up_relative_resetting_def r prod.case Let_def p_def [symmetric] u_def [symmetric]
    by (auto simp: returns_iff same_view_def rotate_t_selection_def)
qed

lemma scroll_up_relative_ok:
  assumes "term_ok W cols lines t" "fst (scroll_region t) \<le> origin" "origin \<le> snd (scroll_region t)"
  shows "returns (scroll_up_relative E origin k t) (\<lambda>t'. term_ok W cols lines t' \<and> same_view t t')"
  using scroll_up_relative_resetting_ok [OF assms, of E k True]
  by (auto simp: scroll_up_relative_def returns_iff)

lemma term_scroll_ok:
  assumes t: "term_ok W cols lines t"
  shows "returns (term_scroll_up E k t) (\<lambda>t'. term_ok W cols lines t' \<and> same_view t t')"
    and "returns (term_scroll_down E k t) (\<lambda>t'. term_ok W cols lines t' \<and> same_view t t')"
  using scroll_up_relative_ok [OF t order.refl term_region(2) [OF t]]
    scroll_down_relative_ok [OF t order.refl term_region(2) [OF t]]
  by (simp_all add: term_scroll_up_def term_scroll_down_def)

text \<open>Line feeds and wraps move the cursor and may scroll, and nothing else.\<close>

definition same_but_cursor :: "'f terminal \<Rightarrow> 'f terminal \<Rightarrow> bool" where
  "same_but_cursor t t' \<longleftrightarrow> scroll_region t' = scroll_region t \<and> t_mode t' = t_mode t \<and>
     active_charset t' = active_charset t \<and> t_styles t' = t_styles t \<and> pending_style t' = pending_style t \<and>
     c_template (t_cursor t') = c_template (t_cursor t) \<and> c_erase (t_cursor t') = c_erase (t_cursor t) \<and>
     c_charsets (t_cursor t') = c_charsets (t_cursor t)"

lemma same_but_cursor_view: "same_view t t' \<Longrightarrow> same_but_cursor t t'"
  by (simp add: same_view_def same_but_cursor_def)

lemma same_but_cursor_refl [simp]: "same_but_cursor t t"
  by (simp add: same_but_cursor_def)

lemma same_but_cursor_trans: "same_but_cursor t t' \<Longrightarrow> same_but_cursor t' t'' \<Longrightarrow> same_but_cursor t t''"
  by (simp add: same_but_cursor_def)

lemma same_but_cursor_simps [simp]:
  "same_but_cursor t (set_point p t') = same_but_cursor t t'" "same_but_cursor t (set_wrap b t') = same_but_cursor t t'"
  "same_but_cursor t (t'\<lparr>t_damage := d\<rparr>) = same_but_cursor t t'"
  by (simp_all add: same_but_cursor_def set_point_def set_wrap_def at_cursor_def)

lemma damage_cursor_ok:
  assumes "term_ok W cols lines t"
  shows "returns (damage_cursor t) (\<lambda>t'. term_ok W cols lines t' \<and> same_view t t')"
  by (rule returns_mono [OF damage_at_ok(2) [OF assms]]) auto

lemma linefeed_ok:
  assumes t: "term_ok W cols lines t"
  shows "returns (linefeed E t) (\<lambda>t'. term_ok W cols lines t' \<and> same_but_cursor t t' \<and>
    column (cursor_point t') = column (cursor_point t) \<and> line (cursor_point t) \<le> line (cursor_point t'))"
proof -
  let ?l = "line (cursor_point t) + 1"
  consider (scroll) "?l = snd (scroll_region t)" | (move) "?l \<noteq> snd (scroll_region t)" "?l < int (t_lines t)"
    | (stay) "?l \<noteq> snd (scroll_region t)" "\<not> ?l < int (t_lines t)" by blast
  then show ?thesis
  proof cases
    case scroll
    then show ?thesis
      by (auto simp: linefeed_def same_but_cursor_view same_view_def intro: returns_mono [OF term_scroll_ok(1) [OF t]])
  next
    case move
    obtain t1 where t1: "damage_cursor t = Some t1" "term_ok W cols lines t1" "same_view t t1"
      using damage_cursor_ok [OF t] by (auto simp: returns_iff)
    have c: "t_cursor t1 = t_cursor t" using t1(3) by (simp add: same_view_def)
    let ?t = "set_point (Point ?l (column (cursor_point t))) t1"
    have t': "term_ok W cols lines ?t"
      by (rule set_point_ok [OF t1(2)]) (use term_cursor [OF t] move(2) term_dims [OF t] in simp_all)
    obtain t2 where t2: "damage_cursor ?t = Some t2" "term_ok W cols lines t2" "same_view ?t t2"
      using damage_cursor_ok [OF t'] by (auto simp: returns_iff)
    have "linefeed E t = Some t2" using move t1(1) c t2(1) by (simp add: linefeed_def)
    moreover have "same_but_cursor t t2"
      by (rule same_but_cursor_trans [OF _ same_but_cursor_view [OF t2(3)]]) (simp add: same_but_cursor_view [OF t1(3)])
    moreover have "cursor_point t2 = Point ?l (column (cursor_point t))"
      using t2(3) by (simp add: same_view_def)
    ultimately show ?thesis using t2(2) by simp
  qed (use t in \<open>simp add: linefeed_def\<close>)
qed

lemma modify_cursor_cell_ok:
  assumes t: "term_ok W cols lines t" and f: "tame_edit (length (styles (t_styles t))) f"
  shows "returns (on_grid (modify_cursor_cell f) t) (\<lambda>t'. term_ok W cols lines t' \<and> same_view t t')"
proof -
  have m: "returns (modify_cursor_cell f g) (\<lambda>g'. screen_ok (length (styles (t_styles t))) cols lines g' \<and>
      cursor g' = cursor g \<and> saved_cursor g' = saved_cursor g \<and> grid_history g' = grid_history g)"
    if g: "screen_ok (length (styles (t_styles t))) cols lines g" "g = t_grid t" for g
  proof -
    have p: "0 \<le> line (c_point (cursor g))" "line (c_point (cursor g)) < int lines" "column (c_point (cursor g)) < cols"
      using term_cursor [OF t] g(2) by simp_all
    show ?thesis
      using screen_modify_row [OF g(1) _ p(2), of "row_modify (column (c_point (cursor g))) f"] p
        row_fine_modify [OF _ p(3) f]
      by (simp add: modify_cursor_cell_def modify_cell_def modify_row_def)
  qed
  show ?thesis
    by (rule returns_mono [OF on_grid_ok [of W cols lines t "modify_cursor_cell f"
          "\<lambda>g'. cursor g' = t_cursor t", OF t]])
      (use m in \<open>auto simp: returns_iff same_view_def\<close>)
qed

lemma wrapline_recycling_ok:
  assumes t: "term_ok W cols lines t"
  shows "returns (wrapline_recycling E recycle t) (\<lambda>(b, t'). term_ok W cols lines t' \<and> same_but_cursor t t' \<and>
    (has_mode (t_mode t) LINE_WRAP \<longrightarrow> column (cursor_point t') = 0) \<and> (b \<longrightarrow> has_mode (t_mode t) LINE_WRAP))"
proof (cases "has_mode (t_mode t) LINE_WRAP")
  case False
  then show ?thesis using t by (simp add: wrapline_recycling_def)
next
  case True
  obtain t1 where t1: "on_grid (modify_cursor_cell (\<lambda>c. insert_layout c WRAPLINE)) t = Some t1"
    "term_ok W cols lines t1" "same_view t t1"
    using modify_cursor_cell_ok [OF t tame_edits(2) [OF layout_ok_wide(3)]] by (auto simp: returns_iff)
  let ?l = "line (cursor_point t1)"
  let ?m = "if recycle \<and> ?l + 1 = snd (scroll_region t1)
           then scroll_up_relative_resetting E (fst (scroll_region t1)) 1 False t1
           else if snd (scroll_region t1) \<le> ?l + 1 then map_option (Pair False) (linefeed E t1)
           else do { t \<leftarrow> damage_cursor t1; Some (False, set_point (Point (?l + 1) (column (cursor_point t))) t) }"
  have "returns ?m (\<lambda>(b, t'). term_ok W cols lines t' \<and> same_but_cursor t1 t')"
  proof -
    consider (recycle) "recycle \<and> ?l + 1 = snd (scroll_region t1)"
      | (feed) "\<not> (recycle \<and> ?l + 1 = snd (scroll_region t1))" "snd (scroll_region t1) \<le> ?l + 1"
      | (down) "\<not> (recycle \<and> ?l + 1 = snd (scroll_region t1))" "?l + 1 < snd (scroll_region t1)" by linarith
    then show ?thesis
    proof cases
      case recycle
      then show ?thesis
        using scroll_up_relative_resetting_ok [OF t1(2) order.refl term_region(2) [OF t1(2)], of E 1 False]
        by (auto simp: returns_iff same_but_cursor_view)
    next
      case feed
      then show ?thesis using linefeed_ok [OF t1(2), of E] by (auto simp: returns_iff)
    next
      case down
      obtain t2 where t2: "damage_cursor t1 = Some t2" "term_ok W cols lines t2" "same_view t1 t2"
        using damage_cursor_ok [OF t1(2)] by (auto simp: returns_iff)
      have "term_ok W cols lines (set_point (Point (?l + 1) (column (cursor_point t2))) t2)"
        by (rule set_point_ok [OF t2(2)]) (use term_cursor [OF t1(2)] term_cursor [OF t2(2)] term_region [OF t1(2)] down(2) in simp_all)
      then show ?thesis using down t2(1,3) same_but_cursor_view by auto
    qed
  qed
  then obtain b t2 where t2: "?m = Some (b, t2)" "term_ok W cols lines t2" "same_but_cursor t1 t2"
    by (auto simp: returns_iff)
  let ?t = "set_wrap False (set_point (Point (line (cursor_point t2)) 0) t2)"
  have ok: "term_ok W cols lines ?t"
    by (intro set_wrap_ok set_point_ok [OF t2(2)]) (use term_cursor [OF t2(2)] term_dims [OF t2(2)] in simp_all)
  obtain t3 where t3: "damage_cursor ?t = Some t3" "term_ok W cols lines t3" "same_view ?t t3"
    using damage_cursor_ok [OF ok] by (auto simp: returns_iff)
  have "wrapline_recycling E recycle t = Some (b, t3)"
    using True t1(1) t2(1) t3(1) by (simp add: wrapline_recycling_def Let_def)
  moreover have "same_but_cursor t t3"
    by (rule same_but_cursor_trans [OF same_but_cursor_trans [OF same_but_cursor_view [OF t1(3)]] same_but_cursor_view [OF t3(3)]])
      (simp add: t2(3))
  moreover have "column (cursor_point t3) = 0" using t3(3) by (simp add: same_view_def)
  ultimately show ?thesis using t3(2) True by simp
qed

lemma wrapline_ok:
  assumes "term_ok W cols lines t"
  shows "returns (wrapline E t) (\<lambda>t'. term_ok W cols lines t' \<and> same_but_cursor t t' \<and>
    (has_mode (t_mode t) LINE_WRAP \<longrightarrow> column (cursor_point t') = 0))"
  using wrapline_recycling_ok [OF assms, of E False] by (auto simp: wrapline_def returns_iff)

end
