(* ===== verification/Print.thy ===== *)
theory Print
  imports Term
begin

text \<open>
  Printing, \<open>src/terminal/term/mod.rs\<close>: single characters (\<open>input\<close>, \<open>write_at_cursor\<close>), the writers of
  runs of ASCII and of text, and \<open>input_str\<close> and \<open>repeat_char\<close> on top of them. Each is shown to keep
  the invariant of the terminal, and to return: the loops of the run writers end.
\<close>

section \<open>One character\<close>

text \<open>What is left of a wide character of which one half is overwritten.\<close>

definition clear_related :: "cell \<Rightarrow> cell grid \<Rightarrow> cell grid option" where
  "clear_related w g =
     (let p = c_point (cursor g); last = last_column (grid_dims g) in
      do { g \<leftarrow> (if contains (cell_layout w) WIDE_CHAR \<and> column p < last
                then modify_cell (Point (line p) (column p + 1)) (\<lambda>c. remove_layout c WIDE_CHAR_SPACER) g
                else if 0 < column p then modify_cell (Point (line p) (column p - 1)) clear_wide g
                else Some g);
           if column p \<le> 1 \<and> line p \<noteq> topmost_line (grid_dims g)
           then modify_cell (Point (line p - 1) last) (\<lambda>c. remove_layout c LEADING_WIDE_CHAR_SPACER) g
           else Some g })"

definition write_at_cursor :: "('f, 'z) env \<Rightarrow> uchar \<Rightarrow> flags \<Rightarrow> 'f terminal \<Rightarrow> 'f terminal option" where
  "write_at_cursor E c layout t =
     do { charset \<leftarrow> idx (c_charsets (t_cursor t)) (active_charset t);
          let c = charset_map E charset c;
          let style = cell_style (c_template (t_cursor t));
          w \<leftarrow> grid_cell_at (t_grid t) (cursor_point t);
          t \<leftarrow> (if intersects (cell_layout w) (WIDE_CHAR OR WIDE_CHAR_SPACER) then on_grid (clear_related w) t
               else Some t);
          on_grid (modify_cursor_cell (\<lambda>_. cell_write c style layout)) t }"

definition push_zerowidths :: "point \<Rightarrow> uchar list \<Rightarrow> 'f terminal \<Rightarrow> 'f terminal option" where
  "push_zerowidths p cs t =
     on_grid (modify_row (row_update_extra packed_cell_ops (column p) (\<lambda>e. e\<lparr>zerowidth := zerowidth e @ cs\<rparr>))
       (line p)) t"

text \<open>The cell a combining character belongs to.\<close>

definition zerowidth_point :: "'f terminal \<Rightarrow> point option" where
  "zerowidth_point t =
     (let p = cursor_point t; col = (if c_wrap (t_cursor t) then column p else column p - 1) in
      do { w \<leftarrow> grid_cell_at (t_grid t) (Point (line p) col);
           Some (Point (line p) (if contains (cell_layout w) WIDE_CHAR_SPACER then col - 1 else col)) })"

definition shift_right :: "nat \<Rightarrow> nat \<Rightarrow> nat \<Rightarrow> cell list \<Rightarrow> cell list option" where
  "shift_right col cells cols = for_each (\<lambda>k row. swap_at row (k + cells) k) (rev [col..<cols - cells])"

definition set_column :: "nat \<Rightarrow> 'f terminal \<Rightarrow> 'f terminal" where
  "set_column col t = set_point (Point (line (cursor_point t)) col) t"

definition input :: "('f, 'z) env \<Rightarrow> uchar \<Rightarrow> 'f terminal \<Rightarrow> 'f terminal option" where
  "input E c t =
     (case unicode_width E c of
        None \<Rightarrow> Some t
      | Some cells \<Rightarrow>
        if cells = 0 then do { p \<leftarrow> zerowidth_point t; push_zerowidths p [c] t }
        else do {
          t \<leftarrow> (if c_wrap (t_cursor t) then wrapline E t else Some t);
          let cols = t_columns t;
          t \<leftarrow> (if has_mode (t_mode t) INSERT \<and> column (cursor_point t) + cells < cols
               then on_grid (modify_row (row_modify_slice (shift_right (column (cursor_point t)) cells cols))
                      (line (cursor_point t))) t
               else Some t);
          let full = (cols \<le> column (cursor_point t) + 1);
          if cells \<noteq> 1 \<and> full \<and> \<not> has_mode (t_mode t) LINE_WRAP then Some (set_wrap True t)
          else do {
            t \<leftarrow> (if cells = 1 then write_at_cursor E c 0 t
                 else do {
                   t \<leftarrow> (if full then do { t \<leftarrow> write_at_cursor E SPACE LEADING_WIDE_CHAR_SPACER t; wrapline E t }
                        else Some t);
                   t \<leftarrow> write_at_cursor E c WIDE_CHAR t;
                   write_at_cursor E SPACE WIDE_CHAR_SPACER (set_column (column (cursor_point t) + 1) t) });
            Some (if column (cursor_point t) + 1 < cols then set_column (column (cursor_point t) + 1) t
                  else set_wrap True t) } })"

section \<open>Runs\<close>

text \<open>Whether the writers of runs apply.\<close>

definition plain_output :: "'f terminal \<Rightarrow> bool option" where
  "plain_output t =
     do { charset \<leftarrow> idx (c_charsets (t_cursor t)) (active_charset t);
          Some (charset = 0 \<and> \<not> has_mode (t_mode t) INSERT \<and> has_mode (t_mode t) LINE_WRAP) }"

text \<open>The row of the cursor, which a recycling wrap left uncleared or not, given to a writer.\<close>

definition fill_row ::
  "bool \<Rightarrow> nat \<Rightarrow> (bool \<Rightarrow> (cell, 'r) writer) \<Rightarrow> 'f terminal \<Rightarrow> ('r \<times> nat \<times> 'f terminal) option" where
  "fill_row recycled avail writer t =
     (let p = cursor_point t; erase = c_erase (t_cursor t) in
      do { (res, written, g) \<leftarrow>
             edit_row (if recycled then row_reset_with_prefix packed_cell_ops erase avail (writer True)
                       else row_write_prefix (column p) avail (writer False)) (line p) (t_grid t);
           Some (res, written, t\<lparr>t_grid := g\<rparr>) })"

definition after_fill :: "nat \<Rightarrow> 'f terminal \<Rightarrow> 'f terminal" where
  "after_fill written t =
     (let stop = column (cursor_point t) + written
      in set_column (min stop (t_columns t - 1)) (set_wrap (stop = t_columns t) t))"

definition wrap_recycling :: "('f, 'z) env \<Rightarrow> 'f terminal \<Rightarrow> (bool \<times> 'f terminal) option" where
  "wrap_recycling E t = (if c_wrap (t_cursor t) then wrapline_recycling E True t else Some (False, t))"

partial_function (option) ascii_loop ::
  "('f, 'z) env \<Rightarrow> style_id \<Rightarrow> byte list \<Rightarrow> 'f terminal \<Rightarrow> 'f terminal option" where
  "ascii_loop E style bytes t =
     (case bytes of [] \<Rightarrow> Some t
      | b # bs \<Rightarrow>
        if \<not> printable b then do { t \<leftarrow> input E (ucast b) t; ascii_loop E style bs t }
        else do {
          (recycled, t) \<leftarrow> wrap_recycling E t;
          let count = min (t_columns t - column (cursor_point t)) (length bytes);
          (u, written, t) \<leftarrow> fill_row recycled count (\<lambda>fresh. ascii_writer fresh bytes style) t;
          if written = 0 then do { t \<leftarrow> input E (ucast b) t; ascii_loop E style bs t }
          else ascii_loop E style (drop written bytes) (after_fill written t) })"

definition write_ascii_run :: "('f, 'z) env \<Rightarrow> byte list \<Rightarrow> 'f terminal \<Rightarrow> 'f terminal option" where
  "write_ascii_run E bytes t =
     do { plain \<leftarrow> plain_output t;
          if plain then ascii_loop E (cell_style (c_template (t_cursor t))) bytes t
          else for_each (\<lambda>b. input E (ucast b)) bytes t }"

text \<open>\<open>chars\<close> is what a \<open>Chars\<close> iterator over the rest of the text yields.\<close>

partial_function (option) chars_of :: "byte list \<Rightarrow> uchar list option" where
  "chars_of text =
     (case next_char text of None \<Rightarrow> Some []
      | Some (c, rest) \<Rightarrow> do { cs \<leftarrow> chars_of rest; Some (c # cs) })"

text \<open>The zero-width characters at the head of the text, and the text after them.\<close>

partial_function (option) zerowidth_run :: "(uchar \<Rightarrow> nat option) \<Rightarrow> byte list \<Rightarrow> (uchar list \<times> byte list) option" where
  "zerowidth_run uw text =
     (case next_char text of None \<Rightarrow> Some ([], text)
      | Some (c, rest) \<Rightarrow>
        if char_width uw c = Some 0 then do { (cs, rest) \<leftarrow> zerowidth_run uw rest; Some (c # cs, rest) }
        else Some ([], text))"

partial_function (option) text_loop ::
  "('f, 'z) env \<Rightarrow> style_id \<Rightarrow> byte list \<Rightarrow> 'f terminal \<Rightarrow> 'f terminal option" where
  "text_loop E style text t =
     (case next_char text of None \<Rightarrow> Some t
      | Some (c, rest) \<Rightarrow>
        if char_width (unicode_width E) c = Some 0 then do {
          (cs, rest) \<leftarrow> zerowidth_run (unicode_width E) text;
          p \<leftarrow> zerowidth_point t;
          t \<leftarrow> push_zerowidths p cs t;
          text_loop E style rest t }
        else if char_width (unicode_width E) c \<in> {Some 1, Some 2} then do {
          (recycled, t) \<leftarrow> wrap_recycling E t;
          (rest', written, t) \<leftarrow> fill_row recycled (t_columns t - column (cursor_point t))
            (\<lambda>fresh. chars_writer (unicode_width E) fresh (the (char_width (unicode_width E) c)) style text) t;
          if written = 0 then do { t \<leftarrow> input E c t; text_loop E style rest t }
          else text_loop E style rest' (after_fill written t) }
        else do { t \<leftarrow> input E c t; text_loop E style rest t })"

definition write_text_run :: "('f, 'z) env \<Rightarrow> byte list \<Rightarrow> 'f terminal \<Rightarrow> 'f terminal option" where
  "write_text_run E text t =
     do { plain \<leftarrow> plain_output t;
          if plain then text_loop E (cell_style (c_template (t_cursor t))) text t
          else do { cs \<leftarrow> chars_of text; for_each (input E) cs t } }"

definition input_str :: "('f, 'z) env \<Rightarrow> byte list \<Rightarrow> 'f terminal \<Rightarrow> 'f terminal option" where
  "input_str E text t =
     (if length text = 1 then input E (ucast (hd text)) t
      else if list_all (\<lambda>b. b < 0x80) text then write_ascii_run E text t
      else write_text_run E text t)"

definition CHUNK :: nat where "CHUNK = 256"

text \<open>The loops of \<open>repeat_char\<close>, which print \<open>per_chunk\<close> characters at a time.\<close>

partial_function (option) in_chunks ::
  "nat \<Rightarrow> (nat \<Rightarrow> 'f terminal \<Rightarrow> 'f terminal option) \<Rightarrow> nat \<Rightarrow> 'f terminal \<Rightarrow> 'f terminal option" where
  "in_chunks per_chunk print left t =
     (if 0 < left then do { t \<leftarrow> print (min left per_chunk) t; in_chunks per_chunk print (left - min left per_chunk) t }
      else Some t)"

definition repeat_char :: "('f, 'z) env \<Rightarrow> uchar \<Rightarrow> nat \<Rightarrow> 'f terminal \<Rightarrow> 'f terminal option" where
  "repeat_char E c count t =
     (if 0x20 \<le> c \<and> c \<le> 0x7E
      then in_chunks CHUNK (\<lambda>n. write_ascii_run E (replicate n (ucast c))) count t
      else in_chunks (CHUNK div length (utf8 c)) (\<lambda>n. input_str E (text_of (replicate n c))) count t)"
section \<open>Printing keeps the invariant\<close>

text \<open>What is assumed of the crates: see the header.\<close>

definition env_ok :: "('f, 'z) env \<Rightarrow> bool" where
  "env_ok E \<longleftrightarrow> crates_ok (gfx E) \<and> (\<forall>n c. is_scalar c \<longrightarrow> is_scalar (charset_map E n c)) \<and>
     (\<forall>c. charset_map E 0 c = c) \<and> (\<forall>c. 0x20 \<le> c \<and> c \<le> 0x7E \<longrightarrow> unicode_width E c = Some 1) \<and>
     (\<forall>c. 0x4E00 \<le> c \<and> c \<le> 0x9FFF \<longrightarrow> unicode_width E c = Some 2) \<and>
     byte_search (search_byte E) (search_slice E)"

definition same_frame :: "cell grid \<Rightarrow> cell grid \<Rightarrow> bool" where
  "same_frame g g' \<longleftrightarrow> cursor g' = cursor g \<and> saved_cursor g' = saved_cursor g \<and> grid_history g' = grid_history g"

lemma screen_cell_at:
  assumes "screen_ok n cols lines g" "- int (grid_history g) \<le> line p" "line p < int lines" "column p < cols"
  obtains w where "grid_cell_at g p = Some w"
proof -
  obtain r where "storage_get (raw g) (line p) = Some r" "row_fine n cols r" by (rule screen_row_at [OF assms(1-3)])
  then show thesis using assms(4) that by (auto simp: grid_cell_at_def row_get_def row_fine_def idx_def)
qed

lemma screen_modify_cell:
  assumes g: "screen_ok n cols lines g" and p: "- int (grid_history g) \<le> line p" "line p < int lines" "column p < cols"
    and f: "tame_edit n f"
  shows "returns (modify_cell p f g) (\<lambda>g'. screen_ok n cols lines g' \<and> same_frame g g')"
  using screen_modify_row [OF g p(1,2), of "row_modify (column p) f", OF row_fine_modify [OF _ p(3) f]]
  by (simp add: modify_cell_def modify_row_def same_frame_def)

lemma clear_related_ok:
  assumes g: "screen_ok n cols lines g"
  shows "returns (clear_related w g) (\<lambda>g'. screen_ok n cols lines g' \<and> same_frame g g')"
proof -
  let ?p = "c_point (cursor g)" and ?last = "last_column (grid_dims g)"
  have p: "0 \<le> line ?p" "line ?p < int lines" "column ?p < cols" using g by (auto simp: screen_ok_def cursor_ok_def)
  have last: "?last = cols - 1" using g by (simp add: screen_ok_def last_column_def grid_dims_def)
  let ?m = "if contains (cell_layout w) WIDE_CHAR \<and> column ?p < ?last
    then modify_cell (Point (line ?p) (column ?p + 1)) (\<lambda>c. remove_layout c WIDE_CHAR_SPACER) g
    else if 0 < column ?p then modify_cell (Point (line ?p) (column ?p - 1)) clear_wide g else Some g"
  have "returns ?m (\<lambda>g'. screen_ok n cols lines g' \<and> same_frame g g')"
    using screen_modify_cell [OF g _ _ _ tame_edits(3), of "Point (line ?p) (column ?p + 1)" WIDE_CHAR_SPACER]
      screen_modify_cell [OF g _ _ _ tame_edits(4), of "Point (line ?p) (column ?p - 1)"] p last g
    by (auto simp: same_frame_def)
  moreover have "returns (if column ?p \<le> 1 \<and> line ?p \<noteq> topmost_line (grid_dims g1)
      then modify_cell (Point (line ?p - 1) ?last) (\<lambda>c. remove_layout c LEADING_WIDE_CHAR_SPACER) g1 else Some g1)
      (\<lambda>g'. screen_ok n cols lines g' \<and> same_frame g g')" if g1: "screen_ok n cols lines g1 \<and> same_frame g g1" for g1
  proof (cases "column ?p \<le> 1 \<and> line ?p \<noteq> topmost_line (grid_dims g1)")
    case True
    then have "- int (grid_history g1) \<le> line ?p - 1" using p(1) by (auto simp: topmost_line_def)
    then have "returns (modify_cell (Point (line ?p - 1) ?last) (\<lambda>c. remove_layout c LEADING_WIDE_CHAR_SPACER) g1)
        (\<lambda>g'. screen_ok n cols lines g' \<and> same_frame g1 g')"
      by (intro screen_modify_cell tame_edits) (use g1 p last in auto)
    then show ?thesis using True g1 by (auto simp: same_frame_def returns_iff)
  qed (use g1 in auto)
  ultimately show ?thesis
    unfolding clear_related_def Let_def returns_bind by (rule returns_mono)
qed

lemma on_grid_frame:
  assumes t: "term_ok W cols lines t"
    and f: "screen_ok (length (styles (t_styles t))) cols lines (t_grid t) \<Longrightarrow>
      returns (f (t_grid t)) (\<lambda>g. screen_ok (length (styles (t_styles t))) cols lines g \<and> same_frame (t_grid t) g)"
  shows "returns (on_grid f t) (\<lambda>t'. term_ok W cols lines t' \<and> same_view t t')"
  by (rule returns_mono [OF on_grid_ok [where f = f, OF t f]]) (auto simp: same_view_def same_frame_def)

lemma write_at_cursor_ok:
  assumes E: "env_ok E" and t: "term_ok W cols lines t" and c: "is_scalar c" "layout_ok layout"
  shows "returns (write_at_cursor E c layout t) (\<lambda>t'. term_ok W cols lines t' \<and> same_view t t')"
proof -
  have cs: "active_charset t < length (c_charsets (t_cursor t))" using t by (simp add: term_ok_def screen_ok_def cursor_ok_def)
  let ?set = "c_charsets (t_cursor t) ! active_charset t" and ?n = "length (styles (t_styles t))"
  have screen: "screen_ok ?n cols lines (t_grid t)" using t by (simp add: term_ok_def)
  have p: "- int (grid_history (t_grid t)) \<le> line (cursor_point t)" using term_cursor(2) [OF t] by linarith
  obtain w where w: "grid_cell_at (t_grid t) (cursor_point t) = Some w"
    using screen_cell_at [OF screen p term_cursor(3,4) [OF t]] .
  have v: "valid_cell ?n (c_template (t_cursor t))" using term_cursor(1) [OF t] by (simp add: cursor_ok_def plain_cell_def)
  have "returns (if intersects (cell_layout w) (WIDE_CHAR OR WIDE_CHAR_SPACER) then on_grid (clear_related w) t else Some t)
      (\<lambda>t'. term_ok W cols lines t' \<and> same_view t t')"
    using on_grid_frame [of W cols lines t "clear_related w", OF t clear_related_ok] t by simp
  moreover have "returns (on_grid (modify_cursor_cell (\<lambda>_. cell_write (charset_map E ?set c) (cell_style (c_template (t_cursor t))) layout)) t1)
      (\<lambda>t'. term_ok W cols lines t' \<and> same_view t t')" if t1: "term_ok W cols lines t1 \<and> same_view t t1" for t1
  proof -
    have "tame_edit (length (styles (t_styles t1))) (\<lambda>_. cell_write (charset_map E ?set c) (cell_style (c_template (t_cursor t))) layout)"
      by (intro tame_write) (use v t1 c E in \<open>auto simp: same_view_def env_ok_def\<close>)
    from modify_cursor_cell_ok [OF conjunct1 [OF t1] this] show ?thesis
      by (rule returns_mono) (use t1 same_view_trans in blast)
  qed
  ultimately show ?thesis
    using cs w by (auto simp: write_at_cursor_def Let_def intro: returns_mono)
qed

lemma zerowidth_point_ok:
  assumes t: "term_ok W cols lines t"
  shows "returns (zerowidth_point t) (\<lambda>p. line p = line (cursor_point t) \<and> column p < cols)"
proof -
  have screen: "screen_ok (length (styles (t_styles t))) cols lines (t_grid t)" using t by (simp add: term_ok_def)
  let ?p = "Point (line (cursor_point t)) (if c_wrap (t_cursor t) then column (cursor_point t) else column (cursor_point t) - 1)"
  have "- int (grid_history (t_grid t)) \<le> line ?p" "line ?p < int lines" "column ?p < cols"
    using term_cursor [OF t] by auto
  then obtain w where "grid_cell_at (t_grid t) ?p = Some w" by (rule screen_cell_at [OF screen])
  then show ?thesis using term_cursor(4) [OF t] by (auto simp: zerowidth_point_def Let_def intro: le_less_trans [OF diff_le_self])
qed

lemma push_zerowidths_ok:
  assumes t: "term_ok W cols lines t" and p: "line p = line (cursor_point t)" "column p < cols"
  shows "returns (push_zerowidths p cs t) (\<lambda>t'. term_ok W cols lines t' \<and> same_view t t')"
  unfolding push_zerowidths_def
proof (rule on_grid_frame [OF t])
  let ?n = "length (styles (t_styles t))"
  let ?f = "row_update_extra packed_cell_ops (column p) (\<lambda>e. e\<lparr>zerowidth := zerowidth e @ cs\<rparr>)"
  assume g: "screen_ok ?n cols lines (t_grid t)"
  have "returns (modify_row ?f (line p) (t_grid t)) (\<lambda>g'. screen_ok ?n cols lines g' \<and> cursor g' = cursor (t_grid t) \<and>
      saved_cursor g' = saved_cursor (t_grid t) \<and> grid_history g' = grid_history (t_grid t))"
    by (rule screen_modify_row [OF g _ _ row_fine_extra]) (use p term_cursor [OF t] term_dims [OF t] in auto)
  then show "returns (modify_row ?f (line p) (t_grid t)) (\<lambda>g'. screen_ok ?n cols lines g' \<and> same_frame (t_grid t) g')"
    by (simp add: same_frame_def)
qed
text \<open>Steps one after the other.\<close>

lemma then_ok:
  assumes "returns m (\<lambda>t'. term_ok W cols lines t' \<and> same_but_cursor t t')"
    and "\<And>t'. m = Some t' \<Longrightarrow> term_ok W cols lines t' \<Longrightarrow> same_but_cursor t t' \<Longrightarrow>
      returns (f t') (\<lambda>t''. term_ok W cols lines t'' \<and> same_but_cursor t' t'')"
  shows "returns (Option.bind m f) (\<lambda>t''. term_ok W cols lines t'' \<and> same_but_cursor t t'')"
  using assms by (fastforce simp: returns_iff elim: same_but_cursor_trans)

lemma later_ok:
  "returns m (\<lambda>t''. term_ok W cols lines t'' \<and> same_but_cursor t' t'') \<Longrightarrow> same_but_cursor t t' \<Longrightarrow>
    returns m (\<lambda>t''. term_ok W cols lines t'' \<and> same_but_cursor t t'')"
  by (erule returns_mono) (blast intro: same_but_cursor_trans)

lemma view_ok:
  "returns m (\<lambda>t'. term_ok W cols lines t' \<and> same_view t t') \<Longrightarrow>
    returns m (\<lambda>t'. term_ok W cols lines t' \<and> same_but_cursor t t')"
  by (erule returns_mono) (simp add: same_but_cursor_view)

lemma set_column_ok:
  assumes "term_ok W cols lines t" "col < cols"
  shows "term_ok W cols lines (set_column col t)"
  unfolding set_column_def by (rule set_point_ok [OF assms(1)]) (use term_cursor [OF assms(1)] assms(2) in auto)

lemma set_column_sel [simp]:
  "cursor_point (set_column col t) = Point (line (cursor_point t)) col" "same_but_cursor t (set_column col t') = same_but_cursor t t'"
  by (simp_all add: set_column_def)

lemma shift_right_ok:
  assumes r: "row_fine n cols r" and "col + k < cols"
  shows "returns (row_modify_slice (shift_right col k cols) r) (row_fine n cols)"
proof (rule row_fine_slice [OF r])
  let ?I = "\<lambda>cs. length cs = cols \<and> set cs \<subseteq> set (inner r)"
  have "returns (shift_right col k cols (inner r)) ?I"
    unfolding shift_right_def
  proof (rule for_each_inv)
    fix j cs assume j: "j \<in> set (rev [col..<cols - k])" and I: "?I cs"
    then have b: "j + k < length cs" "j < length cs" by auto
    then have "set (cs[j + k := cs ! j, j := cs ! (j + k)]) = set cs" by (simp add: set_swap)
    then show "returns (swap_at cs (j + k) j) ?I" using b I by simp
  qed (use r in \<open>simp add: row_fine_def\<close>)
  then show "returns (shift_right col k cols (inner r))
      (\<lambda>cs. length cs = cols \<and> (\<forall>c \<in> set cs. c \<in> set (inner r) \<or> plain_cell n c))"
    by (rule returns_mono) auto
qed

lemma modify_line_ok:
  assumes t: "term_ok W cols lines t" and f: "\<And>r. row_fine (length (styles (t_styles t))) cols r \<Longrightarrow>
    returns (f r) (row_fine (length (styles (t_styles t))) cols)"
  shows "returns (on_grid (modify_row f (line (cursor_point t))) t) (\<lambda>t'. term_ok W cols lines t' \<and> same_view t t')"
proof (rule on_grid_frame [OF t])
  let ?n = "length (styles (t_styles t))"
  assume g: "screen_ok ?n cols lines (t_grid t)"
  have "returns (modify_row f (line (cursor_point t)) (t_grid t)) (\<lambda>g'. screen_ok ?n cols lines g' \<and> cursor g' = cursor (t_grid t) \<and>
      saved_cursor g' = saved_cursor (t_grid t) \<and> grid_history g' = grid_history (t_grid t))"
    by (rule screen_modify_row [OF g _ _ f]) (use term_cursor [OF t] in auto)
  then show "returns (modify_row f (line (cursor_point t)) (t_grid t)) (\<lambda>g'. screen_ok ?n cols lines g' \<and> same_frame (t_grid t) g')"
    by (simp add: same_frame_def)
qed

lemma wrapline_keeps:
  assumes "term_ok W cols lines t"
  shows "returns (wrapline E t) (\<lambda>t'. term_ok W cols lines t' \<and> same_but_cursor t t')"
  by (rule returns_mono [OF wrapline_ok [OF assms]]) simp

lemma write_wide_ok:
  assumes E: "env_ok E" and t: "term_ok W cols lines t" and c: "is_scalar c" and room: "column (cursor_point t) + 1 < cols"
  shows "returns (do { t \<leftarrow> write_at_cursor E c WIDE_CHAR t;
      write_at_cursor E SPACE WIDE_CHAR_SPACER (set_column (column (cursor_point t) + 1) t) })
    (\<lambda>t'. term_ok W cols lines t' \<and> same_but_cursor t t')"
proof -
  obtain t1 where t1: "write_at_cursor E c WIDE_CHAR t = Some t1" "term_ok W cols lines t1" "same_view t t1"
    using write_at_cursor_ok [OF E t c layout_ok_wide(1)] by (auto simp: returns_iff)
  let ?t = "set_column (column (cursor_point t1) + 1) t1"
  have "term_ok W cols lines ?t" by (rule set_column_ok [OF t1(2)]) (use t1(3) room in \<open>simp add: same_view_def\<close>)
  from view_ok [OF write_at_cursor_ok [OF E this is_scalar_SPACE layout_ok_wide(2)]]
  have "returns (write_at_cursor E SPACE WIDE_CHAR_SPACER ?t) (\<lambda>t'. term_ok W cols lines t' \<and> same_but_cursor ?t t')" .
  then show ?thesis
    using t1(1) same_but_cursor_view [OF t1(3)]
    by (auto elim!: returns_mono intro: same_but_cursor_trans [of t t1] simp: same_but_cursor_def set_column_def
        set_point_def at_cursor_def)
qed
lemma layout_ok_leading [simp]: "layout_ok LEADING_WIDE_CHAR_SPACER"
  by (simp add: layout_ok_bits bit_flags)

lemma finish_input_ok:
  assumes t: "term_ok W cols lines t"
  shows "term_ok W cols lines (if column (cursor_point t) + 1 < cols then set_column (column (cursor_point t) + 1) t
    else set_wrap True t) \<and>
    same_but_cursor t (if column (cursor_point t) + 1 < cols then set_column (column (cursor_point t) + 1) t
    else set_wrap True t)"
  using t set_column_ok [OF t] by simp

lemma leading_spacer_ok:
  assumes E: "env_ok E" and t: "term_ok W cols lines t" and wrap: "has_mode (t_mode t) LINE_WRAP"
  shows "returns (do { t \<leftarrow> write_at_cursor E SPACE LEADING_WIDE_CHAR_SPACER t; wrapline E t })
    (\<lambda>t'. (term_ok W cols lines t' \<and> same_but_cursor t t') \<and> column (cursor_point t') = 0)"
proof -
  obtain t1 where t1: "write_at_cursor E SPACE LEADING_WIDE_CHAR_SPACER t = Some t1" "term_ok W cols lines t1" "same_view t t1"
    using write_at_cursor_ok [OF E t is_scalar_SPACE layout_ok_leading] by (auto simp: returns_iff)
  then have "has_mode (t_mode t1) LINE_WRAP" using wrap by (simp add: same_view_def)
  then show ?thesis
    using t1 wrapline_ok [OF t1(2)] same_but_cursor_trans [OF same_but_cursor_view [OF t1(3)]]
    by (auto simp: returns_iff)
qed

text \<open>A character of positive width, after the pending wrap and the shift of insert mode.\<close>

lemma print_char_ok:
  assumes E: "env_ok E" and t: "term_ok W cols lines t" and c: "is_scalar c" and n: "n \<noteq> 0"
    and full: "full = (cols \<le> column (cursor_point t) + 1)"
  shows "returns (if n \<noteq> 1 \<and> full \<and> \<not> has_mode (t_mode t) LINE_WRAP then Some (set_wrap True t)
    else do {
      t \<leftarrow> (if n = 1 then write_at_cursor E c 0 t
           else do {
             t \<leftarrow> (if full then do { t \<leftarrow> write_at_cursor E SPACE LEADING_WIDE_CHAR_SPACER t; wrapline E t } else Some t);
             t \<leftarrow> write_at_cursor E c WIDE_CHAR t;
             write_at_cursor E SPACE WIDE_CHAR_SPACER (set_column (column (cursor_point t) + 1) t) });
      Some (if column (cursor_point t) + 1 < cols then set_column (column (cursor_point t) + 1) t else set_wrap True t) })
    (\<lambda>t'. term_ok W cols lines t' \<and> same_but_cursor t t')"
proof (cases "n \<noteq> 1 \<and> full \<and> \<not> has_mode (t_mode t) LINE_WRAP")
  case True
  then show ?thesis using t by simp
next
  case False
  let ?wrapped = "if full then do { t \<leftarrow> write_at_cursor E SPACE LEADING_WIDE_CHAR_SPACER t; wrapline E t } else Some t"
  have "returns (if n = 1 then write_at_cursor E c 0 t else do { t \<leftarrow> ?wrapped;
      t \<leftarrow> write_at_cursor E c WIDE_CHAR t;
      write_at_cursor E SPACE WIDE_CHAR_SPACER (set_column (column (cursor_point t) + 1) t) })
    (\<lambda>t'. term_ok W cols lines t' \<and> same_but_cursor t t')"
  proof (cases "n = 1")
    case True
    then show ?thesis using view_ok [OF write_at_cursor_ok [OF E t c layout_ok_0]] by simp
  next
    case wide: False
    have w: "returns ?wrapped (\<lambda>t'. (term_ok W cols lines t' \<and> same_but_cursor t t') \<and> column (cursor_point t') + 1 < cols)"
      using wide False t full returns_mono [OF leading_spacer_ok [OF E t]] term_dims(3) [OF t] by auto
    have "returns (do { t \<leftarrow> ?wrapped; t \<leftarrow> write_at_cursor E c WIDE_CHAR t;
        write_at_cursor E SPACE WIDE_CHAR_SPACER (set_column (column (cursor_point t) + 1) t) })
      (\<lambda>t'. term_ok W cols lines t' \<and> same_but_cursor t t')"
      by (rule then_ok [OF returns_mono [OF w]], erule conjunct1, rule write_wide_ok [OF E _ c])
        (use w in \<open>auto simp: returns_iff\<close>)
    then show ?thesis using wide by simp
  qed
  then show ?thesis
    unfolding if_not_P [OF False] by (rule then_ok) (unfold returns_Some, rule finish_input_ok)
qed

lemma input_ok:
  assumes E: "env_ok E" and t: "term_ok W cols lines t" and c: "is_scalar c"
  shows "returns (input E c t) (\<lambda>t'. term_ok W cols lines t' \<and> same_but_cursor t t')"
proof (cases "unicode_width E c")
  case None
  then show ?thesis using t by (simp add: input_def)
next
  case (Some n)
  show ?thesis
  proof (cases "n = 0")
    case True
    obtain p where p: "zerowidth_point t = Some p" "line p = line (cursor_point t)" "column p < cols"
      using zerowidth_point_ok [OF t] by (auto simp: returns_iff)
    then show ?thesis using Some True view_ok [OF push_zerowidths_ok [OF t p(2,3)]] by (simp add: input_def)
  next
    case False
    have wrap: "returns (if c_wrap (t_cursor t) then wrapline E t else Some t) (\<lambda>t'. term_ok W cols lines t' \<and> same_but_cursor t t')"
      using wrapline_keeps [OF t, of E] t by simp
    have shift: "returns (if has_mode (t_mode t1) INSERT \<and> column (cursor_point t1) + n < cols
        then on_grid (modify_row (row_modify_slice (shift_right (column (cursor_point t1)) n cols)) (line (cursor_point t1))) t1
        else Some t1) (\<lambda>t'. term_ok W cols lines t' \<and> same_but_cursor t1 t')" if t1: "term_ok W cols lines t1" for t1
      using view_ok [OF modify_line_ok [OF t1 shift_right_ok]] t1 by simp
    show ?thesis
      unfolding input_def Some option.case if_not_P [OF False]
      apply (rule then_ok [OF wrap])
      subgoal for t1
        unfolding Let_def
        apply (simp only: term_dims(1))
        apply (rule then_ok [OF shift], assumption)
        by (rule print_char_ok [OF E _ c False]) simp_all
      done
  qed
qed
section \<open>Runs keep the invariant\<close>

abbreviation template_style_id :: "'f terminal \<Rightarrow> style_id" where
  "template_style_id t \<equiv> cell_style (c_template (t_cursor t))"

lemma wrap_recycling_ok:
  assumes t: "term_ok W cols lines t"
  shows "returns (wrap_recycling E t) (\<lambda>(b, t'). term_ok W cols lines t' \<and> same_but_cursor t t' \<and>
    (b \<longrightarrow> column (cursor_point t') = 0))"
  using wrapline_recycling_ok [OF t, of E True] t by (auto simp: wrap_recycling_def returns_iff)

lemma fill_row_ok:
  assumes t: "term_ok W cols lines t" and avail: "column (cursor_point t) + avail \<le> cols"
    and recycled: "recycled \<longrightarrow> column (cursor_point t) = 0"
    and plain: "\<And>r. row_fine (length (styles (t_styles t))) cols r \<Longrightarrow>
      returns (row_write_prefix (column (cursor_point t)) avail (writer False) r)
        (\<lambda>(res, k, r'). Q res k \<and> row_fine (length (styles (t_styles t))) cols r')"
    and fresh: "\<And>r e. row_fine (length (styles (t_styles t))) cols r \<Longrightarrow> valid_cell (length (styles (t_styles t))) e \<Longrightarrow>
      returns (row_reset_with_prefix packed_cell_ops e avail (writer True) r)
        (\<lambda>(res, k, r'). Q res k \<and> row_fine (length (styles (t_styles t))) cols r')"
  shows "returns (fill_row recycled avail writer t) (\<lambda>(res, k, t'). Q res k \<and> term_ok W cols lines t' \<and> same_view t t')"
proof -
  let ?n = "length (styles (t_styles t))"
  let ?f = "if recycled then row_reset_with_prefix packed_cell_ops (c_erase (t_cursor t)) avail (writer True)
    else row_write_prefix (column (cursor_point t)) avail (writer False)"
  have g: "screen_ok ?n cols lines (t_grid t)" using t by (simp add: term_ok_def)
  have e: "valid_cell ?n (c_erase (t_cursor t))" using term_cursor(1) [OF t] by (simp add: cursor_ok_def plain_cell_def)
  have f: "returns (?f r) (\<lambda>(res, k, r'). Q res k \<and> row_fine ?n cols r')" if "row_fine ?n cols r" for r
    using plain [OF that] fresh [OF that e] by (cases recycled) simp_all
  have "returns (edit_row ?f (line (cursor_point t)) (t_grid t)) (\<lambda>(a, b, g'). Q a b \<and> screen_ok ?n cols lines g' \<and>
      cursor g' = cursor (t_grid t) \<and> saved_cursor g' = saved_cursor (t_grid t) \<and> grid_history g' = grid_history (t_grid t))"
    by (rule screen_edit_row [OF g _ _ f]) (use term_cursor [OF t] in auto)
  then show ?thesis
    using t by (auto simp: fill_row_def Let_def returns_iff term_ok_def same_view_def)
qed

lemma after_fill_ok:
  assumes t: "term_ok W cols lines t"
  shows "term_ok W cols lines (after_fill k t) \<and> same_but_cursor t (after_fill k t)"
proof -
  let ?stop = "column (cursor_point t) + k"
  have "term_ok W cols lines (set_column (min ?stop (t_columns t - 1)) (set_wrap (?stop = t_columns t) t))"
    by (rule set_column_ok [OF set_wrap_ok [OF t]]) (use term_dims [OF t] in auto)
  then show ?thesis by (simp add: after_fill_def Let_def)
qed

lemma template_valid: "term_ok W cols lines t \<Longrightarrow> valid_cell (length (styles (t_styles t))) (c_template (t_cursor t))"
  using term_cursor(1) by (auto simp: cursor_ok_def plain_cell_def)

lemma fill_ascii_ok:
  assumes t: "term_ok W cols lines t" and avail: "column (cursor_point t) + avail \<le> cols"
    and recycled: "recycled \<longrightarrow> column (cursor_point t) = 0"
  shows "returns (fill_row recycled avail (\<lambda>fresh. ascii_writer fresh bytes (template_style_id t)) t)
    (\<lambda>(_, k, t'). (k \<le> avail \<and> k \<le> length bytes) \<and> term_ok W cols lines t' \<and> same_view t t')"
proof (rule fill_row_ok [OF t avail recycled])
  let ?n = "length (styles (t_styles t))"
  note v = template_valid [OF t]
  fix r e assume r: "row_fine ?n cols r"
  show "returns (row_write_prefix (column (cursor_point t)) avail (ascii_writer False bytes (template_style_id t)) r)
      (\<lambda>(res, k, r'). (k \<le> avail \<and> k \<le> length bytes) \<and> row_fine ?n cols r')"
    using row_fine_ascii [OF r avail v, of bytes] by (rule returns_mono) auto
  show "returns (row_reset_with_prefix packed_cell_ops e avail (ascii_writer True bytes (template_style_id t)) r)
      (\<lambda>(res, k, r'). (k \<le> avail \<and> k \<le> length bytes) \<and> row_fine ?n cols r')" if e: "valid_cell ?n e"
    by (rule returns_mono [OF row_fine_recycled(1) [OF r _ _ e v]]) (use avail term_dims [OF t] in auto)
qed

lemma fill_chars_ok:
  assumes t: "term_ok W cols lines t" and avail: "column (cursor_point t) + avail \<le> cols"
    and recycled: "recycled \<longrightarrow> column (cursor_point t) = 0"
    and cs: "list_all is_scalar cs" "w = 1 \<or> w = 2"
  shows "returns (fill_row recycled avail (\<lambda>fresh. chars_writer uw fresh w (template_style_id t) (text_of cs)) t)
    (\<lambda>(rest, k, t'). (k \<le> avail \<and> (\<exists>pre cs'. rest = text_of cs' \<and> cs = pre @ cs' \<and> (k = 0 \<longleftrightarrow> pre = []))) \<and>
      term_ok W cols lines t' \<and> same_view t t')"
proof (rule fill_row_ok [OF t avail recycled])
  let ?n = "length (styles (t_styles t))"
  let ?Q = "\<lambda>rest k. k \<le> avail \<and> (\<exists>pre cs'. rest = text_of cs' \<and> cs = pre @ cs' \<and> (k = 0 \<longleftrightarrow> pre = []))"
  note v = template_valid [OF t]
  fix r e assume r: "row_fine ?n cols r"
  show "returns (row_write_prefix (column (cursor_point t)) avail (chars_writer uw False w (template_style_id t) (text_of cs)) r)
      (\<lambda>(rest, k, r'). ?Q rest k \<and> row_fine ?n cols r')"
    using row_fine_chars [OF r avail v cs, of uw] by (rule returns_mono) auto
  show "returns (row_reset_with_prefix packed_cell_ops e avail (chars_writer uw True w (template_style_id t) (text_of cs)) r)
      (\<lambda>(rest, k, r'). ?Q rest k \<and> row_fine ?n cols r')" if e: "valid_cell ?n e"
    by (rule returns_mono [OF row_fine_recycled(2) [OF r _ _ e v cs]]) (use avail term_dims [OF t] in auto)
qed

lemma ascii_loop_ok:
  assumes E: "env_ok E"
  shows "term_ok W cols lines t \<Longrightarrow> style = template_style_id t \<Longrightarrow>
    returns (ascii_loop E style bytes t) (\<lambda>t'. term_ok W cols lines t' \<and> same_but_cursor t t')"
proof (induction "length bytes" arbitrary: bytes t rule: less_induct)
  case less
  note t = less.prems(1)
  have tmpl: "style = template_style_id t'" if "same_but_cursor t t'" for t'
    using that less.prems(2) by (simp add: same_but_cursor_def)
  show ?case
  proof (cases bytes)
    case Nil
    then show ?thesis using t by (simp add: ascii_loop.simps)
  next
    case (Cons b bs)
    have rest: "returns (ascii_loop E style bytes' t') (\<lambda>t''. term_ok W cols lines t'' \<and> same_but_cursor t' t'')"
      if "length bytes' < length bytes" "term_ok W cols lines t'" "same_but_cursor t t'" for bytes' t'
      by (rule less.hyps [OF that(1,2) tmpl [OF that(3)]])
    have one: "returns (do { t \<leftarrow> input E (ucast b) t'; ascii_loop E style bs t })
        (\<lambda>t''. term_ok W cols lines t'' \<and> same_but_cursor t' t'')" if "term_ok W cols lines t'" "same_but_cursor t t'" for t'
      by (rule then_ok [OF input_ok [OF E that(1) is_scalar_byte]], rule rest)
        (use Cons that(2) same_but_cursor_trans in auto)
    show ?thesis
    proof (cases "printable b")
      case False
      then show ?thesis using Cons one [OF t same_but_cursor_refl] by (simp add: ascii_loop.simps [of E style "b # bs"])
    next
      case True
      obtain recycled t1 where t1: "wrap_recycling E t = Some (recycled, t1)" "term_ok W cols lines t1" "same_but_cursor t t1"
        "recycled \<longrightarrow> column (cursor_point t1) = 0"
        using wrap_recycling_ok [OF t, of E] by (auto simp: returns_iff)
      let ?count = "min (t_columns t1 - column (cursor_point t1)) (length bytes)"
      have "column (cursor_point t1) + ?count \<le> cols" using term_cursor(4) [OF t1(2)] term_dims(1) [OF t1(2)] by simp
      from fill_ascii_ok [OF t1(2) this t1(4), of bytes]
      obtain u k t2 where t2: "fill_row recycled ?count (\<lambda>fresh. ascii_writer fresh bytes style) t1 = Some (u, k, t2)"
        "k \<le> length bytes" "term_ok W cols lines t2" "same_view t1 t2"
        unfolding tmpl [OF t1(3)] by (auto simp: returns_iff)
      have s2: "same_but_cursor t t2" by (rule same_but_cursor_trans [OF t1(3) same_but_cursor_view [OF t2(4)]])
      have after: "term_ok W cols lines (after_fill k t2)" "same_but_cursor t (after_fill k t2)"
        using after_fill_ok [OF t2(3), of k] same_but_cursor_trans [OF s2] by simp_all
      have "returns (if k = 0 then do { t \<leftarrow> input E (ucast b) t2; ascii_loop E style bs t }
          else ascii_loop E style (drop k bytes) (after_fill k t2)) (\<lambda>t''. term_ok W cols lines t'' \<and> same_but_cursor t t'')"
      proof (cases "k = 0")
        case True
        then show ?thesis using later_ok [OF one [OF t2(3) s2] s2] by simp
      next
        case False
        have len: "length (drop k bytes) < length bytes" using False Cons by simp
        from later_ok [OF rest [OF len after] after(2)] show ?thesis using False by simp
      qed
      then show ?thesis
        using True t1(1) t2(1) unfolding Cons by (simp add: ascii_loop.simps [of E style "b # bs"] Let_def)
    qed
  qed
qed
lemma next_char_text [simp]: "next_char (text_of []) = None" "is_scalar c \<Longrightarrow> next_char (text_of (c # cs)) = Some (c, text_of cs)"
  by (simp_all add: next_char_utf8)

lemma chars_of_text: "list_all is_scalar cs \<Longrightarrow> chars_of (text_of cs) = Some cs"
  by (induction cs) (simp_all add: chars_of.simps [of "text_of cs" for cs] del: text_of_simps)

lemma zerowidth_run_text:
  "list_all is_scalar cs \<Longrightarrow> zerowidth_run uw (text_of cs) =
    Some (takeWhile (\<lambda>c. char_width uw c = Some 0) cs, text_of (dropWhile (\<lambda>c. char_width uw c = Some 0) cs))"
  by (induction cs) (simp_all add: zerowidth_run.simps [of uw "text_of cs" for cs] del: text_of_simps)

lemma text_loop_ok:
  assumes E: "env_ok E"
  shows "term_ok W cols lines t \<Longrightarrow> style = template_style_id t \<Longrightarrow> list_all is_scalar cs \<Longrightarrow>
    returns (text_loop E style (text_of cs) t) (\<lambda>t'. term_ok W cols lines t' \<and> same_but_cursor t t')"
proof (induction "length cs" arbitrary: cs t rule: less_induct)
  case less
  note t = less.prems(1)
  let ?zero = "\<lambda>c. char_width (unicode_width E) c = Some 0"
  have tmpl: "style = template_style_id t'" if "same_but_cursor t t'" for t'
    using that less.prems(2) by (simp add: same_but_cursor_def)
  show ?case
  proof (cases cs)
    case Nil
    then show ?thesis using t by (simp add: text_loop.simps [of E style "[]"])
  next
    case (Cons c cs')
    note next_c = next_char_text(2) [of c cs', folded Cons]
    have scalar: "is_scalar c" "list_all is_scalar cs'" using less.prems(3) Cons by simp_all
    have rest: "returns (text_loop E style (text_of ds) t') (\<lambda>t''. term_ok W cols lines t'' \<and> same_but_cursor t t'')"
      if "length ds < length cs" "list_all is_scalar ds" "term_ok W cols lines t'" "same_but_cursor t t'" for ds t'
      by (rule later_ok [OF less.hyps [OF that(1,3) tmpl [OF that(4)] that(2)] that(4)])
    have one: "returns (do { t \<leftarrow> input E c t'; text_loop E style (text_of cs') t })
        (\<lambda>t''. term_ok W cols lines t'' \<and> same_but_cursor t t'')" if t': "term_ok W cols lines t'" "same_but_cursor t t'" for t'
    proof -
      obtain u where u: "input E c t' = Some u" "term_ok W cols lines u" "same_but_cursor t' u"
        using input_ok [OF E t'(1) scalar(1)] by (auto simp: returns_iff)
      then show ?thesis
        using rest [OF _ scalar(2) u(2) same_but_cursor_trans [OF t'(2) u(3)]] Cons by simp
    qed
    note step = text_loop.simps [of E style "text_of cs" t, unfolded next_c [OF scalar(1)] option.case prod.case]
    consider (zero) "?zero c" | (fill) "\<not> ?zero c" "char_width (unicode_width E) c \<in> {Some 1, Some 2}"
      | (other) "\<not> ?zero c" "char_width (unicode_width E) c \<notin> {Some 1, Some 2}" by blast
    then show ?thesis
    proof cases
      case zero
      obtain p where p: "zerowidth_point t = Some p" "line p = line (cursor_point t)" "column p < cols"
        using zerowidth_point_ok [OF t] by (auto simp: returns_iff)
      obtain u where u: "push_zerowidths p (takeWhile ?zero cs) t = Some u" "term_ok W cols lines u" "same_view t u"
        using push_zerowidths_ok [OF t p(2,3)] by (auto simp: returns_iff)
      have shorter: "length (dropWhile ?zero cs) < length cs"
        using zero Cons length_dropWhile_le [of ?zero cs'] by (simp add: le_imp_less_Suc)
      have "list_all is_scalar (dropWhile ?zero cs)"
        using less.prems(3) by (auto simp: list_all_iff dest: set_dropWhileD)
      from rest [OF shorter this u(2) same_but_cursor_view [OF u(3)]]
      show ?thesis using zero p(1) u(1) zerowidth_run_text [OF less.prems(3)] by (simp add: step)
    next
      case fill
      let ?w = "the (char_width (unicode_width E) c)"
      have w: "?w = 1 \<or> ?w = 2" using fill(2) by auto
      obtain recycled t1 where t1: "wrap_recycling E t = Some (recycled, t1)" "term_ok W cols lines t1" "same_but_cursor t t1"
        "recycled \<longrightarrow> column (cursor_point t1) = 0"
        using wrap_recycling_ok [OF t, of E] by (auto simp: returns_iff)
      let ?avail = "t_columns t1 - column (cursor_point t1)"
      have "column (cursor_point t1) + ?avail \<le> cols" using term_cursor(4) [OF t1(2)] term_dims(1) [OF t1(2)] by simp
      from fill_chars_ok [OF t1(2) this t1(4) less.prems(3) w, of "unicode_width E"]
      obtain k t2 pre ds where t2: "fill_row recycled ?avail
          (\<lambda>fresh. chars_writer (unicode_width E) fresh ?w style (text_of cs)) t1 = Some (text_of ds, k, t2)"
        "cs = pre @ ds" "k = 0 \<longleftrightarrow> pre = []" "term_ok W cols lines t2" "same_view t1 t2"
        unfolding tmpl [OF t1(3)] by (auto simp: returns_iff)
      have s2: "same_but_cursor t t2" by (rule same_but_cursor_trans [OF t1(3) same_but_cursor_view [OF t2(5)]])
      have after: "term_ok W cols lines (after_fill k t2)" "same_but_cursor t (after_fill k t2)"
        using after_fill_ok [OF t2(4), of k] same_but_cursor_trans [OF s2] by simp_all
      have "returns (if k = 0 then do { t \<leftarrow> input E c t2; text_loop E style (text_of cs') t }
          else text_loop E style (text_of ds) (after_fill k t2)) (\<lambda>t''. term_ok W cols lines t'' \<and> same_but_cursor t t'')"
      proof (cases "k = 0")
        case True
        then show ?thesis using one [OF t2(4) s2] by simp
      next
        case False
        have "length ds < length cs" "list_all is_scalar ds" using False t2(2,3) less.prems(3) by auto
        from rest [OF this after] show ?thesis using False by simp
      qed
      then show ?thesis using fill t1(1) t2(1) by (simp add: step Let_def)
    next
      case other
      then show ?thesis using one [OF t same_but_cursor_refl] by (simp add: step)
    qed
  qed
qed

lemma for_each_input_ok:
  assumes E: "env_ok E" and t: "term_ok W cols lines t" and cs: "list_all is_scalar cs"
  shows "returns (for_each (input E) cs t) (\<lambda>t'. term_ok W cols lines t' \<and> same_but_cursor t t')"
proof (rule for_each_inv)
  fix c t' assume "c \<in> set cs" and t': "term_ok W cols lines t' \<and> same_but_cursor t t'"
  then have "is_scalar c" using cs by (simp add: list_all_iff)
  from later_ok [OF input_ok [OF E conjunct1 [OF t'] this] conjunct2 [OF t']]
  show "returns (input E c t') (\<lambda>t'. term_ok W cols lines t' \<and> same_but_cursor t t')" .
qed (use t in simp)

lemma plain_output_ok:
  assumes "term_ok W cols lines t"
  obtains b where "plain_output t = Some b"
  using assms that by (auto simp: plain_output_def term_ok_def screen_ok_def cursor_ok_def)

lemma write_ascii_run_ok:
  assumes E: "env_ok E" and t: "term_ok W cols lines t"
  shows "returns (write_ascii_run E bytes t) (\<lambda>t'. term_ok W cols lines t' \<and> same_but_cursor t t')"
proof -
  obtain b where b: "plain_output t = Some b" using plain_output_ok [OF t] .
  have "list_all is_scalar (map ucast bytes)" by (simp add: list_all_iff is_scalar_byte)
  from for_each_input_ok [OF E t this] have "returns (for_each (\<lambda>b. input E (ucast b)) bytes t)
      (\<lambda>t'. term_ok W cols lines t' \<and> same_but_cursor t t')" by (simp add: for_each_map)
  then show ?thesis using b ascii_loop_ok [OF E t refl] by (simp add: write_ascii_run_def)
qed

lemma write_text_run_ok:
  assumes E: "env_ok E" and t: "term_ok W cols lines t" and cs: "list_all is_scalar cs"
  shows "returns (write_text_run E (text_of cs) t) (\<lambda>t'. term_ok W cols lines t' \<and> same_but_cursor t t')"
proof -
  obtain b where b: "plain_output t = Some b" using plain_output_ok [OF t] .
  then show ?thesis
    using text_loop_ok [OF E t refl cs] for_each_input_ok [OF E t cs] chars_of_text [OF cs]
    by (simp add: write_text_run_def)
qed

lemma input_str_ok:
  assumes E: "env_ok E" and t: "term_ok W cols lines t" and cs: "list_all is_scalar cs"
  shows "returns (input_str E (text_of cs) t) (\<lambda>t'. term_ok W cols lines t' \<and> same_but_cursor t t')"
  using input_ok [OF E t is_scalar_byte] write_ascii_run_ok [OF E t] write_text_run_ok [OF E t cs]
  by (simp add: input_str_def)

lemma in_chunks_ok:
  assumes pos: "0 < m" and print: "\<And>n t. term_ok W cols lines t \<Longrightarrow>
    returns (print n t) (\<lambda>t'. term_ok W cols lines t' \<and> same_but_cursor t t')"
  shows "term_ok W cols lines t \<Longrightarrow> returns (in_chunks m print count t) (\<lambda>t'. term_ok W cols lines t' \<and> same_but_cursor t t')"
proof (induction count arbitrary: t rule: less_induct)
  case (less count)
  have shorter: "count - min count m < count" if "0 < count" using that pos by auto
  show ?case
    unfolding in_chunks.simps [of m print count]
    using less then_ok [OF print [OF less.prems] less.IH [OF shorter]] by auto
qed

lemma repeat_char_ok:
  assumes E: "env_ok E" and t: "term_ok W cols lines t" and c: "is_scalar c"
  shows "returns (repeat_char E c count t) (\<lambda>t'. term_ok W cols lines t' \<and> same_but_cursor t t')"
proof -
  have "0 < CHUNK" "0 < CHUNK div length (utf8 c)" by (simp_all add: CHUNK_def utf8_def div_greater_zero_iff)
  moreover have "list_all is_scalar (replicate n c)" for n using c by (simp add: list_all_iff)
  ultimately show ?thesis
    using in_chunks_ok [OF _ write_ascii_run_ok [OF E] t] in_chunks_ok [OF _ input_str_ok [OF E] t]
    by (simp add: repeat_char_def)
qed

end
