(* ===== verification/Motion.thy ===== *)
theory Motion
  imports Print
begin

text \<open>
  Moving the cursor, \<open>src/terminal/term/mod.rs\<close>: positions, tab stops, the scrolling region and what
  scrolls it, and the saved cursor. The parameters of the handlers are those of control sequences,
  16-bit numbers, so the sums below stay in the range of the types the code uses.
\<close>

section \<open>Positions\<close>

definition goto :: "int \<Rightarrow> nat \<Rightarrow> 'f terminal \<Rightarrow> 'f terminal option" where
  "goto l col t =
     (let (y_offset, max_y) = (if has_mode (t_mode t) ORIGIN
            then (fst (scroll_region t), snd (scroll_region t) - 1)
            else (0, bottommost_line (grid_dims (t_grid t))))
      in do { t \<leftarrow> damage_cursor t;
              t \<leftarrow> damage_cursor (set_point (Point (max (min (l + y_offset) max_y) 0)
                     (min col (last_column (grid_dims (t_grid t))))) t);
              Some (set_wrap False t) })"

definition goto_line :: "int \<Rightarrow> 'f terminal \<Rightarrow> 'f terminal option" where
  "goto_line l t = goto l (column (cursor_point t)) t"

definition goto_col :: "nat \<Rightarrow> 'f terminal \<Rightarrow> 'f terminal option" where
  "goto_col col t = goto (line (cursor_point t)) col t"

definition move_up :: "nat \<Rightarrow> 'f terminal \<Rightarrow> 'f terminal option" where
  "move_up n t = goto (line (cursor_point t) - int n) (column (cursor_point t)) t"

definition move_down :: "nat \<Rightarrow> 'f terminal \<Rightarrow> 'f terminal option" where
  "move_down n t = goto (line (cursor_point t) + int n) (column (cursor_point t)) t"

definition move_down_and_cr :: "nat \<Rightarrow> 'f terminal \<Rightarrow> 'f terminal option" where
  "move_down_and_cr n t = goto (line (cursor_point t) + int n) 0 t"

definition move_up_and_cr :: "nat \<Rightarrow> 'f terminal \<Rightarrow> 'f terminal option" where
  "move_up_and_cr n t = goto (line (cursor_point t) - int n) 0 t"

definition move_forward :: "nat \<Rightarrow> 'f terminal \<Rightarrow> 'f terminal option" where
  "move_forward cols t =
     (let last = min (column (cursor_point t) + cols) (last_column (grid_dims (t_grid t))) in
      do { t \<leftarrow> damage_columns (column (cursor_point t)) last t;
           Some (set_wrap False (set_column last t)) })"

definition move_backward :: "nat \<Rightarrow> 'f terminal \<Rightarrow> 'f terminal option" where
  "move_backward cols t =
     (let col = column (cursor_point t) - cols in
      do { t \<leftarrow> damage_columns col (column (cursor_point t)) t;
           Some (set_wrap False (set_column col t)) })"

definition backspace :: "'f terminal \<Rightarrow> 'f terminal option" where
  "backspace t =
     (let col = column (cursor_point t) in
      if 0 < col then damage_columns (col - 1) col (set_wrap False (set_column (col - 1) t)) else Some t)"

definition carriage_return :: "'f terminal \<Rightarrow> 'f terminal option" where
  "carriage_return t =
     do { t \<leftarrow> damage_columns 0 (column (cursor_point t)) t;
          Some (set_wrap False (set_column 0 t)) }"

definition newline :: "('f, 'z) env \<Rightarrow> 'f terminal \<Rightarrow> 'f terminal option" where
  "newline E t =
     do { t \<leftarrow> linefeed E t;
          if has_mode (t_mode t) LINE_FEED_NEW_LINE then carriage_return t else Some t }"

definition save_cursor_position :: "'f terminal \<Rightarrow> 'f terminal" where
  "save_cursor_position t = t\<lparr>t_grid := (t_grid t)\<lparr>saved_cursor := t_cursor t\<rparr>\<rparr>"

definition restore_cursor_position :: "'f terminal \<Rightarrow> 'f terminal option" where
  "restore_cursor_position t =
     do { t \<leftarrow> damage_cursor t;
          damage_cursor (at_cursor (\<lambda>_. saved_cursor (t_grid t)) t) }"

section \<open>Tab stops\<close>

text \<open>The column of the next tab stop, or the last one.\<close>

partial_function (option) tab_forward :: "bool list \<Rightarrow> nat \<Rightarrow> nat \<Rightarrow> nat option" where
  "tab_forward tabs cols col =
     (if col + 1 = cols then Some col
      else do { b \<leftarrow> idx tabs (col + 1); if b then Some (col + 1) else tab_forward tabs cols (col + 1) })"

fun put_tabs :: "('f, 'z) env \<Rightarrow> nat \<Rightarrow> 'f terminal \<Rightarrow> 'f terminal option" where
  "put_tabs E 0 t = Some t"
| "put_tabs E (Suc count) t =
     (if column (cursor_point t) < t_columns t
      then do {
        charset \<leftarrow> idx (c_charsets (t_cursor t)) (active_charset t);
        let c = charset_map E charset TAB;
        t \<leftarrow> on_grid (modify_cursor_cell (\<lambda>w. if cell_c w = SPACE then set_c w c else w)) t;
        col \<leftarrow> tab_forward (t_tabs t) (t_columns t) (column (cursor_point t));
        put_tabs E count (set_column col t) }
      else Some t)"

definition put_tab :: "('f, 'z) env \<Rightarrow> nat \<Rightarrow> 'f terminal \<Rightarrow> 'f terminal option" where
  "put_tab E count t = (if c_wrap (t_cursor t) then wrapline E t else put_tabs E count t)"

definition set_horizontal_tabstop :: "'f terminal \<Rightarrow> 'f terminal option" where
  "set_horizontal_tabstop t =
     do { tabs \<leftarrow> upd (t_tabs t) (column (cursor_point t)) True; Some (t\<lparr>t_tabs := tabs\<rparr>) }"

datatype tab_clear_mode = CurrentTab | AllTabs

fun clear_tabs :: "tab_clear_mode \<Rightarrow> 'f terminal \<Rightarrow> 'f terminal option" where
  "clear_tabs CurrentTab t =
     do { tabs \<leftarrow> upd (t_tabs t) (column (cursor_point t)) False; Some (t\<lparr>t_tabs := tabs\<rparr>) }"
| "clear_tabs AllTabs t = Some (t\<lparr>t_tabs := tabs_clear_all (t_tabs t)\<rparr>)"

text \<open>The scans of \<open>move_backward_tabs\<close> and \<open>move_forward_tabs\<close>, over the columns still to look at.\<close>

fun stop_before :: "bool list \<Rightarrow> nat \<Rightarrow> nat list \<Rightarrow> nat option" where
  "stop_before tabs col [] = Some col"
| "stop_before tabs col (i # is) = do { b \<leftarrow> idx tabs i; if b then Some i else stop_before tabs col is }"

fun stop_after :: "bool list \<Rightarrow> nat \<Rightarrow> nat list \<Rightarrow> nat option" where
  "stop_after tabs col [] = Some col"
| "stop_after tabs col (i # is) = do { b \<leftarrow> idx tabs i; if b then Some i else stop_after tabs i is }"

fun backward_stops :: "bool list \<Rightarrow> nat \<Rightarrow> nat \<Rightarrow> nat option" where
  "backward_stops tabs 0 col = Some col"
| "backward_stops tabs (Suc count) col =
     (if col = 0 then Some col
      else do { col \<leftarrow> stop_before tabs col (rev [0..<col]); backward_stops tabs count col })"

fun forward_stops :: "bool list \<Rightarrow> nat \<Rightarrow> nat \<Rightarrow> nat \<Rightarrow> nat option" where
  "forward_stops tabs cols 0 col = Some col"
| "forward_stops tabs cols (Suc count) col =
     (if col = cols - 1 then Some col
      else do { col \<leftarrow> stop_after tabs col [col + 1..<cols]; forward_stops tabs cols count col })"

definition move_backward_tabs :: "nat \<Rightarrow> 'f terminal \<Rightarrow> 'f terminal option" where
  "move_backward_tabs count t =
     (let old = column (cursor_point t) in
      do { col \<leftarrow> backward_stops (t_tabs t) count old;
           damage_columns col old (set_column col t) })"

definition move_forward_tabs :: "nat \<Rightarrow> 'f terminal \<Rightarrow> 'f terminal option" where
  "move_forward_tabs count t =
     (let old = column (cursor_point t) in
      do { col \<leftarrow> forward_stops (t_tabs t) (t_columns t) count old;
           damage_columns old col (set_column col t) })"

section \<open>The scrolling region\<close>

text \<open>\<open>top\<close> counts from one, as the parameter of the control sequence.\<close>

definition set_scrolling_region :: "nat \<Rightarrow> nat option \<Rightarrow> 'f terminal \<Rightarrow> 'f terminal option" where
  "set_scrolling_region tp bottom t =
     (let bottom = (case bottom of Some b \<Rightarrow> b | None \<Rightarrow> t_lines t) in
      if bottom \<le> tp then Some t
      else let screen = int (t_lines t)
           in goto 0 0 (t\<lparr>scroll_region := (min (int tp - 1) screen, min (int bottom) screen)\<rparr>))"

definition in_region :: "int \<Rightarrow> region \<Rightarrow> bool" where
  "in_region l region \<longleftrightarrow> fst region \<le> l \<and> l < snd region"

definition insert_blank_lines :: "('f, 'z) env \<Rightarrow> nat \<Rightarrow> 'f terminal \<Rightarrow> 'f terminal option" where
  "insert_blank_lines E lines t =
     (let origin = line (cursor_point t) in
      if in_region origin (scroll_region t) then scroll_down_relative E origin lines t else Some t)"

definition delete_lines :: "('f, 'z) env \<Rightarrow> nat \<Rightarrow> 'f terminal \<Rightarrow> 'f terminal option" where
  "delete_lines E lines t =
     (let origin = line (cursor_point t) in
      do { below \<leftarrow> usub (t_lines t) (nat origin);
           let lines = min below lines;
           if 0 < lines \<and> in_region origin (scroll_region t) then scroll_up_relative E origin lines t
           else Some t })"

definition reverse_index :: "('f, 'z) env \<Rightarrow> 'f terminal \<Rightarrow> 'f terminal option" where
  "reverse_index E t =
     (if line (cursor_point t) = fst (scroll_region t) then term_scroll_down E 1 t
      else do { t \<leftarrow> damage_cursor t;
                damage_cursor (set_point (Point (max (line (cursor_point t) - 1) 0) (column (cursor_point t))) t) })"

section \<open>The displayed part\<close>

definition term_scroll_display :: "scroll \<Rightarrow> 'f terminal \<Rightarrow> 'f terminal" where
  "term_scroll_display sc t =
     (let t' = send MouseCursorDirty (t\<lparr>t_grid := scroll_display sc (t_grid t)\<rparr>) in
      if display_offset (t_grid t) \<noteq> display_offset (t_grid t') then mark_fully_damaged t' else t')"

definition scroll_to_point :: "point \<Rightarrow> 'f terminal \<Rightarrow> 'f terminal" where
  "scroll_to_point p t =
     (let offset = int (display_offset (t_grid t)); screen = int (t_lines t) in
      if line p < - offset then term_scroll_display (Delta (- (line p + offset))) t
      else if screen - offset \<le> line p then term_scroll_display (Delta (- (line p + offset - screen + 1))) t
      else t)"

section \<open>The invariant\<close>

lemma term_ok_tabs:
  "term_ok W cols lines t \<Longrightarrow> length tabs = cols \<Longrightarrow> term_ok W cols lines (t\<lparr>t_tabs := tabs\<rparr>)"
  by (simp add: term_ok_def)

lemma tabs_length: "term_ok W cols lines t \<Longrightarrow> length (t_tabs t) = cols"
  by (simp add: term_ok_def)

lemma damage_columns_ok:
  assumes "term_ok W cols lines t"
  shows "returns (damage_columns a b t) (\<lambda>t'. term_ok W cols lines t' \<and> same_view t t')"
  by (rule returns_mono [OF damage_at_ok(1) [OF assms]]) auto

text \<open>What the handlers below keep: everything but the position of the cursor and what it may scroll.\<close>

lemma damaged_move_ok:
  assumes t: "term_ok W cols lines t" and p: "0 \<le> line p" "line p < int lines" "column p < cols"
  shows "returns (do { t \<leftarrow> damage_columns a b t; Some (set_wrap False (set_point p t)) })
    (\<lambda>t'. term_ok W cols lines t' \<and> same_but_cursor t t' \<and> cursor_point t' = p)"
  by (auto intro!: returns_mono [OF damage_columns_ok [OF t]] set_wrap_ok set_point_ok p same_but_cursor_view)

lemma goto_ok:
  assumes t: "term_ok W cols lines t"
  shows "returns (goto l col t) (\<lambda>t'. term_ok W cols lines t' \<and> same_but_cursor t t')"
proof -
  define off where "off = (if has_mode (t_mode t) ORIGIN then fst (scroll_region t) else 0)"
  define bot where "bot = (if has_mode (t_mode t) ORIGIN then snd (scroll_region t) - 1 else bottommost_line (grid_dims (t_grid t)))"
  have bot: "bot < int lines" using term_region [OF t] term_dims [OF t] by (simp add: bot_def bottommost_line_def grid_dims_def)
  obtain t1 where t1: "damage_cursor t = Some t1" "term_ok W cols lines t1" "same_view t t1"
    using damage_cursor_ok [OF t] by (auto simp: returns_iff)
  let ?p = "Point (max (min (l + off) bot) 0) (min col (last_column (grid_dims (t_grid t1))))"
  have ok: "term_ok W cols lines (set_point ?p t1)"
    by (rule set_point_ok [OF t1(2)]) (use bot term_dims [OF t1(2)] in \<open>auto simp: last_column_def grid_dims_def\<close>)
  obtain t2 where t2: "damage_cursor (set_point ?p t1) = Some t2" "term_ok W cols lines t2" "same_view (set_point ?p t1) t2"
    using damage_cursor_ok [OF ok] by (auto simp: returns_iff)
  have "goto l col t = Some (set_wrap False t2)"
    using t1(1) t2(1) by (cases "has_mode (t_mode t) ORIGIN") (simp_all add: goto_def Let_def off_def bot_def)
  moreover have "same_but_cursor t t2"
    by (rule same_but_cursor_trans [OF _ same_but_cursor_view [OF t2(3)]]) (simp add: same_but_cursor_view [OF t1(3)])
  ultimately show ?thesis using t2(2) by simp
qed

lemma moves_ok:
  assumes t: "term_ok W cols lines t"
  shows "returns (goto_line l t) (\<lambda>t'. term_ok W cols lines t' \<and> same_but_cursor t t')"
    "returns (goto_col col t) (\<lambda>t'. term_ok W cols lines t' \<and> same_but_cursor t t')"
    "returns (move_up n t) (\<lambda>t'. term_ok W cols lines t' \<and> same_but_cursor t t')"
    "returns (move_down n t) (\<lambda>t'. term_ok W cols lines t' \<and> same_but_cursor t t')"
    "returns (move_up_and_cr n t) (\<lambda>t'. term_ok W cols lines t' \<and> same_but_cursor t t')"
    "returns (move_down_and_cr n t) (\<lambda>t'. term_ok W cols lines t' \<and> same_but_cursor t t')"
  using goto_ok [OF t]
  by (simp_all add: goto_line_def goto_col_def move_up_def move_down_def move_up_and_cr_def move_down_and_cr_def)
lemma sideways_ok:
  assumes t: "term_ok W cols lines t"
  shows "returns (move_forward n t) (\<lambda>t'. term_ok W cols lines t' \<and> same_but_cursor t t')"
    "returns (move_backward n t) (\<lambda>t'. term_ok W cols lines t' \<and> same_but_cursor t t')"
    "returns (carriage_return t) (\<lambda>t'. term_ok W cols lines t' \<and> same_but_cursor t t')"
proof -
  have move: "returns (do { t \<leftarrow> damage_columns a b t; Some (set_wrap False (set_column col t)) })
      (\<lambda>t'. term_ok W cols lines t' \<and> same_but_cursor t t')" if "col < cols" for a b col
    by (auto intro!: returns_mono [OF damage_columns_ok [OF t]] set_wrap_ok set_column_ok that same_but_cursor_view)
  have "min (column (cursor_point t) + n) (last_column (grid_dims (t_grid t))) < cols"
    "column (cursor_point t) - n < cols" "0 < cols"
    using term_cursor(4) [OF t] term_dims [OF t] by (auto simp: last_column_def grid_dims_def)
  then show "returns (move_forward n t) (\<lambda>t'. term_ok W cols lines t' \<and> same_but_cursor t t')"
    "returns (move_backward n t) (\<lambda>t'. term_ok W cols lines t' \<and> same_but_cursor t t')"
    "returns (carriage_return t) (\<lambda>t'. term_ok W cols lines t' \<and> same_but_cursor t t')"
    using move by (simp_all add: move_forward_def move_backward_def carriage_return_def Let_def)
qed

text \<open>Damage after a move in the line.\<close>

lemma moved_damage_ok:
  assumes "term_ok W cols lines t" "col < cols"
  shows "returns (damage_columns a b (set_column col t)) (\<lambda>t'. term_ok W cols lines t' \<and> same_but_cursor t t')"
  using later_ok [OF view_ok [OF damage_columns_ok [OF set_column_ok [OF assms]]], of t] by simp

lemma backspace_ok:
  assumes t: "term_ok W cols lines t"
  shows "returns (backspace t) (\<lambda>t'. term_ok W cols lines t' \<and> same_but_cursor t t')"
proof (cases "0 < column (cursor_point t)")
  case True
  let ?t = "set_wrap False (set_column (column (cursor_point t) - 1) t)"
  have "term_ok W cols lines ?t" using set_column_ok [OF t] term_cursor(4) [OF t] by simp
  from later_ok [OF view_ok [OF damage_columns_ok [OF this]], of t] show ?thesis
    using True by (simp add: backspace_def Let_def)
qed (use t in \<open>simp add: backspace_def\<close>)

lemma linefeed_keeps:
  assumes "term_ok W cols lines t"
  shows "returns (linefeed E t) (\<lambda>t'. term_ok W cols lines t' \<and> same_but_cursor t t')"
  by (rule returns_mono [OF linefeed_ok [OF assms]]) simp

lemma newline_ok:
  assumes t: "term_ok W cols lines t"
  shows "returns (newline E t) (\<lambda>t'. term_ok W cols lines t' \<and> same_but_cursor t t')"
  unfolding newline_def
  by (rule then_ok [OF linefeed_keeps [OF t]]) (use sideways_ok(3) in auto)

lemma save_cursor_ok:
  assumes t: "term_ok W cols lines t"
  shows "term_ok W cols lines (save_cursor_position t)"
  using t screen_set_cursor(2) term_cursor(1) [OF t] by (auto simp: term_ok_def save_cursor_position_def)

lemma restore_cursor_ok:
  assumes t: "term_ok W cols lines t"
  shows "returns (restore_cursor_position t) (term_ok W cols lines)"
proof -
  obtain t1 where t1: "damage_cursor t = Some t1" "term_ok W cols lines t1"
    using damage_cursor_ok [OF t] by (auto simp: returns_iff)
  have "term_ok W cols lines (at_cursor (\<lambda>_. saved_cursor (t_grid t1)) t1)"
    by (rule at_cursor_ok [OF t1(2)]) (use t1(2) in \<open>simp add: term_ok_def screen_ok_def\<close>)
  then show ?thesis using t1(1) damage_cursor_ok by (fastforce simp: restore_cursor_position_def returns_iff)
qed

lemma tab_forward_ok:
  assumes "length tabs = cols"
  shows "col < cols \<Longrightarrow> returns (tab_forward tabs cols col) (\<lambda>c. c < cols \<and> col \<le> c)"
proof (induction "cols - col" arbitrary: col)
  case 0
  then show ?case by simp
next
  case (Suc m)
  show ?case
  proof (cases "col + 1 = cols")
    case False
    then have lt: "col + 1 < cols" and m: "m = cols - (col + 1)" using Suc by simp_all
    have "returns (tab_forward tabs cols (col + 1)) (\<lambda>c. c < cols \<and> col \<le> c)"
      by (rule returns_mono [OF Suc.hyps(1) [OF m lt]]) simp
    then show ?thesis using False lt assms by (simp add: tab_forward.simps [of tabs cols col])
  qed (use Suc.prems in \<open>simp add: tab_forward.simps [of tabs cols col]\<close>)
qed

lemma put_tabs_ok:
  assumes E: "env_ok E"
  shows "term_ok W cols lines t \<Longrightarrow> returns (put_tabs E count t) (\<lambda>t'. term_ok W cols lines t' \<and> same_but_cursor t t')"
proof (induction count arbitrary: t)
  case (Suc count)
  note t = Suc.prems
  have cs: "active_charset t < length (c_charsets (t_cursor t))" using t by (simp add: term_ok_def screen_ok_def cursor_ok_def)
  let ?c = "charset_map E (c_charsets (t_cursor t) ! active_charset t) TAB"
  have c: "is_scalar ?c" using E by (simp add: env_ok_def is_scalar_def TAB_def)
  have "tame_edit n (\<lambda>w. if cell_c w = SPACE then set_c w ?c else w)" for n
    using tame_edits(1) [OF c, of n] by (simp add: tame_edit_def)
  from modify_cursor_cell_ok [OF t this]
  obtain t1 where t1: "on_grid (modify_cursor_cell (\<lambda>w. if cell_c w = SPACE then set_c w ?c else w)) t = Some t1"
    "term_ok W cols lines t1" "same_view t t1" by (auto simp: returns_iff)
  obtain col where col: "tab_forward (t_tabs t1) (t_columns t1) (column (cursor_point t1)) = Some col" "col < cols"
    using tab_forward_ok [OF tabs_length [OF t1(2)] term_cursor(4) [OF t1(2)]] term_dims(1) [OF t1(2)] by (auto simp: returns_iff)
  have same: "same_but_cursor t (set_column col t1)" using same_but_cursor_view [OF t1(3)] by simp
  from later_ok [OF Suc.IH [OF set_column_ok [OF t1(2) col(2)]] same]
  show ?case using cs t1(1) col(1) t by (simp add: Let_def)
qed simp

lemma put_tab_ok:
  assumes "env_ok E" "term_ok W cols lines t"
  shows "returns (put_tab E count t) (\<lambda>t'. term_ok W cols lines t' \<and> same_but_cursor t t')"
  using put_tabs_ok [OF assms] wrapline_keeps [OF assms(2), of E] by (simp add: put_tab_def)

lemma tabstops_ok:
  assumes t: "term_ok W cols lines t"
  shows "returns (set_horizontal_tabstop t) (term_ok W cols lines)" "returns (clear_tabs mode t) (term_ok W cols lines)"
  using tabs_length [OF t] term_cursor(4) [OF t] term_ok_tabs [OF t]
  by (cases mode; simp add: set_horizontal_tabstop_def tabs_clear_all_def)+

lemma stop_before_ok:
  "length tabs = cols \<Longrightarrow> col < cols \<Longrightarrow> \<forall>i \<in> set is. i < cols \<Longrightarrow> returns (stop_before tabs col is) (\<lambda>c. c < cols)"
  by (induction "is") simp_all

lemma stop_after_ok:
  "length tabs = cols \<Longrightarrow> col < cols \<Longrightarrow> \<forall>i \<in> set is. i < cols \<Longrightarrow> returns (stop_after tabs col is) (\<lambda>c. c < cols)"
  by (induction "is" arbitrary: col) simp_all

lemma stops_ok:
  assumes "length tabs = cols"
  shows "col < cols \<Longrightarrow> returns (backward_stops tabs count col) (\<lambda>c. c < cols)"
    and "col < cols \<Longrightarrow> returns (forward_stops tabs cols count col) (\<lambda>c. c < cols)"
proof (induction count arbitrary: col)
  case (Suc count)
  case 1
  with Suc.IH(1) stop_before_ok [OF assms 1, of "rev [0..<col]"] show ?case by (auto intro: returns_mono)
  case 2
  with Suc.IH(2) stop_after_ok [OF assms 2, of "[col + 1..<cols]"] show ?case by (auto intro: returns_mono)
qed simp_all

lemma tab_moves_ok:
  assumes t: "term_ok W cols lines t"
  shows "returns (move_backward_tabs count t) (\<lambda>t'. term_ok W cols lines t' \<and> same_but_cursor t t')"
    "returns (move_forward_tabs count t) (\<lambda>t'. term_ok W cols lines t' \<and> same_but_cursor t t')"
proof -
  note stops = stops_ok [OF tabs_length [OF t] term_cursor(4) [OF t], of count]
  show "returns (move_backward_tabs count t) (\<lambda>t'. term_ok W cols lines t' \<and> same_but_cursor t t')"
    using stops(1) moved_damage_ok [OF t] by (auto simp: move_backward_tabs_def returns_iff)
  show "returns (move_forward_tabs count t) (\<lambda>t'. term_ok W cols lines t' \<and> same_but_cursor t t')"
    using stops(2) moved_damage_ok [OF t] term_dims(1) [OF t] by (auto simp: move_forward_tabs_def returns_iff)
qed

lemma set_scrolling_region_ok:
  assumes t: "term_ok W cols lines t" and tp: "1 \<le> tp"
  shows "returns (set_scrolling_region tp bottom t) (term_ok W cols lines)"
proof -
  define b where "b = (case bottom of Some b \<Rightarrow> b | None \<Rightarrow> t_lines t)"
  show ?thesis
  proof (cases "b \<le> tp")
    case False
    let ?t = "t\<lparr>scroll_region := (min (int tp - 1) (int (t_lines t)), min (int b) (int (t_lines t)))\<rparr>"
    have "term_ok W cols lines ?t" using t tp False term_dims(2) [OF t] by (auto simp: term_ok_def)
    from goto_ok [OF this, of 0 0] have "returns (goto 0 0 ?t) (term_ok W cols lines)" by (rule returns_mono) simp
    then show ?thesis using False by (simp add: set_scrolling_region_def b_def [symmetric] Let_def)
  qed (use t in \<open>simp add: set_scrolling_region_def b_def [symmetric]\<close>)
qed

lemma insert_delete_lines_ok:
  assumes t: "term_ok W cols lines t"
  shows "returns (insert_blank_lines E n t) (\<lambda>t'. term_ok W cols lines t' \<and> same_view t t')"
    "returns (delete_lines E n t) (\<lambda>t'. term_ok W cols lines t' \<and> same_view t t')"
proof -
  show "returns (insert_blank_lines E n t) (\<lambda>t'. term_ok W cols lines t' \<and> same_view t t')"
    using scroll_down_relative_ok [OF t, of "line (cursor_point t)" E n] t
    by (simp add: insert_blank_lines_def in_region_def Let_def)
  have "nat (line (cursor_point t)) \<le> t_lines t" using term_cursor [OF t] term_dims(2) [OF t] by simp
  then show "returns (delete_lines E n t) (\<lambda>t'. term_ok W cols lines t' \<and> same_view t t')"
    using scroll_up_relative_ok [OF t, of "line (cursor_point t)" E] t
    by (simp add: delete_lines_def in_region_def Let_def)
qed

lemma reverse_index_ok:
  assumes t: "term_ok W cols lines t"
  shows "returns (reverse_index E t) (\<lambda>t'. term_ok W cols lines t' \<and> same_but_cursor t t')"
proof (cases "line (cursor_point t) = fst (scroll_region t)")
  case True
  then show ?thesis using view_ok [OF term_scroll_ok(2) [OF t]] by (simp add: reverse_index_def)
next
  case False
  obtain t1 where t1: "damage_cursor t = Some t1" "term_ok W cols lines t1" "same_view t t1"
    using damage_cursor_ok [OF t] by (auto simp: returns_iff)
  let ?t = "set_point (Point (max (line (cursor_point t1) - 1) 0) (column (cursor_point t1))) t1"
  have "term_ok W cols lines ?t" by (rule set_point_ok [OF t1(2)]) (use term_cursor [OF t1(2)] in auto)
  from later_ok [OF view_ok [OF damage_cursor_ok [OF this]], of t] show ?thesis
    using False t1(1) same_but_cursor_view [OF t1(3)] by (simp add: reverse_index_def)
qed

lemma display_ok [simp]:
  "term_ok W cols lines t \<Longrightarrow> term_ok W cols lines (term_scroll_display sc t)"
  "term_ok W cols lines t \<Longrightarrow> term_ok W cols lines (scroll_to_point p t)"
proof -
  have kept: "term_ok W cols lines (term_scroll_display sc t)" if "term_ok W cols lines t" for sc
    using that screen_scroll_display by (auto simp: term_scroll_display_def Let_def term_ok_def send_def mark_fully_damaged_def damage_ok_def)
  show "term_ok W cols lines t \<Longrightarrow> term_ok W cols lines (term_scroll_display sc t)" by (rule kept)
  show "term_ok W cols lines t \<Longrightarrow> term_ok W cols lines (scroll_to_point p t)"
    using kept by (simp add: scroll_to_point_def Let_def)
qed

end
