(* ===== verification/Erase.thy ===== *)
theory Erase
  imports Motion
begin

text \<open>
  Inserting, deleting and erasing, \<open>src/terminal/term/mod.rs\<close>: characters in a line, lines, parts of the
  screen, the scrollback, and the buffer cleared from the user interface. Platforms other than
  Windows, where an erased scrollback leaves the scene alone.
\<close>

section \<open>In a line\<close>

text \<open>The swap loops over the cells of a line, and the cells blanked after them.\<close>

definition swap_cells :: "nat \<Rightarrow> nat \<Rightarrow> nat list \<Rightarrow> cell list \<Rightarrow> cell list option" where
  "swap_cells a b offsets cells = for_each (\<lambda>k row. swap_at row (a + k) (b + k)) offsets cells"

definition fill_range :: "nat \<Rightarrow> nat \<Rightarrow> cell \<Rightarrow> cell list \<Rightarrow> cell list option" where
  "fill_range a b e cells =
     (if a \<le> b \<and> b \<le> length cells then Some (take a cells @ replicate (b - a) e @ drop b cells) else None)"

definition insert_blank :: "nat \<Rightarrow> 'f terminal \<Rightarrow> 'f terminal option" where
  "insert_blank count t =
     (let e = c_erase (t_cursor t); p = cursor_point t; cols = t_columns t in
      do { room \<leftarrow> usub cols (column p);
           let destination = column p + min count room;
           num_cells \<leftarrow> usub cols destination;
           t \<leftarrow> damage_columns 0 (cols - 1) t;
           on_grid (modify_row (row_modify_slice (\<lambda>cells. do {
             cells \<leftarrow> swap_cells destination (column p) (rev [0..<num_cells]) cells;
             fill_range (column p) destination e cells })) (line p)) t })"

definition delete_chars :: "nat \<Rightarrow> 'f terminal \<Rightarrow> 'f terminal option" where
  "delete_chars count t =
     (let e = c_erase (t_cursor t); p = cursor_point t; cols = t_columns t;
          count = min count cols; stop = min (column p + count) (cols - 1)
      in do { num_cells \<leftarrow> usub cols stop;
              t \<leftarrow> damage_columns 0 (cols - 1) t;
              on_grid (modify_row (row_modify_slice (\<lambda>cells. do {
                cells \<leftarrow> swap_cells (column p) stop [0..<num_cells] cells;
                fill_range (cols - count) (length cells) e cells })) (line p)) t })"

text \<open>\<open>for cell in &mut row[start..end] { *cell = erase.clone() }\<close> on the line of the cursor.\<close>

definition blank_range :: "nat \<Rightarrow> nat \<Rightarrow> 'f terminal \<Rightarrow> 'f terminal option" where
  "blank_range a b t =
     (let e = c_erase (t_cursor t) in
      on_grid (modify_row (row_modify_range a b (map (\<lambda>_. e))) (line (cursor_point t))) t)"

definition erase_chars :: "nat \<Rightarrow> 'f terminal \<Rightarrow> 'f terminal option" where
  "erase_chars count t =
     (let a = column (cursor_point t); b = min (a + count) (t_columns t) in
      do { t \<leftarrow> damage_columns a b t; blank_range a b t })"

definition drop_selection :: "int option \<Rightarrow> int option \<Rightarrow> 'f terminal \<Rightarrow> 'f terminal" where
  "drop_selection tp bt t =
     t\<lparr>t_selection := Option.bind (t_selection t) (\<lambda>s. if intersects_range tp bt s then None else Some s)\<rparr>"

datatype line_clear_mode = ClearRight | ClearLeft | ClearLine

definition clear_line :: "line_clear_mode \<Rightarrow> 'f terminal \<Rightarrow> 'f terminal option" where
  "clear_line m t =
     (if m = ClearRight \<and> c_wrap (t_cursor t) then Some t
      else
        let p = cursor_point t;
            (left, right) = (case m of ClearRight \<Rightarrow> (column p, t_columns t) | ClearLeft \<Rightarrow> (0, column p + 1)
              | ClearLine \<Rightarrow> (0, t_columns t))
        in do { last \<leftarrow> usub right 1;
                t \<leftarrow> damage_columns left last t;
                t \<leftarrow> blank_range left right t;
                Some (drop_selection (Some (line p)) (Some (line p)) t) })"

section \<open>The screen\<close>

definition decaln :: "'f terminal \<Rightarrow> 'f terminal option" where
  "decaln t =
     (let w = set_c default_cell 0x45; cols = t_columns t in
      do { t \<leftarrow> on_grid (for_each (\<lambda>l. for_each (\<lambda>col. modify_cell (Point l col) (\<lambda>_. w)) [0..<cols])
                 (irange 0 (int (t_lines t)))) t;
           Some (mark_fully_damaged t) })"

definition clear_above :: "'f terminal \<Rightarrow> 'f terminal option" where
  "clear_above t =
     (let p = cursor_point t in
      do { t \<leftarrow> (if 1 < line p then on_grid (reset_region packed_cell_ops Unbounded (Excluded (line p))) t else Some t);
           t \<leftarrow> blank_range 0 (min (column p + 1) (t_columns t)) t;
           Some (drop_selection (Some 0) (Some (line p)) t) })"

definition clear_below :: "'f terminal \<Rightarrow> 'f terminal option" where
  "clear_below t =
     (let p = cursor_point t in
      do { t \<leftarrow> blank_range (column p) (t_columns t) t;
           t \<leftarrow> (if nat (line p) < t_lines t - 1
                then on_grid (reset_region packed_cell_ops (Included (line p + 1)) Unbounded) t else Some t);
           Some (drop_selection (Some (line p)) (Some (int (t_lines t) - 1)) t) })"

text \<open>Off the alternate screen the text goes into the scrollback, and the images beside it with it.\<close>

definition clear_all :: "('f, 'z) env \<Rightarrow> 'f terminal \<Rightarrow> 'f terminal option" where
  "clear_all E t =
     do { t \<leftarrow>
            (if has_mode (t_mode t) ALT_SCREEN then on_grid (reset_region packed_cell_ops Unbounded Unbounded) t
             else do {
               (preserved, g) \<leftarrow> clear_viewport packed_cell_ops (t_grid t);
               let t = t\<lparr>t_grid := g\<rparr>;
               placed \<leftarrow> graphics_placed t;
               if 0 < preserved \<and> placed
               then on_graphics (kitty_scroll (gfx E) \<lparr>gs_top = 0, gs_end = to_i32 (t_lines t), gs_lines = to_i32 preserved,
                      gs_screen_lines = to_i32 (t_lines t), gs_history_top = topmost_line (grid_dims g)\<rparr>) t
               else Some t });
          Some (t\<lparr>t_selection := None\<rparr>) }"

definition clear_saved :: "'f terminal \<Rightarrow> 'f terminal option" where
  "clear_saved t =
     (if 0 < grid_history (t_grid t)
      then do { t \<leftarrow> on_grid clear_history t; Some (drop_selection None (Some (- 1)) t) }
      else Some t)"

datatype clear_mode = ClearAbove | ClearBelow | ClearAll | ClearSaved

definition clear_screen :: "('f, 'z) env \<Rightarrow> clear_mode \<Rightarrow> 'f terminal \<Rightarrow> 'f terminal option" where
  "clear_screen E m t =
     do { t \<leftarrow> (case m of ClearAbove \<Rightarrow> clear_above t | ClearBelow \<Rightarrow> clear_below t
               | ClearAll \<Rightarrow> clear_all E t | ClearSaved \<Rightarrow> clear_saved t);
          t \<leftarrow> (case m of ClearAll \<Rightarrow> on_graphics (kitty_clear_screen False) t
               | ClearSaved \<Rightarrow> on_graphics kitty_clear_history t | _ \<Rightarrow> Some t);
          Some (mark_fully_damaged (if m = ClearAll then send VividClear (flush_grid_scroll t) else t)) }"

definition deccolm :: "'f terminal \<Rightarrow> 'f terminal option" where
  "deccolm t =
     do { t \<leftarrow> set_scrolling_region 1 None t;
          t \<leftarrow> on_grid (reset_region packed_cell_ops Unbounded Unbounded) t;
          t \<leftarrow> on_graphics (kitty_clear_screen False) t;
          Some (mark_fully_damaged t) }"

section \<open>The buffer\<close>

text \<open>The first and the last line of the logical line of the cursor, in the live viewport.\<close>

fun first_wrapped :: "cell grid \<Rightarrow> nat \<Rightarrow> nat option" where
  "first_wrapped g 0 = Some 0"
| "first_wrapped g (Suc n) =
     do { w \<leftarrow> grid_cell_at g (Point (int n) (last_column (grid_dims g)));
          if contains (cell_layout w) WRAPLINE then first_wrapped g n else Some (Suc n) }"

partial_function (option) last_wrapped :: "cell grid \<Rightarrow> int \<Rightarrow> int option" where
  "last_wrapped g l =
     (if l < bottommost_line (grid_dims g)
      then do { w \<leftarrow> grid_cell_at g (Point l (last_column (grid_dims g)));
                if contains (cell_layout w) WRAPLINE then last_wrapped g (l + 1) else Some l }
      else Some l)"

definition clear_buffer :: "'f terminal \<Rightarrow> 'f terminal option" where
  "clear_buffer t =
     do { start \<leftarrow> first_wrapped (t_grid t) (nat (line (cursor_point t)));
          stop \<leftarrow> last_wrapped (t_grid t) (line (cursor_point t));
          let bottom = int (t_lines t);
          t \<leftarrow> on_grid (Grid.scroll_up packed_cell_ops (0, bottom) start) t;
          let retained = stop - int start + 1;
          t \<leftarrow> (if retained < bottom then on_grid (reset_region packed_cell_ops (Included retained) Unbounded) t else Some t);
          let t = set_point (Point (line (cursor_point t) - int start) (column (cursor_point t))) t;
          t \<leftarrow> on_grid clear_history t;
          t \<leftarrow> on_graphics (kitty_clear_screen True) (t\<lparr>t_selection := None\<rparr>);
          Some (mark_fully_damaged (send MouseCursorDirty (send VividClear (flush_grid_scroll t)))) }"
section \<open>The invariant\<close>

lemma on_grid_same:
  assumes t: "term_ok W cols lines t"
    and f: "screen_ok (length (styles (t_styles t))) cols lines (t_grid t) \<Longrightarrow>
      returns (f (t_grid t)) (\<lambda>g. screen_ok (length (styles (t_styles t))) cols lines g \<and>
        cursor g = cursor (t_grid t) \<and> saved_cursor g = saved_cursor (t_grid t))"
  shows "returns (on_grid f t) (\<lambda>t'. term_ok W cols lines t' \<and> same_view t t')"
  by (rule returns_mono [OF on_grid_ok [where f = f, OF t f]]) (auto simp: same_view_def)

lemma drop_selection_ok [simp]:
  "term_ok W cols lines (drop_selection a b t) = term_ok W cols lines t"
  "same_view t (drop_selection a b t') = same_view t t'"
  by (simp_all add: drop_selection_def same_view_def)

lemma same_view_more [simp]:
  "same_view t (send e t') = same_view t t'" "same_view t (t'\<lparr>t_selection := s\<rparr>) = same_view t t'"
  by (simp_all add: send_def same_view_def)

lemma swap_cells_ok:
  assumes "length cells = cols" "\<forall>k \<in> set ks. a + k < cols \<and> b + k < cols"
  shows "returns (swap_cells a b ks cells) (\<lambda>cs. length cs = cols \<and> set cs \<subseteq> set cells)"
  unfolding swap_cells_def
proof (rule for_each_inv)
  fix k cs assume "k \<in> set ks" and I: "length cs = cols \<and> set cs \<subseteq> set cells"
  then have "a + k < length cs" "b + k < length cs" using assms(2) by auto
  then show "returns (swap_at cs (a + k) (b + k)) (\<lambda>cs. length cs = cols \<and> set cs \<subseteq> set cells)"
    using I set_swap [of "a + k" cs "b + k"] by simp
qed (use assms in simp)

lemma fill_range_ok:
  assumes "a \<le> b" "b \<le> length cells"
  shows "returns (fill_range a b e cells) (\<lambda>cs. length cs = length cells \<and> set cs \<subseteq> insert e (set cells))"
  using assms by (auto simp: fill_range_def dest: in_set_takeD in_set_dropD)

lemma erase_plain: "term_ok W cols lines t \<Longrightarrow> plain_cell (length (styles (t_styles t))) (c_erase (t_cursor t))"
  using term_cursor(1) by (auto simp: cursor_ok_def)

text \<open>A swap loop, then a blank range.\<close>

lemma swap_fill_ok:
  assumes t: "term_ok W cols lines t" and swaps: "\<forall>k \<in> set ks. a + k < cols \<and> b + k < cols" and range: "\<And>cs :: cell list. length cs = cols \<Longrightarrow> c \<le> d cs \<and> d cs \<le> cols"
  shows "returns (on_grid (modify_row (row_modify_slice (\<lambda>cells. do {
      cells \<leftarrow> swap_cells a b ks cells; fill_range c (d cells) (c_erase (t_cursor t)) cells })) (line (cursor_point t))) t)
    (\<lambda>t'. term_ok W cols lines t' \<and> same_view t t')"
proof (rule modify_line_ok [OF t row_fine_slice], assumption)
  let ?n = "length (styles (t_styles t))"
  fix r assume "row_fine ?n cols r"
  then have len: "length (inner r) = cols" by (simp add: row_fine_def)
  show "returns (do { cells \<leftarrow> swap_cells a b ks (inner r); fill_range c (d cells) (c_erase (t_cursor t)) cells })
      (\<lambda>cs. length cs = cols \<and> (\<forall>w \<in> set cs. w \<in> set (inner r) \<or> plain_cell ?n w))"
    unfolding returns_bind
    by (rule returns_mono [OF swap_cells_ok [OF len swaps]])
      (use erase_plain [OF t] range in \<open>auto intro!: returns_mono [OF fill_range_ok]\<close>)
qed

lemma later_view:
  "returns m (\<lambda>t''. term_ok W cols lines t'' \<and> same_view t' t'') \<Longrightarrow> same_view t t' \<Longrightarrow>
    returns m (\<lambda>t''. term_ok W cols lines t'' \<and> same_view t t'')"
  by (erule returns_mono) (blast intro: same_view_trans)

text \<open>Damage, then an operation on the line of the cursor.\<close>

lemma damage_then:
  assumes t: "term_ok W cols lines t" and f: "\<And>t'. term_ok W cols lines t' \<Longrightarrow> same_view t t' \<Longrightarrow>
    returns (f t') (\<lambda>t''. term_ok W cols lines t'' \<and> same_view t' t'')"
  shows "returns (do { t \<leftarrow> damage_columns a b t; f t }) (\<lambda>t''. term_ok W cols lines t'' \<and> same_view t t'')"
  unfolding returns_bind
  by (rule returns_mono [OF damage_columns_ok [OF t]]) (use f later_view in blast)

lemma insert_blank_ok:
  assumes t: "term_ok W cols lines t"
  shows "returns (insert_blank count t) (\<lambda>t'. term_ok W cols lines t' \<and> same_view t t')"
proof -
  let ?col = "column (cursor_point t)"
  have col: "?col < cols" and dims: "t_columns t = cols" using term_cursor(4) [OF t] term_dims(1) [OF t] .
  let ?dest = "?col + min count (cols - ?col)"
  have op: "returns (on_grid (modify_row (row_modify_slice (\<lambda>cells. do {
      cells \<leftarrow> swap_cells ?dest ?col (rev [0..<cols - ?dest]) cells;
      fill_range ?col ?dest (c_erase (t_cursor t)) cells })) (line (cursor_point t))) t')
      (\<lambda>t''. term_ok W cols lines t'' \<and> same_view t' t'')" if t': "term_ok W cols lines t'" "same_view t t'" for t'
  proof -
    have c: "t_cursor t = t_cursor t'" using t'(2) by (simp add: same_view_def)
    show ?thesis unfolding c by (rule swap_fill_ok [where d = "\<lambda>_. column (cursor_point t') + min count (cols - column (cursor_point t'))", OF t'(1)])
      (use col c in auto)
  qed
  show ?thesis
    using damage_then [of W cols lines t, OF t op] col dims by (simp add: insert_blank_def Let_def)
qed

lemma delete_chars_ok:
  assumes t: "term_ok W cols lines t"
  shows "returns (delete_chars count t) (\<lambda>t'. term_ok W cols lines t' \<and> same_view t t')"
proof -
  let ?col = "column (cursor_point t)" and ?k = "min count cols"
  have col: "?col < cols" and dims: "t_columns t = cols" using term_cursor(4) [OF t] term_dims(1) [OF t] .
  let ?stop = "min (?col + ?k) (cols - 1)"
  have op: "returns (on_grid (modify_row (row_modify_slice (\<lambda>cells. do {
      cells \<leftarrow> swap_cells ?col ?stop [0..<cols - ?stop] cells;
      fill_range (cols - ?k) (length cells) (c_erase (t_cursor t)) cells })) (line (cursor_point t))) t')
      (\<lambda>t''. term_ok W cols lines t'' \<and> same_view t' t'')" if t': "term_ok W cols lines t'" "same_view t t'" for t'
  proof -
    have c: "t_cursor t = t_cursor t'" using t'(2) by (simp add: same_view_def)
    show ?thesis unfolding c by (rule swap_fill_ok [where d = length, OF t'(1)]) (use col c in auto)
  qed
  show ?thesis
    using damage_then [of W cols lines t, OF t op] col dims by (simp add: delete_chars_def Let_def)
qed
lemma blank_range_ok:
  assumes t: "term_ok W cols lines t" and "a \<le> b" "b \<le> cols"
  shows "returns (blank_range a b t) (\<lambda>t'. term_ok W cols lines t' \<and> same_view t t')"
  unfolding blank_range_def Let_def
  by (rule modify_line_ok [OF t row_fine_range]) (use assms erase_plain [OF t] in auto)

lemma erase_chars_ok:
  assumes t: "term_ok W cols lines t"
  shows "returns (erase_chars count t) (\<lambda>t'. term_ok W cols lines t' \<and> same_view t t')"
  using damage_then [of W cols lines t, OF t blank_range_ok] term_cursor(4) [OF t] term_dims(1) [OF t]
  by (simp add: erase_chars_def Let_def)

lemma clear_line_ok:
  assumes t: "term_ok W cols lines t"
  shows "returns (clear_line m t) (\<lambda>t'. term_ok W cols lines t' \<and> same_view t t')"
proof (cases "m = ClearRight \<and> c_wrap (t_cursor t)")
  case False
  let ?l = "line (cursor_point t)"
  obtain a b where ab: "(case m of ClearRight \<Rightarrow> (column (cursor_point t), t_columns t) | ClearLeft \<Rightarrow> (0, column (cursor_point t) + 1)
      | ClearLine \<Rightarrow> (0, t_columns t)) = (a, b)" by fastforce
  have b: "1 \<le> b" "a \<le> b" "b \<le> cols"
    using ab term_cursor(4) [OF t] term_dims [OF t] by (auto split: line_clear_mode.splits)
  have op: "returns (do { t \<leftarrow> blank_range a b t'; Some (drop_selection (Some ?l) (Some ?l) t) })
      (\<lambda>t''. term_ok W cols lines t'' \<and> same_view t' t'')" if "term_ok W cols lines t'" for t'
    using blank_range_ok [OF that b(2,3)] by simp
  show ?thesis
    using damage_then [of W cols lines t, OF t op] b(1) ab unfolding clear_line_def if_not_P [OF False] by (simp add: Let_def)
qed (use t in \<open>simp add: clear_line_def\<close>)

lemma decaln_ok:
  assumes t: "term_ok W cols lines t"
  shows "returns (decaln t) (\<lambda>t'. term_ok W cols lines t' \<and> same_view t t')"
proof -
  let ?n = "length (styles (t_styles t))" and ?w = "set_c default_cell 0x45"
  let ?I = "\<lambda>g. screen_ok ?n cols lines g \<and> cursor g = cursor (t_grid t) \<and> saved_cursor g = saved_cursor (t_grid t)"
  have g: "screen_ok ?n cols lines (t_grid t)" using t by (simp add: term_ok_def)
  then have n: "0 < ?n" by (simp add: screen_ok_def)
  have "is_scalar 0x45" by (simp add: is_scalar_def)
  then have plain: "plain_cell ?n ?w"
    using plain_default [OF n] by (simp add: plain_cell_def valid_cell_def unpack_sel unpack_set_c)
  have "returns (modify_cell (Point l col) (\<lambda>_. ?w) h) ?I" if "0 \<le> l" "l < int lines" "col < cols" "?I h" for l col h
    by (rule returns_mono [OF screen_modify_cell [OF _ _ _ _ tame_edits(5) [OF plain]]])
      (use that in \<open>auto simp: same_frame_def\<close>)
  then have "returns (for_each (\<lambda>col. modify_cell (Point l col) (\<lambda>_. ?w)) [0..<cols] h) ?I"
    if "0 \<le> l" "l < int lines" "?I h" for l h
    by (rule for_each_inv) (use that in auto)
  then have "returns (for_each (\<lambda>l. for_each (\<lambda>col. modify_cell (Point l col) (\<lambda>_. ?w)) [0..<cols]) (irange 0 (int lines)) (t_grid t)) ?I"
    by (rule for_each_inv) (use g in auto)
  from on_grid_same [of W cols lines t "for_each (\<lambda>l. for_each (\<lambda>col. modify_cell (Point l col) (\<lambda>_. ?w)) [0..<cols]) (irange 0 (int lines))",
      OF t this]
  show ?thesis using term_dims [OF t] by (simp add: decaln_def Let_def)
qed

lemma reset_region_ok:
  assumes t: "term_ok W cols lines t"
    and "0 \<le> (case a of Included l \<Rightarrow> l | Excluded l \<Rightarrow> l + 1 | Unbounded \<Rightarrow> 0)"
      "(case a of Included l \<Rightarrow> l | Excluded l \<Rightarrow> l + 1 | Unbounded \<Rightarrow> 0) < int lines"
      "(case b of Included l \<Rightarrow> l + 1 | Excluded l \<Rightarrow> l | Unbounded \<Rightarrow> int lines) \<le> int lines"
  shows "returns (on_grid (reset_region packed_cell_ops a b) t) (\<lambda>t'. term_ok W cols lines t' \<and> same_view t t')"
  by (rule on_grid_same [where f = "reset_region packed_cell_ops a b", OF t screen_reset_region [OF _ assms(2-4)]])

lemma reset_screen_ok:
  assumes t: "term_ok W cols lines t"
  shows "returns (on_grid (reset_region packed_cell_ops Unbounded Unbounded) t) (\<lambda>t'. term_ok W cols lines t' \<and> same_view t t')"
  by (rule reset_region_ok [OF t]) (use term_dims(4) [OF t] in simp_all)

lemma graphics_ok:
  assumes t: "term_ok W cols lines t" and f: "kitty_ok W (t_graphics t) \<Longrightarrow> returns (f (t_graphics t)) (kitty_ok W)"
  shows "returns (on_graphics f t) (\<lambda>t'. term_ok W cols lines t' \<and> same_view t t')"
  by (rule returns_mono [OF on_graphics_ok [where f = f, OF t f]]) auto

lemma then_view:
  assumes "returns m (\<lambda>t'. term_ok W cols lines t' \<and> same_view t t')"
    and "\<And>t'. term_ok W cols lines t' \<Longrightarrow> same_view t t' \<Longrightarrow>
      returns (f t') (\<lambda>t''. term_ok W cols lines t'' \<and> same_view t' t'')"
  shows "returns (Option.bind m f) (\<lambda>t''. term_ok W cols lines t'' \<and> same_view t t'')"
  using assms by (fastforce simp: returns_iff elim: same_view_trans)

lemma clear_above_ok:
  assumes t: "term_ok W cols lines t"
  shows "returns (clear_above t) (\<lambda>t'. term_ok W cols lines t' \<and> same_view t t')"
  unfolding clear_above_def Let_def
proof (rule then_view)
  let ?p = "cursor_point t"
  show "returns (if 1 < line ?p then on_grid (reset_region packed_cell_ops Unbounded (Excluded (line ?p))) t else Some t)
      (\<lambda>t'. term_ok W cols lines t' \<and> same_view t t')"
    using reset_region_ok [OF t, of Unbounded "Excluded (line ?p)"] t term_cursor [OF t] by simp
  fix t1 assume t1: "term_ok W cols lines t1"
  show "returns (do { t \<leftarrow> blank_range 0 (min (column ?p + 1) (t_columns t1)) t1; Some (drop_selection (Some 0) (Some (line ?p)) t) })
      (\<lambda>t'. term_ok W cols lines t' \<and> same_view t1 t')"
    using blank_range_ok [OF t1, of 0] term_dims(1) [OF t1] by simp
qed

lemma clear_below_ok:
  assumes t: "term_ok W cols lines t"
  shows "returns (clear_below t) (\<lambda>t'. term_ok W cols lines t' \<and> same_view t t')"
  unfolding clear_below_def Let_def
proof (rule then_view)
  let ?p = "cursor_point t"
  show "returns (blank_range (column ?p) (t_columns t) t) (\<lambda>t'. term_ok W cols lines t' \<and> same_view t t')"
    by (rule blank_range_ok [OF t]) (use term_cursor [OF t] term_dims [OF t] in auto)
  fix t1 assume t1: "term_ok W cols lines t1"
  then have "nat (line ?p) < t_lines t1 - 1 \<Longrightarrow> line ?p + 1 < int lines" using term_dims(2) [OF t1] by linarith
  then show "returns (do {
        t \<leftarrow> (if nat (line ?p) < t_lines t1 - 1 then on_grid (reset_region packed_cell_ops (Included (line ?p + 1)) Unbounded) t1 else Some t1);
        Some (drop_selection (Some (line ?p)) (Some (int (t_lines t) - 1)) t) }) (\<lambda>t'. term_ok W cols lines t' \<and> same_view t1 t')"
    using reset_region_ok [OF t1, of "Included (line ?p + 1)" Unbounded] t1 term_cursor [OF t] by simp
qed

lemma scroll_graphics_ok:
  assumes "term_ok W cols lines t"
  shows "returns (on_graphics (kitty_scroll C sc) t) (\<lambda>t'. term_ok W cols lines t' \<and> same_view t t')"
    "returns (on_graphics (kitty_clear_screen h) t) (\<lambda>t'. term_ok W cols lines t' \<and> same_view t t')"
    "returns (on_graphics kitty_clear_history t) (\<lambda>t'. term_ok W cols lines t' \<and> same_view t t')"
  by (rule graphics_ok [OF assms kitty_scroll_ok(1)] graphics_ok [OF assms kitty_scroll_ok(2)]
      graphics_ok [OF assms kitty_scroll_ok(3)], assumption)+

lemma graphics_placed_ok:
  assumes "term_ok W cols lines t"
  obtains b where "graphics_placed t = Some b"
  using assms that by (auto simp: graphics_placed_def term_ok_def store_of_def kitty_ok_def kitty_base_def)

lemma clear_all_ok:
  assumes t: "term_ok W cols lines t"
  shows "returns (clear_all E t) (\<lambda>t'. term_ok W cols lines t' \<and> same_view t t')"
proof -
  let ?n = "length (styles (t_styles t))"
  have g: "screen_ok ?n cols lines (t_grid t)" using t by (simp add: term_ok_def)
  obtain k h where h: "clear_viewport packed_cell_ops (t_grid t) = Some (k, h)" "screen_ok ?n cols lines h" "cursor h = cursor (t_grid t)"
    using screen_clear_viewport [OF g] by (auto simp: returns_iff)
  let ?t = "t\<lparr>t_grid := h\<rparr>"
  have t1: "term_ok W cols lines ?t" "same_view t ?t" using t h by (auto simp: term_ok_def same_view_def)
  obtain b where b: "graphics_placed ?t = Some b" using graphics_placed_ok [OF t1(1)] .
  have "returns (if 0 < k \<and> b then on_graphics (kitty_scroll (gfx E) sc) ?t else Some ?t)
      (\<lambda>t'. term_ok W cols lines t' \<and> same_view t t')" for sc
    using later_view [OF scroll_graphics_ok(1) [OF t1(1), of "gfx E"] t1(2)] t1 by simp
  then show ?thesis
    using h(1) b reset_screen_ok [OF t] by (simp add: clear_all_def Let_def)
qed

lemma clear_saved_ok:
  assumes t: "term_ok W cols lines t"
  shows "returns (clear_saved t) (\<lambda>t'. term_ok W cols lines t' \<and> same_view t t')"
  using on_grid_same [where f = clear_history, OF t screen_clear_history] t by (simp add: clear_saved_def)

lemma clear_screen_ok:
  assumes t: "term_ok W cols lines t"
  shows "returns (clear_screen E m t) (\<lambda>t'. term_ok W cols lines t' \<and> same_view t t')"
  unfolding clear_screen_def
proof (rule then_view)
  show "returns (case m of ClearAbove \<Rightarrow> clear_above t | ClearBelow \<Rightarrow> clear_below t | ClearAll \<Rightarrow> clear_all E t | ClearSaved \<Rightarrow> clear_saved t)
      (\<lambda>t'. term_ok W cols lines t' \<and> same_view t t')"
    using clear_above_ok [OF t] clear_below_ok [OF t] clear_all_ok [OF t, of E] clear_saved_ok [OF t] by (simp split: clear_mode.split)
  fix t1 assume t1: "term_ok W cols lines t1"
  show "returns (do { t \<leftarrow> (case m of ClearAll \<Rightarrow> on_graphics (kitty_clear_screen False) t1
          | ClearSaved \<Rightarrow> on_graphics kitty_clear_history t1 | _ \<Rightarrow> Some t1);
        Some (mark_fully_damaged (if m = ClearAll then send VividClear (flush_grid_scroll t) else t)) })
      (\<lambda>t'. term_ok W cols lines t' \<and> same_view t1 t')"
    using scroll_graphics_ok(2) [OF t1, of False] scroll_graphics_ok(3) [OF t1] t1 by (cases m) simp_all
qed

lemma deccolm_ok:
  assumes t: "term_ok W cols lines t"
  shows "returns (deccolm t) (term_ok W cols lines)"
proof -
  obtain t1 where t1: "set_scrolling_region 1 None t = Some t1" "term_ok W cols lines t1"
    using set_scrolling_region_ok [OF t, of 1 None] by (auto simp: returns_iff)
  obtain t2 where t2: "on_grid (reset_region packed_cell_ops Unbounded Unbounded) t1 = Some t2" "term_ok W cols lines t2"
    using reset_screen_ok [OF t1(2)] by (auto simp: returns_iff)
  show ?thesis using t1(1) t2(1) scroll_graphics_ok(2) [OF t2(2), of False] by (auto simp: deccolm_def returns_iff)
qed

lemma first_wrapped_ok:
  assumes g: "screen_ok n cols lines g"
  shows "k < lines \<Longrightarrow> returns (first_wrapped g k) (\<lambda>s. s \<le> k)"
proof (induction k)
  case (Suc k)
  have last: "last_column (grid_dims g) < cols" using g by (auto simp: screen_ok_def last_column_def grid_dims_def grid_shape_def storage_ok_def)
  obtain w where "grid_cell_at g (Point (int k) (last_column (grid_dims g))) = Some w"
    by (rule screen_cell_at [OF g, of "Point (int k) (last_column (grid_dims g))"]) (use Suc.prems last in auto)
  then show ?case using Suc by (auto intro: returns_mono)
qed simp

lemma last_wrapped_ok:
  assumes g: "screen_ok n cols lines g"
  shows "0 \<le> l \<Longrightarrow> l < int lines \<Longrightarrow> returns (last_wrapped g l) (\<lambda>s. l \<le> s \<and> s < int lines)"
proof (induction "nat (int lines - l)" arbitrary: l rule: less_induct)
  case less
  let ?p = "Point l (last_column (grid_dims g))"
  have last: "last_column (grid_dims g) < cols" using g by (auto simp: screen_ok_def last_column_def grid_dims_def grid_shape_def storage_ok_def)
  have bottom: "bottommost_line (grid_dims g) = int lines - 1" using g by (simp add: screen_ok_def bottommost_line_def grid_dims_def)
  obtain w where w: "grid_cell_at g ?p = Some w" by (rule screen_cell_at [OF g, of ?p]) (use less.prems last in auto)
  show ?case
  proof (cases "l < int lines - 1")
    case True
    have "returns (last_wrapped g (l + 1)) (\<lambda>s. l + 1 \<le> s \<and> s < int lines)"
      by (rule less.hyps) (use less.prems True in auto)
    then show ?thesis
      using True w bottom less.prems unfolding last_wrapped.simps [of g l] by (auto intro: returns_mono)
  qed (use bottom less.prems in \<open>simp add: last_wrapped.simps [of g l]\<close>)
qed

lemma clear_buffer_ok:
  assumes t: "term_ok W cols lines t"
  shows "returns (clear_buffer t) (term_ok W cols lines)"
proof -
  let ?n = "length (styles (t_styles t))" and ?l = "line (cursor_point t)"
  have g: "screen_ok ?n cols lines (t_grid t)" using t by (simp add: term_ok_def)
  have l: "0 \<le> ?l" "?l < int lines" using term_cursor [OF t] by simp_all
  obtain a where a: "first_wrapped (t_grid t) (nat ?l) = Some a" "int a \<le> ?l"
    using first_wrapped_ok [OF g, of "nat ?l"] l by (fastforce simp: returns_iff nat_less_iff)
  obtain b where b: "last_wrapped (t_grid t) ?l = Some b" "?l \<le> b" "b < int lines"
    using last_wrapped_ok [OF g l] by (auto simp: returns_iff)
  have lines: "t_lines t = lines" using term_dims(2) [OF t] .
  have up: "returns (Grid.scroll_up packed_cell_ops (0, int lines) a (t_grid t)) (\<lambda>g'. screen_ok ?n cols lines g' \<and>
      cursor g' = cursor (t_grid t) \<and> saved_cursor g' = saved_cursor (t_grid t))"
    unfolding scroll_up_def by (rule screen_scroll_up [OF g]) (use a l in auto)
  obtain t1 where t1: "on_grid (Grid.scroll_up packed_cell_ops (0, int lines) a) t = Some t1" "term_ok W cols lines t1" "same_view t t1"
    using on_grid_same [of W cols lines t "Grid.scroll_up packed_cell_ops (0, int lines) a", OF t up] by (auto simp: returns_iff)
  let ?r = "b - int a + 1"
  have "returns (if ?r < int lines then on_grid (reset_region packed_cell_ops (Included ?r) Unbounded) t1 else Some t1)
      (\<lambda>t'. term_ok W cols lines t' \<and> same_view t1 t')"
    using reset_region_ok [OF t1(2), of "Included ?r" Unbounded] t1(2) a b by simp
  then obtain t2 where t2: "(if ?r < int lines then on_grid (reset_region packed_cell_ops (Included ?r) Unbounded) t1 else Some t1) = Some t2"
    "term_ok W cols lines t2" "same_view t1 t2" by (auto simp: returns_iff)
  have c: "cursor_point t2 = cursor_point t" using t1(3) t2(3) by (simp add: same_view_def)
  let ?t3 = "set_point (Point (?l - int a) (column (cursor_point t))) t2"
  have t3: "term_ok W cols lines ?t3" by (rule set_point_ok [OF t2(2)]) (use a l term_cursor(4) [OF t] in auto)
  obtain t4 where t4: "on_grid clear_history ?t3 = Some t4" "term_ok W cols lines t4"
    using on_grid_same [where f = clear_history, OF t3 screen_clear_history] by (auto simp: returns_iff)
  have "term_ok W cols lines (t4\<lparr>t_selection := None\<rparr>)" using t4(2) by simp
  from scroll_graphics_ok(2) [OF this, of True] obtain t5
    where t5: "on_graphics (kitty_clear_screen True) (t4\<lparr>t_selection := None\<rparr>) = Some t5" "term_ok W cols lines t5"
    by (auto simp: returns_iff)
  show ?thesis
    using a(1) b(1) t1(1) t2(1) t4(1) t5 c lines by (simp add: clear_buffer_def Let_def)
qed

end
