(* ===== verification/Sweep.thy ===== *)
theory Sweep
  imports Term
begin

text \<open>
  The style of new output, \<open>src/terminal/term/mod.rs\<close>: attributes and hyperlinks change the style of
  the cursor's template, which is interned in the table of styles; when the table has grown enough,
  the styles no cell refers to are swept and every stored cell is relabelled.
\<close>

section \<open>Sweeping\<close>

text \<open>The cells a grid's \<open>for_each_cell_mut\<close> visits, and the relabelling, which panics on an unknown id.\<close>

definition grid_cells :: "cell grid \<Rightarrow> cell list" where
  "grid_cells g = concat (map inner (rows (raw g))) @
     [c_template (cursor g), c_erase (cursor g), c_template (saved_cursor g), c_erase (saved_cursor g)]"

definition mark_grid :: "cell grid \<Rightarrow> bool list \<Rightarrow> bool list option" where
  "mark_grid g used = for_each (\<lambda>w used. mark used (cell_style w)) (grid_cells g) used"

definition relabel :: "style_id list \<Rightarrow> cell grid \<Rightarrow> cell grid option" where
  "relabel remap g =
     (if list_all (\<lambda>w. remap_get remap (cell_style w) \<noteq> None) (grid_cells g)
      then Some (grid_for_each_cell (\<lambda>w. set_style w (the (remap_get remap (cell_style w)))) g) else None)"

definition sweep_styles :: "('f, 'z) env \<Rightarrow> 'f terminal \<Rightarrow> 'f terminal option" where
  "sweep_styles E t =
     do { used \<leftarrow> marks (t_styles t);
          used \<leftarrow> mark_grid (t_grid t) used;
          used \<leftarrow> mark_grid (t_inactive_grid t) used;
          (remap, T) \<leftarrow> compact (ptr_eq E) (t_styles t) used;
          g \<leftarrow> relabel remap (t_grid t);
          h \<leftarrow> relabel remap (t_inactive_grid t);
          Some (t\<lparr>t_styles := T, t_grid := g, t_inactive_grid := h\<rparr>) }"

definition stored_cells :: "'f terminal \<Rightarrow> nat" where
  "stored_cells t = grid_stored_cells (t_grid t) + grid_stored_cells (t_inactive_grid t)"

section \<open>The style of new output\<close>

definition template_style :: "'f terminal \<Rightarrow> style option" where
  "template_style t = style_get (t_styles t) (cell_style (c_template (t_cursor t)))"

definition update_template_style :: "('f, 'z) env \<Rightarrow> (style \<Rightarrow> style) \<Rightarrow> 'f terminal \<Rightarrow> 'f terminal option" where
  "update_template_style E update t =
     (case pending_style t of
        Some s \<Rightarrow> Some (t\<lparr>pending_style := Some (update s)\<rparr>)
      | None \<Rightarrow> do {
          previous \<leftarrow> template_style t;
          let s = update previous;
          if s = previous then Some t
          else do {
            (i, T) \<leftarrow> intern (ptr_eq E) (t_styles t) s;
            let t = at_cursor (\<lambda>c. c\<lparr>c_template := set_style (c_template c) i\<rparr>) (t\<lparr>t_styles := T\<rparr>);
            t \<leftarrow> (if bg s \<noteq> bg previous
                 then do { (e, T) \<leftarrow> intern (ptr_eq E) (t_styles t) (default_style\<lparr>bg := bg s\<rparr>);
                           Some (at_cursor (\<lambda>c. c\<lparr>c_erase := set_style (c_erase c) e\<rparr>) (t\<lparr>t_styles := T\<rparr>)) }
                 else Some t);
            if needs_sweep (t_styles t) (stored_cells t) then sweep_styles E t else Some t } })"

definition set_hyperlink :: "('f, 'z) env \<Rightarrow> hyperlink option \<Rightarrow> 'f terminal \<Rightarrow> 'f terminal option" where
  "set_hyperlink E link = update_template_style E (\<lambda>s. s\<lparr>hyperlink := link\<rparr>)"

definition start_attributes :: "'f terminal \<Rightarrow> 'f terminal option" where
  "start_attributes t = do { s \<leftarrow> template_style t; Some (t\<lparr>pending_style := Some s\<rparr>) }"

definition finish_attributes :: "('f, 'z) env \<Rightarrow> 'f terminal \<Rightarrow> 'f terminal option" where
  "finish_attributes E t =
     (case pending_style t of None \<Rightarrow> Some t
      | Some s \<Rightarrow> update_template_style E (\<lambda>_. s) (t\<lparr>pending_style := None\<rparr>))"

datatype attr =
    Foreground color | Background color | UnderlineColor "color option" | AttrReset
  | Reverse | CancelReverse | AttrBold | CancelBold | AttrDim | CancelBoldDim | AttrItalic | CancelItalic
  | AttrUnderline | DoubleUnderline | AttrUndercurl | DottedUnderline | DashedUnderline | CancelUnderline
  | AttrHidden | CancelHidden | Strike | CancelStrike | OtherAttr

definition change_attrs :: "flags \<Rightarrow> flags \<Rightarrow> style \<Rightarrow> style" where
  "change_attrs added removed s = s\<lparr>attrs := attrs s AND NOT removed OR added\<rparr>"

fun attr_update :: "attr \<Rightarrow> style \<Rightarrow> style" where
  "attr_update (Foreground c) s = s\<lparr>fg := c\<rparr>"
| "attr_update (Background c) s = s\<lparr>bg := c\<rparr>"
| "attr_update (UnderlineColor c) s = s\<lparr>underline_color := c\<rparr>"
| "attr_update AttrReset s = default_style\<lparr>hyperlink := hyperlink s\<rparr>"
| "attr_update Reverse s = change_attrs INVERSE 0 s"
| "attr_update CancelReverse s = change_attrs 0 INVERSE s"
| "attr_update AttrBold s = change_attrs BOLD 0 s"
| "attr_update CancelBold s = change_attrs 0 BOLD s"
| "attr_update AttrDim s = change_attrs DIM 0 s"
| "attr_update CancelBoldDim s = change_attrs 0 (BOLD OR DIM) s"
| "attr_update AttrItalic s = change_attrs ITALIC 0 s"
| "attr_update CancelItalic s = change_attrs 0 ITALIC s"
| "attr_update AttrUnderline s = change_attrs UNDERLINE ALL_UNDERLINES s"
| "attr_update DoubleUnderline s = change_attrs DOUBLE_UNDERLINE ALL_UNDERLINES s"
| "attr_update AttrUndercurl s = change_attrs UNDERCURL ALL_UNDERLINES s"
| "attr_update DottedUnderline s = change_attrs DOTTED_UNDERLINE ALL_UNDERLINES s"
| "attr_update DashedUnderline s = change_attrs DASHED_UNDERLINE ALL_UNDERLINES s"
| "attr_update CancelUnderline s = change_attrs 0 ALL_UNDERLINES s"
| "attr_update AttrHidden s = change_attrs HIDDEN 0 s"
| "attr_update CancelHidden s = change_attrs 0 HIDDEN s"
| "attr_update Strike s = change_attrs STRIKEOUT 0 s"
| "attr_update CancelStrike s = change_attrs 0 STRIKEOUT s"
| "attr_update OtherAttr s = s"

definition terminal_attribute :: "('f, 'z) env \<Rightarrow> attr \<Rightarrow> 'f terminal \<Rightarrow> 'f terminal option" where
  "terminal_attribute E a t = (if a = OtherAttr then Some t else update_template_style E (attr_update a) t)"

section \<open>The table\<close>

lemma set_AList_update: "set (AList.update k v al) \<subseteq> insert (k, v) (set al)"
  by (induction al) auto

lemma link_number_frame:
  "link_number same T link = (n, T') \<Longrightarrow>
    styles T' = styles T \<and> style_table.ids T' = style_table.ids T \<and> cache T' = cache T"
  by (auto simp: link_number_def Let_def split: option.splits)

lemma intern_safe:
  assumes T: "table_safe T" and s: "\<not> intersects (attrs s) LAYOUT"
  shows "returns (intern same T s) (\<lambda>(i, T'). table_safe T' \<and> style_index i < length (styles T') \<and>
    length (styles T) \<le> length (styles T'))"
proof -
  obtain link T1 where eq: "link_number same T (hyperlink s) = (link, T1)" by fastforce
  note frame = link_number_frame [OF eq]
  let ?k = "key s link"
  have slot: "slot ?k < length (cache T1)" using slot_bound T frame by (simp add: table_safe_def)
  obtain cached j where hit: "cache T1 ! slot ?k = (cached, j)" by fastforce
  have T1: "table_safe T1" using T frame by (simp add: table_safe_def)
  have j: "style_index j < length (styles T1)" using T1 nth_mem [OF slot] hit by (auto simp: table_safe_def)
  have "returns (lookup_or_insert T1 ?k s) (\<lambda>(i, T'). table_safe T' \<and> style_index i < length (styles T') \<and>
      length (styles T) \<le> length (styles T') \<and> cache T' = cache T1)"
  proof (cases "map_of (style_table.ids T1) ?k")
    case (Some i)
    then have "(?k, i) \<in> set (style_table.ids T1)" by (rule map_of_SomeD)
    then show ?thesis using Some T1 frame by (auto simp: lookup_or_insert_def table_safe_def)
  next
    case None
    have zero: "style_index 0 = 0" by (simp add: style_index_def)
    show ?thesis
    proof (cases "CAPACITY \<le> length (styles T1)")
      case True
      then show ?thesis using None T1 frame zero by (fastforce simp: lookup_or_insert_def table_safe_def)
    next
      case False
      then obtain i where i: "style_id_new (length (styles T1)) s = Some i" using style_id_new_Some by fastforce
      let ?ids = "AList.update ?k i (style_table.ids T1)"
      have "style_index j < length (styles T1 @ [s])" if m: "(k, j) \<in> set (cache T1) \<union> set ?ids" for k j
      proof -
        have "(k, j) = (?k, i) \<or> (k, j) \<in> set (cache T1) \<union> set (style_table.ids T1)"
          using m set_AList_update [of ?k i "style_table.ids T1"] by blast
        moreover have "style_index j < length (styles T1)" if "(k, j) \<in> set (cache T1) \<union> set (style_table.ids T1)"
          using T1 that unfolding table_safe_def by blast
        ultimately show ?thesis using style_id_new_props(1) [OF i] by auto
      qed
      then have "table_safe (T1\<lparr>styles := styles T1 @ [s], style_table.ids := ?ids\<rparr>)"
        using T1 s False unfolding table_safe_def by auto
      then show ?thesis using None False i frame style_id_new_props(1) [OF i] by (simp add: lookup_or_insert_def)
    qed
  qed
  then obtain i T2 where T2: "lookup_or_insert T1 ?k s = Some (i, T2)" "table_safe T2" "style_index i < length (styles T2)"
    "length (styles T) \<le> length (styles T2)" "cache T2 = cache T1" by (auto simp: returns_iff)
  have "table_safe (T2\<lparr>cache := (cache T2)[slot ?k := (?k, i)]\<rparr>)"
    using T2(2,3) set_update_subset_insert [of "cache T2" "slot ?k" "(?k, i)"] by (fastforce simp: table_safe_def)
  then show ?thesis
    using s eq slot hit T2 T1 j frame by (simp add: intern_def Let_def)
qed
lemma reindex_safe:
  assumes "m + length kept \<le> CAPACITY"
  shows "\<exists>T'. for_each (reindex_step same) (enumerate m kept) T = Some T' \<and>
    (\<forall>(k, i) \<in> set (style_table.ids T'). (k, i) \<in> set (style_table.ids T) \<or> style_index i < m + length kept)"
  using assms
proof (induction kept arbitrary: m T)
  case (Cons s kept)
  obtain link T1 where eq: "link_number same T (hyperlink s) = (link, T1)" by fastforce
  obtain i where i: "style_id_new m s = Some i" using style_id_new_Some Cons.prems by fastforce
  let ?T = "style_table.ids_update (\<lambda>_. AList.update (key s link) i (style_table.ids T1)) T1"
  have step: "reindex_step same (m, s) T = Some ?T" by (simp add: reindex_step_def eq i)
  have "Suc m + length kept \<le> CAPACITY" using Cons.prems by simp
  from Cons.IH [OF this, of ?T] obtain T' where T': "for_each (reindex_step same) (enumerate (Suc m) kept) ?T = Some T'"
    "\<forall>(k, i) \<in> set (style_table.ids T'). (k, i) \<in> set (style_table.ids ?T) \<or> style_index i < Suc m + length kept"
    by auto
  have "set (style_table.ids ?T) \<subseteq> insert (key s link, i) (set (style_table.ids T))"
    using set_AList_update [of "key s link" i "style_table.ids T1"] link_number_frame [OF eq] by simp
  then show ?case using step T' style_id_new_props(1) [OF i] by fastforce
qed auto

lemma compact_safe:
  assumes T: "table_safe T" and used: "length used = length (styles T)" "used ! 0"
  shows "returns (compact same T used) (\<lambda>(remap, T'). table_safe T' \<and> length remap = length (styles T) \<and>
    (\<forall>j < length (styles T). used ! j \<longrightarrow> style_index (remap ! j) < length (styles T')))"
proof -
  let ?kept = "kept_styles (styles T) used"
  have cap: "length (styles T) \<le> CAPACITY" and ne: "styles T \<noteq> []" using T by (simp_all add: table_safe_def)
  obtain remap where loop: "for_each compact_styles_step (zip (styles T) used) ([], []) = Some (remap, ?kept)"
    and remap: "length remap = length (styles T)"
      "\<forall>j < length (styles T). used ! j \<longrightarrow> idx ?kept (style_index (remap ! j)) = Some (styles T ! j)"
    using compact_styles_loop [OF used(1) cap] by (auto simp: returns_iff)
  have le: "length ?kept \<le> CAPACITY" using kept_styles_le cap le_trans by blast
  have kept: "set ?kept \<subseteq> set (styles T)" by (auto simp: kept_styles_def dest: set_zip_leftD)
  have "?kept \<noteq> []" using ne used by (cases "styles T"; cases used) (simp_all add: kept_styles_def)
  then have k0: "0 < length ?kept" by simp
  have "0 + length ?kept \<le> CAPACITY" using le by simp
  from reindex_safe [OF this, of same "style_table.ids_update (\<lambda>_. []) (T\<lparr>styles := [], links := [], last_link := None\<rparr>)"]
  obtain T1 where T1: "for_each (reindex_step same) (enumerate 0 ?kept)
      (style_table.ids_update (\<lambda>_. []) (T\<lparr>styles := [], links := [], last_link := None\<rparr>)) = Some T1"
    "\<forall>(k, i) \<in> set (style_table.ids T1). style_index i < length ?kept" by auto
  have "table_safe (T1\<lparr>cache := empty_cache, live := length ?kept, styles := ?kept\<rparr>)"
    using T T1(2) kept k0 le by (auto simp: table_safe_def empty_cache_def style_index_def)
  then show ?thesis using remap T1(1) by (auto simp: compact_def loop idx_eq_Some)
qed

lemma marks_ok:
  assumes "table_safe T"
  shows "returns (marks T) (\<lambda>used. length used = length (styles T) \<and> used ! 0)"
  using assms by (auto simp: marks_def table_safe_def)

lemma mark_all:
  assumes "\<forall>w \<in> set ws. style_index (cell_style w) < length used"
  shows "returns (for_each (\<lambda>w used. mark used (cell_style w)) ws used) (\<lambda>used'. length used' = length used \<and>
    (\<forall>j < length used. used ! j \<longrightarrow> used' ! j) \<and> (\<forall>w \<in> set ws. used' ! style_index (cell_style w)))"
  using assms
proof (induction ws arbitrary: used)
  case (Cons w ws)
  let ?u = "used[style_index (cell_style w) := True]"
  have "\<forall>w \<in> set ws. style_index (cell_style w) < length ?u" using Cons.prems by simp
  from Cons.IH [OF this] Cons.prems show ?case
    by (auto simp: mark_def returns_iff nth_list_update)
qed simp

section \<open>Relabelling\<close>

lemma grid_cells_valid:
  assumes g: "screen_ok n cols lines g" and w: "w \<in> set (grid_cells g)"
  shows "style_index (cell_style w) < n"
  using assms by (auto simp: grid_cells_def screen_ok_def all_cells_def cursor_ok_def plain_cell_def valid_cell_def)

lemma mark_grid_ok:
  assumes g: "screen_ok (length used) cols lines g"
  shows "returns (mark_grid g used) (\<lambda>used'. length used' = length used \<and>
    (\<forall>j < length used. used ! j \<longrightarrow> used' ! j) \<and> (\<forall>w \<in> set (grid_cells g). used' ! style_index (cell_style w)))"
  unfolding mark_grid_def by (rule mark_all) (use grid_cells_valid [OF g] in blast)

text \<open>A blank cell stays a blank cell.\<close>

lemma set_style_blank:
  assumes "style_id_ok i"
  shows "set_style (cell_reset t t) i = cell_reset (set_style (cell_reset t t) i) (set_style (cell_reset t t) i)"
proof (rule bit_word_eqI)
  fix n assume "n < LENGTH(64)"
  then show "bit (set_style (cell_reset t t) i) n = bit (cell_reset (set_style (cell_reset t t) i) (set_style (cell_reset t t) i)) n"
    using assms by (auto simp: set_style_def cell_reset_def packed_bits shift_values bit_SPACE style_id_ok_def bit_packed_style)
qed

lemma relabel_ok:
  assumes g: "screen_ok n cols lines g" and n': "0 < n'" "n' \<le> CAPACITY"
    and remap: "\<And>w. w \<in> set (grid_cells g) \<Longrightarrow> \<exists>i. remap_get remap (cell_style w) = Some i \<and> style_index i < n'"
  shows "returns (relabel remap g) (\<lambda>g'. screen_ok n' cols lines g')"
proof -
  define f where "f = (\<lambda>w. set_style w (the (remap_get remap (cell_style w))))"
  have f: "cell_style (f w) = the (remap_get remap (cell_style w)) \<and> extra_of (f w) = extra_of w \<and> valid_cell n' (f w) \<and>
      style_id_ok (the (remap_get remap (cell_style w)))"
    if w: "w \<in> set (grid_cells g)" for w
  proof -
    obtain i where i: "remap_get remap (cell_style w) = Some i" "style_index i < n'" using remap [OF w] by blast
    then have "style_id_ok i" using n'(2) by (simp add: style_id_ok_def)
    then show ?thesis using i by (simp add: f_def unpack_sel unpack_set_style valid_cell_def)
  qed
  have row: "row_ok packed_cell_ops (r\<lparr>inner := map f (inner r)\<rparr>)" if r: "r \<in> set (rows (raw g))" for r
  proof -
    have ok: "row_ok packed_cell_ops r" using g r by (simp add: screen_ok_def grid_shape_def rows_ok_def)
    have cells: "w \<in> set (grid_cells g)" if "w \<in> set (inner r)" for w using that r by (auto simp: grid_cells_def)
    let ?k = "length (inner r) - occ r"
    obtain t where t: "drop (occ r) (inner r) = replicate ?k (cell_reset t t)" using ok by (auto simp: row_ok_def)
    have "\<exists>t'. drop (occ r) (map f (inner r)) = replicate ?k (cell_reset t' t')"
    proof (cases "?k = 0")
      case False
      then have "cell_reset t t \<in> set (drop (occ r) (inner r))" unfolding t by simp
      then have "cell_reset t t \<in> set (inner r)" by (rule in_set_dropD)
      from f [OF cells [OF this]] have "f (cell_reset t t) = cell_reset (f (cell_reset t t)) (f (cell_reset t t))"
        unfolding f_def using set_style_blank by simp
      then have "drop (occ r) (map f (inner r)) = replicate ?k (cell_reset (f (cell_reset t t)) (f (cell_reset t t)))"
        by (simp add: drop_map t)
      then show ?thesis by blast
    qed simp
    then show ?thesis using ok f cells by (auto simp: row_ok_def)
  qed
  have cursor: "cursor_ok n' cols lines (c\<lparr>c_template := f (c_template c), c_erase := f (c_erase c)\<rparr>)"
    if "cursor_ok n cols lines c" "c_template c \<in> set (grid_cells g)" "c_erase c \<in> set (grid_cells g)" for c
    using that f by (auto simp: cursor_ok_def plain_cell_def)
  have "rows_ok packed_cell_ops cols ((raw g)\<lparr>rows := map (\<lambda>r. r\<lparr>inner := map f (inner r)\<rparr>) (rows (raw g))\<rparr>)"
    using row g by (auto simp: rows_ok_def screen_ok_def grid_shape_def)
  moreover have "all_cells (valid_cell n') ((raw g)\<lparr>rows := map (\<lambda>r. r\<lparr>inner := map f (inner r)\<rparr>) (rows (raw g))\<rparr>)"
    using f by (auto simp: all_cells_def grid_cells_def)
  moreover have "c_template (cursor g) \<in> set (grid_cells g)" "c_erase (cursor g) \<in> set (grid_cells g)"
    "c_template (saved_cursor g) \<in> set (grid_cells g)" "c_erase (saved_cursor g) \<in> set (grid_cells g)"
    by (simp_all add: grid_cells_def)
  ultimately have "screen_ok n' cols lines (grid_for_each_cell f g)"
    using g cursor n'(1)
    by (auto simp: screen_ok_def grid_for_each_cell_def grid_shape_def storage_ok_def history_size_def grid_dims_def Let_def)
  moreover have "list_all (\<lambda>w. remap_get remap (cell_style w) \<noteq> None) (grid_cells g)"
    using remap by (fastforce simp: list_all_iff)
  ultimately show ?thesis by (simp add: relabel_def f_def)
qed

text \<open>What changing the style of new output leaves alone.\<close>

definition same_place :: "'f terminal \<Rightarrow> 'f terminal \<Rightarrow> bool" where
  "same_place t t' \<longleftrightarrow> cursor_point t' = cursor_point t \<and> scroll_region t' = scroll_region t \<and> t_mode t' = t_mode t"

lemma sweep_styles_ok:
  assumes t: "term_ok W cols lines t"
  shows "returns (sweep_styles E t) (term_ok W cols lines)"
proof -
  let ?n = "length (styles (t_styles t))"
  have safe: "table_safe (t_styles t)" and g: "screen_ok ?n cols lines (t_grid t)" and h: "screen_ok ?n cols lines (t_inactive_grid t)"
    using t by (simp_all add: term_ok_def)
  obtain u0 where u0: "marks (t_styles t) = Some u0" "length u0 = ?n" "u0 ! 0" using marks_ok [OF safe] by (auto simp: returns_iff)
  have n: "0 < ?n" using safe by (simp add: table_safe_def)
  obtain u1 where u1: "mark_grid (t_grid t) u0 = Some u1" "length u1 = ?n" "u1 ! 0"
    "\<forall>w \<in> set (grid_cells (t_grid t)). u1 ! style_index (cell_style w)"
    using mark_grid_ok [of u0 cols lines "t_grid t"] g u0 n by (auto simp: returns_iff)
  obtain u2 where u2: "mark_grid (t_inactive_grid t) u1 = Some u2" "length u2 = ?n" "u2 ! 0"
    "\<forall>w \<in> set (grid_cells (t_grid t)). u2 ! style_index (cell_style w)"
    "\<forall>w \<in> set (grid_cells (t_inactive_grid t)). u2 ! style_index (cell_style w)"
    using mark_grid_ok [of u1 cols lines "t_inactive_grid t"] h u1 n grid_cells_valid [OF g] by (auto simp: returns_iff)
  obtain remap T where T: "compact (ptr_eq E) (t_styles t) u2 = Some (remap, T)" "table_safe T" "length remap = ?n"
    "\<forall>j < ?n. u2 ! j \<longrightarrow> style_index (remap ! j) < length (styles T)"
    using compact_safe [OF safe u2(2,3), of "ptr_eq E"] by (auto simp: returns_iff)
  have n': "0 < length (styles T)" "length (styles T) \<le> CAPACITY" using T(2) by (auto simp: table_safe_def)
  have look: "\<exists>i. remap_get remap (cell_style w) = Some i \<and> style_index i < length (styles T)"
    if "style_index (cell_style w) < ?n" "u2 ! style_index (cell_style w)" for w
    using that T(3,4) by (simp add: remap_get_def)
  have "returns (relabel remap (t_grid t)) (screen_ok (length (styles T)) cols lines)"
    by (rule relabel_ok [OF g n' look]) (use grid_cells_valid [OF g] u2(4) in auto)
  moreover have "returns (relabel remap (t_inactive_grid t)) (screen_ok (length (styles T)) cols lines)"
    by (rule relabel_ok [OF h n' look]) (use grid_cells_valid [OF h] u2(5) in auto)
  ultimately show ?thesis
    using u0(1) u1(1) u2(1) T(1,2) t by (auto simp: sweep_styles_def returns_iff term_ok_def)
qed
section \<open>Changing the style\<close>

lemma screen_mono:
  assumes "screen_ok n cols lines g" "n \<le> n'"
  shows "screen_ok n' cols lines g"
proof -
  have v: "valid_cell n w \<Longrightarrow> valid_cell n' w" for w using assms(2) by (simp add: valid_cell_def)
  then show ?thesis using assms by (auto simp: screen_ok_def all_cells_def cursor_ok_def plain_cell_def)
qed

lemma intern_term_ok:
  assumes t: "term_ok W cols lines t" and s: "\<not> intersects (attrs s) LAYOUT"
  shows "returns (intern same (t_styles t) s) (\<lambda>(i, T). term_ok W cols lines (t\<lparr>t_styles := T\<rparr>) \<and>
    style_id_ok i \<and> style_index i < length (styles T))"
proof -
  have "table_safe (t_styles t)" using t by (simp add: term_ok_def)
  from intern_safe [OF this s, of same] show ?thesis
  proof (rule returns_mono, clarify)
    fix i T assume T: "table_safe T" "style_index i < length (styles T)" "length (styles (t_styles t)) \<le> length (styles T)"
    then have "term_ok W cols lines (t\<lparr>t_styles := T\<rparr>)" using t screen_mono [OF _ T(3)] by (simp add: term_ok_def)
    then show "term_ok W cols lines (t\<lparr>t_styles := T\<rparr>) \<and> style_id_ok i \<and> style_index i < length (styles T)"
      using T by (simp add: table_safe_def style_id_ok_def)
  qed
qed

lemma restyle_ok:
  assumes t: "term_ok W cols lines t" and i: "style_id_ok i" "style_index i < length (styles (t_styles t))"
  shows "term_ok W cols lines (at_cursor (\<lambda>c. c\<lparr>c_template := set_style (c_template c) i\<rparr>) t)"
    "term_ok W cols lines (at_cursor (\<lambda>c. c\<lparr>c_erase := set_style (c_erase c) i\<rparr>) t)"
proof -
  have "plain_cell n w \<Longrightarrow> n = length (styles (t_styles t)) \<Longrightarrow> plain_cell n (set_style w i)" for n w
    using i by (simp add: plain_cell_def valid_cell_def unpack_sel unpack_set_style)
  then show "term_ok W cols lines (at_cursor (\<lambda>c. c\<lparr>c_template := set_style (c_template c) i\<rparr>) t)"
    "term_ok W cols lines (at_cursor (\<lambda>c. c\<lparr>c_erase := set_style (c_erase c) i\<rparr>) t)"
    using term_cursor(1) [OF t] by (auto intro!: at_cursor_ok [OF t] simp: cursor_ok_def)
qed

lemma template_style_ok:
  assumes t: "term_ok W cols lines t"
  shows "returns (template_style t) (\<lambda>s. \<not> intersects (attrs s) LAYOUT)"
proof -
  have "style_index (cell_style (c_template (t_cursor t))) < length (styles (t_styles t))"
    using term_cursor(1) [OF t] by (simp add: cursor_ok_def plain_cell_def valid_cell_def)
  then show ?thesis using t by (simp add: template_style_def style_get_def term_ok_def table_safe_def)
qed

lemma update_template_style_ok:
  assumes t: "term_ok W cols lines t"
    and f: "\<And>s. \<not> intersects (attrs s) LAYOUT \<Longrightarrow> \<not> intersects (attrs (update s)) LAYOUT"
  shows "returns (update_template_style E update t) (term_ok W cols lines)"
proof (cases "pending_style t")
  case (Some s)
  then show ?thesis using t f by (simp add: update_template_style_def term_ok_def)
next
  case None
  obtain prev where prev: "template_style t = Some prev" "\<not> intersects (attrs prev) LAYOUT"
    using template_style_ok [OF t] by (auto simp: returns_iff)
  let ?s = "update prev"
  show ?thesis
  proof (cases "?s = prev")
    case True
    then show ?thesis using None prev(1) t by (simp add: update_template_style_def)
  next
    case False
    obtain i T where T: "intern (ptr_eq E) (t_styles t) ?s = Some (i, T)" "term_ok W cols lines (t\<lparr>t_styles := T\<rparr>)"
      "style_id_ok i" "style_index i < length (styles T)"
      using intern_term_ok [OF t f [OF prev(2)], of "ptr_eq E"] by (auto simp: returns_iff)
    let ?t = "at_cursor (\<lambda>c. c\<lparr>c_template := set_style (c_template c) i\<rparr>) (t\<lparr>t_styles := T\<rparr>)"
    have t1: "term_ok W cols lines ?t" by (rule restyle_ok(1) [OF T(2)]) (use T in simp_all)
    have erase: "\<not> intersects (attrs (default_style\<lparr>bg := bg ?s\<rparr>)) LAYOUT" by (simp add: default_style_def intersects_def)
    have "returns (if bg ?s \<noteq> bg prev
        then do { (e, T) \<leftarrow> intern (ptr_eq E) (t_styles ?t) (default_style\<lparr>bg := bg ?s\<rparr>);
                  Some (at_cursor (\<lambda>c. c\<lparr>c_erase := set_style (c_erase c) e\<rparr>) (?t\<lparr>t_styles := T\<rparr>)) }
        else Some ?t) (term_ok W cols lines)"
    proof -
      obtain e T' where T': "intern (ptr_eq E) (t_styles ?t) (default_style\<lparr>bg := bg ?s\<rparr>) = Some (e, T')"
        "term_ok W cols lines (?t\<lparr>t_styles := T'\<rparr>)" "style_id_ok e" "style_index e < length (styles T')"
        using intern_term_ok [OF t1 erase, of "ptr_eq E"] by (auto simp: returns_iff)
      then show ?thesis using t1 restyle_ok(2) [OF T'(2,3)] by simp
    qed
    then obtain t2 where t2: "(if bg ?s \<noteq> bg prev
        then do { (e, T) \<leftarrow> intern (ptr_eq E) (t_styles ?t) (default_style\<lparr>bg := bg ?s\<rparr>);
                  Some (at_cursor (\<lambda>c. c\<lparr>c_erase := set_style (c_erase c) e\<rparr>) (?t\<lparr>t_styles := T\<rparr>)) }
        else Some ?t) = Some t2" "term_ok W cols lines t2" by (auto simp: returns_iff)
    have "update_template_style E update t =
        (if needs_sweep (t_styles t2) (stored_cells t2) then sweep_styles E t2 else Some t2)"
      using None prev(1) False T(1) t2(1) by (simp add: update_template_style_def Let_def)
    then show ?thesis using sweep_styles_ok [OF t2(2), of E] t2(2) by simp
  qed
qed

lemma set_hyperlink_ok:
  "term_ok W cols lines t \<Longrightarrow> returns (set_hyperlink E link t) (term_ok W cols lines)"
  unfolding set_hyperlink_def by (erule update_template_style_ok) simp

lemma start_attributes_ok:
  assumes "term_ok W cols lines t"
  shows "returns (start_attributes t) (term_ok W cols lines)"
  using template_style_ok [OF assms] assms by (auto simp: start_attributes_def returns_iff term_ok_def)

lemma finish_attributes_ok:
  assumes t: "term_ok W cols lines t"
  shows "returns (finish_attributes E t) (term_ok W cols lines)"
proof (cases "pending_style t")
  case (Some s)
  then have "\<not> intersects (attrs s) LAYOUT" "term_ok W cols lines (t\<lparr>pending_style := None\<rparr>)"
    using t by (auto simp: term_ok_def)
  then show ?thesis using Some update_template_style_ok [of W cols lines "t\<lparr>pending_style := None\<rparr>" "\<lambda>_. s"]
    by (simp add: finish_attributes_def)
qed (use t in \<open>simp add: finish_attributes_def\<close>)

lemma change_attrs_ok:
  assumes "\<not> intersects added LAYOUT" "\<not> intersects (attrs s) LAYOUT"
  shows "\<not> intersects (attrs (change_attrs added removed s)) LAYOUT"
  using assms by (auto simp: change_attrs_def intersects_bits bit_or_iff bit_and_iff)

lemma attr_flags:
  "f \<in> {0, INVERSE, BOLD, DIM, ITALIC, UNDERLINE, DOUBLE_UNDERLINE, UNDERCURL, DOTTED_UNDERLINE, DASHED_UNDERLINE, HIDDEN, STRIKEOUT}
    \<Longrightarrow> \<not> intersects f LAYOUT"
  by (auto simp: intersects_def LAYOUT_def WRAPLINE_def WIDE_CHAR_def WIDE_CHAR_SPACER_def LEADING_WIDE_CHAR_SPACER_def
      INVERSE_def BOLD_def DIM_def ITALIC_def UNDERLINE_def DOUBLE_UNDERLINE_def UNDERCURL_def DOTTED_UNDERLINE_def
      DASHED_UNDERLINE_def HIDDEN_def STRIKEOUT_def)

lemma terminal_attribute_ok:
  assumes "term_ok W cols lines t"
  shows "returns (terminal_attribute E a t) (term_ok W cols lines)"
proof -
  have attrs_default: "\<not> intersects (attrs (default_style\<lparr>hyperlink := h\<rparr>)) LAYOUT" for h
    by (simp add: default_style_def intersects_def)
  have "\<not> intersects (attrs (attr_update a s)) LAYOUT" if "\<not> intersects (attrs s) LAYOUT" for s
    using that attrs_default by (cases a) (simp_all add: change_attrs_ok attr_flags)
  then show ?thesis using update_template_style_ok [OF assms, of "attr_update a" E] assms by (simp add: terminal_attribute_def)
qed

end
