(* ===== verification/Modes.thy ===== *)
theory Modes
  imports Erase Sweep Utf
begin

text \<open>
  Modes and the small state of a terminal, \<open>src/terminal/term/mod.rs\<close>: private and ANSI modes and the
  reports of them, the alternate screen, the keyboard protocol and its stack, titles, colours, the
  clipboard, the style of the cursor, and the answers to queries.
\<close>

section \<open>Flags\<close>

definition insert_mode :: "term_mode \<Rightarrow> 'f terminal \<Rightarrow> 'f terminal" where
  "insert_mode f t = t\<lparr>t_mode := t_mode t OR f\<rparr>"

definition remove_mode :: "term_mode \<Rightarrow> 'f terminal \<Rightarrow> 'f terminal" where
  "remove_mode f t = t\<lparr>t_mode := t_mode t AND NOT f\<rparr>"

definition apply_keyboard_mode :: "term_mode \<Rightarrow> apply_behavior \<Rightarrow> 'f terminal \<Rightarrow> 'f terminal" where
  "apply_keyboard_mode m b t =
     (let active = t_mode t AND KITTY_KEYBOARD_PROTOCOL;
          rest = t_mode t AND NOT KITTY_KEYBOARD_PROTOCOL;
          new = (case b of Replace \<Rightarrow> m | Union \<Rightarrow> active OR m | Difference \<Rightarrow> active AND NOT m)
      in t\<lparr>t_mode := rest OR new\<rparr>)"

definition current_keyboard_modes :: "'f terminal \<Rightarrow> keyboard_modes" where
  "current_keyboard_modes t = (if keyboard_mode_stack t = [] then 0 else last (keyboard_mode_stack t))"

section \<open>The alternate screen\<close>

text \<open>What \<open>swap_alt\<close> does between entering the screen and telling the graphics of it.\<close>

definition switched :: "'f terminal \<Rightarrow> 'f terminal" where
  "switched t =
     (let t = t\<lparr>keyboard_mode_stack := inactive_keyboard_mode_stack t,
                inactive_keyboard_mode_stack := keyboard_mode_stack t\<rparr>;
          t = apply_keyboard_mode (mode_of_keyboard (current_keyboard_modes t)) Replace t
      in t\<lparr>t_grid := t_inactive_grid t, t_inactive_grid := t_grid t, t_mode := t_mode t XOR ALT_SCREEN,
           t_selection := None\<rparr>)"

definition swap_alt :: "'f terminal \<Rightarrow> 'f terminal option" where
  "swap_alt t =
     do { t \<leftarrow> (if has_mode (t_mode t) ALT_SCREEN then Some t
               else do {
                 h \<leftarrow> reset_region packed_cell_ops Unbounded Unbounded ((t_inactive_grid t)\<lparr>cursor := t_cursor t\<rparr>);
                 Some (t\<lparr>t_inactive_grid := h, t_grid := (t_grid t)\<lparr>saved_cursor := t_cursor t\<rparr>\<rparr>) });
          let t = switched t;
          let alternate = has_mode (t_mode t) ALT_SCREEN;
          t \<leftarrow> on_graphics (set_alternate alternate) t;
          Some (mark_fully_damaged (send (VividScreenSwap alternate) (flush_grid_scroll t))) }"

section \<open>Private and ANSI modes\<close>

text \<open>\<open>get_or_insert\<close> on the style of the cursor.\<close>

definition with_cursor_style :: "(cursor_style \<Rightarrow> cursor_style) \<Rightarrow> 'f terminal \<Rightarrow> 'f terminal" where
  "with_cursor_style f t = t\<lparr>t_cursor_style := Some (f (effective_cursor_style t))\<rparr>"

fun set_named_private_mode :: "named_private_mode \<Rightarrow> 'f terminal \<Rightarrow> 'f terminal option" where
  "set_named_private_mode UrgencyHints t = Some (insert_mode URGENCY_HINTS t)"
| "set_named_private_mode SwapScreenAndSetRestoreCursor t =
     (if has_mode (t_mode t) ALT_SCREEN then Some t else swap_alt t)"
| "set_named_private_mode ShowCursor t = Some (insert_mode SHOW_CURSOR t)"
| "set_named_private_mode CursorKeys t = Some (insert_mode APP_CURSOR t)"
| "set_named_private_mode ReportMouseClicks t =
     Some (send MouseCursorDirty (insert_mode MOUSE_REPORT_CLICK (remove_mode MOUSE_MODE t)))"
| "set_named_private_mode ReportCellMouseMotion t =
     Some (send MouseCursorDirty (insert_mode MOUSE_DRAG (remove_mode MOUSE_MODE t)))"
| "set_named_private_mode ReportAllMouseMotion t =
     Some (send MouseCursorDirty (insert_mode MOUSE_MOTION (remove_mode MOUSE_MODE t)))"
| "set_named_private_mode ReportFocusInOut t = Some (insert_mode FOCUS_IN_OUT t)"
| "set_named_private_mode BracketedPaste t = Some (insert_mode BRACKETED_PASTE t)"
| "set_named_private_mode SgrMouse t = Some (insert_mode SGR_MOUSE (remove_mode UTF8_MOUSE t))"
| "set_named_private_mode Utf8Mouse t = Some (insert_mode UTF8_MOUSE (remove_mode SGR_MOUSE t))"
| "set_named_private_mode AlternateScroll t = Some (insert_mode ALTERNATE_SCROLL t)"
| "set_named_private_mode LineWrap t = Some (insert_mode LINE_WRAP t)"
| "set_named_private_mode Origin t = goto 0 0 (insert_mode ORIGIN t)"
| "set_named_private_mode ColumnMode t = deccolm t"
| "set_named_private_mode BlinkingCursor t =
     Some (send CursorBlinkingChange (with_cursor_style (\<lambda>s. s\<lparr>blinking := True\<rparr>) t))"
| "set_named_private_mode SyncUpdate t = Some (insert_mode SYNC_UPDATE t)"

definition set_private_mode :: "private_mode \<Rightarrow> 'f terminal \<Rightarrow> 'f terminal option" where
  "set_private_mode m t =
     (case m of NamedPrivate m \<Rightarrow> set_named_private_mode m t
      | UnknownPrivate n \<Rightarrow> Some (if n = 1016 then insert_mode SGR_PIXEL_MOUSE t else t))"

fun unset_named_private_mode :: "named_private_mode \<Rightarrow> 'f terminal \<Rightarrow> 'f terminal option" where
  "unset_named_private_mode UrgencyHints t = Some (remove_mode URGENCY_HINTS t)"
| "unset_named_private_mode SwapScreenAndSetRestoreCursor t =
     (if has_mode (t_mode t) ALT_SCREEN then swap_alt t else Some t)"
| "unset_named_private_mode ShowCursor t = Some (remove_mode SHOW_CURSOR t)"
| "unset_named_private_mode CursorKeys t = Some (remove_mode APP_CURSOR t)"
| "unset_named_private_mode ReportMouseClicks t = Some (send MouseCursorDirty (remove_mode MOUSE_REPORT_CLICK t))"
| "unset_named_private_mode ReportCellMouseMotion t = Some (send MouseCursorDirty (remove_mode MOUSE_DRAG t))"
| "unset_named_private_mode ReportAllMouseMotion t = Some (send MouseCursorDirty (remove_mode MOUSE_MOTION t))"
| "unset_named_private_mode ReportFocusInOut t = Some (remove_mode FOCUS_IN_OUT t)"
| "unset_named_private_mode BracketedPaste t = Some (remove_mode BRACKETED_PASTE t)"
| "unset_named_private_mode SgrMouse t = Some (remove_mode SGR_MOUSE t)"
| "unset_named_private_mode Utf8Mouse t = Some (remove_mode UTF8_MOUSE t)"
| "unset_named_private_mode AlternateScroll t = Some (remove_mode ALTERNATE_SCROLL t)"
| "unset_named_private_mode LineWrap t = Some (remove_mode LINE_WRAP t)"
| "unset_named_private_mode Origin t = Some (remove_mode ORIGIN t)"
| "unset_named_private_mode ColumnMode t = deccolm t"
| "unset_named_private_mode BlinkingCursor t =
     Some (send CursorBlinkingChange (with_cursor_style (\<lambda>s. s\<lparr>blinking := False\<rparr>) t))"
| "unset_named_private_mode SyncUpdate t = Some (remove_mode SYNC_UPDATE t)"

definition unset_private_mode :: "private_mode \<Rightarrow> 'f terminal \<Rightarrow> 'f terminal option" where
  "unset_private_mode m t =
     (case m of NamedPrivate m \<Rightarrow> unset_named_private_mode m t
      | UnknownPrivate n \<Rightarrow> Some (if n = 1016 then remove_mode SGR_PIXEL_MOUSE t else t))"

datatype mode_state = NotSupported | Set | Reset

definition state_of :: "bool \<Rightarrow> mode_state" where
  "state_of b = (if b then Set else Reset)"

definition state_number :: "mode_state \<Rightarrow> nat" where
  "state_number s = (case s of NotSupported \<Rightarrow> 0 | Set \<Rightarrow> 1 | Reset \<Rightarrow> 2)"

definition mode_flag :: "named_private_mode \<Rightarrow> term_mode" where
  "mode_flag m = (case m of
       CursorKeys \<Rightarrow> APP_CURSOR | Origin \<Rightarrow> ORIGIN | LineWrap \<Rightarrow> LINE_WRAP | ShowCursor \<Rightarrow> SHOW_CURSOR
     | ReportMouseClicks \<Rightarrow> MOUSE_REPORT_CLICK | ReportCellMouseMotion \<Rightarrow> MOUSE_DRAG
     | ReportAllMouseMotion \<Rightarrow> MOUSE_MOTION | ReportFocusInOut \<Rightarrow> FOCUS_IN_OUT | Utf8Mouse \<Rightarrow> UTF8_MOUSE
     | SgrMouse \<Rightarrow> SGR_MOUSE | AlternateScroll \<Rightarrow> ALTERNATE_SCROLL | UrgencyHints \<Rightarrow> URGENCY_HINTS
     | SwapScreenAndSetRestoreCursor \<Rightarrow> ALT_SCREEN | BracketedPaste \<Rightarrow> BRACKETED_PASTE | SyncUpdate \<Rightarrow> SYNC_UPDATE
     | _ \<Rightarrow> 0)"

definition private_mode_state :: "private_mode \<Rightarrow> 'f terminal \<Rightarrow> mode_state \<times> 'f terminal" where
  "private_mode_state m t =
     (case m of
        NamedPrivate BlinkingCursor \<Rightarrow> (state_of (blinking (effective_cursor_style t)), with_cursor_style id t)
      | NamedPrivate ColumnMode \<Rightarrow> (NotSupported, t)
      | NamedPrivate m \<Rightarrow> (state_of (has_mode (t_mode t) (mode_flag m)), t)
      | UnknownPrivate n \<Rightarrow> (if n = 1016 then state_of (has_mode (t_mode t) SGR_PIXEL_MOUSE) else NotSupported, t))"

definition report_private_mode :: "('f, 'z) env \<Rightarrow> private_mode \<Rightarrow> 'f terminal \<Rightarrow> 'f terminal" where
  "report_private_mode E m t =
     (let (state, t) = private_mode_state m t
      in send (PtyWrite ([ESCAPE] @ ascii ''[?'' @ dec (private_mode_raw E m) @ ascii '';'' @ dec (state_number state) @
           ascii ''$y'')) t)"

definition set_mode :: "ansi_mode \<Rightarrow> 'f terminal \<Rightarrow> 'f terminal" where
  "set_mode m t = (case m of NamedMode InsertMode \<Rightarrow> insert_mode INSERT t
     | NamedMode LineFeedNewLine \<Rightarrow> insert_mode LINE_FEED_NEW_LINE t | UnknownMode _ \<Rightarrow> t)"

definition unset_mode :: "ansi_mode \<Rightarrow> 'f terminal \<Rightarrow> 'f terminal" where
  "unset_mode m t = (case m of NamedMode InsertMode \<Rightarrow> mark_fully_damaged (remove_mode INSERT t)
     | NamedMode LineFeedNewLine \<Rightarrow> remove_mode LINE_FEED_NEW_LINE t | UnknownMode _ \<Rightarrow> t)"

definition report_mode :: "('f, 'z) env \<Rightarrow> ansi_mode \<Rightarrow> 'f terminal \<Rightarrow> 'f terminal" where
  "report_mode E m t =
     (let state = (case m of NamedMode InsertMode \<Rightarrow> state_of (has_mode (t_mode t) INSERT)
            | NamedMode LineFeedNewLine \<Rightarrow> state_of (has_mode (t_mode t) LINE_FEED_NEW_LINE)
            | UnknownMode _ \<Rightarrow> NotSupported)
      in send (PtyWrite ([ESCAPE] @ ascii ''['' @ dec (mode_raw E m) @ ascii '';'' @ dec (state_number state) @ ascii ''$y'')) t)"

section \<open>The keyboard protocol\<close>

definition report_keyboard_mode :: "'f terminal \<Rightarrow> 'f terminal" where
  "report_keyboard_mode t =
     (if \<not> kitty_keyboard (t_config t) then t
      else send (PtyWrite ([ESCAPE] @ ascii ''[?'' @ dec (unat (current_keyboard_modes t)) @ ascii ''u'')) t)"

definition push_keyboard_mode :: "keyboard_modes \<Rightarrow> 'f terminal \<Rightarrow> 'f terminal" where
  "push_keyboard_mode m t =
     (if \<not> kitty_keyboard (t_config t) then t
      else let stack = (if KEYBOARD_MODE_STACK_MAX_DEPTH \<le> length (keyboard_mode_stack t)
                        then tl (keyboard_mode_stack t) else keyboard_mode_stack t)
           in apply_keyboard_mode (mode_of_keyboard m) Replace (t\<lparr>keyboard_mode_stack := stack @ [m]\<rparr>))"

definition pop_keyboard_modes :: "nat \<Rightarrow> 'f terminal \<Rightarrow> 'f terminal" where
  "pop_keyboard_modes n t =
     (if \<not> kitty_keyboard (t_config t) then t
      else let t = t\<lparr>keyboard_mode_stack := take (length (keyboard_mode_stack t) - n) (keyboard_mode_stack t)\<rparr>
           in apply_keyboard_mode (mode_of_keyboard (current_keyboard_modes t)) Replace t)"

definition set_keyboard_mode :: "keyboard_modes \<Rightarrow> apply_behavior \<Rightarrow> 'f terminal \<Rightarrow> 'f terminal" where
  "set_keyboard_mode m b t =
     (if \<not> kitty_keyboard (t_config t) then t else apply_keyboard_mode (mode_of_keyboard m) b t)"

section \<open>Titles\<close>

definition set_title :: "byte list option \<Rightarrow> 'f terminal \<Rightarrow> 'f terminal" where
  "set_title title t =
     send (case title of Some s \<Rightarrow> Title s | None \<Rightarrow> ResetTitle) (t\<lparr>t_title := title\<rparr>)"

definition push_title :: "'f terminal \<Rightarrow> 'f terminal" where
  "push_title t =
     (let stack = (if TITLE_STACK_MAX_DEPTH \<le> length (title_stack t) then tl (title_stack t) else title_stack t)
      in t\<lparr>title_stack := stack @ [t_title t]\<rparr>)"

definition pop_title :: "'f terminal \<Rightarrow> 'f terminal" where
  "pop_title t =
     (if title_stack t = [] then t
      else set_title (last (title_stack t)) (t\<lparr>title_stack := butlast (title_stack t)\<rparr>))"

section \<open>Colours, clipboard, cursor\<close>

definition set_color :: "nat \<Rightarrow> rgb \<Rightarrow> 'f terminal \<Rightarrow> 'f terminal option" where
  "set_color i color t =
     do { old \<leftarrow> idx (t_colors t) i;
          cs \<leftarrow> upd (t_colors t) i (Some color);
          let t = (if i \<noteq> CURSOR_COLOR \<and> old \<noteq> Some color then mark_fully_damaged t else t);
          Some (t\<lparr>t_colors := cs\<rparr>) }"

definition reset_color :: "nat \<Rightarrow> 'f terminal \<Rightarrow> 'f terminal option" where
  "reset_color i t =
     do { old \<leftarrow> idx (t_colors t) i;
          cs \<leftarrow> upd (t_colors t) i None;
          let t = (if i \<noteq> CURSOR_COLOR \<and> old \<noteq> None then mark_fully_damaged t else t);
          Some (t\<lparr>t_colors := cs\<rparr>) }"

definition twice_hex :: "8 word \<Rightarrow> byte list" where
  "twice_hex b = encode_hex [b] @ encode_hex [b]"

definition dynamic_color_sequence :: "byte list \<Rightarrow> nat \<Rightarrow> byte list \<Rightarrow> 'f terminal \<Rightarrow> 'f terminal" where
  "dynamic_color_sequence prefix i terminator t =
     send (ColorRequest i (\<lambda>(r, g, b). [ESCAPE] @ ascii '']'' @ prefix @ ascii '';rgb:'' @ twice_hex r @ ascii ''/'' @
       twice_hex g @ ascii ''/'' @ twice_hex b @ terminator)) t"

definition clipboard_type_of :: "byte \<Rightarrow> clipboard_type option" where
  "clipboard_type_of c =
     (if c = 0x63 then Some Clipboard else if c = 0x70 \<or> c = 0x73 then Some PrimarySelection else None)"

definition clipboard_store :: "('f, 'z) env \<Rightarrow> byte \<Rightarrow> byte list \<Rightarrow> 'f terminal \<Rightarrow> 'f terminal" where
  "clipboard_store E clip encoded t =
     (if osc52_write (t_config t) = Deny then t
      else case clipboard_type_of clip of None \<Rightarrow> t
      | Some target \<Rightarrow>
          (case Option.bind (b64_decode E encoded) from_utf8 of None \<Rightarrow> t
           | Some cs \<Rightarrow> send (ClipboardStore target cs) t))"

definition clipboard_load :: "('f, 'z) env \<Rightarrow> byte \<Rightarrow> byte list \<Rightarrow> 'f terminal \<Rightarrow> 'f terminal" where
  "clipboard_load E clip terminator t =
     (if osc52_read (t_config t) = Deny then t
      else case clipboard_type_of clip of None \<Rightarrow> t
      | Some target \<Rightarrow> send (ClipboardLoad target (\<lambda>contents. [ESCAPE] @ ascii '']52;'' @ [clip] @ ascii '';'' @ b64_encode E contents @ terminator)) t)"

definition configure_charset :: "nat \<Rightarrow> nat \<Rightarrow> 'f terminal \<Rightarrow> 'f terminal option" where
  "configure_charset i charset t =
     do { cs \<leftarrow> upd (c_charsets (t_cursor t)) i charset;
          Some (at_cursor (\<lambda>c. c\<lparr>c_charsets := cs\<rparr>) t) }"

definition set_active_charset :: "nat \<Rightarrow> 'f terminal \<Rightarrow> 'f terminal" where
  "set_active_charset i t = t\<lparr>active_charset := i\<rparr>"

definition set_cursor_style :: "cursor_style option \<Rightarrow> 'f terminal \<Rightarrow> 'f terminal" where
  "set_cursor_style s t = send CursorBlinkingChange (t\<lparr>t_cursor_style := s\<rparr>)"

definition set_cursor_shape :: "cursor_shape \<Rightarrow> 'f terminal \<Rightarrow> 'f terminal" where
  "set_cursor_shape s t = with_cursor_style (\<lambda>c. c\<lparr>shape := s\<rparr>) t"

definition set_mouse_cursor_icon :: "nat \<Rightarrow> 'f terminal \<Rightarrow> 'f terminal" where
  "set_mouse_cursor_icon icon t = send MouseCursorDirty (t\<lparr>mouse_cursor_icon := Some icon\<rparr>)"

section \<open>Answers\<close>

definition identify_terminal :: "('f, 'z) env \<Rightarrow> uchar option \<Rightarrow> 'f terminal \<Rightarrow> 'f terminal" where
  "identify_terminal E intermediate t =
     (case intermediate of
        None \<Rightarrow> send (PtyWrite ([ESCAPE] @ ascii ''[?6c'')) t
      | Some c \<Rightarrow>
          if c = 0x3E then send (PtyWrite ([ESCAPE] @ ascii ''[>0;'' @ dec (version_number (pkg_version E)) @ ascii '';1c'')) t
          else if c = 0x3D then send (PtyWrite ([ESCAPE] @ ascii ''P!|00000000'' @ [ESCAPE, 0x5C])) t
          else t)"

definition device_status :: "nat \<Rightarrow> 'f terminal \<Rightarrow> 'f terminal" where
  "device_status arg t =
     (if arg = 5 then send (PtyWrite ([ESCAPE] @ ascii ''[0n'')) t
      else if arg = 6
      then send (PtyWrite ([ESCAPE] @ ascii ''['' @ dec (nat (line (cursor_point t) + 1)) @ ascii '';'' @
             dec (column (cursor_point t) + 1) @ ascii ''R'')) t
      else t)"

definition text_area_size_pixels :: "'f terminal \<Rightarrow> 'f terminal" where
  "text_area_size_pixels t =
     send (TextAreaSizeRequest (\<lambda>w. [ESCAPE] @ ascii ''[4;'' @ dec (num_lines w * cell_height w) @ ascii '';'' @
       dec (num_cols w * cell_width w) @ ascii ''t'')) t"

definition text_area_size_chars :: "'f terminal \<Rightarrow> 'f terminal" where
  "text_area_size_chars t =
     send (PtyWrite ([ESCAPE] @ ascii ''[8;'' @ dec (t_lines t) @ ascii '';'' @ dec (t_columns t) @ ascii ''t'')) t"

definition text_area_cell_size_pixels :: "'f terminal \<Rightarrow> 'f terminal" where
  "text_area_cell_size_pixels t =
     send (TextAreaSizeRequest (\<lambda>w. [ESCAPE] @ ascii ''[6;'' @ dec (cell_height w) @ ascii '';'' @ dec (cell_width w) @
       ascii ''t'')) t"

definition vivid_marker :: "byte list \<Rightarrow> 'f terminal \<Rightarrow> 'f terminal" where
  "vivid_marker marker t =
     (let t = flush_grid_scroll t; p = cursor_point t
      in send (VividMarker marker (line p) (column p) (has_mode (t_mode t) ALT_SCREEN)) t)"

definition working_directory_report :: "('f, 'z) env \<Rightarrow> byte list \<Rightarrow> byte list \<Rightarrow> 'f terminal \<Rightarrow> 'f terminal" where
  "working_directory_report E host path t =
     (if \<not> is_local_host E host then t
      else if working_directory t \<noteq> Some path then send (WorkingDirectory path) (t\<lparr>working_directory := Some path\<rparr>)
      else t)"

section \<open>The invariant\<close>

lemma mode_change_ok [simp]:
  "term_ok W cols lines (insert_mode f t) = term_ok W cols lines t"
  "term_ok W cols lines (remove_mode f t) = term_ok W cols lines t"
  "term_ok W cols lines (apply_keyboard_mode m b t) = term_ok W cols lines t"
  "term_ok W cols lines (with_cursor_style h t) = term_ok W cols lines t"
  "term_ok W cols lines (set_mode m' t) = term_ok W cols lines t"
  "term_ok W cols lines (unset_mode m' t) = term_ok W cols lines t"
  by (auto simp: insert_mode_def remove_mode_def apply_keyboard_mode_def with_cursor_style_def set_mode_def unset_mode_def
      Let_def split: ansi_mode.split named_mode.split)

text \<open>A terminal with other grids and keyboard stacks.\<close>

lemma term_ok_parts:
  "term_ok W cols lines t \<Longrightarrow> screen_ok (length (styles (t_styles t))) cols lines (t_grid t)"
  "term_ok W cols lines t \<Longrightarrow> screen_ok (length (styles (t_styles t))) cols lines (t_inactive_grid t)"
  "term_ok W cols lines t \<Longrightarrow> screen_ok (length (styles (t_styles t))) cols lines g \<Longrightarrow> term_ok W cols lines (t\<lparr>t_grid := g\<rparr>)"
  "term_ok W cols lines t \<Longrightarrow> screen_ok (length (styles (t_styles t))) cols lines g \<Longrightarrow> term_ok W cols lines (t\<lparr>t_inactive_grid := g\<rparr>)"
  by (simp_all add: term_ok_def)

lemma alternate_graphics_ok:
  assumes "term_ok W cols lines t"
  shows "returns (on_graphics (set_alternate b) t) (term_ok W cols lines)"
  by (rule returns_mono [OF on_graphics_ok [OF assms]]) (auto intro: returns_mono [OF set_alternate_ok])

lemma enter_alternate_ok:
  assumes t: "term_ok W cols lines t"
  shows "returns (if has_mode (t_mode t) ALT_SCREEN then Some t
     else do { h \<leftarrow> reset_region packed_cell_ops Unbounded Unbounded ((t_inactive_grid t)\<lparr>cursor := t_cursor t\<rparr>);
               Some (t\<lparr>t_inactive_grid := h, t_grid := (t_grid t)\<lparr>saved_cursor := t_cursor t\<rparr>\<rparr>) })
    (term_ok W cols lines)"
proof -
  note cursor = term_cursor(1) [OF t]
  have g: "term_ok W cols lines (t\<lparr>t_grid := (t_grid t)\<lparr>saved_cursor := t_cursor t\<rparr>\<rparr>)"
    by (rule term_ok_parts(3) [OF t screen_set_cursor(2) [OF term_ok_parts(1) [OF t] cursor]])
  have "screen_ok (length (styles (t_styles t))) cols lines ((t_inactive_grid t)\<lparr>cursor := t_cursor t\<rparr>)"
    by (rule screen_set_cursor(1) [OF term_ok_parts(2) [OF t] cursor])
  from screen_reset_region [OF this, of Unbounded Unbounded] term_dims(4) [OF t]
  have "returns (reset_region packed_cell_ops Unbounded Unbounded ((t_inactive_grid t)\<lparr>cursor := t_cursor t\<rparr>))
      (\<lambda>h. screen_ok (length (styles (t_styles t))) cols lines h)" by (auto simp: returns_iff)
  then show ?thesis
    using t g by (auto simp: returns_iff term_ok_def)
qed

lemma switched_ok: "term_ok W cols lines t \<Longrightarrow> term_ok W cols lines (switched t)"
  by (simp add: switched_def Let_def apply_keyboard_mode_def term_ok_def)

lemma swap_alt_ok:
  assumes t: "term_ok W cols lines t"
  shows "returns (swap_alt t) (term_ok W cols lines)"
  unfolding swap_alt_def returns_bind Let_def
proof (rule returns_mono [OF enter_alternate_ok [OF t]])
  fix t :: "'a terminal"
  assume "term_ok W cols lines t"
  from alternate_graphics_ok [OF switched_ok [OF this]]
  show "returns (on_graphics (set_alternate (has_mode (t_mode (switched t)) ALT_SCREEN)) (switched t))
    (\<lambda>t'. returns (Some (mark_fully_damaged (send (VividScreenSwap (has_mode (t_mode (switched t)) ALT_SCREEN))
      (flush_grid_scroll t')))) (term_ok W cols lines))" by simp
qed

lemma private_mode_ok:
  assumes t: "term_ok W cols lines t"
  shows "returns (set_private_mode m t) (term_ok W cols lines)" "returns (unset_private_mode m t) (term_ok W cols lines)"
proof -
  have "returns (goto 0 0 (insert_mode f t)) (term_ok W cols lines)" for f
    by (rule returns_mono [OF goto_ok [of W cols lines]]) (use t in simp_all)
  then have "returns (set_named_private_mode n t) (term_ok W cols lines)" "returns (unset_named_private_mode n t) (term_ok W cols lines)" for n
    using t swap_alt_ok [OF t] deccolm_ok [OF t] by (cases n; simp)+
  then show "returns (set_private_mode m t) (term_ok W cols lines)" "returns (unset_private_mode m t) (term_ok W cols lines)"
    using t by (simp_all add: set_private_mode_def unset_private_mode_def split: private_mode.split)
qed

lemma keyboard_ok [simp]:
  assumes "term_ok W cols lines t"
  shows "term_ok W cols lines (push_keyboard_mode m t)" "term_ok W cols lines (pop_keyboard_modes n t)"
    "term_ok W cols lines (set_keyboard_mode m b t)" "term_ok W cols lines (report_keyboard_mode t)"
  using assms by (auto simp: push_keyboard_mode_def pop_keyboard_modes_def set_keyboard_mode_def report_keyboard_mode_def
      Let_def apply_keyboard_mode_def term_ok_def send_def KEYBOARD_MODE_STACK_MAX_DEPTH_def TITLE_STACK_MAX_DEPTH_def)

lemma title_ok [simp]:
  assumes "term_ok W cols lines t"
  shows "term_ok W cols lines (set_title s t)" "term_ok W cols lines (push_title t)" "term_ok W cols lines (pop_title t)"
  using assms by (auto simp: set_title_def push_title_def pop_title_def Let_def term_ok_def send_def TITLE_STACK_MAX_DEPTH_def)

lemma color_ok:
  assumes "term_ok W cols lines t" "i < COLOR_COUNT"
  shows "returns (set_color i c t) (term_ok W cols lines)" "returns (reset_color i t) (term_ok W cols lines)"
  using assms by (auto simp: set_color_def reset_color_def Let_def term_ok_def mark_fully_damaged_def damage_ok_def)

lemma charset_ok:
  assumes t: "term_ok W cols lines t" and "i < 4"
  shows "returns (configure_charset i cs t) (term_ok W cols lines)" "term_ok W cols lines (set_active_charset i t)"
proof -
  have "length (c_charsets (t_cursor t)) = 4" using term_cursor(1) [OF t] by (simp add: cursor_ok_def)
  then show "returns (configure_charset i cs t) (term_ok W cols lines)"
    using assms term_cursor(1) [OF t] by (auto simp: configure_charset_def cursor_ok_def intro!: at_cursor_ok)
qed (use assms in \<open>simp add: set_active_charset_def term_ok_def\<close>)

lemma answers_ok [simp]:
  assumes "term_ok W cols lines t"
  shows "term_ok W cols lines (report_private_mode E pm t)" "term_ok W cols lines (report_mode E am t)"
    "term_ok W cols lines (dynamic_color_sequence prefix i terminator t)" "term_ok W cols lines (clipboard_store E c bytes t)"
    "term_ok W cols lines (clipboard_load E c bytes t)" "term_ok W cols lines (set_cursor_style style t)"
    "term_ok W cols lines (set_cursor_shape sh t)" "term_ok W cols lines (set_mouse_cursor_icon icon t)"
    "term_ok W cols lines (identify_terminal E intermediate t)" "term_ok W cols lines (device_status arg t)"
    "term_ok W cols lines (text_area_size_pixels t)" "term_ok W cols lines (text_area_size_chars t)"
    "term_ok W cols lines (text_area_cell_size_pixels t)" "term_ok W cols lines (vivid_marker bytes t)"
    "term_ok W cols lines (working_directory_report E host path t)"
  using assms by (auto simp: report_private_mode_def private_mode_state_def report_mode_def dynamic_color_sequence_def
      clipboard_store_def clipboard_load_def set_cursor_style_def set_cursor_shape_def set_mouse_cursor_icon_def
      identify_terminal_def device_status_def text_area_size_pixels_def text_area_size_chars_def
      text_area_cell_size_pixels_def vivid_marker_def working_directory_report_def Let_def
      split: option.split private_mode.split named_private_mode.split)

end
