(* ===== verification/Terminal.thy ===== *)
theory Terminal
  imports Modes
begin

text \<open>
  A terminal as its driver sees it, \<open>src/terminal/term/mod.rs\<close>: the handlers the parser calls, the bytes
  a pseudo terminal sends, graphics commands and decodes, resets, options and damage.

  The escape-sequence parser is the crate \<open>vvte\<close>: \<open>parse\<close> takes its state and bytes and gives the
  calls of \<open>Handler\<close> it makes, in order, and its next state. A handler returns nothing, so what the
  parser calls does not depend on the terminal.
\<close>

section \<open>Resets and options\<close>

definition bell :: "'f terminal \<Rightarrow> 'f terminal" where "bell t = send Bell t"

definition term_exit :: "'f terminal \<Rightarrow> 'f terminal" where "term_exit t = send Exit t"

definition set_keypad_application_mode :: "'f terminal \<Rightarrow> 'f terminal" where
  "set_keypad_application_mode t = insert_mode APP_KEYPAD t"

definition unset_keypad_application_mode :: "'f terminal \<Rightarrow> 'f terminal" where
  "unset_keypad_application_mode t = remove_mode APP_KEYPAD t"

definition swap_grids :: "'f terminal \<Rightarrow> 'f terminal" where
  "swap_grids t = t\<lparr>t_grid := t_inactive_grid t, t_inactive_grid := t_grid t\<rparr>"

definition on_inactive :: "(cell grid \<Rightarrow> cell grid option) \<Rightarrow> 'f terminal \<Rightarrow> 'f terminal option" where
  "on_inactive f t = do { h \<leftarrow> f (t_inactive_grid t); Some (t\<lparr>t_inactive_grid := h\<rparr>) }"

definition reset_state :: "'f terminal \<Rightarrow> 'f terminal option" where
  "reset_state t =
     do { let t = (if has_mode (t_mode t) ALT_SCREEN then swap_grids t else t);
          t \<leftarrow> on_grid (grid_reset packed_cell_ops) (t\<lparr>active_charset := 0, t_cursor_style := None\<rparr>);
          t \<leftarrow> on_inactive (grid_reset packed_cell_ops) t;
          let t = t\<lparr>scroll_region := (0, int (t_lines t)), t_tabs := tabs_new (t_columns t), title_stack := [],
            t_title := None, working_directory := None, mouse_cursor_icon := None, t_selection := None,
            keyboard_mode_stack := [], inactive_keyboard_mode_stack := [],
            t_graphics := kitty_reset (t_graphics t), t_mode := default_mode\<rparr>;
          Some (mark_fully_damaged (send MouseCursorDirty (send CursorBlinkingChange t))) }"

definition reset_client_state :: "'f terminal \<Rightarrow> 'f terminal option" where
  "reset_client_state t =
     do { let was_alternate = has_mode (t_mode t) ALT_SCREEN;
          let t = (if was_alternate then swap_grids t else t);
          t \<leftarrow> on_inactive (grid_reset packed_cell_ops) t;
          let t = t\<lparr>active_charset := 0, t_cursor_style := None, mouse_cursor_icon := None, t_selection := None,
            keyboard_mode_stack := [], inactive_keyboard_mode_stack := [],
            scroll_region := (0, int (t_lines t)), t_tabs := tabs_new (t_columns t), t_mode := default_mode,
            t_graphics := kitty_reset (t_graphics t)\<rparr>;
          let t = (if was_alternate then send (VividScreenSwap False) t else t);
          Some (mark_fully_damaged (send MouseCursorDirty (send CursorBlinkingChange (send VividClear t)))) }"

definition set_options :: "config \<Rightarrow> 'f terminal \<Rightarrow> 'f terminal option" where
  "set_options options t =
     do { let old = t_config t;
          let t = t\<lparr>t_config := options\<rparr>;
          let t = send (case t_title t of Some title \<Rightarrow> Title title | None \<Rightarrow> ResetTitle) t;
          t \<leftarrow> (if has_mode (t_mode t) ALT_SCREEN then on_inactive (update_history (scrolling_history options)) t
               else on_grid (update_history (scrolling_history options)) t);
          let t = (if kitty_keyboard options \<noteq> kitty_keyboard old
                   then remove_mode KITTY_KEYBOARD_PROTOCOL
                     (t\<lparr>keyboard_mode_stack := [], inactive_keyboard_mode_stack := []\<rparr>)
                   else t);
          Some (mark_fully_damaged t) }"

section \<open>Damage\<close>

text \<open>\<open>None\<close> is full damage; otherwise the lines the iterator yields.\<close>

definition damage_since :: "point \<Rightarrow> 'f terminal \<Rightarrow> (line_damage list option \<times> 'f terminal) option" where
  "damage_since previous t =
     do { t \<leftarrow> (if cursor_point t \<noteq> previous
               then on_damage (damage_point (nat (line previous), column previous)) t else Some t);
          t \<leftarrow> damage_cursor t;
          let offset = display_offset (t_grid t);
          Some (Some (damage_collect offset (damage_visible (dmg_lines (t_damage t)) offset)), t) }"

definition term_damage :: "'f terminal \<Rightarrow> (line_damage list option \<times> 'f terminal) option" where
  "term_damage t =
     do { let t = (if has_mode (t_mode t) INSERT then mark_fully_damaged t else t);
          let previous = last_cursor (t_damage t);
          let t = t\<lparr>t_damage := (t_damage t)\<lparr>last_cursor := cursor_point t\<rparr>\<rparr>;
          if dmg_full (t_damage t) then Some (None, t) else damage_since previous t }"

definition term_reset_damage :: "'f terminal \<Rightarrow> 'f terminal" where
  "term_reset_damage t = t\<lparr>t_damage := damage_reset (t_columns t) (t_damage t)\<rparr>"

section \<open>Graphics commands\<close>

primrec linefeeds :: "('f, 'z) env \<Rightarrow> nat \<Rightarrow> 'f terminal \<Rightarrow> 'f terminal option" where
  "linefeeds E 0 t = Some t"
| "linefeeds E (Suc n) t = do { t \<leftarrow> linefeed E t; linefeeds E n t }"

definition advance_past_image :: "('f, 'z) env \<Rightarrow> nat \<Rightarrow> nat \<Rightarrow> 'f terminal \<Rightarrow> 'f terminal option" where
  "advance_past_image E wide tall t =
     do { let target_column = column (cursor_point t) + wide;
          let (target_column, down) =
            (if t_columns t \<le> target_column then (0, tall - 1 + 1) else (target_column, tall - 1));
          t \<leftarrow> linefeeds E (min down (t_lines t)) t;
          t \<leftarrow> damage_cursor t;
          damage_cursor (set_wrap False (set_column target_column t)) }"

text \<open>Each reply that is ready is an event; the queue's length bounds the turns of the loop.\<close>

definition flush_graphics_replies :: "'f terminal \<Rightarrow> 'f terminal" where
  "flush_graphics_replies t =
     (let (rs, k) = pop_replies (length (replies (t_graphics t))) (t_graphics t)
      in t\<lparr>t_graphics := k, sent := sent t @ map PtyWrite rs\<rparr>)"

definition term_apc_start :: "'f terminal \<Rightarrow> 'f terminal" where
  "term_apc_start t = t\<lparr>t_graphics := apc_start (t_graphics t)\<rparr>"

definition term_apc_put :: "('f, 'z) env \<Rightarrow> byte list \<Rightarrow> 'f terminal \<Rightarrow> 'f terminal option" where
  "term_apc_put E bytes t = on_graphics (apc_put (gfx E) bytes) t"

text \<open>\<open>uid\<close> is the identity a new image would get, the next of the process-wide counter.\<close>

definition term_apc_end :: "('f, 'z) env \<Rightarrow> nat \<Rightarrow> bool \<Rightarrow> 'f terminal \<Rightarrow> 'f terminal option" where
  "term_apc_end E uid cancelled t =
     do { let p = cursor_point t;
          (outcome, k) \<leftarrow> apc_end (gfx E) uid cancelled (line p, to_i32 (column p)) (t_graphics t);
          let t = t\<lparr>t_graphics := k\<rparr>;
          t \<leftarrow> (case outcome of None \<Rightarrow> Some t | Some (wide, tall) \<Rightarrow> advance_past_image E wide tall t);
          Some (flush_graphics_replies t) }"

definition set_deferred_graphics_decode :: "bool \<Rightarrow> 'f terminal \<Rightarrow> 'f terminal" where
  "set_deferred_graphics_decode b t = t\<lparr>t_graphics := (t_graphics t)\<lparr>defer_decode := b\<rparr>\<rparr>"

definition take_graphics_jobs :: "'f terminal \<Rightarrow> queued_job list \<times> 'f terminal" where
  "take_graphics_jobs t = (let (js, k) = take_jobs (t_graphics t) in (js, t\<lparr>t_graphics := k\<rparr>))"

definition finish_graphics_jobs :: "finished_job list \<Rightarrow> 'f terminal \<Rightarrow> 'f terminal option" where
  "finish_graphics_jobs finished t =
     do { t \<leftarrow> on_graphics (finish_jobs finished) t; Some (flush_graphics_replies t) }"

definition take_graphics_activity :: "'f terminal \<Rightarrow> (nat \<times> bool) \<times> 'f terminal" where
  "take_graphics_activity t =
     (let (n, k) = take_quiet_bytes (t_graphics t); (b, k) = take_dirty k in ((n, b), t\<lparr>t_graphics := k\<rparr>))"

section \<open>The handler\<close>

text \<open>The calls of \<open>Handler\<close> that \<open>Term\<close> implements; the ones it leaves to their defaults do nothing.\<close>

datatype print_call =
    Input uchar | InputStr "uchar list" | RepeatChar uchar nat | PutTab nat | Backspace | CarriageReturn
    | Linefeed | Newline | ReverseIndex | BellCall

fun print_handle :: "('f, 'z) env \<Rightarrow> print_call \<Rightarrow> 'f terminal \<Rightarrow> 'f terminal option" where
  "print_handle E (Input c) t = input E c t"
| "print_handle E (InputStr cs) t = input_str E (text_of cs) t"
| "print_handle E (RepeatChar c n) t = repeat_char E c n t"
| "print_handle E (PutTab n) t = put_tab E n t"
| "print_handle E Backspace t = backspace t"
| "print_handle E CarriageReturn t = carriage_return t"
| "print_handle E Linefeed t = linefeed E t"
| "print_handle E Newline t = newline E t"
| "print_handle E ReverseIndex t = reverse_index E t"
| "print_handle E BellCall t = Some (bell t)"

datatype motion_call =
    Goto int nat | GotoLine int | GotoCol nat | MoveUp nat | MoveDown nat | MoveForward nat
    | MoveBackward nat | MoveDownAndCr nat | MoveUpAndCr nat | MoveBackwardTabs nat | MoveForwardTabs nat
    | SaveCursor | RestoreCursor | SetTabstop | ClearTabs tab_clear_mode

fun motion_handle :: "motion_call \<Rightarrow> 'f terminal \<Rightarrow> 'f terminal option" where
  "motion_handle (Goto l col) t = goto l col t"
| "motion_handle (GotoLine l) t = goto_line l t"
| "motion_handle (GotoCol col) t = goto_col col t"
| "motion_handle (MoveUp n) t = move_up n t"
| "motion_handle (MoveDown n) t = move_down n t"
| "motion_handle (MoveForward n) t = move_forward n t"
| "motion_handle (MoveBackward n) t = move_backward n t"
| "motion_handle (MoveDownAndCr n) t = move_down_and_cr n t"
| "motion_handle (MoveUpAndCr n) t = move_up_and_cr n t"
| "motion_handle (MoveBackwardTabs n) t = move_backward_tabs n t"
| "motion_handle (MoveForwardTabs n) t = move_forward_tabs n t"
| "motion_handle SaveCursor t = Some (save_cursor_position t)"
| "motion_handle RestoreCursor t = restore_cursor_position t"
| "motion_handle SetTabstop t = set_horizontal_tabstop t"
| "motion_handle (ClearTabs m) t = clear_tabs m t"

datatype edit_call =
    Decaln | InsertBlank nat | ScrollUp nat | ScrollDown nat | InsertBlankLines nat | DeleteLines nat
    | EraseChars nat | DeleteChars nat | ClearLineCall line_clear_mode | ClearScreenCall clear_mode
    | SetScrollingRegion nat "nat option" | ResetState

fun edit_handle :: "('f, 'z) env \<Rightarrow> edit_call \<Rightarrow> 'f terminal \<Rightarrow> 'f terminal option" where
  "edit_handle E Decaln t = decaln t"
| "edit_handle E (InsertBlank n) t = insert_blank n t"
| "edit_handle E (ScrollUp n) t = term_scroll_up E n t"
| "edit_handle E (ScrollDown n) t = term_scroll_down E n t"
| "edit_handle E (InsertBlankLines n) t = insert_blank_lines E n t"
| "edit_handle E (DeleteLines n) t = delete_lines E n t"
| "edit_handle E (EraseChars n) t = erase_chars n t"
| "edit_handle E (DeleteChars n) t = delete_chars n t"
| "edit_handle E (ClearLineCall m) t = clear_line m t"
| "edit_handle E (ClearScreenCall m) t = clear_screen E m t"
| "edit_handle E (SetScrollingRegion tp b) t = set_scrolling_region tp b t"
| "edit_handle E ResetState t = reset_state t"

datatype style_call =
    SetHyperlink "hyperlink option" | StartAttributes | FinishAttributes | Attribute attr
    | SetColor nat rgb | ResetColor nat | ConfigureCharset nat nat | SetActiveCharset nat
    | SetCursorStyle "cursor_style option" | SetCursorShape cursor_shape | SetMouseCursorIcon nat

fun style_handle :: "('f, 'z) env \<Rightarrow> style_call \<Rightarrow> 'f terminal \<Rightarrow> 'f terminal option" where
  "style_handle E (SetHyperlink link) t = set_hyperlink E link t"
| "style_handle E StartAttributes t = start_attributes t"
| "style_handle E FinishAttributes t = finish_attributes E t"
| "style_handle E (Attribute a) t = terminal_attribute E a t"
| "style_handle E (SetColor i c) t = set_color i c t"
| "style_handle E (ResetColor i) t = reset_color i t"
| "style_handle E (ConfigureCharset i cs) t = configure_charset i cs t"
| "style_handle E (SetActiveCharset i) t = Some (set_active_charset i t)"
| "style_handle E (SetCursorStyle s) t = Some (set_cursor_style s t)"
| "style_handle E (SetCursorShape s) t = Some (set_cursor_shape s t)"
| "style_handle E (SetMouseCursorIcon icon) t = Some (set_mouse_cursor_icon icon t)"

datatype mode_call =
    SetPrivateMode private_mode | UnsetPrivateMode private_mode | SetMode ansi_mode | UnsetMode ansi_mode
    | KeypadApplication | KeypadNumeric | PushKeyboardMode keyboard_modes | PopKeyboardModes nat
    | SetKeyboardMode keyboard_modes apply_behavior | SetTitle "byte list option" | PushTitle | PopTitle

fun mode_handle :: "mode_call \<Rightarrow> 'f terminal \<Rightarrow> 'f terminal option" where
  "mode_handle (SetPrivateMode m) t = set_private_mode m t"
| "mode_handle (UnsetPrivateMode m) t = unset_private_mode m t"
| "mode_handle (SetMode m) t = Some (set_mode m t)"
| "mode_handle (UnsetMode m) t = Some (unset_mode m t)"
| "mode_handle KeypadApplication t = Some (set_keypad_application_mode t)"
| "mode_handle KeypadNumeric t = Some (unset_keypad_application_mode t)"
| "mode_handle (PushKeyboardMode m) t = Some (push_keyboard_mode m t)"
| "mode_handle (PopKeyboardModes n) t = Some (pop_keyboard_modes n t)"
| "mode_handle (SetKeyboardMode m b) t = Some (set_keyboard_mode m b t)"
| "mode_handle (SetTitle title) t = Some (set_title title t)"
| "mode_handle PushTitle t = Some (push_title t)"
| "mode_handle PopTitle t = Some (pop_title t)"

datatype query_call =
    IdentifyTerminal "uchar option" | ReportKeyboardMode | DeviceStatus nat
    | DynamicColor "byte list" nat "byte list" | StoreClipboard byte "byte list"
    | LoadClipboard byte "byte list" | ReportPrivateMode private_mode | ReportMode ansi_mode
    | TextAreaSizePixels | TextAreaSizeChars | TextAreaCellSizePixels

fun query_handle :: "('f, 'z) env \<Rightarrow> query_call \<Rightarrow> 'f terminal \<Rightarrow> 'f terminal option" where
  "query_handle E (IdentifyTerminal c) t = Some (identify_terminal E c t)"
| "query_handle E ReportKeyboardMode t = Some (report_keyboard_mode t)"
| "query_handle E (DeviceStatus n) t = Some (device_status n t)"
| "query_handle E (DynamicColor prefix i terminator) t = Some (dynamic_color_sequence prefix i terminator t)"
| "query_handle E (StoreClipboard c bytes) t = Some (clipboard_store E c bytes t)"
| "query_handle E (LoadClipboard c terminator) t = Some (clipboard_load E c terminator t)"
| "query_handle E (ReportPrivateMode m) t = Some (report_private_mode E m t)"
| "query_handle E (ReportMode m) t = Some (report_mode E m t)"
| "query_handle E TextAreaSizePixels t = Some (text_area_size_pixels t)"
| "query_handle E TextAreaSizeChars t = Some (text_area_size_chars t)"
| "query_handle E TextAreaCellSizePixels t = Some (text_area_cell_size_pixels t)"

datatype image_call =
    ApcStartCall | ApcPutCall "byte list" | ApcEndCall nat bool

fun image_handle :: "('f, 'z) env \<Rightarrow> image_call \<Rightarrow> 'f terminal \<Rightarrow> 'f terminal option" where
  "image_handle E ApcStartCall t = Some (term_apc_start t)"
| "image_handle E (ApcPutCall bytes) t = term_apc_put E bytes t"
| "image_handle E (ApcEndCall uid cancelled) t = term_apc_end E uid cancelled t"

datatype call = PrintCall print_call | MotionCall motion_call | EditCall edit_call | StyleCall style_call | ModeCall mode_call | QueryCall query_call | ImageCall image_call

fun handle :: "('f, 'z) env \<Rightarrow> call \<Rightarrow> 'f terminal \<Rightarrow> 'f terminal option" where
  "handle E (PrintCall c) t = print_handle E c t"
| "handle E (MotionCall c) t = motion_handle c t"
| "handle E (EditCall c) t = edit_handle E c t"
| "handle E (StyleCall c) t = style_handle E c t"
| "handle E (ModeCall c) t = mode_handle c t"
| "handle E (QueryCall c) t = query_handle E c t"
| "handle E (ImageCall c) t = image_handle E c t"

text \<open>
  What the types of the arguments and the parser grant: characters are Unicode scalars, the top of a
  scrolling region is 1 at least, a colour is one of the palette, a character set one of the four.
\<close>

fun call_ok :: "call \<Rightarrow> bool" where
  "call_ok (PrintCall (Input c)) \<longleftrightarrow> is_scalar c"
| "call_ok (PrintCall (InputStr cs)) \<longleftrightarrow> list_all is_scalar cs"
| "call_ok (PrintCall (RepeatChar c n)) \<longleftrightarrow> is_scalar c"
| "call_ok (StyleCall (SetColor i c)) \<longleftrightarrow> i < COLOR_COUNT"
| "call_ok (StyleCall (ResetColor i)) \<longleftrightarrow> i < COLOR_COUNT"
| "call_ok (EditCall (SetScrollingRegion tp b)) \<longleftrightarrow> 1 \<le> tp"
| "call_ok (StyleCall (ConfigureCharset i cs)) \<longleftrightarrow> i < 4"
| "call_ok (StyleCall (SetActiveCharset i)) \<longleftrightarrow> i < 4"
| "call_ok _ \<longleftrightarrow> True"

section \<open>Input\<close>

text \<open>A closure over the parser: \<open>parse\<close> gives the calls for the bytes, and the parser after them.\<close>

type_synonym 'p parser = "'p \<Rightarrow> byte list \<Rightarrow> call list \<times> 'p"

definition requested_style :: "byte list \<Rightarrow> 'f terminal \<Rightarrow> style option" where
  "requested_style request t = (if request = ascii ''m'' then template_style t else Some default_style)"

fun take_chunk :: "('f, 'z) env \<Rightarrow> 'p parser \<Rightarrow> dcs_chunk \<Rightarrow> 'p \<times> 'f terminal \<Rightarrow> ('p \<times> 'f terminal) option" where
  "take_chunk E parse (Bytes bytes) (p, t) =
     (let (calls, p) = parse p bytes in do { t \<leftarrow> for_each (handle E) calls t; Some (p, t) })"
| "take_chunk E parse (Decrqss request) (p, t) =
     do { s \<leftarrow> requested_style request t;
          Some (p, send (PtyWrite (report_status_string s (scroll_region t) (effective_cursor_style t) request)) t) }"
| "take_chunk E parse (Xtgettcap request) (p, t) = Some (p, send (PtyWrite (report_termcap request)) t)"
| "take_chunk E parse (Xtsettcap request) (p, t) = Some (p, t)"

definition advance :: "('f, 'z) env \<Rightarrow> 'p parser \<Rightarrow> byte list \<Rightarrow> 'p \<times> 'f terminal \<Rightarrow> ('p \<times> 'f terminal) option" where
  "advance E parse bytes = (\<lambda>(p, t).
     do { (scanner, chunks) \<leftarrow> dcs_push (search_byte E) (search_slice E) (dcs_scanner t) bytes;
          (p, t) \<leftarrow> for_each (take_chunk E parse) chunks (p, t\<lparr>dcs_scanner := dcs_default\<rparr>);
          Some (p, flush_grid_scroll (t\<lparr>dcs_scanner := scanner\<rparr>)) })"

section \<open>The invariant\<close>

lemma screen_swap_ok [simp]: "term_ok W cols lines (swap_grids t) = term_ok W cols lines t"
  by (auto simp: swap_grids_def term_ok_def)

lemma on_inactive_ok:
  assumes t: "term_ok W cols lines t"
    and f: "screen_ok (length (styles (t_styles t))) cols lines (t_inactive_grid t) \<Longrightarrow>
      returns (f (t_inactive_grid t)) (\<lambda>h'. screen_ok (length (styles (t_styles t))) cols lines h' \<and> Q h')"
  shows "returns (on_inactive f t) (term_ok W cols lines)"
  using f [OF term_ok_parts(2) [OF t]] term_ok_parts(4) [OF t] by (auto simp: on_inactive_def returns_iff)

lemma reset_grids_ok:
  assumes t: "term_ok W cols lines t"
  shows "returns (on_grid (grid_reset packed_cell_ops) t) (term_ok W cols lines)"
    "returns (on_inactive (grid_reset packed_cell_ops) t) (term_ok W cols lines)"
  using on_grid_ok [where f = "grid_reset packed_cell_ops", OF t screen_grid_reset] on_inactive_ok [where f = "grid_reset packed_cell_ops", OF t screen_grid_reset]
  by (auto simp: returns_iff)

lemma update_history_ok:
  assumes t: "term_ok W cols lines t"
  shows "returns (on_grid (update_history k) t) (term_ok W cols lines)"
    "returns (on_inactive (update_history k) t) (term_ok W cols lines)"
  using on_grid_ok [where f = "update_history k", OF t screen_update_history] on_inactive_ok [where f = "update_history k", OF t screen_update_history]
  by (auto simp: returns_iff)

lemma length_tabs_new [simp]: "length (tabs_new cols) = cols"
  by (simp add: tabs_new_def)

lemma reset_state_ok:
  assumes t: "term_ok W cols lines t"
  shows "returns (reset_state t) (term_ok W cols lines)"
proof -
  let ?t = "(if has_mode (t_mode t) ALT_SCREEN then swap_grids t else t)\<lparr>active_charset := 0, t_cursor_style := None\<rparr>"
  have "term_ok W cols lines ?t" using t by (auto simp: term_ok_def swap_grids_def)
  from reset_grids_ok(1) [OF this] obtain t1
    where t1: "on_grid (grid_reset packed_cell_ops) ?t = Some t1" "term_ok W cols lines t1" by (auto simp: returns_iff)
  from reset_grids_ok(2) [OF t1(2)] obtain t2
    where t2: "on_inactive (grid_reset packed_cell_ops) t1 = Some t2" "term_ok W cols lines t2" by (auto simp: returns_iff)
  have "term_ok W cols lines (t2\<lparr>scroll_region := (0, int lines), t_tabs := tabs_new cols, title_stack := [],
            t_title := None, working_directory := None, mouse_cursor_icon := None, t_selection := None,
            keyboard_mode_stack := [], inactive_keyboard_mode_stack := [],
            t_graphics := kitty_reset (t_graphics t2), t_mode := default_mode\<rparr>)"
    using t2(2) kitty_reset_ok [of W "t_graphics t2"] by (simp add: term_ok_def)
  then show ?thesis
    using t1(1) t2 term_dims(1,2) [OF t2(2)] by (simp add: reset_state_def Let_def)
qed

lemma reset_client_state_ok:
  assumes t: "term_ok W cols lines t"
  shows "returns (reset_client_state t) (term_ok W cols lines)"
proof -
  let ?t = "if has_mode (t_mode t) ALT_SCREEN then swap_grids t else t"
  have "term_ok W cols lines ?t" using t by simp
  from reset_grids_ok(2) [OF this] obtain t2
    where t2: "on_inactive (grid_reset packed_cell_ops) ?t = Some t2" "term_ok W cols lines t2" by (auto simp: returns_iff)
  have "term_ok W cols lines (t2\<lparr>active_charset := 0, t_cursor_style := None, mouse_cursor_icon := None, t_selection := None,
            keyboard_mode_stack := [], inactive_keyboard_mode_stack := [],
            scroll_region := (0, int lines), t_tabs := tabs_new cols, t_mode := default_mode,
            t_graphics := kitty_reset (t_graphics t2)\<rparr>)"
    using t2(2) kitty_reset_ok [of W "t_graphics t2"] by (simp add: term_ok_def)
  then show ?thesis
    using t2 term_dims(1,2) [OF t2(2)] by (simp add: reset_client_state_def Let_def)
qed

lemma keyboards_cleared [simp]:
  "term_ok W cols lines t \<Longrightarrow> term_ok W cols lines (t\<lparr>keyboard_mode_stack := [], inactive_keyboard_mode_stack := []\<rparr>)"
  by (simp add: term_ok_def)

lemma set_options_ok:
  assumes t: "term_ok W cols lines t"
  shows "returns (set_options cfg t) (term_ok W cols lines)"
proof -
  let ?t = "send (case t_title t of Some title \<Rightarrow> Title title | None \<Rightarrow> ResetTitle) (t\<lparr>t_config := cfg\<rparr>)"
  have t': "term_ok W cols lines ?t" using t by simp
  have "returns (if has_mode (t_mode t) ALT_SCREEN then on_inactive (update_history (scrolling_history cfg)) ?t
      else on_grid (update_history (scrolling_history cfg)) ?t) (term_ok W cols lines)"
    using update_history_ok [OF t'] by simp
  then show ?thesis
    by (auto simp: set_options_def Let_def send_def returns_iff)
qed

lemma damage_since_ok:
  assumes t: "term_ok W cols lines t" and p: "0 \<le> line p" "line p < int lines"
  shows "returns (damage_since p t) (\<lambda>(ds, t'). term_ok W cols lines t')"
proof -
  have l: "nat (line p) < lines" and d: "damage_ok cols lines (t_damage t)" using t p by (simp_all add: term_ok_def nat_less_iff)
  have "returns (if cursor_point t \<noteq> p then on_damage (damage_point (nat (line p), column p)) t else Some t) (term_ok W cols lines)"
    using damage_line_spec [OF d l, of "column p" "column p"] t
    by (auto simp: on_damage_def damage_point_def returns_iff term_ok_def)
  then show ?thesis
    using damage_cursor_ok by (fastforce simp: damage_since_def Let_def returns_iff)
qed

lemma term_damage_ok:
  assumes t: "term_ok W cols lines t"
  shows "returns (term_damage t) (\<lambda>(ds, t'). term_ok W cols lines t')"
proof -
  have moved: "returns (let u = u\<lparr>t_damage := (t_damage u)\<lparr>last_cursor := cursor_point u\<rparr>\<rparr>
      in if dmg_full (t_damage u) then Some (None, u) else damage_since p u) (\<lambda>(ds, t'). term_ok W cols lines t')"
    if u: "term_ok W cols lines u" and p: "p = last_cursor (t_damage u)" for u :: "'a terminal" and p
  proof -
    let ?u = "u\<lparr>t_damage := (t_damage u)\<lparr>last_cursor := cursor_point u\<rparr>\<rparr>"
    have "term_ok W cols lines ?u" using u term_cursor [OF u] by (simp add: term_ok_def damage_ok_def)
    moreover have "0 \<le> line p" "line p < int lines" using u p by (simp_all add: term_ok_def)
    ultimately show ?thesis using damage_since_ok [of W cols lines ?u p] by (simp add: Let_def)
  qed
  show ?thesis
    using moved [OF _ refl, of "if has_mode (t_mode t) INSERT then mark_fully_damaged t else t"] t
    by (simp add: term_damage_def Let_def)
qed

lemma reset_damage_ok [simp]: "term_ok W cols lines t \<Longrightarrow> term_ok W cols lines (term_reset_damage t)"
  using term_dims(1) [of W cols lines t]
  by (auto simp: term_reset_damage_def term_ok_def intro: damage_ok_reset) (simp_all add: damage_reset_def)

section \<open>Graphics keep the invariant\<close>

lemma graphics_field_ok:
  "term_ok W cols lines t \<Longrightarrow> kitty_ok V k \<Longrightarrow> term_ok V cols lines (t\<lparr>t_graphics := k\<rparr>)"
  "term_ok W cols lines t \<Longrightarrow> kitty_ok W (t_graphics t)"
  by (simp_all add: term_ok_def)

lemma linefeeds_ok:
  "term_ok W cols lines t \<Longrightarrow> returns (linefeeds E n t) (\<lambda>t'. term_ok W cols lines t' \<and> same_but_cursor t t')"
proof (induction n arbitrary: t)
  case (Suc n)
  then show ?case using then_ok [OF linefeed_keeps [OF Suc.prems, of E] Suc.IH] by simp
qed simp

lemma advance_past_image_ok:
  assumes t: "term_ok W cols lines t"
  shows "returns (advance_past_image E wide tall t) (term_ok W cols lines)"
proof -
  have step: "returns (do { t \<leftarrow> linefeeds E n t; t \<leftarrow> damage_cursor t; damage_cursor (set_wrap False (set_column c t)) })
      (term_ok W cols lines)" if c: "c < cols" for n c
  proof -
    obtain t1 where t1: "linefeeds E n t = Some t1" "term_ok W cols lines t1"
      using linefeeds_ok [OF t] by (auto simp: returns_iff)
    obtain t2 where t2: "damage_cursor t1 = Some t2" "term_ok W cols lines t2"
      using damage_cursor_ok [OF t1(2)] by (auto simp: returns_iff)
    have "term_ok W cols lines (set_wrap False (set_column c t2))" using set_column_ok [OF t2(2) c] by simp
    from damage_cursor_ok [OF this] show ?thesis using t1(1) t2(1) by (auto simp: returns_iff)
  qed
  show ?thesis
    using step [of 0] step term_dims [OF t] by (auto simp: advance_past_image_def Let_def)
qed

lemma pop_replies_ok: "kitty_ok W k \<Longrightarrow> kitty_ok W (snd (pop_replies n k))"
proof (induction n arbitrary: k)
  case (Suc n)
  then show ?case using pop_reply_ok [OF Suc.prems] by (fastforce split: prod.splits option.splits)
qed simp

lemma flush_graphics_ok [simp]: "term_ok W cols lines t \<Longrightarrow> term_ok W cols lines (flush_graphics_replies t)"
proof -
  assume t: "term_ok W cols lines t"
  obtain rs k where k: "pop_replies (length (replies (t_graphics t))) (t_graphics t) = (rs, k)" by fastforce
  then have "kitty_ok W k" using pop_replies_ok [OF graphics_field_ok(2) [OF t]] by (metis snd_conv)
  from graphics_field_ok(1) [OF t this] show ?thesis using k by (simp add: flush_graphics_replies_def)
qed

lemma apc_ok:
  assumes E: "env_ok E" and t: "term_ok W cols lines t"
  shows "term_ok W cols lines (term_apc_start t)" "returns (term_apc_put E bytes t) (term_ok W cols lines)"
    "returns (term_apc_end E uid cancelled t) (term_ok W cols lines)"
proof -
  have C: "crates_ok (gfx E)" using E by (simp add: env_ok_def)
  note k = graphics_field_ok(2) [OF t]
  have "kitty_ok W (apc_start (t_graphics t))"
    using k by (simp add: apc_start_def kitty_ok_def kitty_base_def)
  then show "term_ok W cols lines (term_apc_start t)" using graphics_field_ok(1) [OF t] by (simp add: term_apc_start_def)
  show "returns (term_apc_put E bytes t) (term_ok W cols lines)"
    unfolding term_apc_put_def by (rule returns_mono [OF graphics_ok [OF t]]) (use apc_put_ok [OF C] in auto)
  obtain r g where rg: "apc_end (gfx E) uid cancelled (line (cursor_point t), to_i32 (column (cursor_point t))) (t_graphics t) = Some (r, g)"
    "kitty_ok W g"
    using apc_end_ok [OF C k] unfolding returns_iff by (metis case_prodE)
  have "returns (case r of None \<Rightarrow> Some (t\<lparr>t_graphics := g\<rparr>) | Some (wide, tall) \<Rightarrow> advance_past_image E wide tall (t\<lparr>t_graphics := g\<rparr>))
      (term_ok W cols lines)"
    using graphics_field_ok(1) [OF t rg(2)] advance_past_image_ok by (auto split: option.split)
  then show "returns (term_apc_end E uid cancelled t) (term_ok W cols lines)"
    using rg(1) by (auto simp: term_apc_end_def Let_def returns_iff)
qed

section \<open>Every call of the handler keeps the invariant\<close>

lemma bell_ok [simp]:
  "term_ok W cols lines (bell t) = term_ok W cols lines t" "term_ok W cols lines (term_exit t) = term_ok W cols lines t"
  "term_ok W cols lines (set_keypad_application_mode t) = term_ok W cols lines t"
  "term_ok W cols lines (unset_keypad_application_mode t) = term_ok W cols lines t"
  by (simp_all add: bell_def term_exit_def set_keypad_application_mode_def unset_keypad_application_mode_def)

lemma only_ok:
  "returns m (\<lambda>t'. term_ok W cols lines t' \<and> same_but_cursor t t') \<Longrightarrow> returns m (term_ok W cols lines)"
  "returns m (\<lambda>t'. term_ok W cols lines t' \<and> same_view t t') \<Longrightarrow> returns m (term_ok W cols lines)"
  by (auto simp: returns_iff)

lemma print_handle_ok:
  assumes E: "env_ok E" and t: "term_ok W cols lines t" and c: "call_ok (PrintCall c)"
  shows "returns (print_handle E c t) (term_ok W cols lines)"
  using only_ok(1) [OF input_ok [OF E t]] only_ok(1) [OF input_str_ok [OF E t]] only_ok(1) [OF repeat_char_ok [OF E t]]
    only_ok(1) [OF put_tab_ok [OF E t]] only_ok(1) [OF backspace_ok [OF t]] only_ok(1) [OF sideways_ok(3) [OF t]]
    only_ok(1) [OF linefeed_keeps [OF t]] only_ok(1) [OF newline_ok [OF t]] only_ok(1) [OF reverse_index_ok [OF t]] t c
  by (cases c) simp_all

lemma motion_handle_ok:
  assumes t: "term_ok W cols lines t"
  shows "returns (motion_handle c t) (term_ok W cols lines)"
  using only_ok(1) [OF goto_ok [OF t]] moves_ok [OF t, THEN only_ok(1)] sideways_ok [OF t, THEN only_ok(1)]
    tab_moves_ok [OF t, THEN only_ok(1)] save_cursor_ok [OF t] restore_cursor_ok [OF t] tabstops_ok [OF t]
  by (cases c) simp_all

lemma edit_handle_ok:
  assumes t: "term_ok W cols lines t" and c: "call_ok (EditCall c)"
  shows "returns (edit_handle E c t) (term_ok W cols lines)"
  using decaln_ok [OF t, THEN only_ok(2)] insert_blank_ok [OF t, THEN only_ok(2)] term_scroll_ok [OF t, THEN only_ok(2)]
    insert_delete_lines_ok [OF t, THEN only_ok(2)] erase_chars_ok [OF t, THEN only_ok(2)]
    delete_chars_ok [OF t, THEN only_ok(2)] clear_line_ok [OF t, THEN only_ok(2)] clear_screen_ok [OF t, THEN only_ok(2)]
    set_scrolling_region_ok [OF t] reset_state_ok [OF t] c
  by (cases c) simp_all

lemma style_handle_ok:
  assumes t: "term_ok W cols lines t" and c: "call_ok (StyleCall c)"
  shows "returns (style_handle E c t) (term_ok W cols lines)"
  using set_hyperlink_ok [OF t] start_attributes_ok [OF t] finish_attributes_ok [OF t] terminal_attribute_ok [OF t]
    color_ok [OF t] charset_ok [OF t] t c
  by (cases c) simp_all

lemma mode_handle_ok:
  assumes t: "term_ok W cols lines t"
  shows "returns (mode_handle c t) (term_ok W cols lines)"
  using private_mode_ok [OF t] t by (cases c) simp_all

lemma query_handle_ok:
  assumes t: "term_ok W cols lines t"
  shows "returns (query_handle E c t) (term_ok W cols lines)"
  using t by (cases c) simp_all

lemma handle_ok:
  assumes E: "env_ok E" and t: "term_ok W cols lines t" and c: "call_ok c"
  shows "returns (handle E c t) (term_ok W cols lines)"
proof (cases c)
  case (ImageCall i)
  then show ?thesis using apc_ok [OF E t] by (cases i) simp_all
qed (use print_handle_ok [OF E t] motion_handle_ok [OF t] edit_handle_ok [OF t] style_handle_ok [OF t] mode_handle_ok [OF t]
    query_handle_ok [OF t] c in simp_all)

definition parser_ok :: "'p parser \<Rightarrow> bool" where
  "parser_ok parse \<longleftrightarrow> (\<forall>p bytes. list_all call_ok (fst (parse p bytes)))"

lemma take_chunk_ok:
  assumes E: "env_ok E" and P: "parser_ok parse" and t: "term_ok W cols lines (snd pt)"
  shows "returns (take_chunk E parse chunk pt) (\<lambda>pt'. term_ok W cols lines (snd pt'))"
proof -
  obtain p t where pt: "pt = (p, t)" by (cases pt)
  have t: "term_ok W cols lines t" using t pt by simp
  have all: "returns (for_each (handle E) calls t) (term_ok W cols lines)" if "list_all call_ok calls" for calls
    by (rule for_each_inv) (use that t in \<open>auto simp: list_all_iff intro: handle_ok [OF E]\<close>)
  have style: "returns (requested_style request t) (\<lambda>_. term_ok W cols lines t)" for request
    using template_style_ok [OF t] t by (auto simp: requested_style_def returns_iff)
  show ?thesis
  proof (cases chunk)
    case (Bytes bytes)
    obtain calls q where parse: "parse p bytes = (calls, q)" by fastforce
    then have "list_all call_ok calls" using P by (metis parser_ok_def fst_conv)
    from all [OF this] show ?thesis using Bytes pt parse by (auto simp: returns_iff)
  next
    case (Decrqss request)
    then show ?thesis using style [of request] pt by (auto simp: returns_iff)
  qed (use t pt in simp_all)
qed

lemma advance_ok:
  assumes E: "env_ok E" and P: "parser_ok parse" and t: "term_ok W cols lines (snd pt)"
  shows "returns (advance E parse bytes pt) (\<lambda>pt'. term_ok W cols lines (snd pt'))"
proof -
  obtain p t where pt: "pt = (p, t)" by (cases pt)
  have t: "term_ok W cols lines t" and d: "dcs_ok (dcs_scanner t)" using t pt by (simp_all add: term_ok_def)
  have scanner: "term_ok W cols lines (u\<lparr>dcs_scanner := s\<rparr>)" if "term_ok W cols lines u" "dcs_ok s" for u :: "'a terminal" and s
    using that by (simp add: term_ok_def)
  have search: "byte_search (search_byte E) (search_slice E)" using E by (simp add: env_ok_def)
  obtain cs where cs: "dcs_push (search_byte E) (search_slice E) (dcs_scanner t) bytes = Some (fst (dcs_machine (dcs_scanner t) bytes), cs)"
    using byte_search.dcs_push_machine [OF search d] by blast
  have "dcs_ok dcs_default" by (simp add: dcs_ok_def dcs_default_def)
  then have "term_ok W cols lines (snd (p, t\<lparr>dcs_scanner := dcs_default\<rparr>))" using scanner [OF t] by simp
  then have "returns (for_each (take_chunk E parse) cs (p, t\<lparr>dcs_scanner := dcs_default\<rparr>)) (\<lambda>pt'. term_ok W cols lines (snd pt'))"
    by (intro for_each_inv take_chunk_ok [OF E P])
  then show ?thesis
    using scanner dcs_machine_ok [OF d] cs pt by (auto simp: advance_def returns_iff)
qed

section \<open>A driver\<close>

text \<open>
  What a terminal's driver does between reads, in any order. Decodes taken from the terminal are kept
  beside it until they are handed back: the terminal's lock is not held while they run.
\<close>

datatype driver_step =
    Feed "byte list"
  | DisplayScroll scroll
  | ShowPoint point
  | ClearTheBuffer
  | SwapScreens
  | ResetClient
  | SetOptions config
  | CollectDamage
  | ResetDamage
  | Select "selection option"
  | Marker "byte list"
  | WorkingDirectoryReport "byte list" "byte list"
  | DeferDecodes bool
  | TakeDecodes
  | HandBackDecode nat
  | TakeActivity
  | ExitRequest

type_synonym ('p, 'f) driver = "('p \<times> 'f terminal) \<times> queued_job list"

fun term_exec :: "('f, 'z) env \<Rightarrow> 'p parser \<Rightarrow> driver_step \<Rightarrow> ('p, 'f) driver \<Rightarrow> ('p, 'f) driver option" where
  "term_exec E parse (Feed bytes) (pt, out) = map_option (\<lambda>pt. (pt, out)) (advance E parse bytes pt)"
| "term_exec E parse (DisplayScroll sc) ((p, t), out) = Some ((p, term_scroll_display sc t), out)"
| "term_exec E parse (ShowPoint pt) ((p, t), out) = Some ((p, scroll_to_point pt t), out)"
| "term_exec E parse ClearTheBuffer ((p, t), out) = map_option (\<lambda>t. ((p, t), out)) (clear_buffer t)"
| "term_exec E parse SwapScreens ((p, t), out) = map_option (\<lambda>t. ((p, t), out)) (swap_alt t)"
| "term_exec E parse ResetClient ((p, t), out) = map_option (\<lambda>t. ((p, t), out)) (reset_client_state t)"
| "term_exec E parse (SetOptions cfg) ((p, t), out) = map_option (\<lambda>t. ((p, t), out)) (set_options cfg t)"
| "term_exec E parse CollectDamage ((p, t), out) = map_option (\<lambda>(_, t). ((p, t), out)) (term_damage t)"
| "term_exec E parse ResetDamage ((p, t), out) = Some ((p, term_reset_damage t), out)"
| "term_exec E parse (Select s) ((p, t), out) = Some ((p, t\<lparr>t_selection := s\<rparr>), out)"
| "term_exec E parse (Marker bytes) ((p, t), out) = Some ((p, vivid_marker bytes t), out)"
| "term_exec E parse (WorkingDirectoryReport host path) ((p, t), out) = Some ((p, working_directory_report E host path t), out)"
| "term_exec E parse (DeferDecodes b) ((p, t), out) = Some ((p, set_deferred_graphics_decode b t), out)"
| "term_exec E parse TakeDecodes ((p, t), out) = (let (js, t) = take_graphics_jobs t in Some ((p, t), out @ js))"
| "term_exec E parse (HandBackDecode n) ((p, t), out) =
     (if n < length out
      then do { j \<leftarrow> run_queued (gfx E) (out ! n); t \<leftarrow> finish_graphics_jobs [j] t;
                Some ((p, t), take n out @ drop (n + 1) out) }
      else Some ((p, t), out))"
| "term_exec E parse TakeActivity ((p, t), out) = Some ((p, snd (take_graphics_activity t)), out)"
| "term_exec E parse ExitRequest ((p, t), out) = Some ((p, term_exit t), out)"

inductive term_reach ::
  "('f, 'z) env \<Rightarrow> 'p parser \<Rightarrow> config \<Rightarrow> nat \<Rightarrow> nat \<Rightarrow> cell_pixels option \<Rightarrow> ('p, 'f) driver \<Rightarrow> bool"
  for E parse cfg lines cols cell where
  fresh: "term_new E cfg lines cols cell = Some t \<Longrightarrow> term_reach E parse cfg lines cols cell ((p, t), [])"
| step: "term_reach E parse cfg lines cols cell s \<Longrightarrow> term_exec E parse d s = Some s' \<Longrightarrow>
    term_reach E parse cfg lines cols cell s'"

text \<open>What the window grants a new terminal.\<close>

definition size_ok :: "nat \<Rightarrow> nat \<Rightarrow> cell_pixels option \<Rightarrow> bool" where
  "size_ok lines cols cell \<longleftrightarrow> MIN_SCREEN_LINES \<le> lines \<and> MIN_COLUMNS \<le> cols \<and> cols < PACKED_CAPACITY \<and>
     (\<forall>c. cell = Some c \<longrightarrow> pixels_ok c)"

definition driver_ok :: "nat \<Rightarrow> nat \<Rightarrow> ('p, 'f) driver \<Rightarrow> bool" where
  "driver_ok cols lines s \<longleftrightarrow> term_ok (qj_seq ` set (snd s)) cols lines (snd (fst s)) \<and>
     (\<forall>j \<in> set (snd s). \<forall>t. qj_target j = Some t \<longrightarrow> tg_screen t < 2)"

lemma table_safe_default: "table_safe default_table"
  by (simp add: table_safe_def default_table_def CAPACITY_def CACHE_BITS_def default_style_def intersects_def style_index_def
      empty_cache_def)

lemma term_new_ok:
  fixes E :: "('f, 'z) env"
  assumes "size_ok lines cols cell"
  shows "returns (term_new E cfg lines cols cell) (term_ok {} cols lines)"
proof -
  have dims: "1 \<le> lines" "1 \<le> cols" "cols < PACKED_CAPACITY"
    using assms by (simp_all add: size_ok_def MIN_SCREEN_LINES_def MIN_COLUMNS_def)
  have n: "0 < length (styles default_table)" using table_safe_default by (simp add: table_safe_def)
  obtain g h where g: "grid_new packed_cell_ops lines cols (scrolling_history cfg) = Some g"
    "grid_new packed_cell_ops lines cols 0 = Some h" "screen_ok (length (styles default_table)) cols lines g"
    "screen_ok (length (styles default_table)) cols lines h"
    using screen_grid_new [OF dims n, of "scrolling_history cfg"] screen_grid_new [OF dims n, of 0] by (auto simp: returns_iff)
  have "returns (case cell of None \<Rightarrow> Some new_kitty | Some c \<Rightarrow> set_cell (gfx E) c new_kitty) (kitty_ok {})"
    using assms by (cases cell) (auto simp: size_ok_def intro: new_kitty_ok set_cell_ok [OF new_kitty_ok])
  then obtain k where k: "(case cell of None \<Rightarrow> Some new_kitty | Some c \<Rightarrow> set_cell (gfx E) c new_kitty) = Some k" "kitty_ok {} k"
    by (auto simp: returns_iff)
  have "damage_ok cols lines (damage_new cols lines)" "last_cursor (damage_new cols lines) = Point 0 0"
    by simp (simp add: damage_new_def)
  then show ?thesis
    using assms dims g k table_safe_default
    by (simp add: term_new_def term_ok_def size_ok_def dcs_ok_def dcs_default_def)
qed

lemma driver_step_ok:
  fixes E :: "('f, 'z) env" and s :: "('p, 'f) driver"
  assumes E: "env_ok E" and P: "parser_ok parse" and s: "driver_ok cols lines s"
  shows "returns (term_exec E parse d s) (driver_ok cols lines)"
proof -
  obtain p t out where so: "s = ((p, t), out)" by (metis prod.collapse)
  let ?W = "qj_seq ` set out"
  have t: "term_ok ?W cols lines t" and target: "\<forall>j \<in> set out. \<forall>t. qj_target j = Some t \<longrightarrow> tg_screen t < 2"
    using s so by (simp_all add: driver_ok_def)
  have C: "crates_ok (gfx E)" using E by (simp add: env_ok_def)
  have k: "kitty_ok ?W (t_graphics t)" using graphics_field_ok(2) [OF t] .
  have plain: "returns (map_option (\<lambda>t. ((p, t), out)) m) (driver_ok cols lines)" if "returns m (term_ok ?W cols lines)" for m :: "'f terminal option"
    using that target by (auto simp: driver_ok_def returns_iff)
  have pure: "driver_ok cols lines ((p, t'), out)" if "term_ok ?W cols lines t'" for t' :: "'f terminal"
    using that target by (simp add: driver_ok_def)
  show ?thesis
  proof (cases d)
    case (Feed bytes)
    show ?thesis using advance_ok [OF E P, of ?W cols lines "(p, t)" bytes] t target so Feed
      by (auto simp: driver_ok_def returns_iff)
  next
    case CollectDamage
    then show ?thesis using term_damage_ok [OF t] target so by (auto simp: driver_ok_def returns_iff)
  next
    case TakeDecodes
    have "kitty_ok (qj_seq ` set (out @ jobs (t_graphics t))) ((t_graphics t)\<lparr>jobs := []\<rparr>)"
      using k by (auto simp: kitty_ok_def kitty_base_def)
    moreover have "\<forall>j \<in> set (jobs (t_graphics t)). \<forall>t. qj_target j = Some t \<longrightarrow> tg_screen t < 2"
      using k by (simp add: kitty_ok_def kitty_base_def)
    ultimately show ?thesis
      using TakeDecodes so target graphics_field_ok(1) [OF t] by (auto simp: take_graphics_jobs_def take_jobs_def driver_ok_def)
  next
    case (HandBackDecode n)
    show ?thesis
    proof (cases "n < length out")
      case True
      obtain f where f: "run_queued (gfx E) (out ! n) = Some f" "fj_seq f = qj_seq (out ! n)" "fj_target f = qj_target (out ! n)"
        using run_queued_ok [OF C] by blast
      have "tg_screen a < 2" if "fj_target f = Some a" for a
        using target f(3) that True by force
      then obtain g where g: "finish_job f (t_graphics t) = Some g" "kitty_ok (?W - {fj_seq f}) g"
        using finish_job_ok [OF k, of f] by (auto simp: returns_iff)
      let ?out = "take n out @ drop (n + 1) out"
      have "kitty_ok (qj_seq ` set ?out) g" using kitty_ok_mono [OF g(2)] without_nth [OF True, of qj_seq] f(2) by simp
      then have "term_ok (qj_seq ` set ?out) cols lines (flush_graphics_replies (t\<lparr>t_graphics := g\<rparr>))"
        using flush_graphics_ok [OF graphics_field_ok(1) [OF t]] by blast
      moreover have "set ?out \<subseteq> set out" using set_take_subset [of n out] set_drop_subset [of "n + 1" out] by auto
      ultimately show ?thesis
        using True so f(1) g(1) target HandBackDecode
        by (auto simp: driver_ok_def finish_graphics_jobs_def finish_jobs_def on_graphics_def)
    qed (use s so HandBackDecode in simp)
  next
    case TakeActivity
    have "kitty_ok ?W (snd (take_dirty (snd (take_quiet_bytes (t_graphics t)))))"
      using k by (simp add: take_dirty_def take_quiet_bytes_def kitty_ok_def kitty_base_def)
    from pure [OF graphics_field_ok(1) [OF t this]] show ?thesis
      using TakeActivity so by (simp add: take_graphics_activity_def take_dirty_def take_quiet_bytes_def)
  next
    case (DeferDecodes b)
    have "kitty_ok ?W ((t_graphics t)\<lparr>defer_decode := b\<rparr>)" using k by (simp add: kitty_ok_def kitty_base_def)
    from pure [OF graphics_field_ok(1) [OF t this]] show ?thesis
      using DeferDecodes so by (simp add: set_deferred_graphics_decode_def)
  qed (use so plain pure t clear_buffer_ok [OF t] swap_alt_ok [OF t] reset_client_state_ok [OF t] set_options_ok [OF t] in simp_all)
qed

lemma term_reach_ok:
  assumes E: "env_ok E" and P: "parser_ok parse" and size: "size_ok lines cols cell"
  shows "term_reach E parse cfg lines cols cell s \<Longrightarrow> driver_ok cols lines s"
proof (induction rule: term_reach.induct)
  case (fresh t p)
  then show ?case using term_new_ok [OF size, of E cfg] by (simp add: driver_ok_def)
next
  case (step s d s')
  then show ?case using driver_step_ok [OF E P step.IH, of d] by simp
qed

section \<open>What a terminal promises\<close>

definition sample_env :: "(nat, nat) env" where
  "sample_env = \<lparr>gfx = sample_crates,
     unicode_width = (\<lambda>c. if 0x4E00 \<le> c \<and> c \<le> 0x9FFF then Some 2 else if c < 0x20 then None else Some 1),
     charset_map = (\<lambda>n c. c), ptr_eq = (\<lambda>a b. a = b), b64_encode = id, b64_decode = Some,
     private_mode_raw = (\<lambda>_. 0), mode_raw = (\<lambda>_. 0), is_local_host = (\<lambda>host. host = []), pkg_version = ascii ''1.2.3'',
     search_byte = first_byte, search_slice = first_slice\<rparr>"

text \<open>A parser that prints every byte.\<close>

definition sample_parse :: "unit parser" where
  "sample_parse p bytes = (map (\<lambda>b. PrintCall (Input (ucast b))) bytes, p)"

definition sample_config :: config where
  "sample_config = \<lparr>scrolling_history = 100, default_cursor_style = \<lparr>shape = cursor_shape.Block, blinking = False\<rparr>,
     kitty_keyboard = True, osc52_read = Deny, osc52_write = Allow, semantic_escape_chars = []\<rparr>"

lemma sample_env_ok: "env_ok sample_env"
  using sample_crates_ok reference.byte_search_axioms
  by (auto simp: env_ok_def sample_env_def word_less_nat_alt word_le_nat_alt)

lemma sample_parser_ok: "parser_ok sample_parse"
  by (simp add: parser_ok_def sample_parse_def list_all_iff is_scalar_byte)

lemma sample_size_ok: "size_ok 24 80 None"
  by (simp add: size_ok_def MIN_SCREEN_LINES_def MIN_COLUMNS_def PACKED_CAPACITY_def PACKED_NUMBER_BITS_def)



text \<open>
  C2. Every reachable terminal is well-formed: its size is the one it was created with, the
  cursor is on the screen, the scrolling region lies within the screen, there is a tab stop
  flag for every column and a character set for each of the four slots, and the style of every
  cell of both screens, stored rows and cursors included, is one the style table holds.
\<close>

theorem terminal_well_formed:
  assumes "env_ok E" "parser_ok parse" "size_ok lines cols cell"
    and "term_reach E parse cfg lines cols cell ((p, t), out)"
  shows "t_columns t = cols \<and> t_lines t = lines \<and> column (cursor_point t) < cols \<and>
    line (cursor_point t) \<in> {0..<int lines} \<and> 0 \<le> fst (scroll_region t) \<and>
    fst (scroll_region t) \<le> snd (scroll_region t) \<and> snd (scroll_region t) \<le> int lines \<and>
    length (t_tabs t) = cols \<and> length (c_charsets (t_cursor t)) = 4 \<and> active_charset t < 4 \<and>
    (\<forall>w \<in> set (grid_cells (t_grid t)) \<union> set (grid_cells (t_inactive_grid t)). style_get (t_styles t) (cell_style w) \<noteq> None)"
proof -
  have t: "term_ok (qj_seq ` set out) cols lines t" using term_reach_ok [OF assms] by (simp add: driver_ok_def)
  have "style_get (t_styles t) (cell_style w) \<noteq> None"
    if "w \<in> set (grid_cells (t_grid t)) \<union> set (grid_cells (t_inactive_grid t))" for w
    using that grid_cells_valid [OF term_ok_parts(1) [OF t]] grid_cells_valid [OF term_ok_parts(2) [OF t]]
    by (auto simp: style_get_def idx_def)
  moreover have "active_charset t < 4" "length (t_tabs t) = cols" using t by (simp_all add: term_ok_def)
  ultimately show ?thesis
    using term_dims(1,2) [OF t] term_cursor [OF t] term_region [OF t] by (auto simp: cursor_ok_def)
qed

theorem terminal_well_formed_witness:
  "\<exists>t. term_reach sample_env sample_parse sample_config 24 80 None (((), t), []) \<and>
    length (t_tabs t) = 80 \<and> column (cursor_point t) < 80"
proof -
  obtain t where t: "term_new sample_env sample_config 24 80 None = Some t"
    using term_new_ok [OF sample_size_ok, of sample_env sample_config] by (auto simp: returns_iff)
  have r: "term_reach sample_env sample_parse sample_config 24 80 None (((), t), [])" by (rule term_reach.fresh [OF t])
  from terminal_well_formed [OF sample_env_ok sample_parser_ok sample_size_ok this] r show ?thesis by blast
qed

text \<open>
  C3. Whatever a program sends, the terminal's queues stay within their limits: the stacks of
  titles and keyboard modes, the buffer of the control-string scanner, the table of styles, the
  queues of graphics replies and of decodes, and the images of each screen.
\<close>

theorem terminal_memory_bounded:
  assumes "env_ok E" "parser_ok parse" "size_ok lines cols cell"
    and "term_reach E parse cfg lines cols cell ((p, t), out)"
  shows "length (title_stack t) \<le> TITLE_STACK_MAX_DEPTH \<and>
    length (keyboard_mode_stack t) \<le> KEYBOARD_MODE_STACK_MAX_DEPTH \<and>
    length (inactive_keyboard_mode_stack t) \<le> KEYBOARD_MODE_STACK_MAX_DEPTH \<and>
    length (body (dcs_scanner t)) \<le> DCS_MAX_BYTES \<and> length (styles (t_styles t)) \<le> CAPACITY \<and>
    length (replies (t_graphics t)) \<le> MAX_REPLIES \<and> length (jobs (t_graphics t)) \<le> MAX_JOBS \<and>
    (\<forall>s \<in> set (screens (t_graphics t)). length (images s) \<le> MAX_IMAGES)"
proof -
  have t: "term_ok (qj_seq ` set out) cols lines t" using term_reach_ok [OF assms] by (simp add: driver_ok_def)
  then show ?thesis by (simp add: term_ok_def dcs_ok_def table_safe_def kitty_ok_def kitty_base_def)
qed

theorem terminal_memory_bounded_witness:
  "\<exists>t. term_reach sample_env sample_parse sample_config 24 80 None (((), t), []) \<and>
    length (body (dcs_scanner t)) \<le> 4096"
proof -
  obtain t where t: "term_new sample_env sample_config 24 80 None = Some t"
    using term_new_ok [OF sample_size_ok, of sample_env sample_config] by (auto simp: returns_iff)
  have r: "term_reach sample_env sample_parse sample_config 24 80 None (((), t), [])" by (rule term_reach.fresh [OF t])
  from terminal_memory_bounded [OF sample_env_ok sample_parser_ok sample_size_ok this] r
  show ?thesis unfolding DCS_MAX_BYTES_def by blast
qed

end
