(* ===== verification/Runs.thy ===== *)
theory Runs
  imports Terminal
begin

text \<open>
  What the comment of \<open>write_text_run\<close> and \<open>write_ascii_run\<close> in \<open>src/terminal/term/mod.rs\<close> promises: writing
  a run is printing its characters one after the other. The run writers fill a row at a time, and when
  a wrap scrolls the screen they take the new line uncleared and clear it while they write.
\<close>

section \<open>Cells put into a row\<close>

definition row_put :: "nat \<Rightarrow> cell list \<Rightarrow> cell row \<Rightarrow> cell row" where
  "row_put col cells r =
     r\<lparr>inner := take col (inner r) @ cells @ drop (col + length cells) (inner r),
       occ := (if cells = [] then occ r else max (occ r) (col + length cells))\<rparr>"

lemma row_put_Nil [simp]: "row_put col [] r = r"
  by (simp add: row_put_def)

lemma row_put_snoc:
  assumes "col + length cells < length (inner r)"
  shows "row_put (col + length cells) [c] (row_put col cells r) = row_put col (cells @ [c]) r"
proof -
  have "take (col + length cells) (take col (inner r) @ cells @ drop (col + length cells) (inner r)) = take col (inner r) @ cells"
    using assms by simp
  then show ?thesis using assms by (simp add: row_put_def)
qed

lemma row_modify_put:
  assumes "col < length (inner r)"
  shows "row_modify col (\<lambda>_. c) r = Some (row_put col [c] r)"
  using assms by (simp add: row_modify_def row_put_def upd_conv_take_nth_drop)

lemma row_put_nth:
  assumes "col + length cells < length (inner r)"
  shows "inner (row_put col cells r) ! (col + length cells) = inner r ! (col + length cells)"
    "length (inner (row_put col cells r)) = length (inner r)"
  using assms by (simp_all add: row_put_def nth_append)

section \<open>Two edits of a line\<close>

lemma storage_modify_twice:
  assumes "storage_modify f l s = Some s'"
  shows "storage_modify h l s' = storage_modify (\<lambda>r. Option.bind (f r) h) l s"
    "storage_get s' l = Option.bind (storage_get s l) f"
proof -
  obtain i r where i: "compute_index s l = Some i" "i < length (rows s)" "f (rows s ! i) = Some r" "s' = s\<lparr>rows := (rows s)[i := r]\<rparr>"
    using assms by (auto simp: storage_modify_def idx_def upd_def bind_eq_Some_conv split: if_splits)
  have same: "compute_index s' l = Some i" using i(1,4) by (simp add: compute_index_def Let_def split: if_splits)
  show "storage_modify h l s' = storage_modify (\<lambda>r. Option.bind (f r) h) l s"
    using i same by (cases "h r") (simp_all add: storage_modify_def)
  show "storage_get s' l = Option.bind (storage_get s l) f"
    using i same by (simp add: storage_get_def)
qed

lemma storage_modify_cong:
  assumes "storage_get s l = Some r" "f r = h r"
  shows "storage_modify f l s = storage_modify h l s"
  using assms by (auto simp: storage_modify_def storage_get_def bind_eq_Some_conv)

lemma modify_row_twice:
  assumes "modify_row f l g = Some g'"
  shows "modify_row h l g' = modify_row (\<lambda>r. Option.bind (f r) h) l g"
  using assms storage_modify_twice(1) [of f l "raw g" _ h]
  by (auto simp: modify_row_def on_raw_def bind_eq_Some_conv)

text \<open>The cursor and the rows are separate.\<close>

lemma modify_row_cursor:
  "modify_row f l (g\<lparr>cursor := c\<rparr>) = map_option (\<lambda>g. g\<lparr>cursor := c\<rparr>) (modify_row f l g)"
  by (cases "storage_modify f l (raw g)") (simp_all add: modify_row_def on_raw_def)

lemma on_grid_cursor:
  "on_grid (modify_row f l) (at_cursor k t) = map_option (at_cursor k) (on_grid (modify_row f l) t)"
proof (cases "modify_row f l (t_grid t)")
  case (Some g)
  then have "cursor g = t_cursor t" by (auto simp: modify_row_def on_raw_def bind_eq_Some_conv)
  then show ?thesis using Some by (simp add: on_grid_def at_cursor_def modify_row_cursor)
qed (simp add: on_grid_def at_cursor_def modify_row_cursor)

lemma on_grid_twice:
  assumes "on_grid (modify_row f l) t = Some t'"
  shows "on_grid (modify_row h l) t' = on_grid (modify_row (\<lambda>r. Option.bind (f r) h) l) t"
  using assms modify_row_twice [of f l "t_grid t" _ h] by (auto simp: on_grid_def bind_eq_Some_conv)

lemma set_wrap_same: "c_wrap (t_cursor t) = b \<Longrightarrow> set_wrap b t = t"
  by (cases t) (auto simp: set_wrap_def at_cursor_def)

lemma set_column_same: "column (cursor_point t) = col \<Longrightarrow> set_column col t = t"
  by (cases "cursor_point t") (auto simp: set_column_def set_point_def at_cursor_def)

lemma term_screen: "term_ok W cols lines t \<Longrightarrow> screen_ok (length (styles (t_styles t))) cols lines (t_grid t)"
  by (simp add: term_ok_def)

section \<open>Printing into a row\<close>

definition put_run :: "cell list \<Rightarrow> 'f terminal \<Rightarrow> 'f terminal option" where
  "put_run cells t =
     map_option (after_fill (length cells))
       (on_grid (modify_row (\<lambda>r. Some (row_put (column (cursor_point t)) cells r)) (line (cursor_point t))) t)"

text \<open>The row of the cursor, and what is read of it.\<close>

lemma cursor_row:
  assumes t: "term_ok W cols lines t"
  obtains r where "storage_get (raw (t_grid t)) (line (cursor_point t)) = Some r" "length (inner r) = cols"
    "row_fine (length (styles (t_styles t))) cols r"
proof -
  obtain r where "storage_get (raw (t_grid t)) (line (cursor_point t)) = Some r" "row_fine (length (styles (t_styles t))) cols r"
    by (rule screen_row_at [OF term_screen [OF t], of "line (cursor_point t)"]) (use term_cursor [OF t] in auto)
  then show thesis using that by (simp add: row_fine_def)
qed

lemma modify_row_id:
  assumes "storage_get (raw g) l = Some r" "f r = Some r"
  shows "modify_row f l g = Some g"
proof -
  obtain i where "compute_index (raw g) l = Some i" "i < length (rows (raw g))" "rows (raw g) ! i = r"
    using assms(1) by (auto simp: storage_get_def idx_def bind_eq_Some_conv split: if_splits)
  then show ?thesis using assms(2) by (auto simp: modify_row_def on_raw_def storage_modify_def)
qed

lemma on_grid_cong:
  assumes "storage_get (raw (t_grid t)) l = Some r" "f r = h r"
  shows "on_grid (modify_row f l) t = on_grid (modify_row h l) t"
  using storage_modify_cong [of "raw (t_grid t)" l r f h] assms by (simp add: on_grid_def modify_row_def on_raw_def)

lemma put_run_Nil:
  assumes t: "term_ok W cols lines t" and "\<not> c_wrap (t_cursor t)"
  shows "put_run [] t = Some t"
proof -
  obtain r where r: "storage_get (raw (t_grid t)) (line (cursor_point t)) = Some r" by (rule cursor_row [OF t])
  have "on_grid (modify_row (\<lambda>r. Some (row_put (column (cursor_point t)) [] r)) (line (cursor_point t))) t = Some t"
    using modify_row_id [of "t_grid t", OF r] by (simp add: on_grid_def)
  then show ?thesis
    using term_cursor(4) [OF t] term_dims(1) [OF t] assms(2)
    by (simp add: put_run_def after_fill_def Let_def set_wrap_same set_column_same)
qed

text \<open>One more cell.\<close>

lemma put_run_snoc:
  assumes t: "term_ok W cols lines t" and w: "\<not> c_wrap (t_cursor t)" and room: "column (cursor_point t) + length cells < cols"
    and t1: "put_run cells t = Some t1"
  shows "put_run [c] t1 = put_run (cells @ [c]) t"
proof -
  let ?p = "cursor_point t" and ?f = "\<lambda>cells r. Some (row_put (column (cursor_point t)) cells r)"
  obtain r where r: "storage_get (raw (t_grid t)) (line ?p) = Some r" "length (inner r) = cols" by (rule cursor_row [OF t])
  obtain u where u: "on_grid (modify_row (?f cells) (line ?p)) t = Some u" and t1u: "t1 = after_fill (length cells) u"
    using t1 by (auto simp: put_run_def)
  have same: "cursor (t_grid u) = cursor (t_grid t)" "t_columns u = cols"
    using u term_dims(1) [OF t] by (auto simp: on_grid_def modify_row_def on_raw_def bind_eq_Some_conv)
  let ?k = "\<lambda>c. c\<lparr>c_point := Point (line ?p) (column ?p + length cells)\<rparr>"
  have moved: "t1 = at_cursor ?k u"
    using room same w unfolding t1u after_fill_def Let_def
    by (simp add: set_wrap_same set_column_def set_point_def)
  let ?h = "\<lambda>r. Some (row_put (column ?p + length cells) [c] r)"
  have "on_grid (modify_row ?h (line ?p)) t1 = map_option (at_cursor ?k) (on_grid (modify_row ?h (line ?p)) u)"
    unfolding moved by (rule on_grid_cursor)
  also have "on_grid (modify_row ?h (line ?p)) u = on_grid (modify_row (\<lambda>r. Option.bind (?f cells r) ?h) (line ?p)) t"
    by (rule on_grid_twice [OF u])
  also have "\<dots> = on_grid (modify_row (?f (cells @ [c])) (line ?p)) t"
    by (rule on_grid_cong [OF r(1)]) (use row_put_snoc room r(2) in simp)
  finally have step: "on_grid (modify_row ?h (line ?p)) t1 =
      map_option (at_cursor ?k) (on_grid (modify_row (?f (cells @ [c])) (line ?p)) t)" .
  have p1: "cursor_point t1 = Point (line ?p) (column ?p + length cells)" by (simp add: moved at_cursor_def)
  have fill: "after_fill 1 (at_cursor ?k v) = after_fill (Suc (length cells)) v"
    if "cursor (t_grid v) = cursor (t_grid t)" "t_columns v = cols" for v :: "'a terminal"
    using that by (simp add: after_fill_def Let_def at_cursor_def set_wrap_def set_column_def set_point_def)
  show ?thesis
  proof (cases "on_grid (modify_row (?f (cells @ [c])) (line ?p)) t")
    case (Some v)
    then have "cursor (t_grid v) = cursor (t_grid t)" "t_columns v = cols"
      using term_dims(1) [OF t] by (auto simp: on_grid_def modify_row_def on_raw_def bind_eq_Some_conv)
    from fill [OF this] show ?thesis using step Some by (simp add: put_run_def p1)
  qed (use step in \<open>simp add: put_run_def p1\<close>)
qed

section \<open>One character\<close>

lemma printable_char:
  assumes "printable b"
  shows "0x20 \<le> (ucast b :: uchar)" "(ucast b :: uchar) \<le> 0x7E"
  using assms unfolding printable_def word_le_nat_alt word_less_nat_alt unat_sub_if'
  by (auto simp: unsigned_ucast_eq take_bit_nat_eq_self unat_sub_if' split: if_splits
      intro!: order.strict_trans [OF unsigned_less])

lemma plain_output_iff:
  "plain_output t = Some True \<longleftrightarrow> idx (c_charsets (t_cursor t)) (active_charset t) = Some 0 \<and>
    \<not> has_mode (t_mode t) INSERT \<and> has_mode (t_mode t) LINE_WRAP"
  by (auto simp: plain_output_def bind_eq_Some_conv)

lemma plain_output_same: "same_but_cursor t t' \<Longrightarrow> plain_output t' = plain_output t"
  by (simp add: plain_output_def same_but_cursor_def)

lemma simple_not_wide: "is_simple w \<Longrightarrow> \<not> intersects (cell_layout w) (WIDE_CHAR OR WIDE_CHAR_SPACER)"
  by (auto simp: is_simple_unpack unpack_def intersects_bits bit_or_iff)

lemma input_put:
  assumes E: "env_ok E" and t: "term_ok W cols lines t" and plain: "plain_output t = Some True" and b: "printable b"
    and w: "\<not> c_wrap (t_cursor t)" and r: "storage_get (raw (t_grid t)) (line (cursor_point t)) = Some r"
      "is_simple (inner r ! column (cursor_point t))"
  shows "input E (ucast b) t = put_run [cell_write (ucast b) (template_style_id t) 0] t"
proof -
  let ?p = "cursor_point t" and ?c = "cell_write (ucast b) (template_style_id t) 0"
  have len: "length (inner r) = cols" using r(1) cursor_row [OF t] by (metis option.inject)
  have col: "column ?p < cols" "t_columns t = cols" using term_cursor(4) [OF t] term_dims(1) [OF t] .
  have width: "unicode_width E (ucast b) = Some 1" "charset_map E 0 (ucast b) = ucast b"
    using E printable_char [OF b] by (simp_all add: env_ok_def)
  have cell: "grid_cell_at (t_grid t) ?p = Some (inner r ! column ?p)"
    using r(1) len col by (simp add: grid_cell_at_def row_get_def)
  have "write_at_cursor E (ucast b) 0 t = on_grid (modify_row (row_modify (column ?p) (\<lambda>_. ?c)) (line ?p)) t"
    using plain cell simple_not_wide [OF r(2)] width(2)
    by (simp add: write_at_cursor_def plain_output_iff modify_cursor_cell_def modify_cell_def modify_row_def on_grid_def Let_def)
  also have "\<dots> = on_grid (modify_row (\<lambda>r. Some (row_put (column ?p) [?c] r)) (line ?p)) t"
    by (rule on_grid_cong [OF r(1)]) (use row_modify_put col len in simp)
  finally have written: "write_at_cursor E (ucast b) 0 t = on_grid (modify_row (\<lambda>r. Some (row_put (column ?p) [?c] r)) (line ?p)) t" .
  show ?thesis
  proof (cases "on_grid (modify_row (\<lambda>r. Some (row_put (column ?p) [?c] r)) (line ?p)) t")
    case None
    then show ?thesis using plain width w written by (simp add: input_def plain_output_iff put_run_def Let_def)
  next
    case (Some u)
    then have same: "cursor (t_grid u) = cursor (t_grid t)" "t_columns u = cols"
      using col(2) by (auto simp: on_grid_def modify_row_def on_raw_def bind_eq_Some_conv)
    have "after_fill 1 u = (if column ?p + 1 < cols then set_column (column ?p + 1) u else set_wrap True u)"
    proof (cases "column ?p + 1 < cols")
      case True
      then show ?thesis using same w by (simp add: after_fill_def Let_def set_wrap_same)
    next
      case False
      then have "column ?p + 1 = cols" using col by simp
      then show ?thesis using same by (simp add: after_fill_def Let_def set_column_same)
    qed
    then show ?thesis
      using Some plain width w written same col by (simp add: input_def plain_output_iff put_run_def Let_def)
  qed
qed

text \<open>The first cells a run writes, and as many bytes printed one by one.\<close>

lemma ascii_run_nth:
  assumes "k < ascii_run fresh cells bytes"
  shows "printable (bytes ! k)" "fresh \<or> is_simple (cells ! k)" "k < length cells" "k < length bytes"
proof -
  let ?P = "\<lambda>(cell, b). printable b \<and> (fresh \<or> is_simple cell)"
  show len: "k < length cells" "k < length bytes" using assms ascii_run_le [of fresh cells bytes] by linarith+
  have "?P (takeWhile ?P (zip cells bytes) ! k)" using assms nth_mem by (fastforce simp: ascii_run_def dest: set_takeWhileD)
  moreover have "takeWhile ?P (zip cells bytes) ! k = (cells ! k, bytes ! k)"
    using assms len by (simp add: ascii_run_def takeWhile_nth)
  ultimately show "printable (bytes ! k)" "fresh \<or> is_simple (cells ! k)" by auto
qed

lemma inputs_put:
  assumes E: "env_ok E" and t: "term_ok W cols lines t" and plain: "plain_output t = Some True"
    and w: "\<not> c_wrap (t_cursor t)" and r: "storage_get (raw (t_grid t)) (line (cursor_point t)) = Some r"
    and len: "column (cursor_point t) + count \<le> cols"
  shows "k \<le> ascii_run False (take count (drop (column (cursor_point t)) (inner r))) bytes \<Longrightarrow>
    for_each (\<lambda>b. input E (ucast b)) (take k bytes) t =
    put_run (map (\<lambda>b. cell_write (ucast b) (template_style_id t) 0) (take k bytes)) t"
proof (induction k)
  case 0
  then show ?case using put_run_Nil [OF t w] by simp
next
  case (Suc k)
  let ?p = "cursor_point t" and ?new = "map (\<lambda>b. cell_write (ucast b) (template_style_id t) 0) (take k bytes)"
  have run: "k < ascii_run False (take count (drop (column ?p) (inner r))) bytes" using Suc.prems by simp
  have rl: "length (inner r) = cols" using r cursor_row [OF t] by (metis option.inject)
  have kb: "k < length bytes" "k < count" and new: "length ?new = k"
    using ascii_run_nth(3,4) [OF run] by simp_all
  have simple: "is_simple (inner r ! (column ?p + k))" using ascii_run_nth(2,3) [OF run] rl len by simp
  have IH: "for_each (\<lambda>b. input E (ucast b)) (take k bytes) t = put_run ?new t" using Suc by simp
  have "list_all is_scalar (map ucast (take k bytes))" by (simp add: list_all_iff is_scalar_byte)
  from for_each_input_ok [OF E t this] have "returns (for_each (\<lambda>b. input E (ucast b)) (take k bytes) t)
      (\<lambda>t'. term_ok W cols lines t' \<and> same_but_cursor t t')" by (simp add: for_each_map)
  then obtain t1 where t1: "put_run ?new t = Some t1" "term_ok W cols lines t1" "same_but_cursor t t1"
    using IH by (auto simp: returns_iff)
  obtain u where u: "on_grid (modify_row (\<lambda>r. Some (row_put (column ?p) ?new r)) (line ?p)) t = Some u"
    "t1 = after_fill k u" using t1(1) new by (auto simp: put_run_def)
  obtain s where s: "storage_modify (\<lambda>r. Some (row_put (column ?p) ?new r)) (line ?p) (raw (t_grid t)) = Some s"
    "u = t\<lparr>t_grid := (t_grid t)\<lparr>raw := s\<rparr>\<rparr>"
    using u(1) by (auto simp: on_grid_def modify_row_def on_raw_def bind_eq_Some_conv)
  have same: "cursor (t_grid u) = cursor (t_grid t)" "t_columns u = cols"
    "storage_get (raw (t_grid u)) (line ?p) = Some (row_put (column ?p) ?new r)"
    using s(2) term_dims(1) [OF t] storage_modify_twice(2) [OF s(1)] r by simp_all
  have at: "cursor_point t1 = Point (line ?p) (column ?p + k)" "\<not> c_wrap (t_cursor t1)" "raw (t_grid t1) = raw (t_grid u)"
    using same len kb w by (auto simp: u(2) after_fill_def Let_def set_column_def set_point_def set_wrap_def at_cursor_def)
  have row1: "storage_get (raw (t_grid t1)) (line (cursor_point t1)) = Some (row_put (column ?p) ?new r)"
    using at same(3) by simp
  have simple1: "is_simple (inner (row_put (column ?p) ?new r) ! column (cursor_point t1))"
    using row_put_nth(1) [of "column ?p" ?new r] simple rl len kb new at(1) by simp
  have "template_style_id t1 = template_style_id t" using t1(3) by (simp add: same_but_cursor_def)
  then have "input E (ucast (bytes ! k)) t1 = put_run [cell_write (ucast (bytes ! k)) (template_style_id t) 0] t1"
    using input_put [OF E t1(2) _ ascii_run_nth(1) [OF run] at(2) row1 simple1] plain plain_output_same [OF t1(3)] by simp
  also have "\<dots> = put_run (?new @ [cell_write (ucast (bytes ! k)) (template_style_id t) 0]) t"
    by (rule put_run_snoc [OF t w _ t1(1)]) (use len kb new in simp)
  finally have "input E (ucast (bytes ! k)) t1 = put_run (?new @ [cell_write (ucast (bytes ! k)) (template_style_id t) 0]) t" .
  then show ?case using IH t1(1) kb by (simp add: take_Suc_conv_app_nth for_each_append)
qed

text \<open>What the fill of a row does.\<close>

lemma fill_row_put:
  assumes t: "term_ok W cols lines t" and r: "storage_get (raw (t_grid t)) (line (cursor_point t)) = Some r"
    and len: "column (cursor_point t) + count \<le> cols"
    and k: "k = ascii_run False (take count (drop (column (cursor_point t)) (inner r))) bytes"
  shows "fill_row False count (\<lambda>fresh. ascii_writer fresh bytes style) t =
    map_option (\<lambda>t'. ((), k, t')) (on_grid (modify_row (\<lambda>r. Some (row_put (column (cursor_point t))
      (map (\<lambda>b. cell_write (ucast b) style 0) (take k bytes)) r)) (line (cursor_point t))) t)"
proof -
  let ?p = "cursor_point t" and ?new = "map (\<lambda>b. cell_write (ucast b) style 0) (take k bytes)"
  have rl: "length (inner r) = cols" using r cursor_row [OF t] by (metis option.inject)
  have le: "k \<le> count" "k \<le> length bytes" using ascii_run_le [of False "take count (drop (column ?p) (inner r))" bytes] k by simp_all
  have "drop (column ?p + k) (inner r) = take (count - k) (drop (column ?p + k) (inner r)) @ drop (count - k) (drop (column ?p + k) (inner r))"
    by (simp only: append_take_drop_id)
  then have tail: "drop k (take count (drop (column ?p) (inner r))) @ drop (column ?p + count) (inner r) = drop (column ?p + k) (inner r)"
    using le(1) by (simp add: drop_take add.commute add.left_commute)
  have "row_write_prefix (column ?p) count (ascii_writer False bytes style) r = Some ((), k, row_put (column ?p) ?new r)"
    using rl len le k [symmetric] tail by (auto simp: row_write_prefix_def ascii_writer_def fill_ascii_run Let_def row_put_def)
  moreover have "storage_modify (\<lambda>_. Some (row_put (column ?p) ?new r)) (line ?p) (raw (t_grid t)) =
      storage_modify (\<lambda>r. Some (row_put (column ?p) ?new r)) (line ?p) (raw (t_grid t))"
    by (rule storage_modify_cong [OF r]) simp
  ultimately show ?thesis
    using r by (cases "storage_modify (\<lambda>r. Some (row_put (column ?p) ?new r)) (line ?p) (raw (t_grid t))")
      (simp_all add: fill_row_def edit_row_def on_grid_def modify_row_def on_raw_def Let_def)
qed

section \<open>A pending wrap\<close>

definition wrap_finish :: "'f terminal \<Rightarrow> 'f terminal option" where
  "wrap_finish t = damage_cursor (set_wrap False (set_point (Point (line (cursor_point t)) 0) t))"

lemma wrapline_cases:
  assumes wrap: "has_mode (t_mode t) LINE_WRAP"
    and t0: "on_grid (modify_cursor_cell (\<lambda>c. insert_layout c WRAPLINE)) t = Some t0"
  shows "line (cursor_point t0) + 1 = snd (scroll_region t0) \<Longrightarrow>
      wrapline_recycling E True t = do { (b, u) \<leftarrow> scroll_up_relative_resetting E (fst (scroll_region t0)) 1 False t0;
        u \<leftarrow> wrap_finish u; Some (b, u) } \<and>
      wrapline E t = do { (b, u) \<leftarrow> scroll_up_relative_resetting E (fst (scroll_region t0)) 1 True t0; wrap_finish u }"
    and "line (cursor_point t0) + 1 \<noteq> snd (scroll_region t0) \<Longrightarrow>
      wrapline_recycling E True t = map_option (Pair False) (wrapline E t)"
proof -
  let ?next = "line (cursor_point t0) + 1"
  let ?scroll = "\<lambda>reset. scroll_up_relative_resetting E (fst (scroll_region t0)) 1 reset t0"
  show "wrapline_recycling E True t = do { (b, u) \<leftarrow> ?scroll False; u \<leftarrow> wrap_finish u; Some (b, u) } \<and>
      wrapline E t = do { (b, u) \<leftarrow> ?scroll True; wrap_finish u }" if "?next = snd (scroll_region t0)"
  proof
    show "wrapline_recycling E True t = do { (b, u) \<leftarrow> ?scroll False; u \<leftarrow> wrap_finish u; Some (b, u) }"
      using wrap t0 that by (simp add: wrapline_recycling_def wrap_finish_def Let_def)
    show "wrapline E t = do { (b, u) \<leftarrow> ?scroll True; wrap_finish u }"
      using wrap t0 that by (cases "?scroll True")
        (auto simp: wrapline_def wrapline_recycling_def wrap_finish_def linefeed_def term_scroll_up_def scroll_up_relative_def
          Let_def split: prod.split option.split Option.bind_split)
  qed
  show "wrapline_recycling E True t = map_option (Pair False) (wrapline E t)" if "?next \<noteq> snd (scroll_region t0)"
  proof -
    let ?m = "if snd (scroll_region t0) \<le> ?next then map_option (Pair False) (linefeed E t0)
      else do { t \<leftarrow> damage_cursor t0; Some (False, set_point (Point ?next (column (cursor_point t))) t) }"
    have both: "wrapline_recycling E recycle t = do { (b, u) \<leftarrow> ?m; u \<leftarrow> wrap_finish u; Some (b, u) }" for recycle
      using wrap t0 that by (simp add: wrapline_recycling_def wrap_finish_def Let_def)
    have "do { (b, u) \<leftarrow> ?m; u \<leftarrow> wrap_finish u; Some (b, u) } =
        map_option (Pair False) (map_option snd (do { (b, u) \<leftarrow> ?m; u \<leftarrow> wrap_finish u; Some (b, u) }))"
      by (cases "linefeed E t0"; cases "damage_cursor t0") (auto split: Option.bind_split)
    then show ?thesis unfolding wrapline_def both .
  qed
qed

text \<open>A scroll by a line that clears the line is one that does not, and the line cleared.\<close>

lemma scroll_up_cleared:
  assumes "0 \<le> a" "a < b"
  shows "Grid.scroll_up G (a, b) 1 g = Option.bind (scroll_up_unreset G (a, b) g) (reset_lines G [b - 1])"
proof -
  have one: "irange (b - 1) b = [b - 1]" by (simp add: irange_Cons)
  have none: "reset_lines G [] g = Some g" for g by (simp add: reset_lines_def on_raw_def)
  have whole: "irange a b = [b - 1]" if "b - a \<le> 1"
  proof -
    have "a = b - 1" using that assms(2) by simp
    then show ?thesis using one by simp
  qed
  show ?thesis
    using assms one none whole
    by (auto simp: Grid.scroll_up_def scroll_up_unreset_def scroll_up_resetting_def Let_def bind_eq_Some_conv split: Option.bind_split)
qed

text \<open>Other rows in the grid: what follows the scroll does not look at them.\<close>

definition put_raw :: "cell storage \<Rightarrow> 'f terminal \<Rightarrow> 'f terminal" where
  "put_raw s t = t\<lparr>t_grid := (t_grid t)\<lparr>raw := s\<rparr>\<rparr>"

lemma put_raw_sel [simp]:
  "cursor (t_grid (put_raw s t)) = cursor (t_grid t)" "t_lines (put_raw s t) = t_lines t" "raw (t_grid (put_raw s t)) = s"
  "t_graphics (put_raw s t) = t_graphics t" "pending_grid_scroll (put_raw s t) = pending_grid_scroll t"
  "scroll_region (put_raw s t) = scroll_region t"
  by (simp_all add: put_raw_def)

lemma put_raw_same: "put_raw (raw (t_grid t)) t = t"
  by (simp add: put_raw_def)

lemma put_raw_commute:
  "on_graphics f (put_raw s t) = map_option (put_raw s) (on_graphics f t)"
  "damage_cursor (put_raw s t) = map_option (put_raw s) (damage_cursor t)"
  "at_cursor k (put_raw s t) = put_raw s (at_cursor k t)"
  "mark_fully_damaged (put_raw s t) = put_raw s (mark_fully_damaged t)"
  "flush_grid_scroll (put_raw s t) = put_raw s (flush_grid_scroll t)"
proof -
  show "on_graphics f (put_raw s t) = map_option (put_raw s) (on_graphics f t)"
    by (cases "f (t_graphics t)") (simp_all add: on_graphics_def put_raw_def)
  show "damage_cursor (put_raw s t) = map_option (put_raw s) (damage_cursor t)"
    by (cases "damage_point (nat (line (cursor_point t)), column (cursor_point t)) (t_damage t)")
      (simp_all add: damage_cursor_def on_damage_def put_raw_def)
  show "at_cursor k (put_raw s t) = put_raw s (at_cursor k t)" by (simp add: at_cursor_def put_raw_def)
  show "mark_fully_damaged (put_raw s t) = put_raw s (mark_fully_damaged t)" by (simp add: mark_fully_damaged_def put_raw_def)
  show "flush_grid_scroll (put_raw s t) = put_raw s (flush_grid_scroll t)"
    by (simp add: flush_grid_scroll_def put_raw_def send_def split: option.split)
qed

lemma put_raw_queue:
  fixes t :: "'a terminal"
  shows
  "queue_grid_scroll E a b n h (put_raw s t) = map_option (put_raw s) (queue_grid_scroll E a b n h t)"
proof -
  have pending: "(put_raw s u)\<lparr>pending_grid_scroll := p\<rparr> = put_raw s (u\<lparr>pending_grid_scroll := p\<rparr>)" for u :: "'a terminal" and p
    by (simp add: put_raw_def)
  show ?thesis
  proof (cases "graphics_placed t")
    case None
    then show ?thesis by (simp add: queue_grid_scroll_def graphics_placed_def)
  next
    case (Some placed)
    then have placed: "graphics_placed (put_raw s t) = Some placed" by (simp add: graphics_placed_def)
    let ?f = "kitty_scroll (gfx E) \<lparr>gs_top = a, gs_end = b, gs_lines = n,
                gs_screen_lines = to_i32 (t_lines t), gs_history_top = history_top h\<rparr>"
    let ?g = "\<lambda>t. if placed then on_graphics ?f t else Some t"
    have g: "?g (put_raw s t) = map_option (put_raw s) (?g t)" by (simp add: put_raw_commute)
    let ?q = "\<lambda>t. case pending_grid_scroll t of
        Some p \<Rightarrow> if ps_origin p = a \<and> ps_end p = b \<and> sgn (ps_lines p) = sgn n
          then t\<lparr>pending_grid_scroll := Some (p\<lparr>ps_lines := sat_i32 (ps_lines p + n), ps_history := h\<rparr>)\<rparr>
          else (flush_grid_scroll t)\<lparr>pending_grid_scroll := Some \<lparr>ps_origin = a, ps_end = b, ps_lines = n, ps_history = h\<rparr>\<rparr>
      | None \<Rightarrow> t\<lparr>pending_grid_scroll := Some \<lparr>ps_origin = a, ps_end = b, ps_lines = n, ps_history = h\<rparr>\<rparr>"
    have q: "?q (put_raw s u) = put_raw s (?q u)" for u :: "'a terminal"
      by (simp add: put_raw_commute pending split: option.split)
    have def: "queue_grid_scroll E a b n h u = Option.bind (?g u) (\<lambda>u. Some (?q u))"
      if "graphics_placed u = Some placed" "t_lines u = t_lines t" for u :: "'a terminal"
      using that by (simp add: queue_grid_scroll_def Let_def)
    have "queue_grid_scroll E a b n h (put_raw s t) = Option.bind (map_option (put_raw s) (?g t)) (\<lambda>u. Some (?q u))"
      unfolding g [symmetric] by (rule def [OF placed]) simp
    also have "\<dots> = map_option (put_raw s) (Option.bind (?g t) (\<lambda>u. Some (?q u)))"
      using q by (cases "?g t") simp_all
    also have "Option.bind (?g t) (\<lambda>u. Some (?q u)) = queue_grid_scroll E a b n h t"
      by (rule def [OF Some refl, symmetric])
    finally show ?thesis .
  qed
qed

lemma queue_keeps_grid:
  fixes t :: "'a terminal"
  assumes "queue_grid_scroll E a b n h t = Some u"
  shows "t_grid u = t_grid t"
proof -
  obtain placed where placed: "graphics_placed t = Some placed" using assms by (auto simp: queue_grid_scroll_def bind_eq_Some_conv)
  let ?g = "if placed then on_graphics (kitty_scroll (gfx E) \<lparr>gs_top = a, gs_end = b, gs_lines = n,
              gs_screen_lines = to_i32 (t_lines t), gs_history_top = history_top h\<rparr>) t else Some t"
  let ?q = "\<lambda>t :: 'a terminal. case pending_grid_scroll t of
      Some p \<Rightarrow> if ps_origin p = a \<and> ps_end p = b \<and> sgn (ps_lines p) = sgn n
        then t\<lparr>pending_grid_scroll := Some (p\<lparr>ps_lines := sat_i32 (ps_lines p + n), ps_history := h\<rparr>)\<rparr>
        else (flush_grid_scroll t)\<lparr>pending_grid_scroll := Some \<lparr>ps_origin = a, ps_end = b, ps_lines = n, ps_history = h\<rparr>\<rparr>
    | None \<Rightarrow> t\<lparr>pending_grid_scroll := Some \<lparr>ps_origin = a, ps_end = b, ps_lines = n, ps_history = h\<rparr>\<rparr>"
  have flush: "t_grid (flush_grid_scroll v) = t_grid v" for v :: "'a terminal"
    by (simp add: flush_grid_scroll_def send_def split: option.split)
  have q: "t_grid (?q v) = t_grid v" for v :: "'a terminal" by (simp add: flush split: option.split)
  have "Option.bind ?g (\<lambda>v. Some (?q v)) = Some u"
    using assms placed by (simp only: queue_grid_scroll_def Let_def bind.bind_lunit)
  then obtain v where v: "?g = Some v" "u = ?q v" by (simp only: bind_eq_Some_conv option.inject) blast
  have "t_grid v = t_grid t" using v(1) by (auto simp: on_graphics_def bind_eq_Some_conv split: if_splits)
  then show ?thesis unfolding v(2) q .
qed

lemma put_raw_finish: "wrap_finish (put_raw s t) = map_option (put_raw s) (wrap_finish t)"
  by (simp add: wrap_finish_def set_point_def set_wrap_def put_raw_commute)

lemma put_raw_keeps:
  assumes "K (put_raw (raw (t_grid t)) t) = map_option (put_raw (raw (t_grid t))) (K t)" "K t = Some u"
  shows "raw (t_grid u) = raw (t_grid t)"
  using assms by (simp add: put_raw_same) (metis put_raw_sel(3))

text \<open>A scroll that leaves the line uncleared, and the same scroll.\<close>

lemma scroll_up_uncleared:
  assumes region: "0 \<le> fst (scroll_region t)" "fst (scroll_region t) < snd (scroll_region t)"
    and u: "scroll_up_relative_resetting E (fst (scroll_region t)) 1 False t = Some (b, u)"
  shows "b \<and> scroll_up_relative_resetting E (fst (scroll_region t)) 1 True t =
    map_option (Pair False) (on_grid (modify_row (row_reset packed_cell_ops (c_erase (t_cursor u))) (snd (scroll_region t) - 1)) u)"
proof -
  let ?r = "scroll_region t" and ?t = "rotate_t_selection (scroll_region t) 1 t"
  let ?rest = "\<lambda>t. do { t \<leftarrow> queue_grid_scroll E (fst ?r) (snd ?r) 1 (grid_history (t_grid t)) t; Some (mark_fully_damaged t) }"
  have one: "min 1 (nat (snd ?r - fst ?r)) = 1" using region by simp
  have split: "scroll_up_relative_resetting E (fst ?r) 1 reset t = map_option (Pair (\<not> reset))
      (Option.bind (on_grid (if reset then Grid.scroll_up packed_cell_ops ?r 1 else scroll_up_unreset packed_cell_ops ?r) ?t) ?rest)" for reset
    using one region by (cases ?r) (simp add: scroll_up_relative_resetting_def scroll_grid_def Let_def)
  obtain t1 where t1: "on_grid (scroll_up_unreset packed_cell_ops ?r) ?t = Some t1" "?rest t1 = Some u" "b"
    using u unfolding split by (auto simp: bind_eq_Some_conv)
  have rest_raw: "?rest (put_raw s t1) = map_option (put_raw s) (?rest t1)" if "len s = len (raw (t_grid t1))" for s
  proof -
    have "grid_history (t_grid (put_raw s t1)) = grid_history (t_grid t1)"
      using that by (simp add: put_raw_def history_size_def grid_dims_def)
    then show ?thesis
      by (cases "queue_grid_scroll E (fst ?r) (snd ?r) 1 (grid_history (t_grid t1)) t1")
        (simp_all add: put_raw_queue put_raw_commute del: put_raw_sel)
  qed
  have grid: "t_grid u = t_grid t1"
    using t1(2) by (auto simp: bind_eq_Some_conv mark_fully_damaged_def dest: queue_keeps_grid)
  have reset: "on_grid (Grid.scroll_up packed_cell_ops ?r 1) ?t = on_grid (reset_lines packed_cell_ops [snd ?r - 1]) t1"
    using t1(1) scroll_up_cleared [OF region, of packed_cell_ops "t_grid ?t"] by (auto simp: on_grid_def bind_eq_Some_conv)
  have edit: "on_grid (reset_lines packed_cell_ops [l]) v =
      map_option (\<lambda>s. put_raw s v) (storage_modify (row_reset packed_cell_ops (c_erase (t_cursor v))) l (raw (t_grid v)))" for l and v :: "'a terminal"
    by (cases "storage_modify (row_reset packed_cell_ops (c_erase (t_cursor v))) l (raw (t_grid v))")
      (simp_all add: on_grid_def reset_lines_def on_raw_def put_raw_def)
  have edit': "on_grid (modify_row (row_reset packed_cell_ops (c_erase (t_cursor v))) l) v =
      map_option (\<lambda>s. put_raw s v) (storage_modify (row_reset packed_cell_ops (c_erase (t_cursor v))) l (raw (t_grid v)))" for l and v :: "'a terminal"
    by (cases "storage_modify (row_reset packed_cell_ops (c_erase (t_cursor v))) l (raw (t_grid v))")
      (simp_all add: on_grid_def modify_row_def on_raw_def put_raw_def)
  show ?thesis
  proof (cases "storage_modify (row_reset packed_cell_ops (c_erase (t_cursor t1))) (snd ?r - 1) (raw (t_grid t1))")
    case None
    then show ?thesis using t1(3) by (simp add: split reset edit edit' [of u, unfolded grid] grid del: One_nat_def)
  next
    case (Some s)
    then have "len s = len (raw (t_grid t1))" by (auto simp: storage_modify_def bind_eq_Some_conv)
    from rest_raw [OF this] Some show ?thesis using t1(2,3) by (simp add: split reset edit edit' [of u, unfolded grid] grid del: One_nat_def)
  qed
qed

lemma on_grid_row:
  "on_grid (modify_row f l) v = map_option (\<lambda>s. put_raw s v) (storage_modify f l (raw (t_grid v)))"
  by (cases "storage_modify f l (raw (t_grid v))") (simp_all add: on_grid_def modify_row_def on_raw_def put_raw_def)

lemma wrap_finish_row:
  assumes "wrap_finish u = Some v"
  shows "Option.bind (on_grid (modify_row f l) u) wrap_finish = on_grid (modify_row f l) v"
    "c_erase (t_cursor v) = c_erase (t_cursor u)" "line (cursor_point v) = line (cursor_point u)"
proof -
  have raw: "raw (t_grid v) = raw (t_grid u)" by (rule put_raw_keeps [OF put_raw_finish assms])
  show "Option.bind (on_grid (modify_row f l) u) wrap_finish = on_grid (modify_row f l) v"
    using assms by (cases "storage_modify f l (raw (t_grid u))") (simp_all add: on_grid_row raw put_raw_finish)
  have "cursor (t_grid v) = (cursor (t_grid u))\<lparr>c_point := Point (line (cursor_point u)) 0, c_wrap := False\<rparr>"
    using assms by (auto simp: wrap_finish_def damage_cursor_def on_damage_def bind_eq_Some_conv set_wrap_def set_point_def at_cursor_def)
  then show "c_erase (t_cursor v) = c_erase (t_cursor u)" "line (cursor_point v) = line (cursor_point u)" by simp_all
qed

text \<open>A wrap that leaves the new line uncleared, and the wrap of a single character.\<close>

lemma wrap_recycled:
  assumes t: "term_ok W cols lines t" and wrap: "has_mode (t_mode t) LINE_WRAP"
    and t1: "wrapline_recycling E True t = Some (b, t1)"
  shows "wrapline E t = (if b
    then on_grid (modify_row (row_reset packed_cell_ops (c_erase (t_cursor t1))) (line (cursor_point t1))) t1 else Some t1)"
proof -
  obtain t0 where t0: "on_grid (modify_cursor_cell (\<lambda>c. insert_layout c WRAPLINE)) t = Some t0" "term_ok W cols lines t0"
    using modify_cursor_cell_ok [OF t tame_edits(2) [OF layout_ok_wide(3)]] by (auto simp: returns_iff)
  let ?r = "scroll_region t0"
  show ?thesis
  proof (cases "line (cursor_point t0) + 1 = snd ?r")
    case False
    then show ?thesis using wrapline_cases(2) [OF wrap t0(1) False, of E] t1 by (cases "wrapline E t") auto
  next
    case True
    note both = wrapline_cases(1) [OF wrap t0(1) True, of E]
    have "do { (b, u) \<leftarrow> scroll_up_relative_resetting E (fst ?r) 1 False t0; u \<leftarrow> wrap_finish u; Some (b, u) } = Some (b, t1)"
      using both t1 by simp
    then obtain u where u: "scroll_up_relative_resetting E (fst ?r) 1 False t0 = Some (b, u)" "wrap_finish u = Some t1"
      by (auto simp: bind_eq_Some_conv)
    note fin = wrap_finish_row [OF u(2)]
    show ?thesis
    proof (cases "fst ?r < snd ?r")
      case False
      then have "scroll_up_relative_resetting E (fst ?r) 1 True t0 = Some (b, u)" "\<not> b"
        using u(1) by (auto simp: scroll_up_relative_resetting_def Let_def split: prod.splits)
      then show ?thesis using both u(2) by simp
    next
      case less: True
      have "line (cursor_point u) = line (cursor_point t0)"
        using scroll_up_relative_resetting_ok [OF t0(2) order.refl term_region(2) [OF t0(2)], of E 1 False] u(1)
        by (simp add: same_view_def)
      then have line: "snd ?r - 1 = line (cursor_point t1)" using True fin(3) by simp
      from scroll_up_uncleared [OF term_region(1) [OF t0(2)] less u(1)] have b: b
        and up: "scroll_up_relative_resetting E (fst ?r) 1 True t0 =
          map_option (Pair False) (on_grid (modify_row (row_reset packed_cell_ops (c_erase (t_cursor u))) (snd ?r - 1)) u)"
        by simp_all
      have "wrapline E t = Option.bind (on_grid (modify_row (row_reset packed_cell_ops (c_erase (t_cursor u))) (snd ?r - 1)) u) wrap_finish"
        using conjunct2 [OF both] unfolding up
        by (cases "on_grid (modify_row (row_reset packed_cell_ops (c_erase (t_cursor u))) (snd ?r - 1)) u") simp_all
      also have "\<dots> = on_grid (modify_row (row_reset packed_cell_ops (c_erase (t_cursor t1))) (line (cursor_point t1))) t1"
        unfolding fin(1) fin(2) line ..
      finally show ?thesis using b by simp
    qed
  qed
qed

text \<open>The fill that clears the line, and the fill of a cleared line.\<close>

lemma fill_recycled:
  assumes t: "term_ok W cols lines t" and col: "column (cursor_point t) = 0" and count: "count \<le> cols"
    and v: "on_grid (modify_row (row_reset packed_cell_ops (c_erase (t_cursor t))) (line (cursor_point t))) t = Some v"
  shows "fill_row True count (\<lambda>fresh. ascii_writer fresh bytes style) t =
    fill_row False count (\<lambda>fresh. ascii_writer fresh bytes style) v"
proof -
  let ?e = "c_erase (t_cursor t)" and ?l = "line (cursor_point t)"
  let ?w = "row_write_prefix 0 count (ascii_writer False bytes style)"
  obtain r where r: "storage_get (raw (t_grid t)) ?l = Some r" "length (inner r) = cols"
      "row_fine (length (styles (t_styles t))) cols r" by (rule cursor_row [OF t])
  obtain s where s: "storage_modify (row_reset packed_cell_ops ?e) ?l (raw (t_grid t)) = Some s" "v = put_raw s t"
    using v by (auto simp: on_grid_row)
  have get: "storage_get s ?l = row_reset packed_cell_ops ?e r" using storage_modify_twice(2) [OF s(1)] r(1) by simp
  have "row_reset_with_prefix packed_cell_ops ?e count (ascii_writer True bytes style) r =
      Option.bind (row_reset packed_cell_ops ?e r) ?w"
    using r count by (intro reset_prefix_ascii) (simp_all add: row_fine_def)
  moreover have "storage_modify (\<lambda>_. Some r2) ?l s = storage_modify (\<lambda>_. Some r2) ?l (raw (t_grid t))"
    if "row_reset packed_cell_ops ?e r = Some r1" for r1 r2
  proof -
    have "storage_modify (\<lambda>_. Some r2) ?l s =
        storage_modify (\<lambda>r. Option.bind (row_reset packed_cell_ops ?e r) (\<lambda>_. Some r2)) ?l (raw (t_grid t))"
      by (rule storage_modify_twice(1) [OF s(1)])
    also have "\<dots> = storage_modify (\<lambda>_. Some r2) ?l (raw (t_grid t))"
      by (rule storage_modify_cong [OF r(1)]) (simp add: that)
    finally show ?thesis .
  qed
  ultimately show ?thesis
    using r(1) get col unfolding s(2)
    by (cases "row_reset packed_cell_ops ?e r"; cases "Option.bind (row_reset packed_cell_ops ?e r) ?w")
      (auto simp: fill_row_def edit_row_def Let_def on_raw_def put_raw_def modify_row_def split: prod.splits)
qed

section \<open>A run\<close>

lemma wrap_clears:
  assumes "has_mode (t_mode t) LINE_WRAP" "wrapline_recycling E recycle t = Some (b, t1)"
  shows "\<not> c_wrap (t_cursor t1)"
  using assms by (auto simp: wrapline_recycling_def Let_def bind_eq_Some_conv damage_cursor_def on_damage_def set_wrap_def
      at_cursor_def)

lemma input_after_wrap:
  assumes "unicode_width E c = Some n" "n \<noteq> 0" "c_wrap (t_cursor t)" "wrapline E t = Some v" "\<not> c_wrap (t_cursor v)"
  shows "input E c t = input E c v"
  using assms by (simp add: input_def)

text \<open>
  Before the first cell of a run: the terminal \<open>v\<close> a single character would be printed on, after the
  pending wrap. The fill of the run does on its own terminal what the fill of a row that is not recycled
  does on \<open>v\<close>.
\<close>

lemma run_start:
  assumes E: "env_ok E" and t: "term_ok W cols lines t" and plain: "plain_output t = Some True" and b: "printable b"
    and t1: "wrap_recycling E t = Some (recycled, t1)"
  obtains v where "term_ok W cols lines v" "same_but_cursor t v" "\<not> c_wrap (t_cursor v)"
    "input E (ucast b) t = input E (ucast b) v" "t_columns t1 = cols" "cursor_point t1 = cursor_point v"
    "\<And>count bytes style. count \<le> cols - column (cursor_point v) \<Longrightarrow>
      fill_row recycled count (\<lambda>fresh. ascii_writer fresh bytes style) t1 =
      fill_row False count (\<lambda>fresh. ascii_writer fresh bytes style) v"
proof (cases "c_wrap (t_cursor t)")
  case False
  then have "recycled = False" "t1 = t" using t1 by (simp_all add: wrap_recycling_def)
  then show thesis using that [of t] t term_dims(1) [OF t] False by simp
next
  case True
  have wrap: "has_mode (t_mode t) LINE_WRAP" using plain by (simp add: plain_output_iff)
  have rec: "wrapline_recycling E True t = Some (recycled, t1)" using t1 True by (simp add: wrap_recycling_def)
  have ok1: "term_ok W cols lines t1" "column (cursor_point t1) = 0"
    using wrapline_recycling_ok [OF t, of E True] rec wrap by simp_all
  let ?f = "row_reset packed_cell_ops (c_erase (t_cursor t1))"
  note reset = wrap_recycled [OF t wrap rec]
  obtain v where v: "wrapline E t = Some v" "term_ok W cols lines v" "same_but_cursor t v"
    using wrapline_keeps [OF t, of E] by (auto simp: returns_iff)
  have "(if recycled then on_grid (modify_row ?f (line (cursor_point t1))) t1 else Some t1) = Some v" using reset v(1) by simp
  then have same: "cursor (t_grid v) = cursor (t_grid t1)" by (auto simp: on_grid_row split: if_splits)
  have "\<not> c_wrap (t_cursor v)" using wrap_clears [OF wrap rec] same by simp
  moreover have "unicode_width E (ucast b) = Some 1" using E printable_char [OF b] by (simp add: env_ok_def)
  then have "input E (ucast b) t = input E (ucast b) v"
    by (rule input_after_wrap [OF _ _ True v(1) calculation]) simp
  moreover have "fill_row recycled count (\<lambda>fresh. ascii_writer fresh bytes style) t1 =
      fill_row False count (\<lambda>fresh. ascii_writer fresh bytes style) v"
    if "count \<le> cols - column (cursor_point v)" for count bytes and style :: style_id
  proof (cases recycled)
    case False
    then show ?thesis using reset v(1) by simp
  next
    case True
    then have "on_grid (modify_row ?f (line (cursor_point t1))) t1 = Some v" using reset v(1) by simp
    from fill_recycled [OF ok1 _ this] show ?thesis using True that by simp
  qed
  ultimately show thesis using that [OF v(2,3)] same term_dims(1) [OF ok1(1)] by simp
qed

text \<open>The loop of the run prints its bytes one by one.\<close>

lemma ascii_loop_inputs:
  assumes E: "env_ok E"
  shows "term_ok W cols lines t \<Longrightarrow> plain_output t = Some True \<Longrightarrow> style = template_style_id t \<Longrightarrow>
    ascii_loop E style bytes t = for_each (\<lambda>b. input E (ucast b)) bytes t"
proof (induction "length bytes" arbitrary: bytes t rule: less_induct)
  case less
  note t = less.prems(1) and plain = less.prems(2) and style = less.prems(3)
  show ?case
  proof (cases bytes)
    case Nil
    then show ?thesis by (simp add: ascii_loop.simps)
  next
    case (Cons b bs)
    have rest: "ascii_loop E style bytes' t' = for_each (\<lambda>b. input E (ucast b)) bytes' t'"
      if "length bytes' < length bytes" "term_ok W cols lines t'" "same_but_cursor t t'" for bytes' t'
      by (rule less.hyps [OF that(1,2)])
        (use plain style plain_output_same [OF that(3)] that(3) in \<open>simp_all add: same_but_cursor_def\<close>)
    have one: "do { t \<leftarrow> input E (ucast b) t'; ascii_loop E style bs t } = for_each (\<lambda>b. input E (ucast b)) bytes t'"
      if t': "term_ok W cols lines t'" "same_but_cursor t t'" for t'
    proof -
      obtain t'' where "input E (ucast b) t' = Some t''" "term_ok W cols lines t''" "same_but_cursor t' t''"
        using input_ok [OF E t'(1) is_scalar_byte [of b]] by (auto simp: returns_iff)
      then show ?thesis using rest [of bs t''] same_but_cursor_trans [OF t'(2)] Cons by simp
    qed
    show ?thesis
    proof (cases "printable b")
      case False
      then show ?thesis using Cons one [OF t same_but_cursor_refl] by (simp add: ascii_loop.simps [of E style "b # bs"])
    next
      case True
      obtain recycled t1 where t1: "wrap_recycling E t = Some (recycled, t1)"
        using wrap_recycling_ok [OF t, of E] by (auto simp: returns_iff)
      obtain v where v: "term_ok W cols lines v" "same_but_cursor t v" "\<not> c_wrap (t_cursor v)"
        and first: "input E (ucast b) t = input E (ucast b) v"
        and dims: "t_columns t1 = cols" "cursor_point t1 = cursor_point v"
        and fill: "\<And>count bytes style. count \<le> cols - column (cursor_point v) \<Longrightarrow>
          fill_row recycled count (\<lambda>fresh. ascii_writer fresh bytes style) t1 =
          fill_row False count (\<lambda>fresh. ascii_writer fresh bytes style) v"
        by (rule run_start [OF E t plain True t1]) (rule that)
      have style': "style = template_style_id v" using style v(2) by (simp add: same_but_cursor_def)
      have plain': "plain_output v = Some True" using plain plain_output_same [OF v(2)] by simp
      obtain r where r: "storage_get (raw (t_grid v)) (line (cursor_point v)) = Some r" by (rule cursor_row [OF v(1)])
      let ?p = "cursor_point v"
      let ?count = "min (cols - column ?p) (length bytes)"
      let ?k = "ascii_run False (take ?count (drop (column ?p) (inner r))) bytes"
      let ?put = "on_grid (modify_row (\<lambda>r. Some (row_put (column ?p)
        (map (\<lambda>b. cell_write (ucast b) style 0) (take ?k bytes)) r)) (line ?p)) v"
      have le: "column ?p + ?count \<le> cols" using term_cursor(4) [OF v(1)] by simp
      have k: "?k \<le> length bytes" using ascii_run_le [of False "take ?count (drop (column ?p) (inner r))" bytes] by simp
      have loop: "ascii_loop E style bytes t = Option.bind ?put (\<lambda>t2. if ?k = 0
          then do { t \<leftarrow> input E (ucast b) t2; ascii_loop E style bs t }
          else ascii_loop E style (drop ?k bytes) (after_fill ?k t2))"
        using True t1 dims fill [of ?count bytes style] fill_row_put [OF v(1) r le refl, of bytes style]
        by (cases ?put) (simp_all add: Cons ascii_loop.simps [of E style "b # bs"] Let_def)
      have same: "for_each (\<lambda>b. input E (ucast b)) bytes t = for_each (\<lambda>b. input E (ucast b)) bytes v"
        using first by (simp add: Cons)
      have inputs: "for_each (\<lambda>b. input E (ucast b)) (take ?k bytes) v = map_option (after_fill ?k) ?put"
        using inputs_put [OF E v(1) plain' v(3) r le order.refl, of bytes] k
        unfolding put_run_def style' by simp
      show ?thesis
      proof (cases ?put)
        case None
        then show ?thesis using loop same inputs for_each_append [of _ "take ?k bytes" "drop ?k bytes" v] by simp
      next
        case (Some t2)
        show ?thesis
        proof (cases "?k = 0")
          case k0: True
          then have "t2 = v" using Some modify_row_id [OF r] by (simp add: on_grid_def)
          then show ?thesis using loop Some k0 one [OF v(1,2)] same by simp
        next
          case False
          have "list_all is_scalar (map ucast (take ?k bytes))" by (simp add: list_all_iff is_scalar_byte)
          from for_each_input_ok [OF E v(1) this] have after: "term_ok W cols lines (after_fill ?k t2)"
            "same_but_cursor v (after_fill ?k t2)" using inputs Some by (simp_all add: for_each_map)
          have "ascii_loop E style (drop ?k bytes) (after_fill ?k t2) =
              for_each (\<lambda>b. input E (ucast b)) (drop ?k bytes) (after_fill ?k t2)"
            by (rule rest [OF _ after(1) same_but_cursor_trans [OF v(2) after(2)]]) (use False k Cons in simp)
          also have "\<dots> = for_each (\<lambda>b. input E (ucast b)) bytes v"
            using inputs Some for_each_append [of "\<lambda>b. input E (ucast b)" "take ?k bytes" "drop ?k bytes" v] by simp
          finally show ?thesis using loop Some False same by simp
        qed
      qed
    qed
  qed
qed

lemma write_ascii_inputs:
  assumes E: "env_ok E" and t: "term_ok W cols lines t"
  shows "write_ascii_run E bytes t = for_each (\<lambda>b. input E (ucast b)) bytes t"
proof -
  obtain b where b: "plain_output t = Some b" using plain_output_ok [OF t] .
  then show ?thesis using ascii_loop_inputs [OF E t _ refl] by (cases b) (simp_all add: write_ascii_run_def)
qed

lemma repeat_ascii_inputs:
  assumes E: "env_ok E"
  shows "term_ok W cols lines t \<Longrightarrow> in_chunks CHUNK (\<lambda>n. write_ascii_run E (replicate n b)) count t =
    for_each (\<lambda>b. input E (ucast b)) (replicate count b) t"
proof (induction count arbitrary: t rule: less_induct)
  case (less count)
  note t = less.prems
  let ?n = "min count CHUNK"
  show ?case
  proof (cases "count = 0")
    case True
    then show ?thesis by (simp add: in_chunks.simps)
  next
    case False
    have chunk: "0 < ?n" using False by (simp add: CHUNK_def)
    have "list_all is_scalar (map ucast (replicate ?n b))" by (simp add: list_all_iff is_scalar_byte)
    then obtain t1 where t1: "for_each (\<lambda>b. input E (ucast b)) (replicate ?n b) t = Some t1" "term_ok W cols lines t1"
      using for_each_input_ok [OF E t, of "map ucast (replicate ?n b)"] by (auto simp: returns_iff for_each_map simp del: map_replicate)
    have "replicate count b = replicate ?n b @ replicate (count - ?n) b" by (simp flip: replicate_add)
    then have "for_each (\<lambda>b. input E (ucast b)) (replicate count b) t =
        for_each (\<lambda>b. input E (ucast b)) (replicate (count - ?n) b) t1" using t1(1) by (simp add: for_each_append)
    also have "\<dots> = in_chunks CHUNK (\<lambda>n. write_ascii_run E (replicate n b)) (count - ?n) t1"
      by (rule less.IH [OF _ t1(2), symmetric]) (use False chunk in simp)
    finally show ?thesis
      using False t1(1) write_ascii_inputs [OF E t] by (simp add: in_chunks.simps [of CHUNK _ count])
  qed
qed

text \<open>
  C4. Printing a run of ASCII text is printing its characters one after the other: the run
  writer, which fills a row at a time and clears a line recycled by a scrolling wrap only while
  it writes over it, returns the same terminal, as does repeating a printable ASCII character.
\<close>

theorem ascii_printed_one_by_one:
  assumes "env_ok E" "term_ok W cols lines t"
  shows "(list_all (\<lambda>b. b < 0x80) bytes \<longrightarrow> input_str E bytes t = for_each (\<lambda>b. input E (ucast b)) bytes t) \<and>
    (0x20 \<le> c \<and> c \<le> 0x7E \<longrightarrow> repeat_char E c count t = for_each (input E) (replicate count c) t)"
proof (intro conjI impI)
  show "input_str E bytes t = for_each (\<lambda>b. input E (ucast b)) bytes t" if "list_all (\<lambda>b. b < 0x80) bytes"
  proof (cases "length bytes = 1")
    case True
    then obtain b where "bytes = [b]" by (cases bytes) auto
    then show ?thesis by (simp add: input_str_def)
  next
    case False
    then show ?thesis using that write_ascii_inputs [OF assms] by (simp add: input_str_def)
  qed
  show "repeat_char E c count t = for_each (input E) (replicate count c) t" if c: "0x20 \<le> c \<and> c \<le> 0x7E"
  proof -
    have "unat c < 2 ^ 8" using c by (simp add: word_le_nat_alt)
    then have "unat (ucast (ucast c :: byte) :: uchar) = unat c" by (simp add: unsigned_ucast_eq unsigned_take_bit_eq take_bit_nat_eq_self)
    then have "ucast (ucast c :: byte) = c" by (simp only: word_unat_eq_iff)
    then have "for_each (\<lambda>b. input E (ucast b)) (replicate count (ucast c :: byte)) t = for_each (input E) (replicate count c) t"
      using for_each_map [of "input E" ucast "replicate count (ucast c :: byte)" t] by simp
    then show ?thesis using c repeat_ascii_inputs [OF assms] by (simp add: repeat_char_def)
  qed
qed

theorem ascii_printed_one_by_one_witness:
  "\<exists>t. term_new sample_env sample_config 24 80 None = Some t \<and>
    input_str sample_env (ascii ''hello'') t = for_each (\<lambda>b. input sample_env (ucast b)) (ascii ''hello'') t \<and>
    repeat_char sample_env 0x2D 300 t = for_each (input sample_env) (replicate 300 0x2D) t"
proof -
  obtain t where t: "term_new sample_env sample_config 24 80 None = Some t" "term_ok {} 80 24 t"
    using term_new_ok [OF sample_size_ok, of sample_env sample_config] by (auto simp: returns_iff)
  have "list_all (\<lambda>b. b < 0x80) (ascii ''hello'')" by code_simp
  then show ?thesis using t(1) ascii_printed_one_by_one [OF sample_env_ok t(2)] by auto
qed

end
