(* ===== verification/Osc.thy ===== *)
theory Osc
  imports Utf Dcs
begin

text \<open>
  Operating system commands the escape parser does not act on, \<open>src/osc_notification.rs\<close>: the scanner
  that captures their bodies from the output of the shell, and the parsers of working directories
  (OSC 7), progress and notifications (OSC 9, OSC 99) and shell markers (OSC 133).

  A \<open>String\<close> is the list of its bytes. None of these functions panics but the loop of \<open>advance\<close>, whose
  index a search gives; elsewhere \<open>None\<close> is the source's own \<open>None\<close>.
\<close>

section \<open>Messages\<close>

datatype progress_state = RemoveProgress | NormalProgress | ErrorProgress | Indeterminate | Paused

record progress_report =
  report_state :: progress_state
  report_percent :: "nat option"

datatype shell_marker = PromptStart | InputStart | CommandOutputStart | CommandFinished "int option"

record osc_directory =
  dir_host :: "byte list"
  dir_path :: "byte list"

datatype occasion = Always | Unfocused | Invisible

datatype urgency = LowUrgency | NormalUrgency | Critical

datatype expiry = DefaultExpiry | NeverExpires | Milliseconds nat

datatype sound = SystemSound | Silent

datatype osc_payload = TitleText "byte list" | BodyText "byte list" | CloseNotice | QueryNotice | UnsupportedPayload

record kitty_notice =
  kn_id :: "byte list option"
  kn_payload :: osc_payload
  kn_done :: bool
  kn_focus :: "bool option"
  kn_occasion :: "occasion option"
  kn_urgency :: "urgency option"
  kn_expiry :: "expiry option"
  kn_sound :: "sound option"

datatype osc_notification = LegacyNotice "byte list" | KittyNotice kitty_notice

datatype osc_message = NotificationMessage osc_notification | DirectoryMessage osc_directory
  | ShellMessage shell_marker | ProgressMessage progress_report

definition MAX_OSC_BYTES :: nat where "MAX_OSC_BYTES = 8 * 1024"
definition MAX_PLAIN_PAYLOAD_BYTES :: nat where "MAX_PLAIN_PAYLOAD_BYTES = 2 * 1024"
definition MAX_ENCODED_PAYLOAD_BYTES :: nat where "MAX_ENCODED_PAYLOAD_BYTES = 4 * 1024"
definition MAX_IDENTIFIER_BYTES :: nat where "MAX_IDENTIFIER_BYTES = 128"

text \<open>
  The crates: the parser \<open>vvte\<close> (a new parser, and what \<open>advance\<close> reports by \<open>osc_dispatch\<close>, a list of
  parameters for each call), \<open>percent_encoding\<close>, the two engines of \<open>base64\<close>, and \<open>memchr\<close>.
\<close>

record 'v osc_crates =
  vvte_default :: 'v
  vvte_advance :: "'v \<Rightarrow> byte list \<Rightarrow> byte list list list \<times> 'v"
  percent_decode :: "byte list \<Rightarrow> byte list"
  base64_std :: "byte list \<Rightarrow> byte list option"
  base64_no_pad :: "byte list \<Rightarrow> byte list option"
  osc_memchr :: "byte \<Rightarrow> byte list \<Rightarrow> nat option"
  osc_memchr2 :: "byte \<Rightarrow> byte \<Rightarrow> byte list \<Rightarrow> nat option"

section \<open>Parsers\<close>

text \<open>The text before the first separator, and the text after it.\<close>

definition cut_at :: "byte \<Rightarrow> byte list \<Rightarrow> (byte list \<times> byte list) option" where
  "cut_at b xs = map_option (\<lambda>i. (take i xs, drop (i + 1) xs)) (first_byte b xs)"

definition is_control :: "uchar \<Rightarrow> bool" where
  "is_control c \<longleftrightarrow> c \<le> 0x1F \<or> 0x7F \<le> c \<and> c \<le> 0x9F"

definition is_escape_safe :: "byte list \<Rightarrow> bool" where
  "is_escape_safe v = (case from_utf8 v of Some cs \<Rightarrow> \<not> list_ex is_control cs | None \<Rightarrow> False)"

definition is_alpha :: "byte \<Rightarrow> bool" where
  "is_alpha b \<longleftrightarrow> 0x41 \<le> b \<and> b \<le> 0x5A \<or> 0x61 \<le> b \<and> b \<le> 0x7A"

definition decode_base64 :: "'v osc_crates \<Rightarrow> byte list \<Rightarrow> byte list option" where
  "decode_base64 E encoded = (case base64_std E encoded of Some d \<Rightarrow> Some d | None \<Rightarrow> base64_no_pad E encoded)"

definition decode_payload :: "'v osc_crates \<Rightarrow> byte list \<Rightarrow> bool \<Rightarrow> byte list option" where
  "decode_payload E payload encoded =
     do { decoded \<leftarrow>
            (if encoded
             then if MAX_ENCODED_PAYLOAD_BYTES < length payload then None else decode_base64 E payload
             else if MAX_PLAIN_PAYLOAD_BYTES < length payload \<or> \<not> is_escape_safe payload then None
             else Some payload);
          if MAX_PLAIN_PAYLOAD_BYTES < length decoded then None
          else do { cs \<leftarrow> from_utf8 decoded; if list_ex is_control cs then None else Some decoded } }"

definition valid_metadata_value :: "byte list \<Rightarrow> bool" where
  "valid_metadata_value v =
     list_all (\<lambda>b. is_alpha b \<or> is_digit b \<or> b \<in> set (ascii ''-_/+.,(){}[]*&^%$#@!`~?='')) v"

definition parse_identifier :: "byte list \<Rightarrow> byte list option" where
  "parse_identifier v =
     (if v = [] \<or> MAX_IDENTIFIER_BYTES < length v \<or>
         \<not> list_all (\<lambda>b. is_alpha b \<or> is_digit b \<or> b \<in> set (ascii ''_-+.'')) v
      then None else map_option (\<lambda>_. v) (from_utf8 v))"

definition parse_bool :: "byte list \<Rightarrow> bool option" where
  "parse_bool v = (if v = ascii ''0'' then Some False else if v = ascii ''1'' then Some True else None)"

definition parse_legacy :: "byte list \<Rightarrow> byte list option" where
  "parse_legacy msg =
     (if MAX_PLAIN_PAYLOAD_BYTES < length msg \<or> \<not> is_escape_safe msg then None
      else case first_byte 0x3B msg of
          Some i \<Rightarrow> if take i msg \<noteq> [] \<and> list_all is_digit (take i msg) then None else map_option (\<lambda>_. msg) (from_utf8 msg)
        | None \<Rightarrow> map_option (\<lambda>_. msg) (from_utf8 msg))"

definition parse_directory :: "'v osc_crates \<Rightarrow> byte list \<Rightarrow> osc_directory option" where
  "parse_directory E url =
     (if \<not> is_escape_safe url then None
      else do {
        rest \<leftarrow> strip_prefix (ascii ''file://'') url;
        i \<leftarrow> first_byte 0x2F rest;
        host \<leftarrow> map_option (\<lambda>_. take i rest) (from_utf8 (take i rest));
        encoded \<leftarrow> map_option (\<lambda>_. drop i rest) (from_utf8 (drop i rest));
        cs \<leftarrow> from_utf8 (percent_decode E encoded);
        if list_ex is_control cs then None
        else Some \<lparr>dir_host = host, dir_path = percent_decode E encoded\<rparr> })"

definition progress_state_of :: "byte list \<Rightarrow> progress_state option" where
  "progress_state_of f =
     (if f = ascii ''0'' then Some RemoveProgress else if f = ascii ''1'' then Some NormalProgress
      else if f = ascii ''2'' then Some ErrorProgress else if f = ascii ''3'' then Some Indeterminate
      else if f = ascii ''4'' then Some Paused else None)"

definition parse_progress :: "byte list \<Rightarrow> progress_report option" where
  "parse_progress report =
     (case split_on 0x3B report of [] \<Rightarrow> None
      | f # fs \<Rightarrow> do {
          state \<leftarrow> progress_state_of f;
          percent \<leftarrow>
            (case fs of [] \<Rightarrow> Some None
             | p # _ \<Rightarrow>
               if p = [] then Some None
               else if length p \<le> 10 \<and> list_all is_digit p
               then do { _ \<leftarrow> from_utf8 p; v \<leftarrow> parse_int 0 (2 ^ 64 - 1) p; Some (Some (nat (min v 100))) }
               else None);
          Some \<lparr>report_state = state, report_percent = percent\<rparr> })"

definition parse_shell :: "byte list \<Rightarrow> shell_marker option" where
  "parse_shell marker =
     (let (kind, payload) = (case cut_at 0x3B marker of Some (k, p) \<Rightarrow> (k, Some p) | None \<Rightarrow> (marker, None))
      in if kind \<in> {ascii ''A'', ascii ''N'', ascii ''P''} then Some PromptStart
         else if kind \<in> {ascii ''B'', ascii ''I''} then Some InputStart
         else if kind = ascii ''C'' then Some CommandOutputStart
         else if kind = ascii ''D'' then
           (let field = Option.bind payload (\<lambda>p. case split_on 0x3B p of f # _ \<Rightarrow> Some f | [] \<Rightarrow> None)
            in case field of None \<Rightarrow> Some (CommandFinished None)
             | Some f \<Rightarrow>
               if f = [] \<or> 0x3D \<in> set f then Some (CommandFinished None)
               else do { _ \<leftarrow> from_utf8 f; v \<leftarrow> parse_int (- (2 ^ 31)) (2 ^ 31 - 1) f; Some (CommandFinished (Some v)) })
         else None)"

text \<open>OSC 99: a list of fields \<open>key=value\<close>, separated by colons.\<close>

record kitty_fields =
  kf_id :: "byte list option"
  kf_type :: "byte list"
  kf_done :: bool
  kf_encoded :: bool
  kf_focus :: "bool option"
  kf_occasion :: "occasion option"
  kf_urgency :: "urgency option"
  kf_expiry :: "expiry option"
  kf_sound :: "sound option"

definition kitty_fields_default :: kitty_fields where
  "kitty_fields_default = \<lparr>kf_id = None, kf_type = ascii ''title'', kf_done = True, kf_encoded = False, kf_focus = None,
     kf_occasion = None, kf_urgency = None, kf_expiry = None, kf_sound = None\<rparr>"

definition focus_of :: "byte list \<Rightarrow> bool" where
  "focus_of v = fold (\<lambda>action focus. if action = ascii ''focus'' then True
     else if action = ascii ''-focus'' then False else focus) (split_on 0x2C v) True"

definition occasion_of :: "byte list \<Rightarrow> occasion option" where
  "occasion_of v = (if v = ascii ''always'' then Some Always else if v = ascii ''unfocused'' then Some Unfocused
     else if v = ascii ''invisible'' then Some Invisible else None)"

definition urgency_of :: "byte list \<Rightarrow> urgency option" where
  "urgency_of v = (if v = ascii ''0'' then Some LowUrgency else if v = ascii ''1'' then Some NormalUrgency
     else if v = ascii ''2'' then Some Critical else None)"

definition expiry_of :: "byte list \<Rightarrow> expiry option" where
  "expiry_of v =
     do { _ \<leftarrow> from_utf8 v;
          n \<leftarrow> parse_int (- (2 ^ 63)) (2 ^ 63 - 1) v;
          if n = -1 then Some DefaultExpiry else if n = 0 then Some NeverExpires
          else if 1 \<le> n \<and> n \<le> 2 ^ 31 - 1 then Some (Milliseconds (nat n)) else None }"

definition sound_of :: "byte list \<Rightarrow> sound" where
  "sound_of decoded = (if decoded = ascii ''system'' then SystemSound else if decoded = ascii ''silent'' then Silent
     else SystemSound)"

definition kitty_field :: "'v osc_crates \<Rightarrow> byte list \<Rightarrow> kitty_fields \<Rightarrow> kitty_fields option" where
  "kitty_field E field k =
     do { (key, v) \<leftarrow> cut_at 0x3D field;
          if length key \<noteq> 1 \<or> \<not> is_alpha (hd key) \<or> \<not> valid_metadata_value v then None
          else if key = ascii ''i'' then do { i \<leftarrow> parse_identifier v; Some (k\<lparr>kf_id := Some i\<rparr>) }
          else if key = ascii ''p'' then Some (k\<lparr>kf_type := v\<rparr>)
          else if key = ascii ''d'' then do { b \<leftarrow> parse_bool v; Some (k\<lparr>kf_done := b\<rparr>) }
          else if key = ascii ''e'' then do { b \<leftarrow> parse_bool v; Some (k\<lparr>kf_encoded := b\<rparr>) }
          else if key = ascii ''a'' then Some (k\<lparr>kf_focus := Some (focus_of v)\<rparr>)
          else if key = ascii ''o'' then do { x \<leftarrow> occasion_of v; Some (k\<lparr>kf_occasion := Some x\<rparr>) }
          else if key = ascii ''u'' then do { x \<leftarrow> urgency_of v; Some (k\<lparr>kf_urgency := Some x\<rparr>) }
          else if key = ascii ''w'' then do { x \<leftarrow> expiry_of v; Some (k\<lparr>kf_expiry := Some x\<rparr>) }
          else if key = ascii ''s'' then do { d \<leftarrow> decode_base64 E v; Some (k\<lparr>kf_sound := Some (sound_of d)\<rparr>) }
          else Some k }"

definition parse_kitty :: "'v osc_crates \<Rightarrow> byte list \<Rightarrow> byte list \<Rightarrow> kitty_notice option" where
  "parse_kitty E metadata payload =
     do { k \<leftarrow> for_each (kitty_field E) (filter (\<lambda>f. f \<noteq> []) (split_on 0x3A metadata)) kitty_fields_default;
          payload \<leftarrow>
            (if kf_type k = ascii ''close'' then Some CloseNotice
             else if kf_type k = ascii ''?'' then Some QueryNotice
             else if kf_type k = ascii ''title'' \<or> kf_type k = ascii ''body''
             then do { t \<leftarrow> decode_payload E payload (kf_encoded k);
                       Some (if kf_type k = ascii ''title'' then TitleText t else BodyText t) }
             else Some UnsupportedPayload);
          Some \<lparr>kn_id = kf_id k, kn_payload = payload, kn_done = kf_done k, kn_focus = kf_focus k,
            kn_occasion = kf_occasion k, kn_urgency = kf_urgency k, kn_expiry = kf_expiry k, kn_sound = kf_sound k\<rparr> }"

definition parse_osc :: "'v osc_crates \<Rightarrow> byte list \<Rightarrow> osc_message option" where
  "parse_osc E raw =
     (case strip_prefix (ascii ''7;'') raw of
        Some url \<Rightarrow> map_option DirectoryMessage (parse_directory E url)
      | None \<Rightarrow> case strip_prefix (ascii ''9;4;'') raw of
          Some report \<Rightarrow> map_option ProgressMessage (parse_progress report)
        | None \<Rightarrow> case strip_prefix (ascii ''9;'') raw of
            Some msg \<Rightarrow> map_option (NotificationMessage \<circ> LegacyNotice) (parse_legacy msg)
          | None \<Rightarrow> case strip_prefix (ascii ''133;'') raw of
              Some marker \<Rightarrow> map_option ShellMessage (parse_shell marker)
            | None \<Rightarrow> do {
                rest \<leftarrow> strip_prefix (ascii ''99;'') raw;
                (metadata, payload) \<leftarrow> cut_at 0x3B rest;
                map_option (NotificationMessage \<circ> KittyNotice) (parse_kitty E metadata payload) })"

section \<open>Capturing\<close>

datatype capture_state = CaptureGround | CaptureEscape | OtherString bool
  | OscString (raw_of: "byte list") (escape_of: bool) (discarding: bool)

datatype observation = NoObservation | Complete "byte list option"

text \<open>Whether a body can still be one that is captured.\<close>

definition may_be_captured :: "byte list \<Rightarrow> bool" where
  "may_be_captured prefix =
     list_ex (\<lambda>candidate. let shared = min (length prefix) (length candidate) in take shared prefix = take shared candidate)
       [ascii ''7;'', ascii ''9;'', ascii ''99;'', ascii ''133;'']"

definition capture_advance :: "capture_state \<Rightarrow> byte \<Rightarrow> capture_state \<times> observation" where
  "capture_advance s b =
     (case s of
        CaptureGround \<Rightarrow> (if b = 0x1B then CaptureEscape else CaptureGround, NoObservation)
      | CaptureEscape \<Rightarrow>
          (if b = 0x5D then OscString [] False False
           else if b \<in> {0x50, 0x5F, 0x5E, 0x58} then OtherString False
           else if b = 0x1B then CaptureEscape else CaptureGround, NoObservation)
      | OtherString esc \<Rightarrow>
          if esc \<and> b = 0x5C then (CaptureGround, Complete None) else (OtherString (b = 0x1B), NoObservation)
      | OscString raw esc discard \<Rightarrow>
          if b = 0x07 \<or> esc \<and> b = 0x5C then (CaptureGround, Complete (if discard then None else Some raw))
          else if discard then (OscString raw (b = 0x1B) True, NoObservation)
          else (let raw = (if esc then raw @ [0x1B] else raw);
                    raw = (if b \<noteq> 0x1B then raw @ [b] else raw)
                in if MAX_OSC_BYTES < length raw \<or> \<not> may_be_captured raw then (OscString [] (b = 0x1B) True, NoObservation)
                   else (OscString raw (b = 0x1B) False, NoObservation)))"

text \<open>The last call of \<open>osc_dispatch\<close> decides whether the body is an OSC at the top level.\<close>

definition osc_dispatch :: "byte list list \<Rightarrow> bool" where
  "osc_dispatch params =
     (case params of [] \<Rightarrow> False | p # _ \<Rightarrow> p \<in> {ascii ''7'', ascii ''9'', ascii ''99'', ascii ''133''})"

definition is_top_level_notification :: "'v osc_crates \<Rightarrow> byte list \<Rightarrow> bool" where
  "is_top_level_notification E raw =
     (let (calls1, p) = vvte_advance E (vvte_default E) [0x1B, 0x5D];
          (calls2, p) = vvte_advance E p raw;
          (calls3, p) = vvte_advance E p [0x07]
      in fold (\<lambda>params _. osc_dispatch params) (calls1 @ calls2 @ calls3) False)"

definition osc_report :: "'v osc_crates \<Rightarrow> observation \<Rightarrow> osc_message list" where
  "osc_report E obs =
     (case obs of
        Complete (Some raw) \<Rightarrow>
          if is_top_level_notification E raw then case parse_osc E raw of Some m \<Rightarrow> [m] | None \<Rightarrow> [] else []
      | _ \<Rightarrow> [])"

definition osc_next :: "'v osc_crates \<Rightarrow> capture_state \<Rightarrow> byte list \<Rightarrow> nat option" where
  "osc_next E s rest =
     (case s of
        CaptureGround \<Rightarrow> osc_memchr E 0x1B rest
      | OtherString False \<Rightarrow> osc_memchr E 0x1B rest
      | OscString _ False True \<Rightarrow> osc_memchr2 E 0x07 0x1B rest
      | _ \<Rightarrow> Some 0)"

partial_function (option) osc_advance ::
  "'v osc_crates \<Rightarrow> capture_state \<Rightarrow> byte list \<Rightarrow> (capture_state \<times> osc_message list) option" where
  "osc_advance E s rest =
     (if rest = [] then Some (s, [])
      else case osc_next E s rest of None \<Rightarrow> Some (s, [])
      | Some i \<Rightarrow> do {
          b \<leftarrow> idx rest i;
          let (s, obs) = capture_advance s b;
          (s, ms) \<leftarrow> osc_advance E s (drop (i + 1) rest);
          Some (s, osc_report E obs @ ms) })"

definition has_pending_osc :: "capture_state \<Rightarrow> bool" where
  "has_pending_osc s = (case s of OscString _ _ _ \<Rightarrow> True | _ \<Rightarrow> False)"

section \<open>Every byte is looked at\<close>

text \<open>The same scanner without the searches.\<close>

fun osc_bytes :: "'v osc_crates \<Rightarrow> capture_state \<Rightarrow> byte list \<Rightarrow> capture_state \<times> osc_message list" where
  "osc_bytes E s [] = (s, [])"
| "osc_bytes E s (b # bs) =
     (let (s1, obs) = capture_advance s b; (s2, ms) = osc_bytes E s1 bs in (s2, osc_report E obs @ ms))"

text \<open>What is documented of the searches.\<close>

definition search_ok :: "'v osc_crates \<Rightarrow> bool" where
  "search_ok E \<longleftrightarrow>
     (\<forall>b xs. osc_memchr E b xs = (if b \<in> set xs then Some (length (takeWhile (\<lambda>x. x \<noteq> b) xs)) else None)) \<and>
     (\<forall>a b xs. osc_memchr2 E a b xs =
        (if a \<in> set xs \<or> b \<in> set xs then Some (length (takeWhile (\<lambda>x. x \<noteq> a \<and> x \<noteq> b) xs)) else None))"

lemma osc_bytes_append:
  "osc_bytes E s (xs @ ys) =
    (let (s1, ms1) = osc_bytes E s xs; (s2, ms2) = osc_bytes E s1 ys in (s2, ms1 @ ms2))"
  by (induction E s xs rule: osc_bytes.induct) (auto simp: Let_def split: prod.splits)

text \<open>Bytes that leave a state as it is.\<close>

lemma osc_bytes_inert:
  "\<forall>b \<in> set xs. capture_advance s b = (s, NoObservation) \<Longrightarrow> osc_bytes E s xs = (s, [])"
  by (induction xs) (simp_all add: osc_report_def)

lemma capture_inert:
  "b \<noteq> 0x1B \<Longrightarrow> capture_advance CaptureGround b = (CaptureGround, NoObservation)"
  "b \<noteq> 0x1B \<Longrightarrow> capture_advance (OtherString False) b = (OtherString False, NoObservation)"
  "b \<noteq> 0x1B \<Longrightarrow> b \<noteq> 0x07 \<Longrightarrow> capture_advance (OscString raw False True) b = (OscString raw False True, NoObservation)"
  by (simp_all add: capture_advance_def)

lemma osc_next_skips:
  assumes E: "search_ok E" and "rest \<noteq> []"
  shows "case osc_next E s rest of
      None \<Rightarrow> \<forall>b \<in> set rest. capture_advance s b = (s, NoObservation)
    | Some i \<Rightarrow> i < length rest \<and> (\<forall>b \<in> set (take i rest). capture_advance s b = (s, NoObservation))"
proof -
  have search: "osc_memchr E b rest = (if b \<in> set rest then Some (length (takeWhile (\<lambda>x. x \<noteq> b) rest)) else None)"
    "osc_memchr2 E a b rest =
      (if a \<in> set rest \<or> b \<in> set rest then Some (length (takeWhile (\<lambda>x. x \<noteq> a \<and> x \<noteq> b) rest)) else None)" for a b
    using E unfolding search_ok_def by blast+
  have less: "length (takeWhile P rest) < length rest" if "b \<in> set rest" "\<not> P b" for P b
    using that by (metis length_takeWhile_le nless_le takeWhile_eq_all_conv takeWhile_eq_take take_all_iff linorder_not_less)
  have pre: "take (length (takeWhile P rest)) rest = takeWhile P rest" for P by (rule takeWhile_eq_take [symmetric])
  show ?thesis
  proof (cases s)
    case CaptureGround
    then show ?thesis using less [of "0x1B" "\<lambda>x. x \<noteq> 0x1B"]
      by (auto simp: osc_next_def search pre intro!: capture_inert dest!: set_takeWhileD)
  next
    case CaptureEscape
    then show ?thesis using assms(2) by (simp add: osc_next_def)
  next
    case (OtherString esc)
    then show ?thesis using less [of "0x1B" "\<lambda>x. x \<noteq> 0x1B"] assms(2)
      by (cases esc) (auto simp: osc_next_def search pre intro!: capture_inert dest!: set_takeWhileD)
  next
    case (OscString raw esc discard)
    have find: "length (takeWhile (\<lambda>x. x \<noteq> 0x07 \<and> x \<noteq> 0x1B) rest) < length rest" if "0x07 \<in> set rest \<or> 0x1B \<in> set rest"
      using that less by (metis (mono_tags, lifting))
    show ?thesis
    proof (cases "\<not> esc \<and> discard")
      case True
      then have s: "s = OscString raw False True" using OscString by simp
      show ?thesis
      proof (cases "0x07 \<in> set rest \<or> 0x1B \<in> set rest")
        case True
        have "\<forall>b \<in> set (takeWhile (\<lambda>x. x \<noteq> 0x07 \<and> x \<noteq> 0x1B) rest). capture_advance s b = (s, NoObservation)"
          unfolding s by (auto intro!: capture_inert(3) dest!: set_takeWhileD)
        then show ?thesis using True find unfolding s by (simp add: osc_next_def search pre)
      next
        case False
        then have "\<forall>b \<in> set rest. capture_advance s b = (s, NoObservation)"
          unfolding s by (auto intro!: capture_inert(3))
        then show ?thesis using False unfolding s by (simp add: osc_next_def search)
      qed
    next
      case False
      then have "osc_next E s rest = Some 0" using OscString by (auto simp: osc_next_def split: bool.splits)
      then show ?thesis using assms(2) by simp
    qed
  qed
qed

lemma osc_advance_bytes:
  assumes E: "search_ok E"
  shows "osc_advance E s rest = Some (osc_bytes E s rest)"
proof (induction "length rest" arbitrary: s rest rule: less_induct)
  case less
  show ?case
  proof (cases "rest = []")
    case True
    then show ?thesis by (simp add: osc_advance.simps)
  next
    case False
    note skip = osc_next_skips [OF E False, of s]
    show ?thesis
    proof (cases "osc_next E s rest")
      case None
      then have "osc_bytes E s rest = (s, [])" using skip by (intro osc_bytes_inert) simp
      then show ?thesis using None False by (simp add: osc_advance.simps [of E s rest])
    next
      case (Some i)
      then have i: "i < length rest" "osc_bytes E s (take i rest) = (s, [])" using skip by (auto intro: osc_bytes_inert)
      have "rest = take i rest @ rest ! i # drop (i + 1) rest" using i(1) by (simp add: id_take_nth_drop)
      then have "osc_bytes E s rest = osc_bytes E s (take i rest @ rest ! i # drop (i + 1) rest)" by metis
      also have "\<dots> = osc_bytes E s (rest ! i # drop (i + 1) rest)" unfolding osc_bytes_append i(2) by (simp add: Let_def split: prod.split)
      finally have split: "osc_bytes E s rest = osc_bytes E s (rest ! i # drop (i + 1) rest)" .
      have "osc_advance E s' (drop (i + 1) rest) = Some (osc_bytes E s' (drop (i + 1) rest))" for s'
        by (rule less) (use i(1) in simp)
      then show ?thesis
        using Some False i(1) by (simp add: osc_advance.simps [of E s rest] idx_def split Let_def split: prod.split)
    qed
  qed
qed

section \<open>Nothing is discarded that would be a message\<close>

lemma may_be_captured_prefix:
  assumes "may_be_captured (p @ q)"
  shows "may_be_captured p"
proof -
  have "take (min (length p) (length c)) p = take (min (length p) (length c)) c"
    if "take (min (length (p @ q)) (length c)) (p @ q) = take (min (length (p @ q)) (length c)) c" for c :: "byte list"
  proof -
    let ?n = "min (length p) (length c)"
    have "take ?n (take (min (length (p @ q)) (length c)) (p @ q)) = take ?n (take (min (length (p @ q)) (length c)) c)"
      using that by simp
    then show ?thesis by (simp add: min_def split: if_splits)
  qed
  then show ?thesis using assms by (auto simp: may_be_captured_def Let_def)
qed

lemma may_be_captured_candidate:
  "c \<in> {ascii ''7;'', ascii ''9;'', ascii ''99;'', ascii ''133;''} \<Longrightarrow> may_be_captured (c @ q)"
  by (auto simp: may_be_captured_def Let_def)

lemma strip_prefix_eq: "strip_prefix p xs = Some r \<longleftrightarrow> xs = p @ r"
  by (auto simp: strip_prefix_def) (metis append_take_drop_id)

lemma parse_osc_candidate:
  assumes "parse_osc E raw = Some m"
  obtains c q where "c \<in> {ascii ''7;'', ascii ''9;'', ascii ''99;'', ascii ''133;''}" "raw = c @ q"
proof -
  have "ascii ''9;4;'' = ascii ''9;'' @ ascii ''4;''" by (simp add: ascii_def)
  then have "\<exists>c q. c \<in> {ascii ''7;'', ascii ''9;'', ascii ''99;'', ascii ''133;''} \<and> raw = c @ q"
    using assms by (auto simp: parse_osc_def bind_eq_Some_conv strip_prefix_eq split: option.splits)
  then show thesis using that by blast
qed

lemma parse_osc_captured: "parse_osc E raw = Some m \<Longrightarrow> may_be_captured raw"
  by (erule parse_osc_candidate) (simp add: may_be_captured_candidate)

text \<open>
  The scanner that keeps every body whole, and reports it at its end if it is not too long.
\<close>

definition whole_advance :: "capture_state \<Rightarrow> byte \<Rightarrow> capture_state \<times> observation" where
  "whole_advance s b =
     (case s of
        OscString raw esc _ \<Rightarrow>
          if b = 0x07 \<or> esc \<and> b = 0x5C then (CaptureGround, Complete (if length raw \<le> MAX_OSC_BYTES then Some raw else None))
          else (OscString (raw @ (if esc then [0x1B] else []) @ (if b \<noteq> 0x1B then [b] else [])) (b = 0x1B) False, NoObservation)
      | _ \<Rightarrow> capture_advance s b)"

fun whole_bytes :: "'v osc_crates \<Rightarrow> capture_state \<Rightarrow> byte list \<Rightarrow> capture_state \<times> osc_message list" where
  "whole_bytes E s [] = (s, [])"
| "whole_bytes E s (b # bs) =
     (let (s1, obs) = whole_advance s b; (s2, ms) = whole_bytes E s1 bs in (s2, osc_report E obs @ ms))"

text \<open>A state and the state of that scanner.\<close>

definition same_capture :: "capture_state \<Rightarrow> capture_state \<Rightarrow> bool" where
  "same_capture s t \<longleftrightarrow>
     (case s of
        OscString raw esc discard \<Rightarrow>
          \<exists>raw'. t = OscString raw' esc False \<and>
            (if discard then MAX_OSC_BYTES < length raw' \<or> \<not> may_be_captured raw' else raw' = raw \<and> length raw \<le> MAX_OSC_BYTES)
      | _ \<Rightarrow> t = s)"

lemma same_capture_step:
  assumes "same_capture s t" "capture_advance s b = (s1, obs)" "whole_advance t b = (t1, obs')"
  shows "same_capture s1 t1 \<and> osc_report E obs = osc_report E obs'"
proof (cases s)
  case (OscString raw esc discard)
  then obtain raw' where t: "t = OscString raw' esc False"
    and r: "if discard then MAX_OSC_BYTES < length raw' \<or> \<not> may_be_captured raw' else raw' = raw \<and> length raw \<le> MAX_OSC_BYTES"
    using assms(1) by (auto simp: same_capture_def)
  show ?thesis
  proof (cases "b = 0x07 \<or> esc \<and> b = 0x5C")
    case True
    have "osc_report E (Complete (if discard then None else Some raw)) =
        osc_report E (Complete (if length raw' \<le> MAX_OSC_BYTES then Some raw' else None))"
    proof (cases "discard \<and> length raw' \<le> MAX_OSC_BYTES")
      case True
      then have "parse_osc E raw' = None" using r parse_osc_captured [of E raw'] by (cases "parse_osc E raw'") auto
      then show ?thesis using True by (simp add: osc_report_def)
    qed (use r in \<open>auto simp: osc_report_def\<close>)
    then show ?thesis
      using assms(2,3) True OscString t by (auto simp: capture_advance_def whole_advance_def same_capture_def)
  next
    case False
    let ?add = "(if esc then [0x1B] else []) @ (if b \<noteq> 0x1B then [b] else [])"
    have whole: "t1 = OscString (raw' @ ?add) (b = 0x1B) False" "obs' = NoObservation"
      using assms(3) False t by (auto simp: whole_advance_def)
    show ?thesis
    proof (cases discard)
      case True
      then have "MAX_OSC_BYTES < length (raw' @ ?add) \<or> \<not> may_be_captured (raw' @ ?add)"
        using r may_be_captured_prefix [of raw' ?add] by auto
      moreover have "s1 = OscString raw (b = 0x1B) True" "obs = NoObservation"
        using assms(2) False True OscString by (auto simp: capture_advance_def)
      ultimately show ?thesis using whole by (simp add: same_capture_def)
    next
      case kept: False
      let ?new = "raw @ ?add"
      have "capture_advance s b =
          (if MAX_OSC_BYTES < length ?new \<or> \<not> may_be_captured ?new then (OscString [] (b = 0x1B) True, NoObservation)
           else (OscString ?new (b = 0x1B) False, NoObservation))"
        using False kept OscString by (simp add: capture_advance_def Let_def)
      then show ?thesis
        using assms(2) whole r kept by (auto simp: same_capture_def split: if_split_asm)
    qed
  qed
qed (use assms in \<open>auto simp: same_capture_def whole_advance_def capture_advance_def MAX_OSC_BYTES_def split: if_splits\<close>)

lemma same_capture_bytes:
  "same_capture s t \<Longrightarrow>
    same_capture (fst (osc_bytes E s bs)) (fst (whole_bytes E t bs)) \<and> snd (osc_bytes E s bs) = snd (whole_bytes E t bs)"
proof (induction bs arbitrary: s t)
  case Nil
  then show ?case by simp
next
  case (Cons b bs)
  obtain s1 obs where s1: "capture_advance s b = (s1, obs)" by fastforce
  obtain t1 obs' where t1: "whole_advance t b = (t1, obs')" by fastforce
  note step = same_capture_step [OF Cons.prems s1 t1, of E]
  from Cons.IH [OF conjunct1 [OF step]] show ?case
    using conjunct2 [OF step] by (auto simp: s1 t1 split: prod.split)
qed

section \<open>Messages are safe to show\<close>

definition safe_text :: "byte list \<Rightarrow> bool" where
  "safe_text t \<longleftrightarrow> length t \<le> MAX_PLAIN_PAYLOAD_BYTES \<and> is_escape_safe t"

definition payload_safe :: "osc_payload \<Rightarrow> bool" where
  "payload_safe p = (case p of TitleText t \<Rightarrow> safe_text t | BodyText t \<Rightarrow> safe_text t | _ \<Rightarrow> True)"

definition identifier_safe :: "byte list \<Rightarrow> bool" where
  "identifier_safe i \<longleftrightarrow> i \<noteq> [] \<and> length i \<le> MAX_IDENTIFIER_BYTES \<and> is_escape_safe i"

definition expiry_safe :: "expiry \<Rightarrow> bool" where
  "expiry_safe e = (case e of Milliseconds ms \<Rightarrow> 0 < ms \<and> ms < 2 ^ 31 | _ \<Rightarrow> True)"

definition notification_safe :: "osc_notification \<Rightarrow> bool" where
  "notification_safe n =
     (case n of LegacyNotice t \<Rightarrow> safe_text t
      | KittyNotice k \<Rightarrow> pred_option identifier_safe (kn_id k) \<and> payload_safe (kn_payload k) \<and>
          pred_option expiry_safe (kn_expiry k))"

definition message_safe :: "osc_message \<Rightarrow> bool" where
  "message_safe m =
     (case m of NotificationMessage n \<Rightarrow> notification_safe n
      | DirectoryMessage d \<Rightarrow> is_escape_safe (dir_host d) \<and> is_escape_safe (dir_path d)
      | ShellMessage s \<Rightarrow> (\<forall>v. s = CommandFinished (Some v) \<longrightarrow> - (2 ^ 31) \<le> v \<and> v < 2 ^ 31)
      | ProgressMessage r \<Rightarrow> pred_option (\<lambda>p. p \<le> 100) (report_percent r))"

lemma is_escape_safe_iff: "is_escape_safe v \<longleftrightarrow> (\<exists>cs. from_utf8 v = Some cs \<and> \<not> list_ex is_control cs)"
  by (simp add: is_escape_safe_def split: option.split)

text \<open>A part of a text that is text itself holds characters of the whole.\<close>

lemma text_of_prefix:
  "list_all is_scalar as \<Longrightarrow> list_all is_scalar cs \<Longrightarrow> text_of as @ r = text_of cs \<Longrightarrow> \<exists>bs. cs = as @ bs \<and> r = text_of bs"
proof (induction as arbitrary: cs)
  case Nil
  then show ?case by simp
next
  case (Cons a as)
  show ?case
  proof (cases cs)
    case Nil
    then show ?thesis using Cons.prems(3) by simp
  next
    case cs: (Cons c cs')
    then have ok: "is_scalar a" "is_scalar c" "list_all is_scalar as" "list_all is_scalar cs'" using Cons.prems(1,2) by simp_all
    have "utf8 a @ (text_of as @ r) = utf8 c @ text_of cs'" using Cons.prems(3) unfolding cs by (simp only: text_of_simps append_assoc)
    from arg_cong [OF this, of next_char] have eq: "a = c" "text_of as @ r = text_of cs'"
      unfolding next_char_utf8 [OF ok(1)] next_char_utf8 [OF ok(2)] by simp_all
    from Cons.IH [OF ok(3,4) eq(2)] show ?thesis using eq(1) cs by auto
  qed
qed

lemma escape_safe_part:
  assumes whole: "is_escape_safe (p @ v @ r)" and p: "from_utf8 p \<noteq> None" and v: "from_utf8 v \<noteq> None"
  shows "is_escape_safe v"
proof -
  obtain cs where cs: "list_all is_scalar cs" "text_of cs = p @ v @ r" "\<not> list_ex is_control cs"
    using whole by (auto simp: is_escape_safe_iff from_utf8_iff)
  obtain ps where ps: "list_all is_scalar ps" "text_of ps = p" using p by (auto simp: from_utf8_iff)
  obtain vs where vs: "list_all is_scalar vs" "text_of vs = v" using v by (auto simp: from_utf8_iff)
  have "text_of (ps @ vs) @ r = text_of cs" using cs(2) ps(2) vs(2) by (simp add: text_of_def)
  from text_of_prefix [OF _ cs(1) this] obtain bs where "cs = (ps @ vs) @ bs" using ps(1) vs(1) by auto
  then show ?thesis using cs(3) vs by (auto simp: is_escape_safe_iff from_utf8_iff)
qed

lemma plain_escape_safe:
  assumes "list_all (\<lambda>b. 0x20 \<le> b \<and> b < 0x7F) v"
  shows "is_escape_safe v"
proof -
  have "text_of (map ucast v) = v" using assms
    by (induction v) (simp_all add: utf8_byte order.strict_trans [of _ "0x7F" "0x80"])
  moreover have "list_all is_scalar (map ucast v)" by (simp add: list_all_iff is_scalar_byte)
  moreover have "\<not> list_ex is_control (map ucast v)"
    using assms by (auto simp: list_ex_iff list_all_iff is_control_def word_le_nat_alt word_less_nat_alt unsigned_ucast_eq
        take_bit_nat_eq_self)
  ultimately show ?thesis by (auto simp: is_escape_safe_iff from_utf8_iff)
qed

lemma decode_payload_safe: "decode_payload E payload encoded = Some t \<Longrightarrow> safe_text t"
  by (auto simp: decode_payload_def safe_text_def is_escape_safe_iff bind_eq_Some_conv split: if_splits)

lemma parse_legacy_safe: "parse_legacy msg = Some t \<Longrightarrow> safe_text t"
  by (auto simp: parse_legacy_def safe_text_def split: if_splits option.splits)

lemma parse_directory_safe:
  assumes "parse_directory E url = Some d"
  shows "is_escape_safe (dir_host d) \<and> is_escape_safe (dir_path d)"
proof -
  have url: "is_escape_safe url" using assms by (simp add: parse_directory_def split: if_splits)
  obtain rest i cs where r: "url = ascii ''file://'' @ rest" "from_utf8 (take i rest) \<noteq> None" "dir_host d = take i rest"
    and cs: "from_utf8 (dir_path d) = Some cs" "\<not> list_ex is_control cs"
    using assms url unfolding parse_directory_def
    by (fastforce simp: bind_eq_Some_conv strip_prefix_eq split: if_splits)
  have path: "is_escape_safe (dir_path d)" using cs by (simp add: is_escape_safe_def)
  have "is_escape_safe (ascii ''file://'')" by (rule plain_escape_safe) code_simp
  then have "from_utf8 (ascii ''file://'') \<noteq> None" by (auto simp: is_escape_safe_iff)
  then have "is_escape_safe (take i rest)"
    using escape_safe_part [of "ascii ''file://''" "take i rest" "drop i rest"] url r by simp
  then show ?thesis using path r(3) by simp
qed

lemma parse_progress_safe: "parse_progress report = Some r \<Longrightarrow> pred_option (\<lambda>p. p \<le> 100) (report_percent r)"
  by (auto simp: parse_progress_def bind_eq_Some_conv split: list.splits if_splits)

lemma parse_shell_safe:
  assumes "parse_shell marker = Some (CommandFinished (Some v))"
  shows "- (2 ^ 31) \<le> v \<and> v < 2 ^ 31"
proof -
  obtain f where "parse_int (- (2 ^ 31)) (2 ^ 31 - 1) f = Some v"
    using assms by (auto simp: parse_shell_def Let_def bind_eq_Some_conv split: prod.splits if_splits option.splits)
  from parse_int_range [OF this] show ?thesis by simp
qed

lemma parse_identifier_safe:
  assumes "parse_identifier v = Some i"
  shows "identifier_safe i"
proof -
  have i: "i = v" "v \<noteq> []" "length v \<le> MAX_IDENTIFIER_BYTES"
    "list_all (\<lambda>b. is_alpha b \<or> is_digit b \<or> b \<in> set (ascii ''_-+.'')) v"
    using assms by (auto simp: parse_identifier_def split: if_splits)
  have "0x20 \<le> b \<and> b < 0x7F" if "is_alpha b \<or> is_digit b \<or> b \<in> set (ascii ''_-+.'')" for b
    using that by (auto simp: is_alpha_def is_digit_def ascii_def word_le_nat_alt word_less_nat_alt)
  then have "list_all (\<lambda>b. 0x20 \<le> b \<and> b < 0x7F) v" using i(4) by (simp add: list_all_iff)
  then show ?thesis using i plain_escape_safe by (simp add: identifier_safe_def)
qed

lemma expiry_of_safe: "expiry_of v = Some e \<Longrightarrow> expiry_safe e"
  by (auto simp: expiry_of_def expiry_safe_def bind_eq_Some_conv split: if_splits)

definition fields_safe :: "kitty_fields \<Rightarrow> bool" where
  "fields_safe k \<longleftrightarrow> pred_option identifier_safe (kf_id k) \<and> pred_option expiry_safe (kf_expiry k)"

lemma kitty_field_safe: "kitty_field E field k = Some k' \<Longrightarrow> fields_safe k \<Longrightarrow> fields_safe k'"
  unfolding kitty_field_def
  by (auto simp: fields_safe_def bind_eq_Some_conv dest: parse_identifier_safe expiry_of_safe split: if_split_asm)

lemma parse_kitty_safe:
  assumes "parse_kitty E metadata payload = Some n"
  shows "notification_safe (KittyNotice n)"
proof -
  have p: "payload_safe (kn_payload n)"
    using assms by (auto simp: parse_kitty_def bind_eq_Some_conv payload_safe_def dest!: decode_payload_safe split: if_split_asm)
  obtain k where k: "for_each (kitty_field E) (filter (\<lambda>f. f \<noteq> []) (split_on 0x3A metadata)) kitty_fields_default = Some k"
    and n: "kn_id n = kf_id k" "kn_expiry n = kf_expiry k"
    using assms by (auto simp: parse_kitty_def bind_eq_Some_conv split: if_split_asm)
  have "fields_safe k"
    by (rule for_each_keeps [OF k]) (auto simp: fields_safe_def kitty_fields_default_def dest: kitty_field_safe)
  then show ?thesis using p n by (simp add: notification_safe_def fields_safe_def)
qed

lemma parse_osc_message_safe:
  assumes "parse_osc E raw = Some m"
  shows "message_safe m"
proof -
  have kinds:
    "parse_shell marker = Some s \<Longrightarrow> message_safe (ShellMessage s)"
    "parse_legacy msg = Some t \<Longrightarrow> message_safe (NotificationMessage (LegacyNotice t))"
    "parse_kitty E metadata payload = Some n \<Longrightarrow> message_safe (NotificationMessage (KittyNotice n))"
    "parse_directory E url = Some d \<Longrightarrow> message_safe (DirectoryMessage d)"
    "parse_progress report = Some r \<Longrightarrow> message_safe (ProgressMessage r)" for marker s msg t metadata payload n url d report r
    using parse_shell_safe [of marker] parse_legacy_safe [of msg t] parse_kitty_safe [of E metadata payload n]
      parse_directory_safe [of E url d] parse_progress_safe [of report r]
    by (simp_all add: message_safe_def) (simp add: notification_safe_def)
  show ?thesis
    using assms unfolding parse_osc_def by (auto simp: bind_eq_Some_conv kinds split: option.splits prod.splits)
qed

section \<open>What the scanner promises\<close>

definition capture_small :: "capture_state \<Rightarrow> bool" where
  "capture_small s = (case s of OscString raw _ _ \<Rightarrow> length raw \<le> MAX_OSC_BYTES | _ \<Rightarrow> True)"

lemma capture_advance_small: "capture_small s \<Longrightarrow> capture_small (fst (capture_advance s b))"
  by (cases s) (auto simp: capture_small_def capture_advance_def Let_def)

lemma osc_bytes_small: "capture_small s \<Longrightarrow> capture_small (fst (osc_bytes E s bs))"
proof (induction bs arbitrary: s)
  case (Cons b bs)
  from Cons.IH [OF capture_advance_small [OF Cons.prems, of b]] show ?case by (simp add: Let_def split_beta)
qed simp

text \<open>What is documented of \<open>vvte\<close>: text between \<open>ESC ]\<close> and \<open>BEL\<close> is one OSC, split at semicolons.\<close>

definition vvte_ok :: "'v osc_crates \<Rightarrow> bool" where
  "vvte_ok E \<longleftrightarrow> (\<forall>raw. is_escape_safe raw \<longrightarrow> length raw \<le> MAX_OSC_BYTES \<longrightarrow>
     (\<exists>params. let (calls1, p) = vvte_advance E (vvte_default E) [0x1B, 0x5D]; (calls2, p) = vvte_advance E p raw;
        (calls3, p) = vvte_advance E p [0x07] in calls1 @ calls2 @ calls3 = [hd (split_on 0x3B raw) # params]))"

lemma parse_osc_top_level:
  assumes E: "vvte_ok E" and raw: "is_escape_safe raw" "length raw \<le> MAX_OSC_BYTES" and m: "parse_osc E raw = Some m"
  shows "is_top_level_notification E raw"
proof -
  obtain c q where c: "c \<in> {ascii ''7;'', ascii ''9;'', ascii ''99;'', ascii ''133;''}" "raw = c @ q"
    by (rule parse_osc_candidate [OF m])
  have "hd (split_on 0x3B raw) \<in> {ascii ''7'', ascii ''9'', ascii ''99'', ascii ''133''}"
    using c by (auto simp: ascii_def split: list.splits)
  moreover obtain params where "let (calls1, p) = vvte_advance E (vvte_default E) [0x1B, 0x5D]; (calls2, p) = vvte_advance E p raw;
      (calls3, p) = vvte_advance E p [0x07] in calls1 @ calls2 @ calls3 = [hd (split_on 0x3B raw) # params]"
    using E raw unfolding vvte_ok_def by blast
  ultimately obtain p params where p: "p \<in> {ascii ''7'', ascii ''9'', ascii ''99'', ascii ''133''}"
    and calls: "let (calls1, v) = vvte_advance E (vvte_default E) [0x1B, 0x5D]; (calls2, v) = vvte_advance E v raw;
      (calls3, v) = vvte_advance E v [0x07] in calls1 @ calls2 @ calls3 = [p # params]" by blast
  have "fold (\<lambda>params _. osc_dispatch params) [p # params] False" using p by (simp add: osc_dispatch_def)
  then show ?thesis using calls unfolding is_top_level_notification_def Let_def split_beta by simp
qed

lemma escape_safe_no_control:
  assumes "is_escape_safe v" "b < 0x20"
  shows "b \<notin> set v"
proof
  assume "b \<in> set v"
  then obtain xs ys where v: "v = xs @ b # ys" by (meson split_list)
  obtain cs where cs: "list_all is_scalar cs" "text_of cs = v" "\<not> list_ex is_control cs"
    using assms(1) by (auto simp: is_escape_safe_iff from_utf8_iff)
  have byte: "c < 0x20" if "b \<in> set (utf8 c)" for c :: uchar
  proof (cases "c < 0x80")
    case True
    then have "b = ucast c" "unat c < 2 ^ 8" using that by (simp_all add: utf8_def word_less_nat_alt)
    then show ?thesis using assms(2) by (simp add: word_less_nat_alt unsigned_ucast_eq unsigned_take_bit_eq take_bit_nat_eq_self)
  next
    case False
    then have "bit b 7" using that by (auto simp: utf8_def bit_or_iff split: if_splits)
    moreover have "b < push_bit 7 1" using assms(2) by (simp add: word_less_nat_alt)
    ultimately show ?thesis using not_bit_of_less [of b 7] by simp
  qed
  obtain c where "c \<in> set cs" "b \<in> set (utf8 c)" using \<open>b \<in> set v\<close> cs(2) by (auto simp: text_of_def)
  then show False using byte [of c] cs(1,3) by (auto simp: list_all_iff list_ex_iff is_control_def word_le_nat_alt word_less_nat_alt)
qed

lemma whole_bytes_append:
  "whole_bytes E s (xs @ ys) =
    (let (s1, ms1) = whole_bytes E s xs; (s2, ms2) = whole_bytes E s1 ys in (s2, ms1 @ ms2))"
  by (induction E s xs rule: whole_bytes.induct) (auto simp: Let_def split: prod.splits)

lemma whole_bytes_raw:
  "0x07 \<notin> set xs \<Longrightarrow> 0x1B \<notin> set xs \<Longrightarrow>
    whole_bytes E (OscString raw False False) xs = (OscString (raw @ xs) False False, [])"
proof (induction xs arbitrary: raw)
  case (Cons x xs)
  from Cons.IH [of "raw @ [x]"] Cons.prems show ?case by (auto simp: whole_advance_def osc_report_def)
qed simp

lemma whole_bytes_osc:
  assumes raw: "0x07 \<notin> set raw" "0x1B \<notin> set raw" "length raw \<le> MAX_OSC_BYTES" and stop: "stop \<in> {[0x07], [0x1B, 0x5C]}"
  shows "whole_bytes E CaptureGround ([0x1B, 0x5D] @ raw @ stop) = (CaptureGround, osc_report E (Complete (Some raw)))"
proof -
  have start: "whole_bytes E CaptureGround [0x1B, 0x5D] = (OscString [] False False, [])"
    by (simp add: whole_advance_def capture_advance_def osc_report_def)
  have stop: "whole_bytes E (OscString raw False False) stop = (CaptureGround, osc_report E (Complete (Some raw)))"
    using stop raw(3) by (auto simp: whole_advance_def osc_report_def)
  show ?thesis unfolding whole_bytes_append start by (simp add: whole_bytes_append whole_bytes_raw [OF raw(1,2)] stop)
qed

text \<open>
  C14. The scanner of operating system commands, which searches ahead and drops a body as soon
  as it cannot be one it reports, terminates without panic, reports exactly the messages of a
  scanner that looks at every byte and keeps every body whole up to the limit, never holds more
  than the limit, and does not depend on how the output is cut into reads.
\<close>

theorem osc_capture_correct:
  assumes "search_ok E"
  shows "(\<exists>s. osc_advance E CaptureGround bytes = Some (s, snd (whole_bytes E CaptureGround bytes)) \<and> capture_small s) \<and>
    (\<forall>s more. osc_advance E s (bytes @ more) =
      do { (s, ms) \<leftarrow> osc_advance E s bytes; (s, ms') \<leftarrow> osc_advance E s more; Some (s, ms @ ms') })"
proof (intro conjI allI)
  have "same_capture CaptureGround CaptureGround" by (simp add: same_capture_def)
  from same_capture_bytes [OF this, of E bytes]
  have "snd (osc_bytes E CaptureGround bytes) = snd (whole_bytes E CaptureGround bytes)" by blast
  moreover have "capture_small (fst (osc_bytes E CaptureGround bytes))" by (rule osc_bytes_small) (simp add: capture_small_def)
  ultimately show "\<exists>s. osc_advance E CaptureGround bytes = Some (s, snd (whole_bytes E CaptureGround bytes)) \<and> capture_small s"
    by (metis osc_advance_bytes [OF assms] surjective_pairing)
  show "osc_advance E s (bytes @ more) =
      do { (s, ms) \<leftarrow> osc_advance E s bytes; (s, ms') \<leftarrow> osc_advance E s more; Some (s, ms @ ms') }" for s more
    by (simp add: osc_advance_bytes [OF assms] osc_bytes_append split: prod.split)
qed

definition sample_osc :: "byte list osc_crates" where
  "sample_osc = \<lparr>vvte_default = [],
     vvte_advance = (\<lambda>v bs. (if bs = [0x07] then [split_on 0x3B (drop 2 v)] else [], v @ bs)),
     percent_decode = id, base64_std = Some, base64_no_pad = Some,
     osc_memchr = (\<lambda>b xs. if b \<in> set xs then Some (length (takeWhile (\<lambda>x. x \<noteq> b) xs)) else None),
     osc_memchr2 = (\<lambda>a b xs. if a \<in> set xs \<or> b \<in> set xs then Some (length (takeWhile (\<lambda>x. x \<noteq> a \<and> x \<noteq> b) xs)) else None)\<rparr>"

lemma sample_search_ok: "search_ok sample_osc"
  by (simp add: search_ok_def sample_osc_def)

lemma sample_vvte_ok: "vvte_ok sample_osc"
proof -
  have "\<exists>params. split_on 0x3B raw = hd (split_on 0x3B raw) # params" for raw :: "byte list"
    by (cases "split_on 0x3B raw") simp_all
  moreover have "raw \<noteq> [0x07]" if "is_escape_safe raw" for raw using escape_safe_no_control [OF that, of "0x07"] by auto
  ultimately show ?thesis by (auto simp: vvte_ok_def sample_osc_def)
qed

theorem osc_capture_correct_witness:
  "\<exists>s. osc_advance sample_osc CaptureGround ([0x61, 0x1B, 0x5D] @ ascii ''9;hello'' @ [0x07]) =
      Some (s, snd (whole_bytes sample_osc CaptureGround ([0x61, 0x1B, 0x5D] @ ascii ''9;hello'' @ [0x07]))) \<and> capture_small s"
  using osc_capture_correct [OF sample_search_ok] by blast

theorem osc_delivered:
  assumes "search_ok E" "vvte_ok E" "is_escape_safe raw" "length raw \<le> MAX_OSC_BYTES" "parse_osc E raw = Some m"
    and "stop \<in> {[0x07], [0x1B, 0x5C]}"
  shows "osc_advance E CaptureGround ([0x1B, 0x5D] @ raw @ stop) = Some (CaptureGround, [m])"
proof -
  have raw: "0x07 \<notin> set raw" "0x1B \<notin> set raw" by (rule escape_safe_no_control [OF assms(3)], simp)+
  have "osc_report E (Complete (Some raw)) = [m]"
    using parse_osc_top_level [OF assms(2-5)] assms(5) by (simp add: osc_report_def)
  then have whole: "whole_bytes E CaptureGround ([0x1B, 0x5D] @ raw @ stop) = (CaptureGround, [m])"
    using whole_bytes_osc [OF raw assms(4,6), of E] by simp
  have "same_capture CaptureGround CaptureGround" by (simp add: same_capture_def)
  from same_capture_bytes [OF this, of E "[0x1B, 0x5D] @ raw @ stop"]
  have "same_capture (fst (osc_bytes E CaptureGround ([0x1B, 0x5D] @ raw @ stop))) CaptureGround"
    "snd (osc_bytes E CaptureGround ([0x1B, 0x5D] @ raw @ stop)) = [m]" unfolding whole by simp_all
  then have "osc_bytes E CaptureGround ([0x1B, 0x5D] @ raw @ stop) = (CaptureGround, [m])"
    by (auto simp: same_capture_def prod_eq_iff split: capture_state.splits)
  then show ?thesis by (simp add: osc_advance_bytes [OF assms(1)])
qed

theorem osc_delivered_witness:
  "osc_advance sample_osc CaptureGround ([0x1B, 0x5D] @ ascii ''133;D;1'' @ [0x1B, 0x5C]) =
    Some (CaptureGround, [ShellMessage (CommandFinished (Some 1))])"
proof (rule osc_delivered [OF sample_search_ok sample_vvte_ok])
  show "is_escape_safe (ascii ''133;D;1'')" by code_simp
  show "length (ascii ''133;D;1'') \<le> MAX_OSC_BYTES" by code_simp
  show "parse_osc sample_osc (ascii ''133;D;1'') = Some (ShellMessage (CommandFinished (Some 1)))" by code_simp
qed simp

end
