(* ===== verification/Notices.thy ===== *)
theory Notices
  imports Osc "HOL-Library.AList"
begin

text \<open>
  Desktop notifications, \<open>src/osc_notification.rs\<close>: the controller that assembles notifications sent in
  pieces, limits their rate and hands them to a backend, and the bookkeeping of the worker thread that
  shows them.

  Time is in nanoseconds; the difference of two instants is zero when the second is later, as
  \<open>duration_since\<close> has it. A \<open>HashMap\<close> is an association list with distinct keys. Nothing here panics.
\<close>

definition MAX_ASSEMBLED_BYTES :: nat where "MAX_ASSEMBLED_BYTES = 16 * 1024"
definition MAX_PENDING :: nat where "MAX_PENDING = 64"
definition ASSEMBLY_TIMEOUT :: nat where "ASSEMBLY_TIMEOUT = 30 * 10 ^ 9"

section \<open>Assembling\<close>

record assembly =
  as_title :: "byte list"
  as_body :: "byte list"
  as_focus :: bool
  as_occasion :: occasion
  as_urgency :: urgency
  as_expiry :: expiry
  as_sound :: sound
  as_updated :: "nat option"

record desktop_notice =
  dn_id :: "byte list option"
  dn_title :: "byte list"
  dn_body :: "byte list"
  dn_focus :: bool
  dn_urgency :: urgency
  dn_expiry :: expiry
  dn_sound :: sound

definition assembly_default :: assembly where
  "assembly_default = \<lparr>as_title = [], as_body = [], as_focus = True, as_occasion = Always, as_urgency = NormalUrgency,
     as_expiry = DefaultExpiry, as_sound = SystemSound, as_updated = None\<rparr>"

text \<open>\<open>append\<close>; \<open>None\<close> when it answers false.\<close>

definition assembly_append :: "osc_payload \<Rightarrow> assembly \<Rightarrow> assembly option" where
  "assembly_append payload a =
     (case payload of
        TitleText t \<Rightarrow> if MAX_ASSEMBLED_BYTES < length (as_title a) + length (as_body a) + length t then None
          else Some (a\<lparr>as_title := as_title a @ t\<rparr>)
      | BodyText t \<Rightarrow> if MAX_ASSEMBLED_BYTES < length (as_title a) + length (as_body a) + length t then None
          else Some (a\<lparr>as_body := as_body a @ t\<rparr>)
      | _ \<Rightarrow> None)"

definition apply_notice_options :: "nat \<Rightarrow> kitty_notice \<Rightarrow> assembly \<Rightarrow> assembly" where
  "apply_notice_options now k a =
     a\<lparr>as_focus := case_option (as_focus a) id (kn_focus k),
       as_occasion := case_option (as_occasion a) id (kn_occasion k),
       as_urgency := case_option (as_urgency a) id (kn_urgency k),
       as_expiry := case_option (as_expiry a) id (kn_expiry k),
       as_sound := case_option (as_sound a) id (kn_sound k),
       as_updated := Some now\<rparr>"

definition assembly_display :: "byte list option \<Rightarrow> assembly \<Rightarrow> desktop_notice option" where
  "assembly_display i a =
     (let title = (if as_title a = [] then as_body a else as_title a);
          rest = (if as_title a = [] then [] else as_body a)
      in if title = [] then None
         else Some \<lparr>dn_id = i, dn_title = title, dn_body = rest, dn_focus = as_focus a, dn_urgency = as_urgency a,
           dn_expiry = as_expiry a, dn_sound = as_sound a\<rparr>)"

section \<open>The controller\<close>

record notice_window =
  nw_focused :: bool
  nw_visible :: bool
  nw_occluded :: bool
  nw_headless :: bool

definition occasion_matches :: "occasion \<Rightarrow> notice_window \<Rightarrow> bool" where
  "occasion_matches w s =
     (case w of Always \<Rightarrow> True | Unfocused \<Rightarrow> \<not> nw_focused s
      | Invisible \<Rightarrow> \<not> nw_focused s \<and> (nw_headless s \<or> \<not> nw_visible s \<or> nw_occluded s))"

record backend_capabilities =
  update_close :: bool
  can_urgency :: bool
  can_expire :: bool
  can_sound :: bool

text \<open>
  The arithmetic of \<open>f64\<close>, the capabilities of the backend, and the order in which a \<open>HashMap\<close> is iterated.
\<close>

record 'n notice_env =
  as_secs_f64 :: "nat \<Rightarrow> 'n"
  f_add :: "'n \<Rightarrow> 'n \<Rightarrow> 'n"
  f_mul :: "'n \<Rightarrow> 'n \<Rightarrow> 'n"
  f_sub :: "'n \<Rightarrow> 'n \<Rightarrow> 'n"
  f_min :: "'n \<Rightarrow> 'n \<Rightarrow> 'n"
  f_less :: "'n \<Rightarrow> 'n \<Rightarrow> bool"
  f_of_nat :: "nat \<Rightarrow> 'n"
  backend :: backend_capabilities
  hash_order :: "(byte list \<times> assembly) list \<Rightarrow> (byte list \<times> assembly) list"

definition RATE_BURST :: nat where "RATE_BURST = 5"
definition RATE_REFILL_PER_SECOND :: nat where "RATE_REFILL_PER_SECOND = 1"

record 'n rate_limiter =
  lim_tokens :: 'n
  lim_updated :: nat

definition limiter_default :: "'n notice_env \<Rightarrow> nat \<Rightarrow> 'n rate_limiter" where
  "limiter_default E now = \<lparr>lim_tokens = f_of_nat E RATE_BURST, lim_updated = now\<rparr>"

definition limiter_take :: "'n notice_env \<Rightarrow> nat \<Rightarrow> 'n rate_limiter \<Rightarrow> bool \<times> 'n rate_limiter" where
  "limiter_take E now l =
     (let tokens = f_min E (f_add E (lim_tokens l)
            (f_mul E (as_secs_f64 E (now - lim_updated l)) (f_of_nat E RATE_REFILL_PER_SECOND))) (f_of_nat E RATE_BURST);
          l = l\<lparr>lim_tokens := tokens, lim_updated := now\<rparr>
      in if f_less E tokens (f_of_nat E 1) then (False, l)
         else (True, l\<lparr>lim_tokens := f_sub E tokens (f_of_nat E 1)\<rparr>))"

record 'n controller =
  ctl_enabled :: bool
  ctl_can_focus :: bool
  ctl_pending :: "(byte list \<times> assembly) list"
  ctl_limiter :: "'n rate_limiter"

text \<open>What the controller asks of its backend, and what it writes to the program.\<close>

datatype notice_effect = ShowNotice desktop_notice | CloseShown "byte list" | ClearShown | NoticeReply "byte list"

text \<open>The readings of the clock while a notification is handled.\<close>

record notice_clock =
  at_expiry :: nat
  at_options :: nat
  at_limit :: nat

definition controller_new :: "'n notice_env \<Rightarrow> bool \<Rightarrow> bool \<Rightarrow> nat \<Rightarrow> 'n controller" where
  "controller_new E enabled can_focus now =
     \<lparr>ctl_enabled = enabled, ctl_can_focus = can_focus, ctl_pending = [], ctl_limiter = limiter_default E now\<rparr>"

definition set_enabled :: "bool \<Rightarrow> 'n controller \<Rightarrow> 'n controller \<times> notice_effect list" where
  "set_enabled b c =
     (if ctl_enabled c \<and> \<not> b then (c\<lparr>ctl_pending := [], ctl_enabled := b\<rparr>, [ClearShown])
      else (c\<lparr>ctl_enabled := b\<rparr>, []))"

definition notify_local ::
  "'n notice_env \<Rightarrow> nat \<Rightarrow> byte list \<Rightarrow> byte list \<Rightarrow> 'n controller \<Rightarrow> 'n controller \<times> notice_effect list" where
  "notify_local E now title text c =
     (let (ok, l) = limiter_take E now (ctl_limiter c); c = c\<lparr>ctl_limiter := l\<rparr>
      in (c, if ok then [ShowNotice \<lparr>dn_id = None, dn_title = title, dn_body = text, dn_focus = ctl_can_focus c,
                dn_urgency = NormalUrgency, dn_expiry = DefaultExpiry, dn_sound = SystemSound\<rparr>] else []))"

definition submit_notice ::
  "'n notice_env \<Rightarrow> nat \<Rightarrow> assembly \<Rightarrow> byte list option \<Rightarrow> notice_window \<Rightarrow> 'n controller \<Rightarrow> 'n controller \<times> notice_effect list" where
  "submit_notice E now a i w c =
     (if \<not> occasion_matches (as_occasion a) w then (c, [])
      else let (ok, l) = limiter_take E now (ctl_limiter c); c = c\<lparr>ctl_limiter := l\<rparr>
        in (c, if ok then (case assembly_display i a of None \<Rightarrow> []
                | Some d \<Rightarrow> [ShowNotice (d\<lparr>dn_focus := dn_focus d \<and> ctl_can_focus c\<rparr>)]) else []))"

definition query_response :: "'n notice_env \<Rightarrow> 'n controller \<Rightarrow> byte list option \<Rightarrow> byte list" where
  "query_response E c i =
     (let caps = backend E;
          fields = [if ctl_can_focus c then ascii ''a=focus'' else [],
            ascii ''o=always,unfocused,invisible'',
            if update_close caps then ascii ''p=title,body,close'' else ascii ''p=title,body'',
            if can_sound caps then ascii ''s=system,silent'' else [],
            if can_urgency caps then ascii ''u=0,1,2'' else [],
            if can_expire caps then ascii ''w=1'' else []]
      in [0x1B] @ ascii '']99;i='' @ case_option (ascii ''0'') id i @ ascii '':p=?;'' @
         join (ascii '':'') (filter (\<lambda>f. f \<noteq> []) fields) @ [0x1B, 0x5C])"

definition expire_pending :: "nat \<Rightarrow> 'n controller \<Rightarrow> 'n controller" where
  "expire_pending now c =
     c\<lparr>ctl_pending := filter (\<lambda>(_, a). case as_updated a of None \<Rightarrow> False | Some u \<Rightarrow> now - u < ASSEMBLY_TIMEOUT) (ctl_pending c)\<rparr>"

text \<open>The first entry of the map, in the order of its iteration, that was updated longest ago.\<close>

definition update_key :: "byte list \<times> assembly \<Rightarrow> nat" where
  "update_key e = (case as_updated (snd e) of None \<Rightarrow> 0 | Some u \<Rightarrow> Suc u)"

definition oldest_pending :: "'n notice_env \<Rightarrow> (byte list \<times> assembly) list \<Rightarrow> byte list option" where
  "oldest_pending E p =
     (case hash_order E p of [] \<Rightarrow> None
      | e # es \<Rightarrow> Some (fst (fold (\<lambda>x m. if update_key x < update_key m then x else m) es e)))"

definition evict_pending :: "'n notice_env \<Rightarrow> byte list \<Rightarrow> (byte list \<times> assembly) list \<Rightarrow> (byte list \<times> assembly) list" where
  "evict_pending E i p =
     (if map_of p i = None \<and> MAX_PENDING \<le> length p
      then case oldest_pending E p of Some old \<Rightarrow> AList.delete old p | None \<Rightarrow> p
      else p)"

definition handle_kitty ::
  "'n notice_env \<Rightarrow> notice_clock \<Rightarrow> kitty_notice \<Rightarrow> notice_window \<Rightarrow> 'n controller \<Rightarrow> 'n controller \<times> notice_effect list" where
  "handle_kitty E now k w c =
     (case kn_payload k of
        QueryNotice \<Rightarrow> (c, [NoticeReply (query_response E c (kn_id k))])
      | CloseNotice \<Rightarrow>
          (case kn_id k of Some i \<Rightarrow> (c\<lparr>ctl_pending := AList.delete i (ctl_pending c)\<rparr>, [CloseShown i]) | None \<Rightarrow> (c, []))
      | UnsupportedPayload \<Rightarrow> (c, [])
      | _ \<Rightarrow>
          (case kn_id k of
             None \<Rightarrow>
               if \<not> kn_done k then (c, [])
               else (case assembly_append (kn_payload k) (apply_notice_options (at_options now) k assembly_default) of
                   None \<Rightarrow> (c, [])
                 | Some a \<Rightarrow> submit_notice E (at_limit now) a None w c)
           | Some i \<Rightarrow>
               (let p = evict_pending E i (ctl_pending c);
                    a = apply_notice_options (at_options now) k (case_option assembly_default id (map_of p i))
                in case assembly_append (kn_payload k) a of
                     None \<Rightarrow> (c\<lparr>ctl_pending := AList.delete i p\<rparr>, [])
                   | Some a \<Rightarrow>
                     if kn_done k then submit_notice E (at_limit now) a (Some i) w (c\<lparr>ctl_pending := AList.delete i p\<rparr>)
                     else (c\<lparr>ctl_pending := AList.update i a p\<rparr>, []))))"

definition handle_notice ::
  "'n notice_env \<Rightarrow> notice_clock \<Rightarrow> osc_notification \<Rightarrow> notice_window \<Rightarrow> 'n controller \<Rightarrow> 'n controller \<times> notice_effect list" where
  "handle_notice E now n w c =
     (if \<not> ctl_enabled c then (c, [])
      else let c = expire_pending (at_expiry now) c
        in case n of
             LegacyNotice t \<Rightarrow> submit_notice E (at_limit now) (assembly_default\<lparr>as_title := t\<rparr>) None w c
           | KittyNotice k \<Rightarrow> handle_kitty E now k w c)"

section \<open>Finished commands\<close>

definition format_command_duration :: "nat \<Rightarrow> byte list" where
  "format_command_duration ns =
     (let secs = ns div 10 ^ 9; minutes = secs div 60; hours = minutes div 60
      in if secs < 1 then dec (ns div 10 ^ 6) @ ascii ''ms''
         else if secs < 60 then dec secs @ ascii ''s''
         else if minutes < 60 then
           (if secs mod 60 = 0 then dec minutes @ ascii ''m'' else dec minutes @ ascii ''m '' @ dec (secs mod 60) @ ascii ''s'')
         else if minutes mod 60 = 0 then dec hours @ ascii ''h''
         else dec hours @ ascii ''h '' @ dec (minutes mod 60) @ ascii ''m'')"

definition dec_int :: "int \<Rightarrow> byte list" where
  "dec_int n = (if n < 0 then ascii ''-'' @ dec (nat (- n)) else dec (nat n))"

definition command_finished_text :: "int option \<Rightarrow> nat \<Rightarrow> byte list \<times> byte list" where
  "command_finished_text exit_code ns =
     (let runtime = format_command_duration ns
      in (case exit_code of None \<Rightarrow> ascii ''Command Finished''
          | Some c \<Rightarrow> if c = 0 then ascii ''Command Succeeded'' else ascii ''Command Failed'',
          case exit_code of None \<Rightarrow> ascii ''Command took '' @ runtime @ ascii ''.''
          | Some c \<Rightarrow> ascii ''Command took '' @ runtime @ ascii '' and exited with code '' @ dec_int c @ ascii ''.''))"

section \<open>The worker\<close>

text \<open>
  The tasks that show notifications, the task of an identifier, and the tasks in the order they
  started. A task is known by its token; whether its queue takes an update (\<open>try_update_task\<close>) is part
  of the message. The tasks of a map that is drained are closed in list order.
\<close>

record notice_worker =
  wk_live :: "(64 word \<times> byte list option) list"
  wk_by_id :: "(byte list \<times> 64 word) list"
  wk_order :: "64 word list"
  wk_token :: "64 word"

datatype worker_message = DisplayMessage desktop_notice bool | CloseMessage "byte list" | ClearMessage | DoneMessage "64 word" | ShutdownMessage

datatype worker_effect = SpawnTask "64 word" desktop_notice | UpdateTask "64 word" desktop_notice | CloseTask "64 word"

definition worker_new :: notice_worker where
  "worker_new = \<lparr>wk_live = [], wk_by_id = [], wk_order = [], wk_token = 0\<rparr>"

definition remove_task :: "64 word \<Rightarrow> bool \<Rightarrow> notice_worker \<Rightarrow> notice_worker \<times> worker_effect list" where
  "remove_task token close w =
     (case map_of (wk_live w) token of None \<Rightarrow> (w, [])
      | Some i \<Rightarrow>
          (w\<lparr>wk_live := AList.delete token (wk_live w),
             wk_by_id := (case i of Some i \<Rightarrow> AList.delete i (wk_by_id w) | None \<Rightarrow> wk_by_id w)\<rparr>,
           if close then [CloseTask token] else []))"

text \<open>Tasks are closed, the oldest first, until there is room for one more.\<close>

fun make_room :: "64 word list \<Rightarrow> notice_worker \<Rightarrow> notice_worker \<times> worker_effect list" where
  "make_room [] w = (w\<lparr>wk_order := []\<rparr>, [])"
| "make_room (token # order) w =
     (if MAX_PENDING \<le> length (wk_live w)
      then let (w, es) = remove_task token True w; (w, es') = make_room order w in (w, es @ es')
      else (w\<lparr>wk_order := token # order\<rparr>, []))"

definition show_task :: "desktop_notice \<Rightarrow> notice_worker \<Rightarrow> notice_worker \<times> worker_effect list" where
  "show_task n w =
     (let (w, es) = make_room (wk_order w) w; token = wk_token w + 1
      in (w\<lparr>wk_token := token,
            wk_by_id := (case dn_id n of Some i \<Rightarrow> AList.update i token (wk_by_id w) | None \<Rightarrow> wk_by_id w),
            wk_live := AList.update token (dn_id n) (wk_live w), wk_order := wk_order w @ [token]\<rparr>,
          es @ [SpawnTask token n]))"

definition worker_step :: "worker_message \<Rightarrow> notice_worker \<Rightarrow> notice_worker \<times> worker_effect list" where
  "worker_step m w =
     (case m of
        DisplayMessage n accepted \<Rightarrow>
          (case Option.bind (dn_id n) (map_of (wk_by_id w)) of
             Some token \<Rightarrow> if map_of (wk_live w) token \<noteq> None \<and> accepted then (w, [UpdateTask token n]) else show_task n w
           | None \<Rightarrow> show_task n w)
      | CloseMessage i \<Rightarrow>
          (case map_of (wk_by_id w) i of None \<Rightarrow> (w, [])
           | Some token \<Rightarrow> remove_task token True (w\<lparr>wk_by_id := AList.delete i (wk_by_id w)\<rparr>))
      | ClearMessage \<Rightarrow>
          (w\<lparr>wk_live := [], wk_by_id := [], wk_order := []\<rparr>, map (\<lambda>(token, _). CloseTask token) (wk_live w))
      | DoneMessage token \<Rightarrow>
          (let (w, es) = remove_task token False w in (w\<lparr>wk_order := filter (\<lambda>t. t \<noteq> token) (wk_order w)\<rparr>, es))
      | ShutdownMessage \<Rightarrow> (w\<lparr>wk_live := []\<rparr>, map (\<lambda>(token, _). CloseTask token) (wk_live w)))"

fun worker_run :: "worker_message list \<Rightarrow> notice_worker \<Rightarrow> notice_worker \<times> worker_effect list" where
  "worker_run [] w = (w, [])"
| "worker_run (m # ms) w =
     (let (w, es) = worker_step m w
      in if m = ShutdownMessage then (w, es) else let (w, es') = worker_run ms w in (w, es @ es'))"

section \<open>The worker's tables\<close>

definition worker_ok :: "notice_worker \<Rightarrow> bool" where
  "worker_ok w \<longleftrightarrow> distinct (map fst (wk_live w)) \<and> distinct (map fst (wk_by_id w)) \<and>
     (\<forall>token. token \<notin> set (wk_order w) \<longrightarrow> map_of (wk_live w) token = None) \<and> length (wk_live w) \<le> MAX_PENDING"

lemma alist_lengths:
  "length (AList.delete k xs) \<le> length xs" "length (AList.update k v xs) \<le> Suc (length xs)"
proof -
  show "length (AList.delete k xs) \<le> length xs" by (simp add: AList.delete_eq)
  show "length (AList.update k v xs) \<le> Suc (length xs)" by (induction xs) auto
qed

lemma remove_task_ok:
  assumes "remove_task token close w = (w', es)"
  shows "distinct (map fst (wk_live w)) \<Longrightarrow> distinct (map fst (wk_live w'))"
    "distinct (map fst (wk_by_id w)) \<Longrightarrow> distinct (map fst (wk_by_id w'))"
    "map_of (wk_live w') = (map_of (wk_live w))(token := None)" "length (wk_live w') \<le> length (wk_live w)"
    "wk_order w' = wk_order w" "wk_token w' = wk_token w"
  using assms alist_lengths(1) [of token "wk_live w"]
  by (auto simp: remove_task_def distinct_delete delete_conv' fun_upd_idem split: option.splits)

lemma make_room_ok:
  "make_room order w = (w', es) \<Longrightarrow> worker_ok (w\<lparr>wk_order := order\<rparr>) \<Longrightarrow>
    worker_ok w' \<and> length (wk_live w') < MAX_PENDING"
proof (induction order w arbitrary: w' es rule: make_room.induct)
  case (1 w)
  then have "wk_live w = []" by (cases "wk_live w") (auto simp: worker_ok_def split: if_splits)
  then show ?case using 1 by (auto simp: worker_ok_def MAX_PENDING_def)
next
  case (2 token order w)
  show ?case
  proof (cases "MAX_PENDING \<le> length (wk_live w)")
    case True
    obtain w1 es1 where w1: "remove_task token True w = (w1, es1)" by fastforce
    note r = remove_task_ok [OF w1]
    have "worker_ok (w1\<lparr>wk_order := order\<rparr>)" using 2(3) r by (auto simp: worker_ok_def)
    then show ?thesis using 2(1) [OF True w1 [symmetric]] 2(2) True w1 by (auto split: prod.splits)
  next
    case False
    then show ?thesis using 2(2,3) by auto
  qed
qed

lemma show_task_ok:
  assumes "show_task n w = (w', es)" "worker_ok w"
  shows "worker_ok w'"
proof -
  obtain w1 es1 where w1: "make_room (wk_order w) w = (w1, es1)" by fastforce
  have "worker_ok w1" "length (wk_live w1) < MAX_PENDING" using make_room_ok [OF w1] assms(2) by simp_all
  then show ?thesis
    using assms(1) alist_lengths(2) [of "wk_token w1 + 1" "dn_id n" "wk_live w1"] w1
    by (auto simp: show_task_def worker_ok_def distinct_update update_conv' Let_def split: option.splits if_splits)
qed

lemma worker_step_ok:
  assumes "worker_step m w = (w', es)" "worker_ok w"
  shows "worker_ok w'"
proof (cases m)
  case (DisplayMessage n accepted)
  then show ?thesis using assms show_task_ok [of n w w' es] by (auto simp: worker_step_def split: option.splits if_splits)
next
  case (CloseMessage i)
  show ?thesis
  proof (cases "map_of (wk_by_id w) i")
    case None
    then show ?thesis using assms CloseMessage by (simp add: worker_step_def)
  next
    case (Some token)
    let ?w = "w\<lparr>wk_by_id := AList.delete i (wk_by_id w)\<rparr>"
    have "remove_task token True ?w = (w', es)" using assms(1) CloseMessage Some by (simp add: worker_step_def)
    note r = remove_task_ok [OF this]
    show ?thesis using r assms(2) by (auto simp: worker_ok_def distinct_delete)
  qed
next
  case ClearMessage
  then show ?thesis using assms by (auto simp: worker_step_def worker_ok_def)
next
  case ShutdownMessage
  then show ?thesis using assms by (auto simp: worker_step_def worker_ok_def)
next
  case (DoneMessage token)
  obtain w1 es1 where w1: "remove_task token False w = (w1, es1)" by fastforce
  show ?thesis using remove_task_ok [OF w1] assms DoneMessage w1 by (auto simp: worker_step_def worker_ok_def)
qed

lemma worker_run_ok: "worker_ok w \<Longrightarrow> worker_ok (fst (worker_run ms w))"
proof (induction ms arbitrary: w)
  case (Cons m ms)
  obtain w1 es where w1: "worker_step m w = (w1, es)" by fastforce
  from Cons.IH [OF worker_step_ok [OF w1 Cons.prems]] worker_step_ok [OF w1 Cons.prems]
  show ?case by (simp add: w1 Let_def split_beta)
qed simp

section \<open>What the controller keeps\<close>

definition assembly_ok :: "assembly \<Rightarrow> bool" where
  "assembly_ok a \<longleftrightarrow> length (as_title a) + length (as_body a) \<le> MAX_ASSEMBLED_BYTES \<and>
     is_escape_safe (as_title a) \<and> is_escape_safe (as_body a)"

definition controller_ok :: "'n controller \<Rightarrow> bool" where
  "controller_ok c \<longleftrightarrow> distinct (map fst (ctl_pending c)) \<and> length (ctl_pending c) \<le> MAX_PENDING \<and>
     (\<forall>(i, a) \<in> set (ctl_pending c). assembly_ok a)"

definition notice_safe :: "bool \<Rightarrow> desktop_notice \<Rightarrow> bool" where
  "notice_safe can_focus d \<longleftrightarrow> dn_title d \<noteq> [] \<and> length (dn_title d) + length (dn_body d) \<le> MAX_ASSEMBLED_BYTES \<and>
     is_escape_safe (dn_title d) \<and> is_escape_safe (dn_body d) \<and> (dn_focus d \<longrightarrow> can_focus)"

definition effects_safe :: "bool \<Rightarrow> notice_effect list \<Rightarrow> bool" where
  "effects_safe can_focus es \<longleftrightarrow> (\<forall>d. ShowNotice d \<in> set es \<longrightarrow> notice_safe can_focus d)"

text \<open>A map with an entry replaced, with the keys there were or one more.\<close>

definition one_entry :: "byte list \<Rightarrow> (byte list \<times> assembly) list \<Rightarrow> bool" where
  "one_entry i p \<longleftrightarrow> distinct (map fst p) \<and> length (AList.delete i p) < MAX_PENDING \<and> (\<forall>(j, a) \<in> set p. assembly_ok a)"

lemma escape_safe_append: "is_escape_safe a \<Longrightarrow> is_escape_safe b \<Longrightarrow> is_escape_safe (a @ b)"
proof -
  assume "is_escape_safe a" "is_escape_safe b"
  then obtain as bs where "list_all is_scalar as" "text_of as = a" "\<not> list_ex is_control as"
    "list_all is_scalar bs" "text_of bs = b" "\<not> list_ex is_control bs" by (auto simp: is_escape_safe_iff from_utf8_iff)
  then have "from_utf8 (a @ b) = Some (as @ bs)" "\<not> list_ex is_control (as @ bs)"
    by (simp_all add: from_utf8_iff) (simp_all add: text_of_def)
  then show "is_escape_safe (a @ b)" by (simp add: is_escape_safe_def)
qed

lemma escape_safe_Nil [simp]: "is_escape_safe []"
  by (simp add: is_escape_safe_def from_utf8_def)

lemma assembly_append_ok:
  "assembly_append payload a = Some a' \<Longrightarrow> assembly_ok a \<Longrightarrow> payload_safe payload \<Longrightarrow> assembly_ok a'"
  by (auto simp: assembly_append_def assembly_ok_def payload_safe_def safe_text_def escape_safe_append
      split: osc_payload.splits if_splits)

lemma apply_notice_options_ok [simp]: "assembly_ok (apply_notice_options now k a) = assembly_ok a"
  by (simp add: apply_notice_options_def assembly_ok_def)

lemma assembly_default_ok [simp]: "assembly_ok assembly_default"
  by (simp add: assembly_default_def assembly_ok_def)

lemma assembly_display_safe: "assembly_display i a = Some d \<Longrightarrow> assembly_ok a \<Longrightarrow> notice_safe can (d\<lparr>dn_focus := dn_focus d \<and> can\<rparr>)"
  by (auto simp: assembly_display_def assembly_ok_def notice_safe_def Let_def split: if_splits)

lemma alist_delete_set: "set (AList.delete i p) \<subseteq> set p" "map_of p i = None \<Longrightarrow> AList.delete i p = p"
  by (auto simp: AList.delete_eq map_of_eq_None_iff rev_image_eqI intro!: filter_True)

lemma alist_update_set: "e \<in> set (AList.update k v xs) \<Longrightarrow> e = (k, v) \<or> e \<in> set xs"
  by (induction xs) (auto split: if_splits)

lemma delete_shorter: "map_of p i \<noteq> None \<Longrightarrow> length (AList.delete i p) < length p"
  by (auto simp: AList.delete_eq intro!: length_filter_less dest!: map_of_SomeD)

lemma update_length: "distinct (map fst p) \<Longrightarrow> length (AList.update i a p) \<le> Suc (length (AList.delete i p))"
proof (induction p)
  case (Cons e p)
  then show ?case using alist_delete_set(2) [of p i] by (cases e) (auto simp: map_of_eq_None_iff)
qed simp

lemma submit_notice_ok:
  assumes "submit_notice E now a i w c = (c', es)" "controller_ok c" "assembly_ok a"
  shows "controller_ok c' \<and> effects_safe (ctl_can_focus c) es \<and> ctl_can_focus c' = ctl_can_focus c \<and> ctl_enabled c' = ctl_enabled c"
  using assms
  by (auto simp: submit_notice_def controller_ok_def effects_safe_def Let_def intro!: assembly_display_safe
      split: if_splits prod.splits option.splits)

lemma fold_min_in: "fold (\<lambda>x m. if f x < f m then x else m) es e \<in> set (e # es)"
proof (induction es arbitrary: e)
  case (Cons x es)
  from Cons.IH [of x] Cons.IH [of e] show ?case by auto
qed simp

lemma evict_pending_ok:
  assumes E: "\<And>p. set (hash_order E p) = set p" and p: "distinct (map fst p)" "length p \<le> MAX_PENDING" "\<forall>(j, a) \<in> set p. assembly_ok a"
  shows "one_entry i (evict_pending E i p)" "map_of (evict_pending E i p) i = map_of p i"
proof -
  have old: "map_of p old \<noteq> None" if o: "oldest_pending E p = Some old" for old
  proof -
    obtain e es where e: "hash_order E p = e # es" "old = fst (fold (\<lambda>x m. if update_key x < update_key m then x else m) es e)"
      using o by (auto simp: oldest_pending_def split: list.splits)
    have "set p = set (e # es)" using E [of p] e(1) by simp
    then have "old \<in> fst ` set p" using fold_min_in [of update_key es e] unfolding e(2) by blast
    then show ?thesis by (simp add: map_of_eq_None_iff)
  qed
  have some: "oldest_pending E p \<noteq> None" if "p \<noteq> []"
    using E [of p] that by (cases "hash_order E p") (auto simp: oldest_pending_def)
  show "one_entry i (evict_pending E i p)"
  proof (cases "map_of p i = None \<and> MAX_PENDING \<le> length p")
    case True
    then have "p \<noteq> []" by (auto simp: MAX_PENDING_def)
    then obtain o' where o': "oldest_pending E p = Some o'" using some by blast
    have "length (AList.delete i (AList.delete o' p)) < MAX_PENDING"
      using delete_shorter [OF old [OF o']] p(2) alist_lengths(1) [of i "AList.delete o' p"] by linarith
    then show ?thesis using True o' p alist_delete_set(1) [of o' p] by (auto simp: evict_pending_def one_entry_def distinct_delete)
  next
    case False
    have "length (AList.delete i p) < MAX_PENDING"
      using False p(2) delete_shorter [of p i] alist_delete_set(2) [of p i] by (cases "map_of p i = None") auto
    then show ?thesis using False p by (auto simp: evict_pending_def one_entry_def)
  qed
  show "map_of (evict_pending E i p) i = map_of p i"
    using old by (auto simp: evict_pending_def delete_conv' split: option.splits)
qed

lemma handle_kitty_ok:
  assumes E: "\<And>p. set (hash_order E p) = set p" and h: "handle_kitty E now k w c = (c', es)"
    and c: "controller_ok c" and k: "notification_safe (KittyNotice k)"
  shows "controller_ok c' \<and> effects_safe (ctl_can_focus c) es \<and> ctl_can_focus c' = ctl_can_focus c \<and> ctl_enabled c' = ctl_enabled c"
proof -
  have pay: "payload_safe (kn_payload k)" using k by (simp add: notification_safe_def)
  have p: "distinct (map fst (ctl_pending c))" "length (ctl_pending c) \<le> MAX_PENDING" "\<forall>(j, a) \<in> set (ctl_pending c). assembly_ok a"
    using c by (simp_all add: controller_ok_def)
  have none: ?thesis if "c' = c" "effects_safe (ctl_can_focus c) es" using that c by simp
  have deleted: "controller_ok (c\<lparr>ctl_pending := AList.delete i p'\<rparr>)" if "one_entry i p'" for i p'
    using that alist_delete_set(1) [of i p'] by (auto simp: one_entry_def controller_ok_def distinct_delete)
  have shown: ?thesis if x: "kn_payload k = TitleText t \<or> kn_payload k = BodyText t" for t
  proof (cases "kn_id k")
    case None
    let ?a = "apply_notice_options (at_options now) k assembly_default"
    show ?thesis
    proof (cases "assembly_append (kn_payload k) ?a")
      case None
      then show ?thesis using h x \<open>kn_id k = None\<close> c by (auto simp: handle_kitty_def effects_safe_def split: if_splits)
    next
      case (Some a)
      have "assembly_ok a" by (rule assembly_append_ok [OF Some _ pay]) simp
      then show ?thesis using h x \<open>kn_id k = None\<close> c Some submit_notice_ok [of E "at_limit now" a None w c c' es]
        by (auto simp: handle_kitty_def effects_safe_def split: if_splits)
    qed
  next
    case i: (Some i)
    let ?p = "evict_pending E i (ctl_pending c)"
    let ?a = "apply_notice_options (at_options now) k (case_option assembly_default id (map_of ?p i))"
    note one = evict_pending_ok(1) [OF E p, of i]
    have a: "assembly_ok ?a" using one by (auto simp: one_entry_def split: option.split dest!: map_of_SomeD)
    show ?thesis
    proof (cases "assembly_append (kn_payload k) ?a")
      case None
      then have "(c', es) = (c\<lparr>ctl_pending := AList.delete i ?p\<rparr>, [])" using h x i by (auto simp: handle_kitty_def Let_def)
      then show ?thesis using deleted [OF one] by (simp add: effects_safe_def)
    next
      case (Some a')
      have a': "assembly_ok a'" by (rule assembly_append_ok [OF Some a pay])
      show ?thesis
      proof (cases "kn_done k")
        case True
        then have "submit_notice E (at_limit now) a' (Some i) w (c\<lparr>ctl_pending := AList.delete i ?p\<rparr>) = (c', es)"
          using h x i Some by (auto simp: handle_kitty_def Let_def)
        from submit_notice_ok [OF this deleted [OF one] a'] show ?thesis by simp
      next
        case False
        then have "(c', es) = (c\<lparr>ctl_pending := AList.update i a' ?p\<rparr>, [])" using h x i Some by (auto simp: handle_kitty_def Let_def)
        moreover have "length (AList.update i a' ?p) \<le> MAX_PENDING" "distinct (map fst (AList.update i a' ?p))"
          using one update_length [of ?p i a'] by (auto simp: one_entry_def distinct_update)
        moreover have "\<forall>(j, b) \<in> set (AList.update i a' ?p). assembly_ok b"
          using one a' by (auto simp: one_entry_def dest!: alist_update_set)
        ultimately show ?thesis by (simp add: controller_ok_def effects_safe_def)
      qed
    qed
  qed
  show ?thesis
  proof (cases "kn_payload k")
    case CloseNotice
    have "controller_ok (c\<lparr>ctl_pending := AList.delete i (ctl_pending c)\<rparr>)" for i
      using p alist_delete_set(1) [of i "ctl_pending c"] alist_lengths(1) [of i "ctl_pending c"]
      by (auto simp: controller_ok_def distinct_delete)
    then show ?thesis using h CloseNotice none by (auto simp: handle_kitty_def effects_safe_def split: option.splits)
  next
    case (TitleText t)
    then show ?thesis by (intro shown) simp
  next
    case (BodyText t)
    then show ?thesis by (intro shown) simp
  next
    case QueryNotice
    then show ?thesis using h by (intro none) (auto simp: handle_kitty_def effects_safe_def)
  next
    case UnsupportedPayload
    then show ?thesis using h by (intro none) (auto simp: handle_kitty_def effects_safe_def)
  qed
qed

lemma handle_notice_ok:
  assumes E: "\<And>p. set (hash_order E p) = set p" and h: "handle_notice E now n w c = (c', es)"
    and c: "controller_ok c" and n: "notification_safe n"
  shows "controller_ok c' \<and> effects_safe (ctl_can_focus c) es \<and> ctl_can_focus c' = ctl_can_focus c \<and> ctl_enabled c' = ctl_enabled c"
proof (cases "ctl_enabled c")
  case False
  then show ?thesis using h c by (auto simp: handle_notice_def effects_safe_def)
next
  case True
  let ?c = "expire_pending (at_expiry now) c"
  have ok: "controller_ok ?c"
    using c by (auto simp: controller_ok_def expire_pending_def distinct_map_filter intro: le_trans [OF length_filter_le])
  have same: "ctl_can_focus ?c = ctl_can_focus c" "ctl_enabled ?c = ctl_enabled c" by (simp_all add: expire_pending_def)
  show ?thesis
  proof (cases n)
    case (LegacyNotice t)
    have "assembly_ok (assembly_default\<lparr>as_title := t\<rparr>)"
      using n LegacyNotice by (auto simp: notification_safe_def safe_text_def assembly_ok_def assembly_default_def
          MAX_ASSEMBLED_BYTES_def MAX_PLAIN_PAYLOAD_BYTES_def)
    then show ?thesis using h True LegacyNotice ok same
        submit_notice_ok [of E "at_limit now" "assembly_default\<lparr>as_title := t\<rparr>" None w ?c c' es]
      by (simp add: handle_notice_def)
  next
    case (KittyNotice k)
    then show ?thesis using h True ok same n handle_kitty_ok [OF E, of now k w ?c c' es] by (simp add: handle_notice_def)
  qed
qed

section \<open>A notification in pieces\<close>

definition notice_piece :: "byte list \<Rightarrow> bool \<Rightarrow> osc_payload \<Rightarrow> kitty_notice" where
  "notice_piece i finished p = \<lparr>kn_id = Some i, kn_payload = p, kn_done = finished, kn_focus = None, kn_occasion = None,
     kn_urgency = None, kn_expiry = None, kn_sound = None\<rparr>"

fun handle_pieces ::
  "'n notice_env \<Rightarrow> notice_window \<Rightarrow> (notice_clock \<times> kitty_notice) list \<Rightarrow> 'n controller \<Rightarrow> 'n controller \<times> notice_effect list" where
  "handle_pieces N w [] c = (c, [])"
| "handle_pieces N w ((now, k) # ks) c =
     (let (c, es) = handle_notice N now (KittyNotice k) w c; (c, es') = handle_pieces N w ks c in (c, es @ es'))"

definition title_part :: "osc_payload \<Rightarrow> byte list" where
  "title_part p = (case p of TitleText t \<Rightarrow> t | _ \<Rightarrow> [])"

definition body_part :: "osc_payload \<Rightarrow> byte list" where
  "body_part p = (case p of BodyText t \<Rightarrow> t | _ \<Rightarrow> [])"

definition text_payload :: "osc_payload \<Rightarrow> bool" where
  "text_payload p \<longleftrightarrow> (\<exists>t. p = TitleText t \<or> p = BodyText t)"

text \<open>No piece waits for the next one for the time after which it is dropped.\<close>

fun in_time :: "nat \<Rightarrow> notice_clock list \<Rightarrow> bool" where
  "in_time u [] \<longleftrightarrow> True"
| "in_time u (now # ns) \<longleftrightarrow> at_expiry now - u < ASSEMBLY_TIMEOUT \<and> in_time (at_options now) ns"

definition add_piece :: "nat \<Rightarrow> osc_payload \<Rightarrow> assembly \<Rightarrow> assembly" where
  "add_piece now p a = a\<lparr>as_title := as_title a @ title_part p, as_body := as_body a @ body_part p, as_updated := Some now\<rparr>"

text \<open>What the controller holds of the notification.\<close>

definition holds_piece :: "byte list \<Rightarrow> nat \<Rightarrow> assembly \<Rightarrow> 'n controller \<Rightarrow> bool" where
  "holds_piece i u a c \<longleftrightarrow>
     (case map_of (ctl_pending c) i of None \<Rightarrow> a = assembly_default | Some a' \<Rightarrow> a' = a \<and> as_updated a = Some u)"

lemma map_of_filter_keep: "map_of p i = Some a \<Longrightarrow> P (i, a) \<Longrightarrow> map_of (filter P p) i = Some a"
  by (induction p) auto

lemma map_of_filter_None: "map_of p i = None \<Longrightarrow> map_of (filter P p) i = None"
  by (induction p) auto

lemma append_piece:
  assumes "text_payload p" "length (as_title a) + length (as_body a) + length (title_part p) + length (body_part p) \<le> MAX_ASSEMBLED_BYTES"
  shows "assembly_append p (apply_notice_options now (notice_piece i b p) a) = Some (add_piece now p a)"
  using assms by (auto simp: text_payload_def assembly_append_def apply_notice_options_def notice_piece_def add_piece_def
      title_part_def body_part_def)

lemma handle_piece:
  assumes E: "\<And>p. set (hash_order N p) = set p" and c: "controller_ok c" "ctl_enabled c" "holds_piece i u a c"
    and now: "at_expiry now - u < ASSEMBLY_TIMEOUT" and p: "text_payload p"
    and room: "length (as_title a) + length (as_body a) + length (title_part p) + length (body_part p) \<le> MAX_ASSEMBLED_BYTES"
  obtains q where "handle_notice N now (KittyNotice (notice_piece i b p)) w c =
    (let c = c\<lparr>ctl_pending := if b then AList.delete i q else AList.update i (add_piece (at_options now) p a) q\<rparr>
     in if b then submit_notice N (at_limit now) (add_piece (at_options now) p a) (Some i) w c else (c, []))"
proof -
  let ?c = "expire_pending (at_expiry now) c"
  let ?q = "evict_pending N i (ctl_pending ?c)"
  have ok: "distinct (map fst (ctl_pending ?c))" "length (ctl_pending ?c) \<le> MAX_PENDING" "\<forall>(j, a) \<in> set (ctl_pending ?c). assembly_ok a"
    using c(1) by (auto simp: controller_ok_def expire_pending_def distinct_map_filter intro: le_trans [OF length_filter_le])
  have "map_of (ctl_pending ?c) i = map_of (ctl_pending c) i"
    using c(3) now by (auto simp: holds_piece_def expire_pending_def map_of_filter_None split: option.splits
        intro!: map_of_filter_keep)
  then have "case_option assembly_default id (map_of ?q i) = a"
    using evict_pending_ok(2) [OF E ok] c(3) by (auto simp: holds_piece_def split: option.splits)
  then have "handle_kitty N now (notice_piece i b p) w ?c =
      (let c = ?c\<lparr>ctl_pending := if b then AList.delete i ?q else AList.update i (add_piece (at_options now) p a) ?q\<rparr>
       in if b then submit_notice N (at_limit now) (add_piece (at_options now) p a) (Some i) w c else (c, []))"
    using append_piece [OF p room, of "at_options now" i b] p
    by (auto simp: handle_kitty_def notice_piece_def text_payload_def Let_def)
  moreover have "?c\<lparr>ctl_pending := x\<rparr> = c\<lparr>ctl_pending := x\<rparr>" for x by (simp add: expire_pending_def)
  ultimately show thesis using c(2) by (intro that [of ?q]) (simp add: handle_notice_def Let_def)
qed

lemma submit_pending: "snd (submit_notice N now a i w (c\<lparr>ctl_pending := p\<rparr>)) = snd (submit_notice N now a i w c)"
  by (cases "limiter_take N now (ctl_limiter c)"; cases "assembly_display i a") (simp_all add: submit_notice_def Let_def)

lemma pieces_submitted:
  assumes E: "\<And>p. set (hash_order N p) = set p"
  shows "controller_ok c \<Longrightarrow> ctl_enabled c \<Longrightarrow> holds_piece i u a c \<Longrightarrow> in_time u (map fst ps @ [now]) \<Longrightarrow>
    \<forall>x \<in> set (map snd ps @ [p]). text_payload x \<and> payload_safe x \<Longrightarrow>
    identifier_safe i \<Longrightarrow>
    length (as_title a) + length (as_body a) + (\<Sum>x \<leftarrow> map snd ps @ [p]. length (title_part x) + length (body_part x)) \<le> MAX_ASSEMBLED_BYTES \<Longrightarrow>
    snd (handle_pieces N w (map (\<lambda>(now, x). (now, notice_piece i False x)) ps @ [(now, notice_piece i True p)]) c) =
    snd (submit_notice N (at_limit now) (a\<lparr>as_title := as_title a @ concat (map title_part (map snd ps @ [p])),
      as_body := as_body a @ concat (map body_part (map snd ps @ [p])), as_updated := Some (at_options now)\<rparr>) (Some i) w c)"
proof (induction ps arbitrary: c u a)
  case Nil
  have "at_expiry now - u < ASSEMBLY_TIMEOUT" "text_payload p"
    "length (as_title a) + length (as_body a) + length (title_part p) + length (body_part p) \<le> MAX_ASSEMBLED_BYTES"
    using Nil.prems by simp_all
  from handle_piece [OF E Nil.prems(1-3) this, of True w] obtain q where
    "handle_notice N now (KittyNotice (notice_piece i True p)) w c =
      submit_notice N (at_limit now) (add_piece (at_options now) p a) (Some i) w (c\<lparr>ctl_pending := AList.delete i q\<rparr>)"
    by (auto simp: Let_def)
  then show ?case by (simp add: submit_pending split_beta Let_def add_piece_def)
next
  case (Cons y ps)
  obtain n1 x where y: "y = (n1, x)" by fastforce
  have first: "at_expiry n1 - u < ASSEMBLY_TIMEOUT" "text_payload x"
    "length (as_title a) + length (as_body a) + length (title_part x) + length (body_part x) \<le> MAX_ASSEMBLED_BYTES"
    using Cons.prems y by simp_all
  let ?a = "add_piece (at_options n1) x a"
  obtain q where q: "handle_notice N n1 (KittyNotice (notice_piece i False x)) w c = (c\<lparr>ctl_pending := AList.update i ?a q\<rparr>, [])"
    using handle_piece [OF E Cons.prems(1-3) first, of False w] by (auto simp: Let_def)
  let ?c = "c\<lparr>ctl_pending := AList.update i ?a q\<rparr>"
  have "notification_safe (KittyNotice (notice_piece i False x))"
    using Cons.prems(5,6) y by (simp add: notification_safe_def notice_piece_def)
  from handle_notice_ok [OF E q Cons.prems(1) this] have ok: "controller_ok ?c" by blast
  have "holds_piece i (at_options n1) ?a ?c" by (simp add: holds_piece_def update_conv' add_piece_def)
  moreover have "in_time (at_options n1) (map fst ps @ [now])" using Cons.prems(4) y by simp
  ultimately have "snd (handle_pieces N w (map (\<lambda>(now, x). (now, notice_piece i False x)) ps @ [(now, notice_piece i True p)]) ?c) =
    snd (submit_notice N (at_limit now) (?a\<lparr>as_title := as_title ?a @ concat (map title_part (map snd ps @ [p])),
      as_body := as_body ?a @ concat (map body_part (map snd ps @ [p])), as_updated := Some (at_options now)\<rparr>) (Some i) w ?c)"
    using Cons.prems y by (intro Cons.IH [OF ok]) (simp_all add: add_piece_def)
  then show ?case by (simp add: y q submit_pending case_prod_unfold Let_def add_piece_def)
qed

section \<open>From the output of the shell to the backend\<close>

text \<open>
  The scanner hands notifications to the window, which handles them one at a time (\<open>event_loop.rs\<close>,
  \<open>window_context.rs\<close>); the configuration may be reloaded and long commands finish in between.
\<close>

type_synonym 'n notices = "capture_state \<times> osc_notification list \<times> 'n controller"

datatype notice_event = ReadOutput "byte list" | DeliverNotice notice_clock notice_window | ReloadNotices bool
  | LongCommand nat "int option" nat

definition notifications_of :: "osc_message list \<Rightarrow> osc_notification list" where
  "notifications_of ms = concat (map (\<lambda>m. case m of NotificationMessage n \<Rightarrow> [n] | _ \<Rightarrow> []) ms)"

definition notice_step ::
  "'v osc_crates \<Rightarrow> 'n notice_env \<Rightarrow> notice_event \<Rightarrow> 'n notices \<Rightarrow> ('n notices \<times> notice_effect list) option" where
  "notice_step E N ev s =
     (case s of (capture, queue, c) \<Rightarrow>
       case ev of
         ReadOutput bytes \<Rightarrow> do {
           (capture, ms) \<leftarrow> osc_advance E capture bytes;
           Some ((capture, queue @ notifications_of ms, c), []) }
       | DeliverNotice now w \<Rightarrow>
           (case queue of [] \<Rightarrow> Some (s, [])
            | n # queue \<Rightarrow> let (c, es) = handle_notice N now n w c in Some ((capture, queue, c), es))
       | ReloadNotices b \<Rightarrow> let (c, es) = set_enabled b c in Some ((capture, queue, c), es)
       | LongCommand now code ns \<Rightarrow>
           let (title, text) = command_finished_text code ns; (c, es) = notify_local N now title text c
           in Some ((capture, queue, c), es))"

text \<open>The types of an exit code and of a duration.\<close>

definition notice_event_ok :: "notice_event \<Rightarrow> bool" where
  "notice_event_ok ev = (case ev of
     LongCommand now code ns \<Rightarrow> pred_option (\<lambda>c. - (2 ^ 31) \<le> c \<and> c < 2 ^ 31) code \<and> ns < 2 ^ 64 * 10 ^ 9 | _ \<Rightarrow> True)"

inductive notice_reach :: "'v osc_crates \<Rightarrow> 'n notice_env \<Rightarrow> bool \<Rightarrow> 'n notices \<Rightarrow> bool"
  for E N can_focus where
    "notice_reach E N can_focus (CaptureGround, [], controller_new N enabled can_focus now)"
  | "notice_reach E N can_focus s \<Longrightarrow> notice_event_ok ev \<Longrightarrow> notice_step E N ev s = Some (s', es) \<Longrightarrow> notice_reach E N can_focus s'"

lemma ascii_sel: "length (ascii u) = length u" "ascii u = [] \<longleftrightarrow> u = []"
  by (simp_all add: ascii_def)

lemma dec_length: "n < 10 ^ Suc k \<Longrightarrow> length (dec n) \<le> Suc k"
proof (induction k arbitrary: n)
  case 0
  then show ?case by (simp add: dec.simps [of n])
next
  case (Suc k)
  have "n div 10 < 10 ^ Suc k" using Suc.prems by (simp add: div_less_iff_less_mult mult.commute)
  from Suc.IH [OF this] show ?case by (simp add: dec.simps [of n])
qed

definition plain_text :: "byte list \<Rightarrow> bool" where
  "plain_text v \<longleftrightarrow> list_all (\<lambda>b. 0x20 \<le> b \<and> b < 0x7F) v"

lemma plain_text_append [simp]: "plain_text (a @ b) \<longleftrightarrow> plain_text a \<and> plain_text b"
  by (simp add: plain_text_def)

lemma plain_dec [simp]: "plain_text (dec n)"
  using dec_digits by (auto simp: plain_text_def list_all_iff is_digit_def word_le_nat_alt word_less_nat_alt) fastforce+

lemma duration_text:
  assumes "ns < 2 ^ 64 * 10 ^ 9"
  shows "plain_text (format_command_duration ns) \<and> length (format_command_duration ns) \<le> 100"
proof -
  have len: "length (dec n) \<le> 40" if "n \<le> ns" for n
    using dec_length [of n 39] that assms by simp
  have units: "plain_text (ascii ''ms'')" "plain_text (ascii ''s'')" "plain_text (ascii ''m'')" "plain_text (ascii ''m '')"
    "plain_text (ascii ''h'')" "plain_text (ascii ''h '')" by code_simp+
  define q s m where "q = ns div 10 ^ 6" and "s = ns div 10 ^ 9" and "m = s div 60"
  have "q \<le> ns" "s \<le> ns" by (simp_all add: q_def s_def)
  moreover have "m \<le> s" "m div 60 \<le> m" "s mod 60 \<le> s" "m mod 60 \<le> m" by (simp_all add: m_def)
  ultimately have "length (dec q) \<le> 40" "length (dec s) \<le> 40" "length (dec m) \<le> 40" "length (dec (m div 60)) \<le> 40"
    "length (dec (s mod 60)) \<le> 40" "length (dec (m mod 60)) \<le> 40"
    by (intro len; linarith)+
  then show ?thesis
    unfolding format_command_duration_def Let_def q_def [symmetric] s_def [symmetric] m_def [symmetric]
    using units by (simp add: ascii_sel)
qed

lemma command_finished_safe:
  assumes "notice_event_ok (LongCommand now code ns)" "command_finished_text code ns = (title, text)"
  shows "title \<noteq> [] \<and> length title + length text \<le> MAX_ASSEMBLED_BYTES \<and> is_escape_safe title \<and> is_escape_safe text"
proof -
  have words: "plain_text (ascii ''Command Finished'')" "plain_text (ascii ''Command Succeeded'')" "plain_text (ascii ''Command Failed'')"
    "plain_text (ascii ''Command took '')" "plain_text (ascii ''.'')" "plain_text (ascii '' and exited with code '')"
    "plain_text (ascii ''-'')" by code_simp+
  have run: "plain_text (format_command_duration ns)" "length (format_command_duration ns) \<le> 100"
    using duration_text [of ns] assms(1) by (simp_all add: notice_event_ok_def)
  have int: "plain_text (dec_int c)" "length (dec_int c) \<le> 41" if "code = Some c" for c
  proof -
    have "nat c < 10 ^ Suc 39" "nat (- c) < 10 ^ Suc 39" using assms(1) that by (auto simp: notice_event_ok_def)
    from this [THEN dec_length] show "plain_text (dec_int c)" "length (dec_int c) \<le> 41"
      using words by (auto simp: dec_int_def ascii_sel)
  qed
  have "plain_text title" "plain_text text" "title \<noteq> []" "length title \<le> 20" "length text \<le> 200"
    using assms(2) words run int by (auto simp: command_finished_text_def Let_def ascii_sel split: option.splits if_split_asm)
  then show ?thesis using plain_escape_safe by (simp add: plain_text_def MAX_ASSEMBLED_BYTES_def)
qed

section \<open>What notifications promise\<close>

definition notices_ok :: "bool \<Rightarrow> 'n notices \<Rightarrow> bool" where
  "notices_ok can_focus s = (case s of (capture, queue, c) \<Rightarrow>
     capture_small capture \<and> list_all notification_safe queue \<and> controller_ok c \<and> ctl_can_focus c = can_focus)"

lemma osc_report_safe:
  assumes "m \<in> set (osc_report E obs)"
  shows "message_safe m"
proof (cases obs)
  case NoObservation
  then show ?thesis using assms by (simp add: osc_report_def)
next
  case (Complete r)
  show ?thesis
  proof (cases r)
    case None
    then show ?thesis using assms Complete by (simp add: osc_report_def)
  next
    case (Some raw)
    then have "parse_osc E raw = Some m"
      using assms Complete by (cases "parse_osc E raw"; cases "is_top_level_notification E raw") (simp_all add: osc_report_def)
    then show ?thesis by (rule parse_osc_message_safe)
  qed
qed

lemma osc_bytes_safe: "m \<in> set (snd (osc_bytes E s bs)) \<Longrightarrow> message_safe m"
proof (induction bs arbitrary: s)
  case (Cons b bs)
  then show ?case using osc_report_safe by (auto simp: Let_def split_beta)
qed simp

lemma notifications_safe: "\<forall>m \<in> set ms. message_safe m \<Longrightarrow> list_all notification_safe (notifications_of ms)"
  by (induction ms) (auto simp: notifications_of_def message_safe_def split: osc_message.splits)

lemma notice_step_ok:
  assumes E: "search_ok E" "\<And>p. set (hash_order N p) = set p" and s: "notices_ok can_focus s" "notice_event_ok ev"
  shows "returns (notice_step E N ev s) (\<lambda>(s', es). notices_ok can_focus s' \<and> effects_safe can_focus es)"
proof -
  obtain capture queue c where s': "s = (capture, queue, c)" by (cases s)
  have ok: "capture_small capture" "list_all notification_safe queue" "controller_ok c" "ctl_can_focus c = can_focus"
    using s by (simp_all add: s' notices_ok_def)
  have nothing: "effects_safe can_focus []" by (simp add: effects_safe_def)
  show ?thesis
  proof (cases ev)
    case (ReadOutput bytes)
    obtain capture' ms where b: "osc_bytes E capture bytes = (capture', ms)" by fastforce
    have "capture_small capture'" using osc_bytes_small [OF ok(1), of E bytes] b by simp
    moreover have "\<forall>m \<in> set ms. message_safe m" using osc_bytes_safe [of _ E capture bytes] b by simp
    ultimately show ?thesis
      using ok nothing ReadOutput notifications_safe [of ms]
      by (simp add: notice_step_def s' osc_advance_bytes [OF E(1)] b notices_ok_def effects_safe_def)
  next
    case (DeliverNotice now w)
    show ?thesis
    proof (cases queue)
      case Nil
      then show ?thesis using ok DeliverNotice by (simp add: notice_step_def s' notices_ok_def effects_safe_def)
    next
      case (Cons n q)
      obtain c' es where h: "handle_notice N now n w c = (c', es)" by fastforce
      have "notification_safe n" using ok(2) Cons by simp
      from handle_notice_ok [OF E(2) h ok(3) this] show ?thesis
        using ok Cons DeliverNotice h by (simp add: notice_step_def s' notices_ok_def)
    qed
  next
    case (ReloadNotices b)
    then show ?thesis using ok nothing
      by (auto simp: notice_step_def s' notices_ok_def set_enabled_def controller_ok_def effects_safe_def)
  next
    case (LongCommand now code ns)
    obtain title msg where t: "command_finished_text code ns = (title, msg)" by fastforce
    have "title \<noteq> [] \<and> length title + length msg \<le> MAX_ASSEMBLED_BYTES \<and> is_escape_safe title \<and> is_escape_safe msg"
      using command_finished_safe [OF _ t] s(2) LongCommand by simp
    then show ?thesis
      using ok LongCommand t by (auto simp: notice_step_def s' notices_ok_def notify_local_def controller_ok_def effects_safe_def
          notice_safe_def Let_def split: prod.split)
  qed
qed

lemma notice_reach_ok:
  assumes "search_ok E" "\<And>p. set (hash_order N p) = set p" "notice_reach E N can_focus s"
  shows "notices_ok can_focus s"
  using assms(3)
proof induction
  case (1 enabled now)
  show ?case by (simp add: notices_ok_def controller_new_def controller_ok_def capture_small_def)
next
  case (2 s ev s' es)
  then show ?case using notice_step_ok [OF assms(1,2) 2(4,2)] by simp
qed

text \<open>
  C15. Whatever a program prints, every notification shown has a title, text of at most 16 KiB
  in all that is valid UTF-8 without control characters, and takes the focus only when the
  window can; the notifications in assembly are at most 64 and within that size, nothing
  panics, and while notifications are disabled none but the terminal's own are shown.
\<close>

theorem notices_safe:
  assumes "search_ok E" "\<And>p. set (hash_order N p) = set p"
    and "notice_reach E N can_focus (capture, queue, c)" "notice_event_ok ev"
  shows "length (ctl_pending c) \<le> MAX_PENDING \<and>
    (\<forall>(i, a) \<in> set (ctl_pending c). length (as_title a) + length (as_body a) \<le> MAX_ASSEMBLED_BYTES) \<and>
    (\<exists>s' es. notice_step E N ev (capture, queue, c) = Some (s', es) \<and>
      (\<forall>d. ShowNotice d \<in> set es \<longrightarrow> notice_safe can_focus d \<and>
        (ctl_enabled c \<or> (\<exists>now code ns. ev = LongCommand now code ns))))"
proof -
  have ok: "notices_ok can_focus (capture, queue, c)" by (rule notice_reach_ok [OF assms(1,2,3)])
  obtain s' es where step: "notice_step E N ev (capture, queue, c) = Some (s', es)" "effects_safe can_focus es"
    using notice_step_ok [OF assms(1,2) ok assms(4)] by (auto simp: returns_iff)
  have "ctl_enabled c \<or> (\<exists>now code ns. ev = LongCommand now code ns)" if "ShowNotice d \<in> set es" for d
    using step(1) that by (auto simp: notice_step_def handle_notice_def set_enabled_def bind_eq_Some_conv Let_def
        split: notice_event.splits list.splits if_splits prod.splits)
  then have "\<forall>d. ShowNotice d \<in> set es \<longrightarrow> notice_safe can_focus d \<and> (ctl_enabled c \<or> (\<exists>now code ns. ev = LongCommand now code ns))"
    using step(2) by (simp add: effects_safe_def)
  moreover have "controller_ok c" using ok by (simp add: notices_ok_def)
  ultimately show ?thesis using step(1) unfolding controller_ok_def assembly_ok_def by blast
qed

definition sample_notices :: "nat notice_env" where
  "sample_notices = \<lparr>as_secs_f64 = (\<lambda>ns. ns div 10 ^ 9), f_add = (+), f_mul = (*), f_sub = (-), f_min = min, f_less = (<),
     f_of_nat = id, backend = \<lparr>update_close = True, can_urgency = True, can_expire = True, can_sound = True\<rparr>, hash_order = id\<rparr>"

lemma sample_hash_order: "set (hash_order sample_notices p) = set p"
  by (simp add: sample_notices_def)

theorem notices_safe_witness:
  "notice_reach sample_osc sample_notices True (CaptureGround, [], controller_new sample_notices True True 0) \<and>
    (\<exists>s' es. notice_step sample_osc sample_notices (LongCommand 0 (Some 1) 7000000000)
      (CaptureGround, [], controller_new sample_notices True True 0) = Some (s', es))"
proof
  show r: "notice_reach sample_osc sample_notices True (CaptureGround, [], controller_new sample_notices True True 0)"
    by (rule notice_reach.intros)
  have "notice_event_ok (LongCommand 0 (Some 1) 7000000000)" by (simp add: notice_event_ok_def)
  from notices_safe [OF sample_search_ok sample_hash_order r this]
  show "\<exists>s' es. notice_step sample_osc sample_notices (LongCommand 0 (Some 1) 7000000000)
      (CaptureGround, [], controller_new sample_notices True True 0) = Some (s', es)" by blast
qed



theorem worker_bounded:
  "length (wk_live (fst (worker_run ms worker_new))) \<le> MAX_PENDING \<and>
    distinct (map fst (wk_live (fst (worker_run ms worker_new)))) \<and>
    fst ` set (wk_live (fst (worker_run ms worker_new))) \<subseteq> set (wk_order (fst (worker_run ms worker_new)))"
proof -
  have "worker_ok (fst (worker_run ms worker_new))"
    by (rule worker_run_ok) (simp add: worker_ok_def worker_new_def)
  then show ?thesis by (auto simp: worker_ok_def map_of_eq_None_iff)
qed


end
