(* ===== verification/Spec2Isabelle.thy ===== *)
theory Spec2Isabelle
  imports Grid Dcs Reports Scheduler Damage Images Load Kitty Select Terminal Runs Notices
begin

text \<open>
  A verification library for the terminal emulator of \<open>vivido\<close>: the state a shell's output acts
  on, from packed cells to the graphics protocol, with the theorems that make it correct. All paths
  are under \<open>src/src/\<close>.

  \<^bold>\<open>Conventions.\<close> A Rust operation that can panic returns an option, \<open>None\<close> being the panic; an
  \<open>Option\<close> or \<open>Result\<close> of the source is an option or a sum inside it. The predicate \<open>returns\<close> is total
  correctness: it says that an operation does not panic, that its loops end, and what its result
  satisfies. \<open>i32\<close> lines are integers and \<open>usize\<close> counts are natural numbers, with every
  subtraction below zero and every index out of bounds a panic; packed representations are words of
  their width. A loop that is not structural is a \<open>partial_function (option)\<close>, so a theorem that it
  returns is also a proof of its termination; no fuel is used anywhere.

  \<^bold>\<open>Theories.\<close>
  \<^item> \<open>Prelude\<close>: total correctness, slices, checked subtraction, loops over lists.
  \<^item> \<open>Index\<close> (\<open>terminal/index.rs\<close>): points and boundaries; moving by n columns is moving by n cells in
    reading order, clamping stays inside.
  \<^item> \<open>Extra\<close> (\<open>term/extra.rs\<close>), \<open>Style\<close> (\<open>term/style.rs\<close>), \<open>Cell\<close> and \<open>Fill\<close> (\<open>term/cell.rs\<close>): the data of
    a cell. The 64-bit cell refines the record of its fields; interned styles read back; compaction
    keeps what is in use; the bulk writers equal writers that go character by character.
  \<^item> \<open>Row\<close> (\<open>grid/row.rs\<close>), \<open>Storage\<close> (\<open>grid/storage.rs\<close>), \<open>Grid\<close> (\<open>grid/mod.rs\<close>): rows with their occupied
    prefix, the ring buffer they are kept in, and the screen with its history. The locales
    \<open>grid_cell\<close> and \<open>line_store\<close> state what a grid needs of its cells and of its storage; they are
    interpreted on both cell types and on the ring buffer. Scrolling, clearing and iterating are
    described on the list of lines.
  \<^item> \<open>Text\<close>, \<open>Dcs\<close>, \<open>Reports\<close>, \<open>Damage\<close> (parts of \<open>term/mod.rs\<close>): byte strings; the scanner of device
    control strings and its equivalence to a machine that reads single bytes; the answers to
    queries; the damage the renderer is told of.
  \<^item> \<open>Command\<close>, \<open>Images\<close>, \<open>Load\<close>, \<open>Kitty\<close> (\<open>terminal/graphics/\<close>): the graphics protocol. A parsed command
    (\<open>Command\<close>) starts a transmission (\<open>Load\<close>), whose result is stored and placed (\<open>Images\<close>); \<open>Kitty\<close>
    composes them with the queue of replies. Its state machine is the inductive \<open>kitty_reach\<close>:
    no reachable state panics, and no reply is lost or overtakes another.
  \<^item> \<open>Select\<close> (\<open>terminal/selection.rs\<close>): selections, how they follow scrolling lines, which cells they
    stand for.
  \<^item> \<open>Screen\<close>, \<open>Term\<close>, \<open>Print\<close>, \<open>Motion\<close>, \<open>Erase\<close>, \<open>Sweep\<close>, \<open>Modes\<close>, \<open>Terminal\<close> (\<open>term/mod.rs\<close>): the terminal
    itself. \<open>Screen\<close> lifts the grid's lemmas to screens whose cells use interned styles; \<open>Term\<close> has the
    state, the invariant \<open>term_ok\<close>, scrolling and wrapping; \<open>Print\<close> single characters and the writers of
    runs; \<open>Motion\<close> the cursor, tab stops and the scrolling region; \<open>Erase\<close> inserting, deleting and
    clearing; \<open>Sweep\<close> the attributes of new output and the sweep of the style table; \<open>Modes\<close> modes, the
    alternate screen, titles, colours, the clipboard and queries; \<open>Terminal\<close> the dispatch of the
    parser's calls, input through the scanner of control strings, graphics commands, resets, options
    and damage. Every operation keeps \<open>term_ok\<close>, so no state of the inductive \<open>term_reach\<close> panics.
    \<open>Runs\<close> shows that the writer of ASCII runs does what printing the characters one by one does.
  \<^item> \<open>Utf\<close>, \<open>Osc\<close>, \<open>Notices\<close> (\<open>osc_notification.rs\<close>): what the terminal learns from operating system
    commands. \<open>Utf\<close> has the checks of UTF-8 and the numbers of the standard library; \<open>Osc\<close> the scanner,
    equivalent to one that keeps every body whole, and the parsers of notifications, directories,
    progress and shell markers; \<open>Notices\<close> the controller that assembles and limits notifications, with the
    inductive \<open>notice_reach\<close> from the scanner to the backend, and the tables of the worker that shows them.
  \<^item> \<open>Scheduler\<close> (\<open>scheduler.rs\<close>): the queue of timers.

  \<^bold>\<open>Parameters.\<close> Code of other crates is an argument: the display width of characters
  (\<open>unicode_width\<close>), byte searches (\<open>memchr\<close>, locale \<open>byte_search\<close>), base64 (locale \<open>base64_crate\<close>), the
  decoders of compressed data and of PNG, and arithmetic of \<open>f32\<close>. What is assumed of them is in the
  locales or in the hypotheses of the theorems; reference instances show that it can hold. For the
  terminal they are fields of the record \<open>env\<close>, with \<open>env_ok\<close> for what is assumed: the crates above,
  character sets that map characters to characters, and the widths of printable ASCII and of CJK
  ideographs. The parser of escape sequences (\<open>vvte\<close>) is the function \<open>parse\<close> from its state and bytes
  to the calls it makes; \<open>parser_ok\<close> says what the types of the arguments of these calls grant. For
  notifications they are the records \<open>osc_crates\<close> (\<open>vvte\<close>, \<open>percent_encoding\<close>, \<open>base64\<close>, \<open>memchr\<close>) and
  \<open>notice_env\<close> (arithmetic of \<open>f64\<close>, the iteration order of a \<open>HashMap\<close>, the backend's capabilities).

  \<^bold>\<open>Not modelled.\<close> Resizing and reflow of the grid (\<open>grid/resize.rs\<close>), so the size of a terminal is
  fixed in \<open>term_reach\<close>; the text of a screen or a selection; the branches for Windows; search by regular expressions,
  whose automata are a crate's; the placeholder characters of the graphics protocol; everything that
  talks to the operating system, the window system or the GPU (\<open>event_loop.rs\<close>, \<open>event.rs\<close>, \<open>display/\<close>,
  \<open>vivid/\<close>, \<open>window_context.rs\<close>, \<open>polling/\<close>, \<open>tty/\<close>), the configuration and the command line, whose parsers are
  derived by crates, and the platform shells.
\<close>

end
